(* ===== verification/Kernel_Base.thy ===== *)
theory Kernel_Base
  imports Main "HOL-Library.Word"
begin

text \<open>
  The prelude of the development: the C types and the constants of \<^verbatim>\<open>param.h\<close>, the outcome of a
  kernel routine (a return, a panic, or a switch to the scheduler), the combinators in which the
  routines are written, the spin locks held by the running CPU, and the list lemmas that the
  components share.

  A kernel routine is a function from the state to an outcome.  A critical section under a spin lock
  is one transition of the model: \<open>acquire\<close> and \<open>release\<close> keep the locks that the CPU holds, with the
  panics of \<^verbatim>\<open>spinlock.c\<close> for a lock acquired twice or released without being held.  The theory
  Spinlock models \<^verbatim>\<open>spinlock.c\<close> itself, with several CPUs, and proves that it implements them.
\<close>

unbundle bit_operations_syntax

section \<open>C types and constants\<close>

type_synonym uint = "32 word"
type_synonym ushort = "16 word"
type_synonym uchar = "8 word"

definition NPROC :: nat where "NPROC = 64"
definition KSTACKSIZE :: uint where "KSTACKSIZE = 4096"
definition NCPU :: nat where "NCPU = 8"
definition NOFILE :: nat where "NOFILE = 16"
definition NFILE :: nat where "NFILE = 100"
definition NINODE :: nat where "NINODE = 50"
definition NDEV :: nat where "NDEV = 10"
definition ROOTDEV :: uint where "ROOTDEV = 1"
definition MAXARG :: nat where "MAXARG = 32"
definition MAXOPBLOCKS :: nat where "MAXOPBLOCKS = 10"
definition LOGSIZE :: nat where "LOGSIZE = MAXOPBLOCKS * 3"
definition NBUF :: nat where "NBUF = MAXOPBLOCKS * 3"
definition FSSIZE :: nat where "FSSIZE = 1000"
definition DEFAULT_PRIORITY :: int where "DEFAULT_PRIORITY = 16"
definition MIN_PRIORITY :: int where "MIN_PRIORITY = 0"
definition MAX_PRIORITY :: int where "MAX_PRIORITY = 31"

lemmas param_defs =
  NPROC_def KSTACKSIZE_def NCPU_def NOFILE_def NFILE_def NINODE_def NDEV_def ROOTDEV_def
  MAXARG_def MAXOPBLOCKS_def LOGSIZE_def NBUF_def FSSIZE_def DEFAULT_PRIORITY_def
  MIN_PRIORITY_def MAX_PRIORITY_def

section \<open>Locks, channels and outcomes\<close>

text \<open>The spin locks of the kernel.  A sleep lock has a spin lock of its own inside.\<close>

datatype lockid =
    PtableLock | TicksLock | KmemLock | ConsLock | IdeLock | BcacheLock | LogLock | IcacheLock
  | FtableLock | PipeLock uint | BufLk nat | InodeLk nat

text \<open>
  The channels processes sleep on.  The code uses addresses; the constructors are the distinct
  objects whose addresses it uses (\<^verbatim>\<open>&ticks\<close>, \<^verbatim>\<open>&log\<close>, \<^verbatim>\<open>&input.r\<close>, the two counters of a pipe,
  a process, a buffer waiting for the disk, a sleep lock).
\<close>

datatype chan =
    ChTicks | ChLog | ChInput | ChNread uint | ChNwrite uint | ChProc nat | ChDisk nat
  | ChBufLock nat | ChInodeLock nat

text \<open>
  What a routine does: it returns a value, it panics, it gives up the CPU (the call of \<^verbatim>\<open>swtch\<close> in
  \<^verbatim>\<open>sched\<close>) in the state it leaves behind, or it does what C leaves undefined (an access outside of an
  object).  What a routine does when it is given the CPU again is a routine of its own.
\<close>

datatype ('a, 's) outcome = Ok 'a 's | Panic string | Swtch 's | Undef

type_synonym ('a, 's) M = "'s \<Rightarrow> ('a, 's) outcome"

definition kret :: "'a \<Rightarrow> ('a, 's) M" where
  "kret x = (\<lambda>s. Ok x s)"

definition kbind :: "('a, 's) M \<Rightarrow> ('a \<Rightarrow> ('b, 's) M) \<Rightarrow> ('b, 's) M" where
  "kbind m f = (\<lambda>s. case m s of
     Ok x t \<Rightarrow> f x t | Panic e \<Rightarrow> Panic e | Swtch t \<Rightarrow> Swtch t | Undef \<Rightarrow> Undef)"

definition kseq :: "(unit, 's) M \<Rightarrow> ('b, 's) M \<Rightarrow> ('b, 's) M" where
  "kseq m n = kbind m (\<lambda>_. n)"

definition kget :: "('s \<Rightarrow> 'a) \<Rightarrow> ('a, 's) M" where
  "kget f = (\<lambda>s. Ok (f s) s)"

definition kmod :: "('s \<Rightarrow> 's) \<Rightarrow> (unit, 's) M" where
  "kmod f = (\<lambda>s. Ok () (f s))"

definition kpanic :: "string \<Rightarrow> ('a, 's) M" where
  "kpanic e = (\<lambda>s. Panic e)"

definition kswtch :: "('a, 's) M" where
  "kswtch = (\<lambda>s. Swtch s)"

definition kundef :: "('a, 's) M" where
  "kundef = (\<lambda>s. Undef)"

definition kopt :: "'a option \<Rightarrow> ('a, 's) M" where
  "kopt x = (case x of None \<Rightarrow> kundef | Some y \<Rightarrow> kret y)"

definition kwhen :: "bool \<Rightarrow> (unit, 's) M \<Rightarrow> (unit, 's) M" where
  "kwhen b m = (if b then m else kret ())"

primrec kfor :: "'i list \<Rightarrow> ('i \<Rightarrow> (unit, 's) M) \<Rightarrow> (unit, 's) M" where
  "kfor [] f = kret ()"
| "kfor (i # is) f = kseq (f i) (kfor is f)"

section \<open>The locks held by the running CPU\<close>

record kbase =
  held :: "lockid list"

definition acquire :: "lockid \<Rightarrow> (unit, 'z kbase_scheme) M" where
  "acquire lk = (\<lambda>s.
     if lk \<in> set (held s) then Panic ''acquire'' else Ok () (s\<lparr>held := lk # held s\<rparr>))"

definition release :: "lockid \<Rightarrow> (unit, 'z kbase_scheme) M" where
  "release lk = (\<lambda>s.
     if lk \<notin> set (held s) then Panic ''release'' else Ok () (s\<lparr>held := remove1 lk (held s)\<rparr>))"

section \<open>Arrays of bytes\<close>

text \<open>Overwriting the bytes of an array from an offset on, as \<^verbatim>\<open>memmove(a + off, ys, n)\<close> does.\<close>

definition splice :: "'a list \<Rightarrow> nat \<Rightarrow> 'a list \<Rightarrow> 'a list" where
  "splice xs off ys = take off xs @ ys @ drop (off + length ys) xs"

definition slice :: "'a list \<Rightarrow> nat \<Rightarrow> nat \<Rightarrow> 'a list" where
  "slice xs off n = take n (drop off xs)"

section \<open>Rules for the combinators\<close>

named_theorems krun \<open>unfolding of the combinators on a given state\<close>

lemma kret_run [krun]: "kret x s = Ok x s"
  by (simp add: kret_def)

lemma kbind_run [krun]:
  "kbind m f s = (case m s of
     Ok x t \<Rightarrow> f x t | Panic e \<Rightarrow> Panic e | Swtch t \<Rightarrow> Swtch t | Undef \<Rightarrow> Undef)"
  by (simp add: kbind_def)

lemma kseq_run [krun]:
  "kseq m n s = (case m s of
     Ok x t \<Rightarrow> n t | Panic e \<Rightarrow> Panic e | Swtch t \<Rightarrow> Swtch t | Undef \<Rightarrow> Undef)"
  by (simp add: kseq_def kbind_def)

lemma kget_run [krun]: "kget f s = Ok (f s) s"
  by (simp add: kget_def)

lemma kmod_run [krun]: "kmod f s = Ok () (f s)"
  by (simp add: kmod_def)

lemma kpanic_run [krun]: "kpanic e s = Panic e"
  by (simp add: kpanic_def)

lemma kswtch_run [krun]: "kswtch s = Swtch s"
  by (simp add: kswtch_def)

lemma kundef_run [krun]: "kundef s = Undef"
  by (simp add: kundef_def)

lemma kopt_run [krun]: "kopt x s = (case x of None \<Rightarrow> Undef | Some y \<Rightarrow> Ok y s)"
  by (simp add: kopt_def kundef_def kret_def split: option.split)

lemma kwhen_run [krun]: "kwhen b m s = (if b then m s else Ok () s)"
  by (simp add: kwhen_def kret_def)

lemma acquire_free [simp]: "lk \<notin> set (held s) \<Longrightarrow> acquire lk s = Ok () (s\<lparr>held := lk # held s\<rparr>)"
  by (simp add: acquire_def)

lemma acquire_held [simp]: "lk \<in> set (held s) \<Longrightarrow> acquire lk s = Panic ''acquire''"
  by (simp add: acquire_def)

lemma release_held [simp]:
  "lk \<in> set (held s) \<Longrightarrow> release lk s = Ok () (s\<lparr>held := remove1 lk (held s)\<rparr>)"
  by (simp add: release_def)

lemma release_free [simp]: "lk \<notin> set (held s) \<Longrightarrow> release lk s = Panic ''release''"
  by (simp add: release_def)

text \<open>
  Invariants and postconditions.  \<open>ksafe m Q s\<close>: from \<open>s\<close>, \<open>m\<close> does nothing undefined, and unless it
  panics it leaves a state that satisfies \<open>Q\<close>, also where it gives up the CPU.  \<open>kok m Q s\<close>: \<open>m\<close> returns from \<open>s\<close>, with a value
  and a state that satisfy \<open>Q\<close>.
\<close>

definition ksafe :: "('a, 's) M \<Rightarrow> ('s \<Rightarrow> bool) \<Rightarrow> 's \<Rightarrow> bool" where
  "ksafe m Q s = (case m s of Ok x t \<Rightarrow> Q t | Panic e \<Rightarrow> True | Swtch t \<Rightarrow> Q t | Undef \<Rightarrow> False)"

definition kok :: "('a, 's) M \<Rightarrow> ('a \<Rightarrow> 's \<Rightarrow> bool) \<Rightarrow> 's \<Rightarrow> bool" where
  "kok m Q s = (case m s of Ok x t \<Rightarrow> Q x t | _ \<Rightarrow> False)"

named_theorems kwp \<open>postconditions of the combinators\<close>

lemma kok_ret [kwp]: "kok (kret x) Q s = Q x s"
  by (simp add: kok_def krun)

lemma kok_bind [kwp]: "kok (kbind m f) Q s = kok m (\<lambda>x. kok (f x) Q) s"
  by (simp add: kok_def krun split: outcome.split)

lemma kok_seq [kwp]: "kok (kseq m n) Q s = kok m (\<lambda>_. kok n Q) s"
  by (simp add: kok_def krun split: outcome.split)

lemma kok_get [kwp]: "kok (kget f) Q s = Q (f s) s"
  by (simp add: kok_def krun)

lemma kok_mod [kwp]: "kok (kmod f) Q s = Q () (f s)"
  by (simp add: kok_def krun)

lemma kok_panic [kwp]: "kok (kpanic e) Q s = False"
  by (simp add: kok_def krun)

lemma kok_swtch [kwp]: "kok kswtch Q s = False"
  by (simp add: kok_def krun)

lemma kok_undef [kwp]: "kok kundef Q s = False"
  by (simp add: kok_def krun)

lemma kok_opt [kwp]: "kok (kopt x) Q s = (\<exists>y. x = Some y \<and> Q y s)"
  by (simp add: kok_def krun split: option.split)

lemma kok_when [kwp]: "kok (kwhen b m) Q s = (if b then kok m Q s else Q () s)"
  by (simp add: kok_def krun)

lemma kok_mono: "kok m Q s \<Longrightarrow> (\<And>x t. Q x t \<Longrightarrow> R x t) \<Longrightarrow> kok m R s"
  by (auto simp: kok_def split: outcome.splits)

lemma kok_OkD: "kok m Q s \<Longrightarrow> m s = Ok x t \<Longrightarrow> Q x t"
  by (simp add: kok_def)

lemma kok_Ok: "kok m Q s \<Longrightarrow> \<exists>x t. m s = Ok x t \<and> Q x t"
  by (auto simp: kok_def split: outcome.splits)

lemma ksafe_ret: "ksafe (kret x) Q s = Q s"
  by (simp add: ksafe_def krun)

lemma ksafe_panic: "ksafe (kpanic e) Q s"
  by (simp add: ksafe_def krun)

lemma ksafe_swtch: "ksafe kswtch Q s = Q s"
  by (simp add: ksafe_def krun)

lemma ksafe_get: "ksafe (kget f) Q s = Q s"
  by (simp add: ksafe_def krun)

lemma ksafe_mod: "ksafe (kmod f) Q s = Q (f s)"
  by (simp add: ksafe_def krun)

lemma ksafe_bind:
  assumes "ksafe m I s" and "\<And>x t. I t \<Longrightarrow> ksafe (f x) I t"
  shows "ksafe (kbind m f) I s"
  using assms(1) assms(2) by (cases "m s") (simp_all add: ksafe_def krun)

lemma ksafe_seq:
  assumes "ksafe m I s" and "\<And>t. I t \<Longrightarrow> ksafe n I t"
  shows "ksafe (kseq m n) I s"
  using assms(1) assms(2) by (cases "m s") (simp_all add: ksafe_def krun)

lemma ksafe_opt: "x \<noteq> None \<Longrightarrow> ksafe (kopt x) Q s = Q s"
  by (auto simp: ksafe_def krun)

lemma ksafe_when: "(b \<Longrightarrow> ksafe m I s) \<Longrightarrow> I s \<Longrightarrow> ksafe (kwhen b m) I s"
  by (simp add: ksafe_def krun)

lemma ksafe_for:
  assumes "\<And>i t. i \<in> set is \<Longrightarrow> I t \<Longrightarrow> ksafe (f i) I t" and "I s"
  shows "ksafe (kfor is f) I s"
  using assms
proof (induction "is" arbitrary: s)
  case Nil
  then show ?case by (simp add: ksafe_ret)
next
  case (Cons i "is")
  have "ksafe (f i) I s" using Cons.prems by simp
  moreover have "\<And>t. I t \<Longrightarrow> ksafe (kfor is f) I t" using Cons by simp
  ultimately show ?case by (simp add: ksafe_seq)
qed

lemma kfor_append: "kfor (xs @ ys) f s = kseq (kfor xs f) (kfor ys f) s"
  by (induction xs arbitrary: s) (simp_all add: krun split: outcome.split)

lemma kfor_snoc: "kfor xs f s = Ok () t \<Longrightarrow> f x t = Ok () u \<Longrightarrow> kfor (xs @ [x]) f s = Ok () u"
  by (simp add: kfor_append krun)

lemma kok_for_upto:
  assumes "\<And>k t. k < n \<Longrightarrow> I k t \<Longrightarrow> kok (f k) (\<lambda>_ u. I (Suc k) u) t" and "I 0 s"
  shows "kok (kfor [0..<n] f) (\<lambda>_ t. I n t) s"
  using assms
proof (induction n)
  case 0
  then show ?case by (simp add: kwp)
next
  case (Suc n)
  have "kok (kfor [0..<n] f) (\<lambda>_ t. I n t) s" using Suc by simp
  then have "kok (kseq (kfor [0..<n] f) (kfor [n] f)) (\<lambda>_ t. I (Suc n) t) s"
    unfolding kok_seq kfor.simps
    by (rule kok_mono) (rule kok_mono [OF Suc.prems(1) [of n]], simp_all add: kwp)
  then show ?case by (simp add: kok_def kfor_append)
qed

lemma kseq_assoc: "kseq (kseq a b) c = kseq a (kseq b c)"
  by (rule ext) (simp add: krun split: outcome.split)

lemma kok_seqI: "kok m (\<lambda>_. P) s \<Longrightarrow> (\<And>t. P t \<Longrightarrow> kok m' Q t) \<Longrightarrow> kok (kseq m m') Q s"
  unfolding kok_seq by (rule kok_mono)

section \<open>Options, searches and words\<close>

lemma option_eqI: "(\<And>j. x = Some j \<longleftrightarrow> y = Some j) \<Longrightarrow> x = y"
  by (metis not_None_eq)

lemma find_SomeD: "find P xs = Some i \<Longrightarrow> i \<in> set xs \<and> P i"
  by (induction xs) (auto split: if_splits)

lemma find_unique:
  assumes "i \<in> set xs" and "P i" and u: "\<And>j. j \<in> set xs \<Longrightarrow> P j \<Longrightarrow> j = i"
  shows "find P xs = Some i"
proof (cases "find P xs")
  case None
  then show ?thesis using assms(1,2) by (simp add: find_None_iff)
next
  case (Some j)
  then have "j = i" using find_SomeD [OF Some] u by blast
  then show ?thesis using Some by simp
qed

lemma find_skip: "\<forall>x \<in> set xs. \<not> P x \<Longrightarrow> find P (xs @ ys) = find P ys"
  by (induction xs) auto

lemma unat_of_nat32: "n < 2 ^ 32 \<Longrightarrow> unat (of_nat n :: uint) = n"
  by (simp add: unsigned_of_nat take_bit_nat_eq_self)

lemma sint_of_nat: "n < 2 ^ 31 \<Longrightarrow> sint (of_nat n :: uint) = int n"
  by (simp add: signed_of_nat signed_take_bit_int_eq_self)

section \<open>Frames\<close>

text \<open>
  What a routine may change: a relation between the states before and after it.  A routine in a frame
  does not give up the CPU.
\<close>

definition kframe :: "('s \<Rightarrow> 's \<Rightarrow> bool) \<Rightarrow> ('a, 's) M \<Rightarrow> bool" where
  "kframe R m \<longleftrightarrow> (\<forall>s t. m s \<noteq> Swtch t) \<and> (\<forall>s x t. m s = Ok x t \<longrightarrow> R s t)"

lemma kframeD: "kframe R m \<Longrightarrow> m s = Ok x t \<Longrightarrow> R s t"
  by (simp add: kframe_def)

lemma kframe_no_swtch: "kframe R m \<Longrightarrow> m s \<noteq> Swtch t"
  by (simp add: kframe_def)

lemma kframe_mono: "kframe R m \<Longrightarrow> (\<And>s t. R s t \<Longrightarrow> R' s t) \<Longrightarrow> kframe R' m"
  by (simp add: kframe_def)

lemma kframe_panic: "kframe R (kpanic e)"
  by (simp add: kframe_def krun)

lemma kframe_undef: "kframe R kundef"
  by (simp add: kframe_def krun)

lemma kframe_mod: "(\<And>s. R s (f s)) \<Longrightarrow> kframe R (kmod f)"
  by (simp add: kframe_def krun)

locale state_frame =
  fixes R :: "'s \<Rightarrow> 's \<Rightarrow> bool"
  assumes frame_refl: "R s s" and frame_trans: "R s t \<Longrightarrow> R t u \<Longrightarrow> R s u"
begin

lemma frame_ret: "kframe R (kret x)"
  by (simp add: kframe_def krun frame_refl)

lemma frame_get: "kframe R (kget f)"
  by (simp add: kframe_def krun frame_refl)

lemma frame_opt: "kframe R (kopt x)"
  by (simp add: kframe_def krun frame_refl split: option.split)

lemma frame_bind:
  assumes m: "kframe R m" and f: "\<And>x. kframe R (f x)"
  shows "kframe R (kbind m f)"
  unfolding kframe_def
proof (intro conjI allI impI)
  fix s t
  show "kbind m f s \<noteq> Swtch t"
    using kframe_no_swtch [OF m] kframe_no_swtch [OF f] by (simp add: krun split: outcome.split)
next
  fix s y u
  assume "kbind m f s = Ok y u"
  then obtain x t where "m s = Ok x t" "f x t = Ok y u" by (auto simp: krun split: outcome.splits)
  then show "R s u" using kframeD [OF m] kframeD [OF f] frame_trans by blast
qed

lemma frame_seq: "kframe R m \<Longrightarrow> kframe R n \<Longrightarrow> kframe R (kseq m n)"
  unfolding kseq_def by (rule frame_bind)

lemma frame_when: "(b \<Longrightarrow> kframe R m) \<Longrightarrow> kframe R (kwhen b m)"
  by (simp add: kwhen_def frame_ret)

lemma frame_if: "(b \<Longrightarrow> kframe R m) \<Longrightarrow> (\<not> b \<Longrightarrow> kframe R n) \<Longrightarrow> kframe R (if b then m else n)"
  by simp

lemma frame_for: "(\<And>i. kframe R (f i)) \<Longrightarrow> kframe R (kfor is f)"
  by (induction "is") (simp_all add: frame_ret frame_seq)

lemmas frame = frame_ret frame_get frame_opt frame_bind frame_seq frame_when frame_if frame_for
  kframe_panic kframe_undef

end

section \<open>Lemmas on arrays\<close>

lemma length_splice [simp]: "off + length ys \<le> length xs \<Longrightarrow> length (splice xs off ys) = length xs"
  by (simp add: splice_def)

lemma length_slice [simp]: "off + n \<le> length xs \<Longrightarrow> length (slice xs off n) = n"
  by (simp add: slice_def)

lemma nth_slice [simp]: "off + n \<le> length xs \<Longrightarrow> i < n \<Longrightarrow> slice xs off n ! i = xs ! (off + i)"
  by (simp add: slice_def)

lemma nth_splice:
  assumes "off + length ys \<le> length xs" and "i < length xs"
  shows "splice xs off ys ! i = (if off \<le> i \<and> i < off + length ys then ys ! (i - off) else xs ! i)"
  using assms by (auto simp: splice_def nth_append min_def)

lemma slice_splice_same [simp]:
  "off + length ys \<le> length xs \<Longrightarrow> n = length ys \<Longrightarrow> slice (splice xs off ys) off n = ys"
  by (simp add: slice_def splice_def)

lemma slice_splice_other:
  assumes "off + length ys \<le> length xs" and "off' + n \<le> length xs"
    and "off' + n \<le> off \<or> off + length ys \<le> off'"
  shows "slice (splice xs off ys) off' n = slice xs off' n"
proof (rule nth_equalityI)
  show "length (slice (splice xs off ys) off' n) = length (slice xs off' n)"
    using assms by simp
next
  fix i
  assume "i < length (slice (splice xs off ys) off' n)"
  then have i: "i < n" using assms by simp
  then have "splice xs off ys ! (off' + i) = xs ! (off' + i)"
    using assms by (auto simp: nth_splice)
  then show "slice (splice xs off ys) off' n ! i = slice xs off' n ! i"
    using assms i by simp
qed

lemma splice_Nil [simp]: "splice xs off [] = xs"
  by (simp add: splice_def)

lemma slice_0_all [simp]: "n = length xs \<Longrightarrow> slice xs 0 n = xs"
  by (simp add: slice_def)

end
