(* ===== verification/Cstring.thy ===== *)
theory Cstring
  imports Kernel_Base
begin

text \<open>
  The memory and string routines of \<^verbatim>\<open>string.c\<close>.  Where overlap of the arguments matters
  (\<^verbatim>\<open>memset\<close>, \<^verbatim>\<open>memmove\<close>) they act on the memory, a function from 32-bit addresses to bytes, with
  pointer arithmetic that wraps around.  The string routines act on the bytes from the pointer to the
  end of the object it points into; reading or writing past the end of an object is \<open>None\<close>.
\<close>

section \<open>Memory\<close>

type_synonym memory = "uint \<Rightarrow> uchar"

definition load32 :: "memory \<Rightarrow> uint \<Rightarrow> uint" where
  "load32 m a = (ucast (m a) :: uint) OR push_bit 8 (ucast (m (a + 1)))
     OR push_bit 16 (ucast (m (a + 2))) OR push_bit 24 (ucast (m (a + 3)))"

definition store32 :: "memory \<Rightarrow> uint \<Rightarrow> uint \<Rightarrow> memory" where
  "store32 m a v = m(a := ucast v, a + 1 := ucast (drop_bit 8 v),
     a + 2 := ucast (drop_bit 16 v), a + 3 := ucast (drop_bit 24 v))"

text \<open>The bytes of an object in memory, and writing them.\<close>

definition load_bytes :: "memory \<Rightarrow> uint \<Rightarrow> nat \<Rightarrow> uchar list" where
  "load_bytes m a n = map (\<lambda>i. m (a + of_nat i)) [0..<n]"

primrec store_bytes :: "memory \<Rightarrow> uint \<Rightarrow> uchar list \<Rightarrow> memory" where
  "store_bytes m a [] = m"
| "store_bytes m a (x # xs) = store_bytes (m(a := x)) (a + 1) xs"

text \<open>\<^verbatim>\<open>rep stosb\<close> and \<^verbatim>\<open>rep stosl\<close>: \<open>cnt\<close> stores of a byte, or of a 32-bit word, from \<open>addr\<close> up.\<close>

primrec stosb :: "memory \<Rightarrow> uint \<Rightarrow> uchar \<Rightarrow> nat \<Rightarrow> memory" where
  "stosb m addr v 0 = m"
| "stosb m addr v (Suc cnt) = stosb (m(addr := v)) (addr + 1) v cnt"

primrec stosl :: "memory \<Rightarrow> uint \<Rightarrow> uint \<Rightarrow> nat \<Rightarrow> memory" where
  "stosl m addr v 0 = m"
| "stosl m addr v (Suc cnt) = stosl (store32 m addr v) (addr + 4) v cnt"

definition memset :: "memory \<Rightarrow> uint \<Rightarrow> uint \<Rightarrow> uint \<Rightarrow> memory" where
  "memset m dst c n =
     (if dst mod 4 = 0 \<and> n mod 4 = 0 then
        (let c = c AND 0xFF
         in stosl m dst (push_bit 24 c OR push_bit 16 c OR push_bit 8 c OR c) (unat (n div 4)))
      else stosb m dst (ucast c) (unat n))"

primrec copy_up :: "memory \<Rightarrow> uint \<Rightarrow> uint \<Rightarrow> nat \<Rightarrow> memory" where
  "copy_up m d s 0 = m"
| "copy_up m d s (Suc n) = copy_up (m(d := m s)) (d + 1) (s + 1) n"

primrec copy_down :: "memory \<Rightarrow> uint \<Rightarrow> uint \<Rightarrow> nat \<Rightarrow> memory" where
  "copy_down m d s 0 = m"
| "copy_down m d s (Suc n) = copy_down (m(d - 1 := m (s - 1))) (d - 1) (s - 1) n"

definition memmove :: "memory \<Rightarrow> uint \<Rightarrow> uint \<Rightarrow> uint \<Rightarrow> memory" where
  "memmove m dst src n =
     (if src < dst \<and> src + n > dst then copy_down m (dst + n) (src + n) (unat n)
      else copy_up m dst src (unat n))"

definition memcpy :: "memory \<Rightarrow> uint \<Rightarrow> uint \<Rightarrow> uint \<Rightarrow> memory" where
  "memcpy m dst src n = memmove m dst src n"

section \<open>Strings\<close>

fun memcmp :: "uchar list \<Rightarrow> uchar list \<Rightarrow> nat \<Rightarrow> int option" where
  "memcmp s1 s2 0 = Some 0"
| "memcmp (a # s1) (b # s2) (Suc n) = (if a \<noteq> b then Some (uint a - uint b) else memcmp s1 s2 n)"
| "memcmp s1 s2 (Suc n) = None"

fun strncmp :: "uchar list \<Rightarrow> uchar list \<Rightarrow> nat \<Rightarrow> int option" where
  "strncmp p q 0 = Some 0"
| "strncmp (a # p) (b # q) (Suc n) =
     (if a \<noteq> 0 \<and> a = b then strncmp p q n else Some (uint a - uint b))"
| "strncmp p q (Suc n) = None"

fun strncpy_pad :: "uchar list \<Rightarrow> nat \<Rightarrow> uchar list option" where
  "strncpy_pad s 0 = Some s"
| "strncpy_pad [] (Suc n) = None"
| "strncpy_pad (x # s) (Suc n) = map_option (Cons 0) (strncpy_pad s n)"

fun strncpy :: "uchar list \<Rightarrow> uchar list \<Rightarrow> nat \<Rightarrow> uchar list option" where
  "strncpy s t 0 = Some s"
| "strncpy (x # s) (c # t) (Suc n) =
     map_option (Cons c) (if c \<noteq> 0 then strncpy s t n else strncpy_pad s n)"
| "strncpy s t (Suc n) = None"

fun safestrcpy_loop :: "uchar list \<Rightarrow> uchar list \<Rightarrow> nat \<Rightarrow> uchar list option" where
  "safestrcpy_loop [] t n = None"
| "safestrcpy_loop (x # s) t 0 = Some (0 # s)"
| "safestrcpy_loop (x # s) [] (Suc n) = None"
| "safestrcpy_loop (x # s) (c # t) (Suc n) =
     map_option (Cons c) (if c \<noteq> 0 then safestrcpy_loop s t n
                          else (case s of [] \<Rightarrow> None | y # s' \<Rightarrow> Some (0 # s')))"

definition safestrcpy :: "uchar list \<Rightarrow> uchar list \<Rightarrow> nat \<Rightarrow> uchar list option" where
  "safestrcpy s t n = (if n = 0 then Some s else safestrcpy_loop s t (n - 1))"

fun strlen :: "uchar list \<Rightarrow> nat option" where
  "strlen [] = None"
| "strlen (c # s) = (if c = 0 then Some 0 else map_option Suc (strlen s))"

text \<open>The string an array holds: its bytes up to the first NUL.\<close>

definition cstr :: "uchar list \<Rightarrow> uchar list" where
  "cstr s = takeWhile (\<lambda>c. c \<noteq> 0) s"

text \<open>The bytes of a string literal, without the NUL.\<close>

definition lit :: "string \<Rightarrow> uchar list" where
  "lit s = map of_char s"

section \<open>Lemmas on memory\<close>

lemma load32_store32_same [simp]: "load32 (store32 m a v) a = v"
proof -
  have ne: "a + 1 \<noteq> a" "a + 2 \<noteq> a" "a + 3 \<noteq> a" "a + 2 \<noteq> a + 1" "a + 3 \<noteq> a + 1" "a + 3 \<noteq> a + 2"
    by simp_all
  have "load32 (store32 m a v) a =
     (ucast (ucast v :: uchar) :: uint) OR push_bit 8 (ucast (ucast (drop_bit 8 v) :: uchar))
       OR push_bit 16 (ucast (ucast (drop_bit 16 v) :: uchar))
       OR push_bit 24 (ucast (ucast (drop_bit 24 v) :: uchar))"
    by (simp add: load32_def store32_def)
  also have "\<dots> = v"
  proof (rule bit_word_eqI)
    fix n
    assume "n < LENGTH(32)"
    then consider "n < 8" | "8 \<le> n \<and> n < 16" | "16 \<le> n \<and> n < 24" | "24 \<le> n \<and> n < 32"
      by fastforce
    then show "bit ((ucast (ucast v :: uchar) :: uint) OR push_bit 8 (ucast (ucast (drop_bit 8 v) :: uchar))
       OR push_bit 16 (ucast (ucast (drop_bit 16 v) :: uchar))
       OR push_bit 24 (ucast (ucast (drop_bit 24 v) :: uchar))) n = bit v n"
      by cases (auto simp: bit_simps)
  qed
  finally show ?thesis .
qed

lemma unat_minus_one: "(y::uint) \<noteq> 0 \<Longrightarrow> unat (y - 1) = unat y - 1"
  by (simp add: unat_sub word_le_nat_alt Suc_leI unat_gt_0)

lemma unat_less_Suc_step:
  "(x::uint) \<noteq> a \<Longrightarrow> unat (x - a) < Suc n \<longleftrightarrow> unat (x - (a + 1)) < n"
  using unat_minus_one [of "x - a"] unat_gt_0 [of "x - a"] by (auto simp: algebra_simps)

lemma unat_less_32: "unat (x::uint) < 4294967296"
  using unsigned_less [of x] by simp

lemma unat_minus_1_uint: "unat (- 1 :: uint) = 4294967295"
  by (simp add: unsigned_minus_1_eq_mask mask_eq_exp_minus_1)

lemma stosb_apply:
  "n < 4294967296 \<Longrightarrow> stosb m a v n x = (if unat (x - a) < n then v else m x)"
proof (induction n arbitrary: m a)
  case 0
  then show ?case by simp
next
  case (Suc n)
  show ?case
  proof (cases "x = a")
    case True
    with Suc show ?thesis by simp
  next
    case False
    with Suc show ?thesis by (simp add: unat_less_Suc_step)
  qed
qed

lemma copy_up_apply:
  assumes "n < 4294967296" and "d = s \<or> n \<le> unat (d - s)"
  shows "copy_up m d s n x = (if unat (x - d) < n then m (s + (x - d)) else m x)"
  using assms
proof (induction n arbitrary: m d s)
  case 0
  then show ?case by simp
next
  case (Suc n)
  have IH: "copy_up (m(d := m s)) (d + 1) (s + 1) n x =
      (if unat (x - (d + 1)) < n then (m(d := m s)) (s + 1 + (x - (d + 1))) else (m(d := m s)) x)"
    using Suc.prems by (intro Suc.IH) auto
  show ?case
  proof (cases "x = d")
    case True
    then have "\<not> unat (x - (d + 1)) < n" using Suc.prems by (simp add: unat_minus_1_uint)
    with True IH show ?thesis by simp
  next
    case False
    have "s + (x - d) \<noteq> d" if "unat (x - d) < Suc n"
    proof
      assume eq: "s + (x - d) = d"
      then have "x - d = d - s" by (simp add: algebra_simps)
      with that Suc.prems False show False by auto
    qed
    moreover have "s + 1 + (x - (d + 1)) = s + (x - d)" by (simp add: algebra_simps)
    ultimately show ?thesis using IH False by (simp add: unat_less_Suc_step)
  qed
qed
lemma copy_down_apply:
  assumes "n < 4294967296" and "d = s \<or> n \<le> unat (s - d)"
  shows "copy_down m d s n x = (if unat (d - 1 - x) < n then m (s - (d - x)) else m x)"
  using assms
proof (induction n arbitrary: m d s)
  case 0
  then show ?case by simp
next
  case (Suc n)
  have IH: "copy_down (m(d - 1 := m (s - 1))) (d - 1) (s - 1) n x =
      (if unat (d - 1 - 1 - x) < n then (m(d - 1 := m (s - 1))) (s - 1 - (d - 1 - x))
       else (m(d - 1 := m (s - 1))) x)"
    using Suc.prems by (intro Suc.IH) auto
  show ?case
  proof (cases "x = d - 1")
    case True
    then have "\<not> unat (d - 1 - 1 - x) < n" using Suc.prems by (simp add: unat_minus_1_uint)
    with True IH show ?thesis by simp
  next
    case False
    have step: "unat (d - 1 - x) < Suc n \<longleftrightarrow> unat (d - 1 - 1 - x) < n"
      using unat_less_Suc_step [of "d - 1" x n] False by (simp add: algebra_simps)
    have "s - (d - x) \<noteq> d - 1" if "unat (d - 1 - x) < Suc n"
    proof
      assume eq: "s - (d - x) = d - 1"
      then have "d - 1 - x = s - d" by (simp add: algebra_simps)
      with that Suc.prems False show False by auto
    qed
    moreover have eq: "s - 1 - (d - 1 - x) = s - (d - x)" by (simp add: algebra_simps)
    ultimately show ?thesis using IH False step unfolding eq by auto
  qed
qed
lemma unat_add_lt: "unat (a::uint) + unat b < 4294967296 \<Longrightarrow> unat (a + b) = unat a + unat b"
  by (simp add: unat_word_ariths)

lemma unat_sub_uint:
  "unat ((a::uint) - b) = (if unat b \<le> unat a then unat a - unat b else unat a + 4294967296 - unat b)"
  using unat_sub_if' [of a b] by (simp add: word_size)

lemma unat_mirror_less: "(n::uint) \<noteq> 0 \<Longrightarrow> unat (n - 1 - y) < unat n \<longleftrightarrow> y < n"
  using unat_minus_one [of n] unat_gt_0 [of n] unat_less_32 [of y] unat_less_32 [of n]
  by (auto simp: unat_sub_uint [of "n - 1" y] word_less_nat_alt split: if_splits)

lemma memmove_apply:
  assumes d: "unat dst + unat n \<le> 4294967296" and s: "unat src + unat n < 4294967296"
  shows "memmove m dst src n x = (if x - dst < n then m (src + (x - dst)) else m x)"
proof -
  have n: "unat n < 4294967296" using s by simp
  have sn: "unat (src + n) = unat src + unat n" using s by (rule unat_add_lt)
  have s0: "unat src < 4294967296" using s by simp
  show ?thesis
  proof (cases "src < dst \<and> src + n > dst")
    case True
    then have lt: "unat src < unat dst" "unat dst < unat src + unat n"
      using sn by (auto simp: word_less_nat_alt)
    have "unat (src + n - (dst + n)) = unat src + 4294967296 - unat dst"
      using lt by (simp add: unat_sub_uint)
    then have far: "unat n \<le> unat (src + n - (dst + n))" using d by simp
    have "copy_down m (dst + n) (src + n) (unat n) x =
        (if unat (dst + n - 1 - x) < unat n then m (src + n - (dst + n - x)) else m x)"
      using n far by (intro copy_down_apply) auto
    moreover have "src + n - (dst + n - x) = src + (x - dst)" by (simp add: algebra_simps)
    moreover have "unat (dst + n - 1 - x) < unat n \<longleftrightarrow> x - dst < n"
    proof -
      have "n \<noteq> 0" using lt by auto
      moreover have eq: "dst + n - 1 - x = n - 1 - (x - dst)" by (simp add: algebra_simps)
      ultimately show ?thesis unfolding eq by (intro unat_mirror_less)
    qed
    ultimately show ?thesis using True by (simp add: memmove_def)
  next
    case False
    then have "unat dst \<le> unat src \<or> unat src + unat n \<le> unat dst"
      using sn by (auto simp: word_less_nat_alt)
    then have "dst = src \<or> unat n \<le> unat (dst - src)"
      using s s0 by (auto simp: unat_sub_uint word_unat_eq_iff)
    then have "copy_up m dst src (unat n) x =
        (if unat (x - dst) < unat n then m (src + (x - dst)) else m x)"
      using n by (intro copy_up_apply) auto
    then show ?thesis using False by (simp only: memmove_def if_False word_less_nat_alt)
  qed
qed


lemma stosb_add: "stosb m a v (i + j) = stosb (stosb m a v i) (a + of_nat i) v j"
  by (induction i arbitrary: m a) (simp_all add: algebra_simps)

lemma store32_bytes:
  "store32 m a v = stosb m a (ucast v) 4"
  if "ucast (drop_bit 8 v) = (ucast v :: uchar)" "ucast (drop_bit 16 v) = (ucast v :: uchar)"
    "ucast (drop_bit 24 v) = (ucast v :: uchar)"
  using that by (simp add: store32_def numeral_eq_Suc algebra_simps)

lemma stosl_stosb:
  assumes "ucast (drop_bit 8 v) = (ucast v :: uchar)" "ucast (drop_bit 16 v) = (ucast v :: uchar)"
    "ucast (drop_bit 24 v) = (ucast v :: uchar)"
  shows "stosl m a v n = stosb m a (ucast v) (4 * n)"
proof (induction n arbitrary: m a)
  case 0
  then show ?case by simp
next
  case (Suc n)
  have "stosl m a v (Suc n) = stosb (stosb m a (ucast v) 4) (a + 4) (ucast v) (4 * n)"
    using Suc store32_bytes [OF assms] by simp
  also have "\<dots> = stosb m a (ucast v) (4 + 4 * n)"
    by (simp only: stosb_add) simp
  finally show ?case by simp
qed

lemma memset_word_bytes:
  fixes c :: uint
  defines "d \<equiv> c AND 0xFF"
  defines "v \<equiv> push_bit 24 d OR push_bit 16 d OR push_bit 8 d OR d"
  shows "ucast v = (ucast c :: uchar)" "ucast (drop_bit 8 v) = (ucast c :: uchar)"
    "ucast (drop_bit 16 v) = (ucast c :: uchar)" "ucast (drop_bit 24 v) = (ucast c :: uchar)"
proof -
  have d: "d = take_bit 8 c" unfolding d_def take_bit_eq_mask by (simp add: mask_eq_exp_minus_1)
  show "ucast v = (ucast c :: uchar)" "ucast (drop_bit 8 v) = (ucast c :: uchar)"
    "ucast (drop_bit 16 v) = (ucast c :: uchar)" "ucast (drop_bit 24 v) = (ucast c :: uchar)"
    unfolding v_def d by (rule bit_word_eqI; auto simp: bit_simps)+
qed

lemma memset_apply: "memset m dst c n x = (if x - dst < n then ucast c else m x)"
proof (cases "dst mod 4 = 0 \<and> n mod 4 = 0")
  case True
  have "4 * unat (n div 4) = unat n"
  proof -
    have "unat (n mod 4) = 0" using True by simp
    then show ?thesis by (simp add: unat_mod_distrib unat_div_distrib) presburger
  qed
  then show ?thesis
    using True memset_word_bytes [of c] unat_less_32 [of n]
    by (simp add: memset_def Let_def stosl_stosb stosb_apply word_less_nat_alt)
next
  case False
  then show ?thesis using unat_less_32 [of n]
    by (simp only: memset_def if_False stosb_apply word_less_nat_alt)
qed

section \<open>Lemmas on strings\<close>

lemma cstr_Nil [simp]: "cstr [] = []"
  by (simp add: cstr_def)

lemma cstr_Cons [simp]: "cstr (c # s) = (if c = 0 then [] else c # cstr s)"
  by (simp add: cstr_def)

lemma cstr_no_nul: "0 \<notin> set (cstr s)"
  by (auto simp: cstr_def dest: set_takeWhileD)

lemma cstr_append_nul: "0 \<notin> set a \<Longrightarrow> cstr (a @ 0 # b) = a"
  by (induction a) auto

lemma length_cstr_le: "length (cstr s) \<le> length s"
  by (simp add: cstr_def length_takeWhile_le)

lemma strncmp_zero_iff:
  "strncmp p q n = Some r \<Longrightarrow> r = 0 \<longleftrightarrow> take n (cstr p) = take n (cstr q)"
  by (induction p q n rule: strncmp.induct) (auto split: if_splits simp: word_uint_eq_iff)

lemma strncmp_defined:
  "n \<le> length p \<or> 0 \<in> set p \<Longrightarrow> n \<le> length q \<or> 0 \<in> set q \<Longrightarrow> \<exists>r. strncmp p q n = Some r"
  by (induction p q n rule: strncmp.induct) auto

lemma strncpy_pad_eq: "n \<le> length s \<Longrightarrow> strncpy_pad s n = Some (replicate n 0 @ drop n s)"
  by (induction s n rule: strncpy_pad.induct) auto

lemma strncpy_eq:
  assumes "n \<le> length s" and "n \<le> length t \<or> 0 \<in> set t"
  shows "strncpy s t n =
    Some (take n (cstr t) @ replicate (n - length (cstr t)) 0 @ drop n s)"
  using assms
  by (induction s t n rule: strncpy.induct) (auto simp: strncpy_pad_eq)

lemma safestrcpy_loop_eq:
  assumes "n < length s" and "n \<le> length t \<or> 0 \<in> set t"
  shows "\<exists>s'. safestrcpy_loop s t n = Some s' \<and> length s' = length s \<and> 0 \<in> set s'
     \<and> cstr s' = take n (cstr t)"
  using assms
proof (induction s t n rule: safestrcpy_loop.induct)
  case (4 x s c t n)
  show ?case
  proof (cases "c = 0")
    case True
    with 4 show ?thesis by (cases s) auto
  next
    case False
    with 4 obtain s' where "safestrcpy_loop s t n = Some s'" "length s' = length s"
      "0 \<in> set s'" "cstr s' = take n (cstr t)" by auto
    with False show ?thesis by simp
  qed
qed auto

lemma strlen_eq: "0 \<in> set s \<Longrightarrow> strlen s = Some (length (cstr s))"
  by (induction s) auto

lemma strlen_None: "0 \<notin> set s \<Longrightarrow> strlen s = None"
  by (induction s) auto

section \<open>Properties\<close>

text \<open>
  \<^verbatim>\<open>memset\<close> writes the low byte of \<open>c\<close> to exactly the \<open>n\<close> addresses from \<open>dst\<close> on, whichever of its
  two branches runs: the word-at-a-time branch for aligned arguments and the byte branch store the same.
\<close>

theorem memset_spec:
  "memset m dst c n = (\<lambda>x. if x - dst < n then ucast c else m x)"
  by (rule ext) (rule memset_apply)

text \<open>
  C32: \<^verbatim>\<open>memmove\<close> copies the old contents of the source whether or not the two areas overlap: afterwards
  the \<open>n\<close> bytes from \<open>dst\<close> on are the bytes that were at \<open>src\<close>, and no other byte has changed.  The areas
  lie inside the address space.
\<close>

theorem memmove_spec:
  assumes "unat dst + unat n \<le> 4294967296" and "unat src + unat n < 4294967296"
  shows "memmove m dst src n = (\<lambda>x. if x - dst < n then m (src + (x - dst)) else m x)"
  by (rule ext) (rule memmove_apply [OF assms])

theorem memmove_spec_witness:
  "unat (102 :: uint) + unat (4 :: uint) \<le> 4294967296 \<and> unat (100 :: uint) + unat (4 :: uint) < 4294967296
   \<and> map (memmove (\<lambda>x. ucast x) 102 100 4) [100, 101, 102, 103, 104, 105, 106]
       = [100, 101, 100, 101, 102, 103, 106]"
  by (simp add: memmove_spec [of 102 4 100])

text \<open>
  \<^verbatim>\<open>safestrcpy\<close> into an array of at least \<open>n\<close> bytes stays inside the array and always leaves a NUL in
  it; the string it leaves is the source string cut to \<open>n - 1\<close> bytes.
\<close>

theorem safestrcpy_correct:
  assumes "0 < n" and "n \<le> length s" and "n - 1 \<le> length t \<or> 0 \<in> set t"
  shows "\<exists>s'. safestrcpy s t n = Some s' \<and> length s' = length s \<and> 0 \<in> set s'
           \<and> cstr s' = take (n - 1) (cstr t)"
  using assms safestrcpy_loop_eq [of "n - 1" s t] by (simp add: safestrcpy_def)

theorem safestrcpy_correct_witness:
  "\<exists>s'. safestrcpy (replicate 4 9) (lit ''initcode'') 4 = Some s' \<and> length s' = 4 \<and> 0 \<in> set s'
      \<and> cstr s' = lit ''ini''"
  using safestrcpy_correct [of 4 "replicate 4 9" "lit ''initcode''"] by (simp add: lit_def cstr_def)

text \<open>
  \<^verbatim>\<open>strncmp\<close> returns 0 exactly when the two strings agree up to their NULs or in their first \<open>n\<close>
  bytes, and it reads no byte after the first NUL or after the first \<open>n\<close>.
\<close>

theorem strncmp_correct:
  assumes "n \<le> length p \<or> 0 \<in> set p" and "n \<le> length q \<or> 0 \<in> set q"
  shows "\<exists>r. strncmp p q n = Some r \<and> (r = 0 \<longleftrightarrow> take n (cstr p) = take n (cstr q))"
  using strncmp_defined [OF assms] strncmp_zero_iff by blast

theorem strncmp_correct_witness:
  "\<exists>r. strncmp [97, 98, 0, 99] [97, 98, 0, 100] 4 = Some r \<and> r = 0"
  using strncmp_correct [of 4 "[97, 98, 0, 99]" "[97, 98, 0, 100]"] by (simp add: cstr_def)

end
