(* ===== verification/Cprintf.thy ===== *)
theory Cprintf
  imports Cstring
begin

text \<open>
  Console output (\<^verbatim>\<open>console.c\<close>, \<^verbatim>\<open>uart.c\<close>): \<^verbatim>\<open>printint\<close>, \<^verbatim>\<open>cprintf\<close>, \<^verbatim>\<open>consputc\<close>, \<^verbatim>\<open>cgaputc\<close> and
  \<^verbatim>\<open>uartputc\<close>.  The state is the screen memory, the cursor register of the CRT controller (which reads
  back what was last written to its two halves), the bytes sent to the serial port, and the flags
  \<^verbatim>\<open>panicked\<close> and \<^verbatim>\<open>cons.locking\<close>.
\<close>

section \<open>State\<close>

record console =
  panicked :: bool
  locking :: bool
  uart :: bool
  uart_out :: "uchar list"
  crt :: "nat \<Rightarrow> ushort"
  crt_pos :: ushort

record kcons = kbase +
  con :: console

definition BACKSPACE :: int where "BACKSPACE = 0x100"

section \<open>Putting characters\<close>

text \<open>After at most 128 polls of the line status the byte is sent whatever the status says.\<close>

definition uartputc :: "int \<Rightarrow> console \<Rightarrow> console" where
  "uartputc c k = (if \<not> uart k then k else k\<lparr>uart_out := uart_out k @ [word_of_int c]\<rparr>)"

definition cgaputc :: "int \<Rightarrow> (unit, 'z kcons_scheme) M" where
  "cgaputc c = (\<lambda>s.
     let k = con s;
         p = uint (crt_pos k);
         (p, m) =
           (if c = 10 then (p + (80 - p mod 80), crt k)
            else if c = BACKSPACE then (if p > 0 then p - 1 else p, crt k)
            else (p + 1, (crt k)(nat p := (word_of_int c AND 0xff) OR 0x0700)))
     in if p < 0 \<or> p > 25 * 80 then Panic ''pos under/overflow''
        else
          let (p, m) =
            (if p div 80 \<ge> 24 then
               (p - 80,
                (\<lambda>i. if nat (p - 80) \<le> i \<and> i < 24 * 80 then 0
                     else if i < 23 * 80 then m (i + 80) else m i))
             else (p, m))
          in Ok () (s\<lparr>con := k\<lparr>crt := m(nat p := 0x0720), crt_pos := word_of_int p\<rparr>\<rparr>))"

text \<open>When another CPU has panicked, this one stops for good.\<close>

definition consputc :: "int \<Rightarrow> (unit, 'z kcons_scheme) M" where
  "consputc c =
     kbind (kget (\<lambda>s. panicked (con s))) (\<lambda>p.
     if p then kpanic ''frozen''
     else
       kseq (kmod (\<lambda>s. s\<lparr>con :=
               (if c = BACKSPACE then uartputc 8 (uartputc 32 (uartputc 8 (con s)))
                else uartputc c (con s))\<rparr>))
            (cgaputc c))"

section \<open>Numbers\<close>

definition digit :: "nat \<Rightarrow> uchar" where
  "digit d = (if d < 10 then of_nat (48 + d) else of_nat (87 + d))"

text \<open>The digits of \<open>x\<close>, least significant first; no result where the division would trap.\<close>

partial_function (option) printint_loop :: "uint \<Rightarrow> uint \<Rightarrow> uchar list \<Rightarrow> uchar list option" where
  "printint_loop base x buf =
     (if base = 0 then None
      else let buf = buf @ [digit (unat (x mod base))]; x = x div base
           in if x \<noteq> 0 then printint_loop base x buf else Some buf)"

definition printint_buf :: "uint \<Rightarrow> uint \<Rightarrow> bool \<Rightarrow> uchar list option" where
  "printint_buf xx base sign =
     (let neg = (sign \<and> sint xx < 0);
          x = (if neg then - xx else xx)
      in map_option (\<lambda>buf. if neg then buf @ [45] else buf) (printint_loop base x []))"

definition consputs :: "uchar list \<Rightarrow> (unit, 'z kcons_scheme) M" where
  "consputs cs = kfor cs (\<lambda>c. consputc (uint c))"

text \<open>The buffer has 16 bytes; it is printed from its last byte to its first.\<close>

definition printint :: "uint \<Rightarrow> uint \<Rightarrow> bool \<Rightarrow> (unit, 'z kcons_scheme) M" where
  "printint xx base sign =
     kbind (kopt (printint_buf xx base sign)) (\<lambda>buf.
     if length buf > 16 then kundef else consputs (rev buf))"

section \<open>Formatted output\<close>

text \<open>An argument is a word, or a pointer to a string (\<open>None\<close> the null pointer).\<close>

datatype carg = ArgU uint | ArgS "uchar list option"

fun cprintf_loop :: "string \<Rightarrow> carg list \<Rightarrow> (unit, 'z kcons_scheme) M" where
  "cprintf_loop [] args = kret ()"
| "cprintf_loop (c # fmt) args =
     (if c \<noteq> CHR ''%'' then kseq (consputc (of_char c)) (cprintf_loop fmt args)
      else case fmt of
        [] \<Rightarrow> kret ()
      | d # fmt' \<Rightarrow>
          if d = CHR ''d'' then
            (case args of
               ArgU x # args' \<Rightarrow> kseq (printint x 10 True) (cprintf_loop fmt' args')
             | _ \<Rightarrow> kundef)
          else if d = CHR ''x'' \<or> d = CHR ''p'' then
            (case args of
               ArgU x # args' \<Rightarrow> kseq (printint x 16 False) (cprintf_loop fmt' args')
             | _ \<Rightarrow> kundef)
          else if d = CHR ''s'' then
            (case args of
               ArgS (Some str) # args' \<Rightarrow>
                 if 0 \<notin> set str then kundef
                 else kseq (consputs (cstr str)) (cprintf_loop fmt' args')
             | ArgS None # args' \<Rightarrow> kseq (consputs (lit ''(null)'')) (cprintf_loop fmt' args')
             | _ \<Rightarrow> kundef)
          else if d = CHR ''%'' then kseq (consputc 37) (cprintf_loop fmt' args)
          else kseq (consputc 37) (kseq (consputc (of_char d)) (cprintf_loop fmt' args)))"

definition cprintf :: "string \<Rightarrow> carg list \<Rightarrow> (unit, 'z kcons_scheme) M" where
  "cprintf fmt args =
     kbind (kget (\<lambda>s. locking (con s))) (\<lambda>lk.
     kseq (kwhen lk (acquire ConsLock))
    (kseq (cprintf_loop fmt args)
          (kwhen lk (release ConsLock))))"

section \<open>Numerals\<close>

text \<open>The digits of a number, least significant first, and the numeral they stand for.\<close>

function digs :: "nat \<Rightarrow> nat \<Rightarrow> nat list" where
  "digs b x = (if b < 2 then [] else x mod b # (if x div b = 0 then [] else digs b (x div b)))"
  by pat_completeness auto
termination
proof (relation "measure snd")
  fix b x :: nat
  assume "\<not> b < 2" "x div b \<noteq> 0"
  then show "((b, x div b), b, x) \<in> measure snd" by (cases "x = 0") auto
qed simp

declare digs.simps [simp del]

definition value_of :: "nat \<Rightarrow> nat list \<Rightarrow> nat" where
  "value_of b ds = foldr (\<lambda>d n. d + b * n) ds 0"

lemma value_of_digs: "2 \<le> b \<Longrightarrow> value_of b (digs b x) = x"
proof (induction b x rule: digs.induct)
  case (1 b x)
  then show ?case
    using div_mult_mod_eq [of x b]
    by (cases "x div b = 0") (simp_all add: digs.simps [of b x] value_of_def)
qed

lemma digs_less: "2 \<le> b \<Longrightarrow> d \<in> set (digs b x) \<Longrightarrow> d < b"
proof (induction b x rule: digs.induct)
  case (1 b x)
  then show ?case by (auto simp: digs.simps [of b x] split: if_splits)
qed

lemma length_digs: "2 \<le> (b::nat) \<Longrightarrow> x < b ^ n \<Longrightarrow> 0 < n \<Longrightarrow> length (digs b x) \<le> n"
proof (induction n arbitrary: x)
  case 0
  then show ?case by simp
next
  case (Suc n)
  show ?case
  proof (cases "x div b = 0")
    case True
    then show ?thesis using Suc.prems by (simp add: digs.simps [of b x])
  next
    case False
    have "x div b < b ^ n" using Suc.prems by (simp add: less_mult_imp_div_less mult.commute)
    moreover from this False have "0 < n" by (cases n) auto
    ultimately have "length (digs b (x div b)) \<le> n" using Suc by simp
    then show ?thesis using False Suc.prems by (simp add: digs.simps [of b x])
  qed
qed

lemma printint_loop_eq:
  assumes "2 \<le> unat base"
  shows "printint_loop base x buf = Some (buf @ map digit (digs (unat base) (unat x)))"
proof (induction "unat x" arbitrary: x buf rule: less_induct)
  case less
  have b0: "base \<noteq> 0" using assms by auto
  have dm: "unat (x div base) = unat x div unat base" "unat (x mod base) = unat x mod unat base"
    by (simp_all add: unat_div_distrib unat_mod_distrib)
  show ?case
  proof (cases "x div base = 0")
    case True
    then have "unat x div unat base = 0" using dm by (metis unat_0)
    with True b0 assms dm show ?thesis
      by (simp add: printint_loop.simps [of base x] digs.simps [of "unat base" "unat x"])
  next
    case False
    then have nz: "unat x div unat base \<noteq> 0" using dm by (metis unat_0_iff)
    then have "unat x \<noteq> 0" by (cases "unat x = 0") auto
    then have "unat (x div base) < unat x" using dm assms by simp
    from less [OF this] False b0 nz assms dm show ?thesis
      by (simp add: printint_loop.simps [of base x] digs.simps [of "unat base" "unat x"])
  qed
qed


lemma uint_digit: "d < 10 \<Longrightarrow> uint (digit d) = 48 + int d"
  by (simp add: digit_def unsigned_of_nat take_bit_nat_eq_self del: of_nat_add)

text \<open>The number a decimal numeral with an optional minus sign stands for.\<close>

fun dec_value :: "uchar list \<Rightarrow> int" where
  "dec_value (c # cs) =
     (if c = 45 then - foldl (\<lambda>n c. 10 * n + (uint c - 48)) 0 cs
      else foldl (\<lambda>n c. 10 * n + (uint c - 48)) 0 (c # cs))"
| "dec_value [] = 0"

lemma foldl_digits:
  "(\<And>d. d \<in> set ds \<Longrightarrow> d < 10) \<Longrightarrow>
    foldl (\<lambda>n c. 10 * n + (uint c - 48)) 0 (rev (map digit ds)) = int (value_of 10 ds)"
  by (induction ds) (auto simp: value_of_def uint_digit)

lemma unat_abs_sint: "int (unat (if sint (x::uint) < 0 then - x else x)) = \<bar>sint x\<bar>"
proof -
  have abs: "(if sint x < 0 then - x else x) = word_of_int \<bar>sint x\<bar>"
    by (simp add: abs_if)
  have "0 \<le> \<bar>sint x\<bar>" "\<bar>sint x\<bar> < 2 ^ 32"
    using sint_greater_eq [of x] sint_less [of x] by simp_all
  then show ?thesis unfolding abs
    by (simp add: unsigned_of_int take_bit_int_eq_self nat_abs_int_diff)
qed

section \<open>Printing does not fail\<close>

definition con_ok :: "console \<Rightarrow> bool" where
  "con_ok k \<longleftrightarrow> \<not> panicked k \<and> crt_pos k < 1920"

definition con_only :: "(unit, 'z kcons_scheme) M \<Rightarrow> bool" where
  "con_only m \<longleftrightarrow> (\<forall>s. con_ok (con s) \<longrightarrow>
     (\<exists>k. m s = Ok () (s\<lparr>con := k\<rparr>) \<and> con_ok k \<and> locking k = locking (con s)))"

lemma con_onlyD:
  assumes "con_only m" and "con_ok (con s)"
  obtains k where "m s = Ok () (s\<lparr>con := k\<rparr>)" "con_ok k" "locking k = locking (con s)"
  using assms by (auto simp: con_only_def)

lemma con_only_ret: "con_only (kret ())"
  unfolding con_only_def by (auto simp: krun intro!: exI [of _ "con _"])

lemma con_only_seq:
  assumes m: "con_only m" and n: "con_only n"
  shows "con_only (kseq m n)"
  unfolding con_only_def
proof (intro allI impI)
  fix s :: "'a kcons_scheme"
  assume "con_ok (con s)"
  with m obtain k where k: "m s = Ok () (s\<lparr>con := k\<rparr>)" "con_ok k" "locking k = locking (con s)"
    by (rule con_onlyD)
  then have "con_ok (con (s\<lparr>con := k\<rparr>))" by simp
  with n obtain k' where "n (s\<lparr>con := k\<rparr>) = Ok () (s\<lparr>con := k, con := k'\<rparr>)" "con_ok k'"
    "locking k' = locking (con (s\<lparr>con := k\<rparr>))"
    by (rule con_onlyD)
  with k show "\<exists>k. kseq m n s = Ok () (s\<lparr>con := k\<rparr>) \<and> con_ok k \<and> locking k = locking (con s)"
    by (auto simp: krun)
qed

lemma con_only_for: "(\<And>i. i \<in> set is \<Longrightarrow> con_only (f i)) \<Longrightarrow> con_only (kfor is f)"
  by (induction "is") (simp_all add: con_only_ret con_only_seq)

lemma uartputc_fields [simp]:
  "panicked (uartputc c k) = panicked k" "crt_pos (uartputc c k) = crt_pos k"
  "locking (uartputc c k) = locking k"
  by (simp_all add: uartputc_def)

text \<open>The cursor after a character, before and after scrolling.\<close>

definition cga_next :: "int \<Rightarrow> int \<Rightarrow> int" where
  "cga_next c p = (if c = 10 then p + (80 - p mod 80)
     else if c = BACKSPACE then (if p > 0 then p - 1 else p) else p + 1)"

definition cga_scroll :: "int \<Rightarrow> int" where
  "cga_scroll p = (if p div 80 \<ge> 24 then p - 80 else p)"

lemma cga_next_range: "0 \<le> p \<Longrightarrow> p < 1920 \<Longrightarrow> 0 \<le> cga_next c p \<and> cga_next c p \<le> 1920"
  unfolding cga_next_def by (auto; presburger)

lemma cga_scroll_range: "0 \<le> p \<Longrightarrow> p \<le> 1920 \<Longrightarrow> 0 \<le> cga_scroll p \<and> cga_scroll p < 1920"
  unfolding cga_scroll_def by auto

lemma cgaputc_eq:
  assumes "p = cga_next c (uint (crt_pos (con s)))" and "0 \<le> p" and "p \<le> 2000"
  shows "\<exists>m. cgaputc c s =
     Ok () (s\<lparr>con := (con s)\<lparr>crt := m, crt_pos := word_of_int (cga_scroll p)\<rparr>\<rparr>)"
proof -
  let ?p = "uint (crt_pos (con s))"
  define pm where "pm = (if c = 10 then (?p + (80 - ?p mod 80), crt (con s))
    else if c = BACKSPACE then (if ?p > 0 then ?p - 1 else ?p, crt (con s))
    else (?p + 1, (crt (con s))(nat ?p := (word_of_int c AND 0xff) OR 0x0700)))"
  have p: "fst pm = p" unfolding assms(1) pm_def cga_next_def by (simp only: if_distrib [of fst] fst_conv)
  obtain m where pm: "pm = (p, m)" using p by (cases pm) simp
  show ?thesis
    unfolding cgaputc_def Let_def pm_def [symmetric] pm prod.case
    using assms(2,3) by (cases "p div 80 \<ge> 24") (auto simp: cga_scroll_def)
qed

lemma cgaputc_con_only: "con_only (cgaputc c)"
  unfolding con_only_def
proof (intro allI impI)
  fix s :: "'a kcons_scheme"
  assume "con_ok (con s)"
  then have np: "\<not> panicked (con s)" and p: "uint (crt_pos (con s)) < 1920"
    by (simp_all add: con_ok_def word_less_def)
  define p' where "p' = cga_next c (uint (crt_pos (con s)))"
  have p'_le: "0 \<le> p'" "p' \<le> 1920"
    using cga_next_range [OF _ p, of c] by (simp_all add: p'_def)
  then have q: "0 \<le> cga_scroll p'" "cga_scroll p' < 1920"
    using cga_scroll_range [of p'] by simp_all
  then have "uint (word_of_int (cga_scroll p') :: ushort) = cga_scroll p'"
    by (simp add: unsigned_of_int take_bit_int_eq_self)
  then have "(word_of_int (cga_scroll p') :: ushort) < 1920" using q by (simp add: word_less_def)
  moreover obtain m where "cgaputc c s =
      Ok () (s\<lparr>con := (con s)\<lparr>crt := m, crt_pos := word_of_int (cga_scroll p')\<rparr>\<rparr>)"
    using cgaputc_eq [OF p'_def] p'_le by auto
  ultimately show "\<exists>k. cgaputc c s = Ok () (s\<lparr>con := k\<rparr>) \<and> con_ok k \<and> locking k = locking (con s)"
    using np
    by (intro exI [of _ "(con s)\<lparr>crt := m, crt_pos := word_of_int (cga_scroll p')\<rparr>"])
       (simp add: con_ok_def)
qed

lemma consputc_con_only: "con_only (consputc c)"
  unfolding con_only_def
proof (intro allI impI)
  fix s :: "'a kcons_scheme"
  assume ok: "con_ok (con s)"
  define k where "k = (if c = BACKSPACE then uartputc 8 (uartputc 32 (uartputc 8 (con s)))
                else uartputc c (con s))"
  have k: "con_ok k" "locking k = locking (con s)" using ok by (simp_all add: k_def con_ok_def)
  then have "con_ok (con (s\<lparr>con := k\<rparr>))" by simp
  with cgaputc_con_only obtain k' where
    "cgaputc c (s\<lparr>con := k\<rparr>) = Ok () (s\<lparr>con := k, con := k'\<rparr>)" "con_ok k'"
    "locking k' = locking (con (s\<lparr>con := k\<rparr>))"
    by (rule con_onlyD)
  with k ok show "\<exists>k. consputc c s = Ok () (s\<lparr>con := k\<rparr>) \<and> con_ok k \<and> locking k = locking (con s)"
    by (auto simp: consputc_def krun con_ok_def k_def)
qed

lemma consputs_con_only: "con_only (consputs cs)"
  by (simp add: consputs_def con_only_for consputc_con_only)

lemma printint_buf_total:
  assumes "base = 10 \<or> base = 16"
  shows "\<exists>buf. printint_buf xx base sign = Some buf \<and> length buf \<le> 11"
proof -
  define b where "b = unat base"
  have b: "10 \<le> b" "2 \<le> unat base" using assms by (auto simp: b_def)
  have len: "length (digs b (unat x)) \<le> 10" for x :: uint
  proof (rule length_digs)
    have "unat x < 10 ^ 10" using unat_less_32 [of x] by simp
    also have "(10::nat) ^ 10 \<le> b ^ 10" using b by (intro power_mono) auto
    finally show "unat x < b ^ 10" .
  qed (use b in auto)
  have "length (digs b (unat x)) \<le> 11" for x :: uint
    using len [of x] by simp
  then show ?thesis using b len
    by (auto simp: printint_buf_def Let_def printint_loop_eq b_def)
qed

lemma printint_con_only:
  assumes "base = 10 \<or> base = 16"
  shows "con_only (printint xx base sign :: (unit, 'z kcons_scheme) M)"
proof -
  obtain buf where "printint_buf xx base sign = Some buf" "length buf \<le> 11"
    using printint_buf_total [OF assms] by blast
  then have "printint xx base sign = (consputs (rev buf) :: (unit, 'z kcons_scheme) M)"
    by (intro ext) (simp add: printint_def krun)
  then show ?thesis by (simp add: consputs_con_only)
qed

text \<open>The arguments fit the format: a word for \<open>%d\<close>, \<open>%x\<close>, \<open>%p\<close>, a string for \<open>%s\<close>.\<close>

fun args_ok :: "string \<Rightarrow> carg list \<Rightarrow> bool" where
  "args_ok [] args = True"
| "args_ok [c] args = True"
| "args_ok (c # d # fmt) args =
     (if c \<noteq> CHR ''%'' then args_ok (d # fmt) args
      else if d \<in> {CHR ''d'', CHR ''x'', CHR ''p''} then
        (case args of ArgU x # args' \<Rightarrow> args_ok fmt args' | _ \<Rightarrow> False)
      else if d = CHR ''s'' then
        (case args of ArgS None # args' \<Rightarrow> args_ok fmt args'
         | ArgS (Some str) # args' \<Rightarrow> 0 \<in> set str \<and> args_ok fmt args' | _ \<Rightarrow> False)
      else args_ok fmt args)"

lemma cprintf_loop_char:
  "c \<noteq> CHR ''%'' \<Longrightarrow>
    cprintf_loop (c # fmt) args = kseq (consputc (of_char c)) (cprintf_loop fmt args)"
  by simp

lemmas cprintf_loop_percent = cprintf_loop.simps(2) [of "CHR ''%''" "d # fmt" for d fmt]

lemma cprintf_loop_con_only:
  "args_ok fmt args \<Longrightarrow> con_only (cprintf_loop fmt args :: (unit, 'z kcons_scheme) M)"
proof (induction fmt args rule: args_ok.induct)
  case (1 args)
  show ?case by (simp add: con_only_ret)
next
  case (2 c args)
  show ?case by (simp add: con_only_seq con_only_ret consputc_con_only)
next
  case (3 c d fmt args)
  note con_only = con_only_seq con_only_ret consputc_con_only consputs_con_only printint_con_only
  show ?case
  proof (cases "c = CHR ''%''")
    case False
    with 3 show ?thesis
      by (simp add: cprintf_loop_char con_only del: cprintf_loop.simps)
  next
    case True
    consider (num) "d = CHR ''d'' \<or> d = CHR ''x'' \<or> d = CHR ''p''" | (str) "d = CHR ''s''"
      | (other) "d \<noteq> CHR ''d''" "d \<noteq> CHR ''x''" "d \<noteq> CHR ''p''" "d \<noteq> CHR ''s''"
      by blast
    then show ?thesis
    proof cases
      case num
      with "3.prems" True obtain x args' where args: "args = ArgU x # args'" and ok: "args_ok fmt args'"
        by (auto split: list.splits carg.splits)
      have "con_only (cprintf_loop fmt args' :: (unit, 'z kcons_scheme) M)"
        using "3.IH"(2) [OF _ _ args refl ok] num True by simp
      with num show ?thesis
        unfolding True args cprintf_loop_percent by (elim disjE) (simp_all add: con_only)
    next
      case str
      with "3.prems" True obtain v args' where args: "args = ArgS v # args'" and ok: "args_ok fmt args'"
        and nul: "\<And>str. v = Some str \<Longrightarrow> 0 \<in> set str"
        by (auto split: list.splits carg.splits option.splits)
      have "con_only (cprintf_loop fmt args' :: (unit, 'z kcons_scheme) M)"
        using "3.IH"(3) [OF _ _ _ args refl _ ok] "3.IH"(4) [OF _ _ _ args refl _ ok] str True by (cases v) simp_all
      with nul show ?thesis
        unfolding True str args cprintf_loop_percent by (cases v) (simp_all add: con_only)
    next
      case other
      with "3.prems" True have "args_ok fmt args" by simp
      then have "con_only (cprintf_loop fmt args :: (unit, 'z kcons_scheme) M)"
        using "3.IH"(5) other True by simp
      with other show ?thesis
        unfolding True cprintf_loop_percent by (simp add: con_only)
    qed
  qed
qed

lemma cprintf_ok:
  assumes args: "args_ok fmt args" and ok: "con_ok (con s)" and lk: "ConsLock \<notin> set (held s)"
  obtains k where "cprintf fmt args s = Ok () (s\<lparr>con := k\<rparr>)" "con_ok k" "locking k = locking (con s)"
proof (cases "locking (con s)")
  case True
  let ?s = "s\<lparr>held := ConsLock # held s\<rparr>"
  have "con_ok (con ?s)" using ok by simp
  with cprintf_loop_con_only [OF args] obtain k where
    "cprintf_loop fmt args ?s = Ok () (?s\<lparr>con := k\<rparr>)" "con_ok k" "locking k = locking (con ?s)"
    by (rule con_onlyD)
  with True lk that show ?thesis by (simp add: cprintf_def krun)
next
  case False
  from cprintf_loop_con_only [OF args] ok obtain k where
    "cprintf_loop fmt args s = Ok () (s\<lparr>con := k\<rparr>)" "con_ok k" "locking k = locking (con s)"
    by (rule con_onlyD)
  with False that show ?thesis by (simp add: cprintf_def krun)
qed

section \<open>What printing changes\<close>

text \<open>The routines that print change the console only, whatever their arguments are.\<close>

definition con_rel :: "'z kcons_scheme \<Rightarrow> 'z kcons_scheme \<Rightarrow> bool" where
  "con_rel s t \<longleftrightarrow> (\<exists>k. t = s\<lparr>con := k\<rparr> \<and> locking k = locking (con s))"

interpretation con_frame: state_frame "con_rel :: 'z kcons_scheme \<Rightarrow> 'z kcons_scheme \<Rightarrow> bool"
proof
  fix s t u :: "'z kcons_scheme"
  show "con_rel s s" unfolding con_rel_def by (rule exI [of _ "con s"]) simp
  assume "con_rel s t" "con_rel t u"
  then show "con_rel s u" unfolding con_rel_def by auto
qed

lemma cgaputc_form:
  "\<exists>b a d. cgaputc c s = (if b then Panic ''pos under/overflow''
     else Ok () (s\<lparr>con := (con s)\<lparr>crt := a, crt_pos := d\<rparr>\<rparr>))"
  unfolding cgaputc_def Let_def split_def by blast

lemma cgaputc_frame: "kframe con_rel (cgaputc c :: (unit, 'z kcons_scheme) M)"
  unfolding kframe_def con_rel_def
proof (intro conjI allI impI)
  fix s t :: "'z kcons_scheme" and x
  show "cgaputc c s \<noteq> Swtch t" using cgaputc_form [of c s] by (auto split: if_splits)
  show "\<exists>k. t = s\<lparr>con := k\<rparr> \<and> locking k = locking (con s)" if "cgaputc c s = Ok x t"
    using that cgaputc_form [of c s] by (auto split: if_splits)
qed

lemma consputc_frame: "kframe con_rel (consputc c :: (unit, 'z kcons_scheme) M)"
proof -
  have "locking (uartputc x k) = locking k" for x k by (simp add: uartputc_def)
  then have "kframe con_rel (kmod (\<lambda>s. s\<lparr>con :=
               (if c = BACKSPACE then uartputc 8 (uartputc 32 (uartputc 8 (con s)))
                else uartputc c (con s))\<rparr>) :: (unit, 'z kcons_scheme) M)"
    by (intro kframe_mod) (auto simp: con_rel_def)
  then show ?thesis
    unfolding consputc_def by (intro con_frame.frame cgaputc_frame)
qed

lemma consputs_frame: "kframe con_rel (consputs cs :: (unit, 'z kcons_scheme) M)"
  unfolding consputs_def by (intro con_frame.frame consputc_frame)

lemma printint_frame: "kframe con_rel (printint xx base sign :: (unit, 'z kcons_scheme) M)"
  unfolding printint_def by (intro con_frame.frame consputs_frame)

lemmas print_frames = consputc_frame consputs_frame printint_frame con_frame.frame_seq con_frame.frame_ret
  kframe_undef

lemma cprintf_loop_frame: "kframe con_rel (cprintf_loop fmt args :: (unit, 'z kcons_scheme) M)"
  by (induction fmt args rule: cprintf_loop.induct)
     (auto simp: print_frames split: list.split carg.split option.split)

lemma cprintf_frame: "kframe con_rel (cprintf fmt args :: (unit, 'z kcons_scheme) M)"
  unfolding kframe_def
proof (intro conjI allI impI)
  fix s t :: "'z kcons_scheme" and x
  show "cprintf fmt args s \<noteq> Swtch t"
    using kframe_no_swtch [OF cprintf_loop_frame]
    by (auto simp: cprintf_def krun acquire_def release_def split: outcome.splits if_splits)
  assume run: "cprintf fmt args s = Ok x t"
  show "con_rel s t"
  proof (cases "locking (con s)")
    case True
    with run have lk: "ConsLock \<notin> set (held s)"
      by (cases "ConsLock \<in> set (held s)") (simp_all add: cprintf_def krun)
    let ?s = "s\<lparr>held := ConsLock # held s\<rparr>"
    from run True lk obtain u where u: "cprintf_loop fmt args ?s = Ok () u" "release ConsLock u = Ok x t"
      by (auto simp: cprintf_def krun split: outcome.splits)
    then obtain k where "u = ?s\<lparr>con := k\<rparr>" "locking k = locking (con s)"
      using kframeD [OF cprintf_loop_frame u(1)] by (auto simp: con_rel_def)
    with u(2) show ?thesis by (auto simp: con_rel_def release_def split: if_splits)
  next
    case False
    with run have "cprintf_loop fmt args s = Ok () t"
      by (auto simp: cprintf_def krun split: outcome.splits)
    then show ?thesis using kframeD [OF cprintf_loop_frame] by blast
  qed
qed

section \<open>Properties\<close>

text \<open>
  Printing a 32-bit number as a signed decimal is exact: the digits, read from the last one
  generated to the first with an optional minus sign, denote the number, also for the smallest one
  (whose negation overflows), and they fit the buffer of 16 bytes.
\<close>

theorem printint_decimal:
  "\<exists>buf. printint_buf xx 10 True = Some buf \<and> length buf \<le> 11 \<and> dec_value (rev buf) = sint xx"
proof -
  define x where "x = (if sint xx < 0 then - xx else xx)"
  define ds where "ds = digs 10 (unat x)"
  have small: "\<And>d. d \<in> set ds \<Longrightarrow> d < 10" using digs_less [of 10 _ "unat x"] by (simp add: ds_def)
  have "length ds \<le> 10"
    unfolding ds_def by (rule length_digs) (use unat_less_32 [of x] in simp_all)
  moreover have buf: "printint_buf xx 10 True =
      Some (if sint xx < 0 then map digit ds @ [45] else map digit ds)"
    by (simp add: printint_buf_def Let_def x_def ds_def printint_loop_eq)
  moreover have val: "foldl (\<lambda>n c. 10 * n + (uint c - 48)) 0 (rev (map digit ds)) = int (unat x)"
    using foldl_digits [OF small] value_of_digs [of 10 "unat x"] by (simp add: ds_def)
  moreover have "ds \<noteq> []" by (simp add: ds_def digs.simps [of 10])
  then obtain d ds' where d: "rev (map digit ds) = digit d # ds'" "d < 10"
    using small by (cases "rev ds") (auto simp: rev_map)
  moreover have "digit d \<noteq> 45" using uint_digit [OF d(2)] by (auto simp: word_uint_eq_iff)
  moreover have "length ds = Suc (length ds')" using arg_cong [OF d(1), of length] by simp
  moreover have "int (unat x) = \<bar>sint xx\<bar>" unfolding x_def by (rule unat_abs_sint)
  ultimately show ?thesis by auto
qed

text \<open>
  \<^verbatim>\<open>cprintf\<close> with arguments that fit the format returns: it never overruns its buffer, never puts
  the cursor outside of the screen (the panic in \<^verbatim>\<open>cgaputc\<close>), gives back the console lock if it took it,
  and changes nothing but the console.
\<close>

theorem cprintf_returns:
  assumes "args_ok fmt args" and "con_ok (con s)" and "ConsLock \<notin> set (held s)"
  shows "\<exists>k. cprintf fmt args s = Ok () (s\<lparr>con := k\<rparr>) \<and> con_ok k"
  using cprintf_ok [OF assms] by metis

theorem cprintf_returns_witness:
  "\<exists>k. cprintf ''pid %d %s'' [ArgU (-1), ArgS (Some [105, 0])]
         \<lparr>held = [], con = \<lparr>panicked = False, locking = True, uart = True, uart_out = [],
            crt = (\<lambda>_. 0), crt_pos = 1919\<rparr>\<rparr>
       = Ok () \<lparr>held = [], con = k\<rparr> \<and> con_ok k"
  using cprintf_returns [of "''pid %d %s''" "[ArgU (-1), ArgS (Some [105, 0])]"
      "\<lparr>held = [], con = \<lparr>panicked = False, locking = True, uart = True, uart_out = [],
            crt = (\<lambda>_. 0), crt_pos = 1919\<rparr>\<rparr>"]
  by (simp add: con_ok_def)

end
