(* ===== verification/Kalloc.thy ===== *)
theory Kalloc
  imports Cprintf
begin

text \<open>
  The physical page allocator (\<^verbatim>\<open>kalloc.c\<close>).  The free list is threaded through the free pages
  themselves: the first word of a free page is the address of the next one, so the model keeps it in the
  memory as the code does.  The lemmas relate it to the list of the free pages.
\<close>

section \<open>Memory layout (memlayout.h, mmu.h)\<close>

definition EXTMEM :: uint where "EXTMEM = 0x100000"
definition PHYSTOP :: uint where "PHYSTOP = 0xE000000"
definition DEVSPACE :: uint where "DEVSPACE = 0xFE000000"
definition KERNBASE :: uint where "KERNBASE = 0x80000000"
definition KERNLINK :: uint where "KERNLINK = KERNBASE + EXTMEM"
definition PGSIZE :: uint where "PGSIZE = 4096"

definition V2P :: "uint \<Rightarrow> uint" where "V2P a = a - KERNBASE"
definition P2V :: "uint \<Rightarrow> uint" where "P2V a = a + KERNBASE"

definition PGROUNDUP :: "uint \<Rightarrow> uint" where
  "PGROUNDUP sz = (sz + PGSIZE - 1) AND NOT (PGSIZE - 1)"

definition PGROUNDDOWN :: "uint \<Rightarrow> uint" where
  "PGROUNDDOWN a = a AND NOT (PGSIZE - 1)"

section \<open>State\<close>

text \<open>
  \<open>sym_end\<close> and \<open>sym_data\<close> are the addresses \<^verbatim>\<open>end\<close> and \<^verbatim>\<open>data\<close> of the linker script,
  \<open>sym_trapret\<close> and \<open>sym_forkret\<close> those of the code a new process starts in, and \<open>sym_initcode\<close> the
  bytes of the first user program.
\<close>

record ksyms =
  sym_end :: uint
  sym_data :: uint
  sym_trapret :: uint
  sym_forkret :: uint
  sym_initcode :: "uchar list"

record kmem = kcons +
  mem :: memory
  freelist :: uint
  use_lock :: bool
  syms :: ksyms

section \<open>Operations\<close>

definition kfree :: "uint \<Rightarrow> (unit, 'z kmem_scheme) M" where
  "kfree v =
     kbind (kget (\<lambda>s. sym_end (syms s))) (\<lambda>e.
     if v mod PGSIZE \<noteq> 0 \<or> v < e \<or> V2P v \<ge> PHYSTOP then kpanic ''kfree''
     else
       kseq (kmod (\<lambda>s. s\<lparr>mem := memset (mem s) v 1 PGSIZE\<rparr>))
      (kbind (kget use_lock) (\<lambda>ul.
       kseq (kwhen ul (acquire KmemLock))
      (kseq (kmod (\<lambda>s. s\<lparr>mem := store32 (mem s) v (freelist s)\<rparr>))
      (kseq (kmod (\<lambda>s. s\<lparr>freelist := v\<rparr>))
            (kwhen ul (release KmemLock)))))))"

definition kalloc :: "(uint, 'z kmem_scheme) M" where
  "kalloc =
     kbind (kget use_lock) (\<lambda>ul.
     kseq (kwhen ul (acquire KmemLock))
    (kbind (kget freelist) (\<lambda>r.
     kseq (kwhen (r \<noteq> 0) (kmod (\<lambda>s. s\<lparr>freelist := load32 (mem s) r\<rparr>)))
    (kseq (kwhen ul (release KmemLock))
          (kret r)))))"

text \<open>A pointer that passes the end of the address space is undefined in C.\<close>

function freerange_loop :: "uint \<Rightarrow> uint \<Rightarrow> (unit, 'z kmem_scheme) M" where
  "freerange_loop p vend =
     (if p + PGSIZE \<le> vend then
        if p < p + PGSIZE then kseq (kfree p) (freerange_loop (p + PGSIZE) vend) else kundef
      else kret ())"
  by pat_completeness auto
termination
  by (relation "measure (\<lambda>(p, vend). unat vend - unat p)")
     (auto simp: word_less_nat_alt word_le_nat_alt)

declare freerange_loop.simps [simp del]

definition freerange :: "uint \<Rightarrow> uint \<Rightarrow> (unit, 'z kmem_scheme) M" where
  "freerange vstart vend = freerange_loop (PGROUNDUP vstart) vend"

definition kinit1 :: "uint \<Rightarrow> uint \<Rightarrow> (unit, 'z kmem_scheme) M" where
  "kinit1 vstart vend = kseq (kmod (\<lambda>s. s\<lparr>use_lock := False\<rparr>)) (freerange vstart vend)"

definition kinit2 :: "uint \<Rightarrow> uint \<Rightarrow> (unit, 'z kmem_scheme) M" where
  "kinit2 vstart vend = kseq (freerange vstart vend) (kmod (\<lambda>s. s\<lparr>use_lock := True\<rparr>))"

section \<open>Pages\<close>

definition in_page :: "uint \<Rightarrow> uint \<Rightarrow> bool" where
  "in_page x a \<longleftrightarrow> a - x < PGSIZE"

definition page_aligned :: "uint \<Rightarrow> bool" where
  "page_aligned x \<longleftrightarrow> x mod PGSIZE = 0"

lemma unat_PGSIZE [simp]: "unat PGSIZE = 4096"
  by (simp add: PGSIZE_def)

lemma page_aligned_unat: "page_aligned x \<longleftrightarrow> unat x mod 4096 = 0"
  by (simp add: page_aligned_def PGSIZE_def unat_eq_0 [symmetric] unat_mod_distrib)

lemma page_aligned_bound: "page_aligned x \<Longrightarrow> unat x \<le> 4294963200"
  unfolding page_aligned_unat using unat_less_32 [of x] by (auto simp: mod_eq_0_iff_dvd dvd_def)

lemma unat_page_add:
  assumes "page_aligned x" and "unat d < 4096"
  shows "unat (x + d) = unat x + unat d"
  using page_aligned_bound [OF assms(1)] assms(2) by (intro unat_add_lt) simp

lemma aligned_add_div: "(x :: nat) mod 4096 = 0 \<Longrightarrow> d < 4096 \<Longrightarrow> (x + d) div 4096 = x div 4096"
  by (auto simp: mod_eq_0_iff_dvd dvd_def)

lemma in_page_div:
  assumes "page_aligned x" and "in_page x a"
  shows "unat a div 4096 = unat x div 4096"
proof -
  have d: "unat (a - x) < 4096" using assms(2) by (simp add: in_page_def word_less_nat_alt)
  have "unat a = unat (x + (a - x))" by simp
  also have "\<dots> = unat x + unat (a - x)" by (rule unat_page_add) (use assms(1) d in simp_all)
  finally show ?thesis using assms(1) d by (simp add: page_aligned_unat aligned_add_div)
qed

lemma page_aligned_eqI:
  "page_aligned x \<Longrightarrow> page_aligned y \<Longrightarrow> unat x div 4096 = unat y div 4096 \<Longrightarrow> x = y"
  unfolding page_aligned_unat by (metis div_mod_decomp unsigned_word_eqI)

lemma pages_disjoint:
  "page_aligned x \<Longrightarrow> page_aligned y \<Longrightarrow> in_page x a \<Longrightarrow> in_page y a \<Longrightarrow> x = y"
  using in_page_div page_aligned_eqI by metis

lemma in_page_add: "d < PGSIZE \<Longrightarrow> in_page x (x + d)"
  by (simp add: in_page_def)

lemma load32_cong:
  "(\<And>d. d < 4 \<Longrightarrow> m' (a + d) = m (a + d)) \<Longrightarrow> load32 m' a = load32 m a"
  unfolding load32_def using word_less_nat_alt
proof -
  assume eq: "\<And>d. d < 4 \<Longrightarrow> m' (a + d) = m (a + d)"
  have "m' a = m a" using eq [of 0] by simp
  moreover have "m' (a + 1) = m (a + 1)" "m' (a + 2) = m (a + 2)" "m' (a + 3) = m (a + 3)"
    by (rule eq, simp)+
  ultimately show "ucast (m' a) OR push_bit 8 (ucast (m' (a + 1)))
     OR push_bit 16 (ucast (m' (a + 2))) OR push_bit 24 (ucast (m' (a + 3))) =
     (ucast (m a) :: uint) OR push_bit 8 (ucast (m (a + 1)))
     OR push_bit 16 (ucast (m (a + 2))) OR push_bit 24 (ucast (m (a + 3)))"
    by simp
qed

lemma store32_apply: "store32 m a v x = (if x - a < 4 then store32 m a v x else m x)"
proof (cases "x - a < 4")
  case False
  have "x \<noteq> a + k" if "k < 4" for k
  proof
    assume "x = a + k"
    then have "x - a = k" by simp
    with that False show False by simp
  qed
  from this [of 0] this [of 1] this [of 2] this [of 3] show ?thesis
    by (simp add: store32_def)
qed simp

lemma store32_other: "\<not> x - a < 4 \<Longrightarrow> store32 m a v x = m x"
  using store32_apply [of m a v x] by simp

lemma in_page_word:
  assumes "page_aligned x" and "a - x < 4"
  shows "in_page x a"
  using assms by (simp add: in_page_def PGSIZE_def word_less_nat_alt)

section \<open>The free list\<close>

text \<open>The pages on the list that starts at \<open>a\<close>.\<close>

fun freechain :: "memory \<Rightarrow> uint \<Rightarrow> uint list \<Rightarrow> bool" where
  "freechain m a [] \<longleftrightarrow> a = 0"
| "freechain m a (x # xs) \<longleftrightarrow> a = x \<and> a \<noteq> 0 \<and> freechain m (load32 m a) xs"

text \<open>The pages the allocator may hand out: those between the end of the kernel and the top of memory.\<close>

definition page_ok :: "uint \<Rightarrow> uint \<Rightarrow> bool" where
  "page_ok e x \<longleftrightarrow> page_aligned x \<and> e \<le> x \<and> V2P x < PHYSTOP"

definition kmem_inv :: "'z kmem_scheme \<Rightarrow> uint list \<Rightarrow> bool" where
  "kmem_inv s xs \<longleftrightarrow> KERNBASE \<le> sym_end (syms s) \<and> freechain (mem s) (freelist s) xs \<and> distinct xs
     \<and> (\<forall>x \<in> set xs. page_ok (sym_end (syms s)) x)"

lemma freechain_cong:
  "(\<And>x. x \<in> set xs \<Longrightarrow> load32 m' x = load32 m x) \<Longrightarrow> freechain m' a xs = freechain m a xs"
  by (induction xs arbitrary: a) auto

lemma page_ok_nonzero: "KERNBASE \<le> e \<Longrightarrow> page_ok e x \<Longrightarrow> x \<noteq> 0"
  by (auto simp: page_ok_def KERNBASE_def)

lemma load32_in_page:
  assumes al: "page_aligned x" and eq: "\<And>a. in_page x a \<Longrightarrow> m' a = m a"
  shows "load32 m' x = load32 m x"
proof (rule load32_cong)
  fix d :: uint
  assume "d < 4"
  then have "in_page x (x + d)" by (intro in_page_word) (simp_all add: al)
  then show "m' (x + d) = m (x + d)" by (rule eq)
qed

text \<open>A change of memory outside of the free pages does not touch the list.\<close>

lemma kmem_inv_mem:
  assumes inv: "kmem_inv s xs" and eq: "\<And>x a. x \<in> set xs \<Longrightarrow> in_page x a \<Longrightarrow> m' a = mem s a"
  shows "kmem_inv (s\<lparr>mem := m'\<rparr>) xs"
proof -
  have "load32 m' x = load32 (mem s) x" if "x \<in> set xs" for x
    using inv that eq [OF that] by (intro load32_in_page) (simp_all add: kmem_inv_def page_ok_def)
  then show ?thesis using inv freechain_cong [of xs m' "mem s"] by (simp add: kmem_inv_def)
qed

lemma kalloc_Nil:
  assumes "kmem_inv s []" and "KmemLock \<notin> set (held s)"
  shows "kalloc s = Ok 0 s"
  using assms by (simp add: kalloc_def krun kmem_inv_def)

lemma kalloc_Cons:
  assumes "kmem_inv s (x # xs)" and "KmemLock \<notin> set (held s)"
  shows "kalloc s = Ok x (s\<lparr>freelist := load32 (mem s) x\<rparr>)"
    and "kmem_inv (s\<lparr>freelist := load32 (mem s) x\<rparr>) xs"
  using assms by (auto simp: kalloc_def krun kmem_inv_def)

lemma kfree_ok:
  assumes inv: "kmem_inv s xs" and v: "page_ok (sym_end (syms s)) v" "v \<notin> set xs"
    and lk: "KmemLock \<notin> set (held s)"
  obtains m where "kfree v s = Ok () (s\<lparr>mem := m, freelist := v\<rparr>)"
    "kmem_inv (s\<lparr>mem := m, freelist := v\<rparr>) (v # xs)"
    "\<And>a. \<not> in_page v a \<Longrightarrow> m a = mem s a"
proof -
  define m where "m = store32 (memset (mem s) v 1 PGSIZE) v (freelist s)"
  have al: "page_aligned v" using v by (simp add: page_ok_def)
  have run: "kfree v s = Ok () (s\<lparr>mem := m, freelist := v\<rparr>)"
    using v lk by (simp add: kfree_def krun page_ok_def page_aligned_def m_def not_le not_less)
  have out: "m a = mem s a" if "\<not> in_page v a" for a
  proof -
    have "\<not> a - v < 4" using that in_page_word [OF al] by blast
    then show ?thesis using that by (simp add: m_def store32_other memset_apply in_page_def)
  qed
  have "kmem_inv (s\<lparr>mem := m\<rparr>) xs"
  proof (rule kmem_inv_mem [OF inv])
    fix x a
    assume "x \<in> set xs" "in_page x a"
    then have "\<not> in_page v a"
      using pages_disjoint [OF _ al, of x a] v inv by (auto simp: kmem_inv_def page_ok_def)
    then show "m a = mem s a" by (rule out)
  qed
  then have "kmem_inv (s\<lparr>mem := m, freelist := v\<rparr>) (v # xs)"
    using v page_ok_nonzero by (auto simp: kmem_inv_def m_def)
  with run out that show ?thesis by blast
qed

lemma kfree_panic:
  "\<not> page_ok (sym_end (syms s)) v \<Longrightarrow> kfree v s = Panic ''kfree''"
  by (simp add: kfree_def krun page_ok_def page_aligned_def not_le not_less)

lemma aligned_next: "(x :: nat) mod 4096 = 0 \<Longrightarrow> p mod 4096 = 0 \<Longrightarrow> p < x \<Longrightarrow> p + 4096 \<le> x"
  by (auto simp: mod_eq_0_iff_dvd dvd_def)

text \<open>The whole pages between two addresses.\<close>

definition range_pages :: "uint \<Rightarrow> uint \<Rightarrow> uint set" where
  "range_pages p vend = {x. page_aligned x \<and> p \<le> x \<and> unat x + 4096 \<le> unat vend}"

lemma range_pages_step:
  assumes p: "page_aligned p" and le: "unat p + 4096 \<le> unat vend"
  shows "range_pages p vend = insert p (range_pages (p + PGSIZE) vend)"
proof -
  have p1: "unat (p + PGSIZE) = unat p + 4096"
    using le unat_less_32 [of vend] unat_add_lt [of p PGSIZE] by simp
  show ?thesis
  proof (intro set_eqI iffI)
    fix x
    assume x: "x \<in> range_pages p vend"
    then have "x = p \<or> unat p < unat x"
      by (auto simp: range_pages_def word_le_nat_alt le_less word_unat_eq_iff)
    then show "x \<in> insert p (range_pages (p + PGSIZE) vend)"
      using x p aligned_next [of "unat x" "unat p"]
      by (auto simp: range_pages_def word_le_nat_alt p1 page_aligned_unat)
  next
    fix x
    assume "x \<in> insert p (range_pages (p + PGSIZE) vend)"
    then show "x \<in> range_pages p vend"
      using p le by (auto simp: range_pages_def word_le_nat_alt p1)
  qed
qed

lemma range_pages_empty:
  "\<not> unat p + 4096 \<le> unat vend \<Longrightarrow> range_pages p vend = {}"
  by (auto simp: range_pages_def word_le_nat_alt)

lemma freerange_loop_ok:
  assumes "kmem_inv s xs" and "page_aligned p" and "sym_end (syms s) \<le> p"
    and "unat p \<le> 0x8E000000" and "unat vend \<le> 0x8E000000"
    and "\<forall>x \<in> set xs. x < p" and "KmemLock \<notin> set (held s)"
  shows "\<exists>m f ys. freerange_loop p vend s = Ok () (s\<lparr>mem := m, freelist := f\<rparr>)
     \<and> kmem_inv (s\<lparr>mem := m, freelist := f\<rparr>) ys \<and> set ys = set xs \<union> range_pages p vend"
  using assms
proof (induction p vend arbitrary: s xs rule: freerange_loop.induct)
  case (1 p vend)
  have p1: "unat (p + PGSIZE) = unat p + 4096"
    using "1.prems"(4) unat_add_lt [of p PGSIZE] by simp
  then have lt: "p < p + PGSIZE" by (simp add: word_less_nat_alt)
  show ?case
  proof (cases "p + PGSIZE \<le> vend")
    case True
    then have le: "unat p + 4096 \<le> unat vend" by (simp add: word_le_nat_alt p1)
    have al: "page_aligned (p + PGSIZE)" using "1.prems"(2) by (simp add: page_aligned_unat p1)
    have ok: "page_ok (sym_end (syms s)) p"
      using "1.prems"(1-3,5) le unsigned_minus_1_eq_mask
      by (auto simp: page_ok_def V2P_def PHYSTOP_def KERNBASE_def kmem_inv_def word_less_nat_alt
          word_le_nat_alt unat_sub_if' word_size)
    have new: "p \<notin> set xs" using "1.prems"(6) by auto
    obtain m where m: "kfree p s = Ok () (s\<lparr>mem := m, freelist := p\<rparr>)"
      "kmem_inv (s\<lparr>mem := m, freelist := p\<rparr>) (p # xs)"
      by (rule kfree_ok [OF "1.prems"(1) ok new "1.prems"(7)])
    have "\<exists>m' f ys. freerange_loop (p + PGSIZE) vend (s\<lparr>mem := m, freelist := p\<rparr>)
        = Ok () (s\<lparr>mem := m, freelist := p\<rparr>\<lparr>mem := m', freelist := f\<rparr>)
      \<and> kmem_inv (s\<lparr>mem := m, freelist := p\<rparr>\<lparr>mem := m', freelist := f\<rparr>) ys
      \<and> set ys = set (p # xs) \<union> range_pages (p + PGSIZE) vend"
    proof (rule "1.IH" [OF True lt m(2) al])
      show "sym_end (syms (s\<lparr>mem := m, freelist := p\<rparr>)) \<le> p + PGSIZE"
        using "1.prems"(3) lt by simp
      show "\<forall>x \<in> set (p # xs). x < p + PGSIZE"
        using "1.prems"(6) lt by auto
    qed (use "1.prems" le in \<open>simp_all add: p1\<close>)
    then show ?thesis
      using True lt m(1) range_pages_step [OF "1.prems"(2) le]
      by (simp add: freerange_loop.simps [of p] krun)
  next
    case False
    then have "range_pages p vend = {}"
      by (intro range_pages_empty) (simp add: word_le_nat_alt p1)
    with False "1.prems"(1) show ?thesis
      by (intro exI [of _ "mem s"] exI [of _ "freelist s"] exI [of _ xs])
         (simp add: freerange_loop.simps [of p] krun)
  qed
qed

lemma PGROUNDUP_aligned: "page_aligned (PGROUNDUP x)"
proof -
  have "PGROUNDUP x mod PGSIZE = take_bit 12 (PGROUNDUP x)"
    by (simp add: PGSIZE_def take_bit_eq_mod)
  also have "\<dots> = 0"
    by (rule bit_word_eqI) (auto simp: PGROUNDUP_def PGSIZE_def bit_simps take_bit_eq_mask mask_eq_exp_minus_1)
  finally show ?thesis by (simp add: page_aligned_def)
qed

section \<open>The allocator as an interface\<close>

text \<open>
  What the rest of the kernel relies on: \<open>inv s xs\<close> says that \<open>xs\<close> are the free pages of the state \<open>s\<close>, in
  the order in which they will be handed out, and \<open>ready\<close> that the allocator may be called.
\<close>

primrec krepeat :: "nat \<Rightarrow> ('a, 's) M \<Rightarrow> ('a list, 's) M" where
  "krepeat 0 m = kret []"
| "krepeat (Suc n) m = kbind m (\<lambda>x. kbind (krepeat n m) (\<lambda>xs. kret (x # xs)))"

locale page_allocator =
  fixes alloc :: "(uint, 's) M" and free :: "uint \<Rightarrow> (unit, 's) M"
    and inv :: "'s \<Rightarrow> uint list \<Rightarrow> bool" and ready :: "'s \<Rightarrow> bool" and valid :: "'s \<Rightarrow> uint \<Rightarrow> bool"
  assumes alloc_empty: "\<And>s. inv s [] \<Longrightarrow> ready s \<Longrightarrow> alloc s = Ok 0 s"
    and alloc_page: "\<And>s x xs. inv s (x # xs) \<Longrightarrow> ready s \<Longrightarrow>
          \<exists>t. alloc s = Ok x t \<and> inv t xs \<and> ready t \<and> valid t = valid s"
    and free_page: "\<And>s xs v. inv s xs \<Longrightarrow> ready s \<Longrightarrow> valid s v \<Longrightarrow> v \<notin> set xs \<Longrightarrow>
          \<exists>t. free v s = Ok () t \<and> inv t (v # xs) \<and> ready t \<and> valid t = valid s"
    and free_invalid: "\<And>s v. \<not> valid s v \<Longrightarrow> \<exists>e. free v s = Panic e"
    and inv_distinct: "\<And>s xs. inv s xs \<Longrightarrow> distinct xs"
    and inv_valid: "\<And>s xs x. inv s xs \<Longrightarrow> x \<in> set xs \<Longrightarrow> valid s x \<and> x \<noteq> 0"
begin

lemma alloc_many:
  assumes "inv s xs" and "ready s" and "n \<le> length xs"
  shows "\<exists>t. krepeat n alloc s = Ok (take n xs) t \<and> inv t (drop n xs) \<and> ready t \<and> valid t = valid s"
  using assms
proof (induction n arbitrary: s xs)
  case 0
  then show ?case by (simp add: krun)
next
  case (Suc n)
  then obtain x ys where xs: "xs = x # ys" by (cases xs) auto
  then obtain t where t: "alloc s = Ok x t" "inv t ys" "ready t" "valid t = valid s"
    using alloc_page [of s x ys] Suc.prems by auto
  then show ?case using Suc.IH [of t ys] Suc.prems(3) by (auto simp: xs krun)
qed

lemma alloc_all_then_none:
  assumes "inv s xs" and "ready s"
  shows "\<exists>t. krepeat (Suc (length xs)) alloc s = Ok (xs @ [0]) t \<and> inv t []"
  using assms
proof (induction xs arbitrary: s)
  case Nil
  then show ?case using alloc_empty [of s] by (simp add: krun)
next
  case (Cons x xs)
  then obtain t where t: "alloc s = Ok x t" "inv t xs" "ready t"
    using alloc_page [of s x xs] by auto
  from Cons.IH [OF t(2,3)] obtain u where "krepeat (Suc (length xs)) alloc t = Ok (xs @ [0]) u" "inv u []"
    by blast
  then show ?case using t(1) by (simp add: kbind_run kret_run del: krepeat.simps(2) add: krepeat.simps(2) [of "Suc n" for n])
qed

lemma free_alloc:
  assumes "inv s xs" and "ready s" and "valid s v" and "v \<notin> set xs"
  shows "\<exists>t. kseq (free v) alloc s = Ok v t \<and> inv t xs"
  using free_page [OF assms] alloc_page by (fastforce simp: krun)

end

text \<open>The allocator of \<^verbatim>\<open>kalloc.c\<close> implements the interface.\<close>

interpretation kmem: page_allocator kalloc kfree kmem_inv "\<lambda>s. KmemLock \<notin> set (held s)"
  "\<lambda>s. page_ok (sym_end (syms s))"
proof (unfold_locales, goal_cases)
  case (1 s)
  then show ?case by (rule kalloc_Nil)
next
  case (2 s x xs)
  then show ?case using kalloc_Cons [of s x xs] by simp
next
  case (3 s xs v)
  then show ?case using kfree_ok [of s xs v] by fastforce
next
  case (4 s v)
  then show ?case by (simp add: kfree_panic)
next
  case (5 s xs)
  then show ?case by (simp add: kmem_inv_def)
next
  case (6 s xs x)
  then show ?case using page_ok_nonzero by (auto simp: kmem_inv_def)
qed

section \<open>Properties\<close>

text \<open>
  C13: From a free list that holds the pages \<open>xs\<close>, calling \<^verbatim>\<open>kalloc\<close> until it fails hands out every page of
  the list, each exactly once, and then returns 0.
\<close>

theorem kalloc_each_page_once:
  fixes s :: "'z kmem_scheme"
  assumes "kmem_inv s xs" and "KmemLock \<notin> set (held s)"
  shows "\<exists>t. krepeat (Suc (length xs)) kalloc s = Ok (xs @ [0]) t \<and> kmem_inv t [] \<and> distinct (xs @ [0])"
proof -
  have "distinct (xs @ [0])"
    using kmem.inv_distinct [OF assms(1)] kmem.inv_valid [OF assms(1)] by auto
  then show ?thesis using kmem.alloc_all_then_none [OF assms] by blast
qed

text \<open>
  C14: \<^verbatim>\<open>kinit1\<close> on an empty free list makes exactly the whole pages between \<^verbatim>\<open>vstart\<close> and \<^verbatim>\<open>vend\<close> free,
  and changes no byte outside of the memory and the list.
\<close>

theorem kinit1_frees_range:
  fixes s :: "'z kmem_scheme"
  assumes "KERNBASE \<le> sym_end (syms s)" and "sym_end (syms s) \<le> PGROUNDUP vstart"
    and "unat (PGROUNDUP vstart) \<le> 0x8E000000" and "unat vend \<le> 0x8E000000"
    and "freelist s = 0" and "KmemLock \<notin> set (held s)"
  shows "\<exists>m f xs. kinit1 vstart vend s = Ok () (s\<lparr>use_lock := False, mem := m, freelist := f\<rparr>)
     \<and> kmem_inv (s\<lparr>use_lock := False, mem := m, freelist := f\<rparr>) xs
     \<and> set xs = range_pages (PGROUNDUP vstart) vend"
proof -
  have "kmem_inv (s\<lparr>use_lock := False\<rparr>) []" using assms by (simp add: kmem_inv_def)
  then show ?thesis
    using freerange_loop_ok [of "s\<lparr>use_lock := False\<rparr>" "[]" "PGROUNDUP vstart" vend] assms PGROUNDUP_aligned
    by (simp add: kinit1_def freerange_def krun)
qed

definition boot_state :: kmem where
  "boot_state = \<lparr>held = [], con = \<lparr>panicked = False, locking = False, uart = False, uart_out = [],
     crt = (\<lambda>_. 0), crt_pos = 0\<rparr>, mem = (\<lambda>_. 0), freelist = 0, use_lock = False,
     syms = \<lparr>sym_end = 0x80115000, sym_data = 0x80108000, sym_trapret = 0x80105000,
             sym_forkret = 0x80103000, sym_initcode = []\<rparr>\<rparr>"

theorem kinit1_frees_range_witness:
  "\<exists>m f xs. kinit1 0x80115123 0x80400000 boot_state = Ok () (boot_state\<lparr>use_lock := False, mem := m, freelist := f\<rparr>)
     \<and> kmem_inv (boot_state\<lparr>use_lock := False, mem := m, freelist := f\<rparr>) xs
     \<and> set xs = range_pages 0x80116000 0x80400000"
proof -
  have r: "PGROUNDUP 0x80115123 = 0x80116000" by (simp add: PGROUNDUP_def PGSIZE_def)
  show ?thesis
    using kinit1_frees_range [of boot_state "0x80115123" "0x80400000"]
    by (simp add: r) (simp add: boot_state_def KERNBASE_def)
qed

theorem kalloc_each_page_once_witness:
  "\<exists>t. krepeat 2 kalloc (boot_state\<lparr>freelist := 0x80116000\<rparr>) = Ok [0x80116000, 0] t \<and> kmem_inv t []"
proof -
  let ?s = "boot_state\<lparr>freelist := 0x80116000\<rparr>"
  have "kmem_inv ?s [0x80116000]"
    by (simp add: kmem_inv_def boot_state_def KERNBASE_def page_ok_def page_aligned_def PGSIZE_def V2P_def
        PHYSTOP_def load32_def)
  moreover have "KmemLock \<notin> set (held ?s)" by (simp add: boot_state_def)
  ultimately show ?thesis
    using kalloc_each_page_once [of ?s "[0x80116000]"] by (auto simp: numeral_2_eq_2)
qed

end
