(* ===== verification/Vm.thy ===== *)
theory Vm
  imports Kalloc
begin

text \<open>
  Page tables (\<^verbatim>\<open>vm.c\<close>).  A page directory is the kernel address of a page of 1024 words in the memory;
  the routines walk and change it there.  The translation that the hardware does is modelled beside them:
  it is what a kernel access to a user address goes through.
\<close>

section \<open>Page table entries (mmu.h)\<close>

definition PTE_P :: uint where "PTE_P = 0x001"
definition PTE_W :: uint where "PTE_W = 0x002"
definition PTE_U :: uint where "PTE_U = 0x004"
definition NPDENTRIES :: nat where "NPDENTRIES = 1024"

definition PDX :: "uint \<Rightarrow> uint" where "PDX va = drop_bit 22 va AND 0x3FF"
definition PTX :: "uint \<Rightarrow> uint" where "PTX va = drop_bit 12 va AND 0x3FF"
definition PGADDR :: "uint \<Rightarrow> uint \<Rightarrow> uint \<Rightarrow> uint" where
  "PGADDR d t i = push_bit 22 d OR push_bit 12 t OR i"
definition PTE_ADDR :: "uint \<Rightarrow> uint" where "PTE_ADDR pte = pte AND NOT 0xFFF"
definition PTE_FLAGS :: "uint \<Rightarrow> uint" where "PTE_FLAGS pte = pte AND 0xFFF"

section \<open>Walking and mapping\<close>

text \<open>The address of the page table entry of \<open>va\<close>, 0 when there is none.\<close>

definition walkpgdir :: "uint \<Rightarrow> uint \<Rightarrow> bool \<Rightarrow> (uint, 'z kmem_scheme) M" where
  "walkpgdir pgdir va alloc =
     (let pde = pgdir + 4 * PDX va in
      kbind (kget (\<lambda>s. load32 (mem s) pde)) (\<lambda>e.
      if e AND PTE_P \<noteq> 0 then kret (P2V (PTE_ADDR e) + 4 * PTX va)
      else if \<not> alloc then kret 0
      else
        kbind kalloc (\<lambda>pgtab.
        if pgtab = 0 then kret 0
        else
          kseq (kmod (\<lambda>s. s\<lparr>mem := memset (mem s) pgtab 0 PGSIZE\<rparr>))
         (kseq (kmod (\<lambda>s. s\<lparr>mem := store32 (mem s) pde (V2P pgtab OR PTE_P OR PTE_W OR PTE_U)\<rparr>))
               (kret (pgtab + 4 * PTX va))))))"

text \<open>
  The loop of \<^verbatim>\<open>mappages\<close> ends at the page \<open>last\<close>; \<open>n\<close> counts the pages that are left after the
  current one, and is 0 exactly when \<open>a = last\<close>.  The result is 0, or -1 when there is no memory for a
  page table.
\<close>

primrec mappages_loop :: "nat \<Rightarrow> uint \<Rightarrow> uint \<Rightarrow> uint \<Rightarrow> uint \<Rightarrow> (int, 'z kmem_scheme) M" where
  "mappages_loop 0 pgdir a pa perm =
     kbind (walkpgdir pgdir a True) (\<lambda>pte.
     if pte = 0 then kret (- 1)
     else
       kbind (kget (\<lambda>s. load32 (mem s) pte)) (\<lambda>e.
       if e AND PTE_P \<noteq> 0 then kpanic ''remap''
       else
         kseq (kmod (\<lambda>s. s\<lparr>mem := store32 (mem s) pte (pa OR perm OR PTE_P)\<rparr>))
              (kret 0)))"
| "mappages_loop (Suc n) pgdir a pa perm =
     kbind (walkpgdir pgdir a True) (\<lambda>pte.
     if pte = 0 then kret (- 1)
     else
       kbind (kget (\<lambda>s. load32 (mem s) pte)) (\<lambda>e.
       if e AND PTE_P \<noteq> 0 then kpanic ''remap''
       else
         kseq (kmod (\<lambda>s. s\<lparr>mem := store32 (mem s) pte (pa OR perm OR PTE_P)\<rparr>))
              (mappages_loop n pgdir (a + PGSIZE) (pa + PGSIZE) perm)))"

definition mappages :: "uint \<Rightarrow> uint \<Rightarrow> uint \<Rightarrow> uint \<Rightarrow> uint \<Rightarrow> (int, 'z kmem_scheme) M" where
  "mappages pgdir va sz pa perm =
     (let a = PGROUNDDOWN va; lst = PGROUNDDOWN (va + sz - 1)
      in mappages_loop (unat ((lst - a) div PGSIZE)) pgdir a pa perm)"

section \<open>Growing and shrinking\<close>

text \<open>
  The loop of \<^verbatim>\<open>deallocuvm\<close>.  The next address is \<open>a + PGSIZE\<close>, or the start of the next 4 megabytes
  when there is no page table for \<open>a\<close>.  Past the last 4 megabytes the address would wrap around to 0 and
  the loop would never end; the model does not return there.
\<close>

function deallocuvm_loop :: "uint \<Rightarrow> uint \<Rightarrow> uint \<Rightarrow> (unit, 'z kmem_scheme) M" where
  "deallocuvm_loop pgdir a oldsz =
     (if a < oldsz then
        kbind (walkpgdir pgdir a False) (\<lambda>pte.
        if pte = 0 then
          (let a' = PGADDR (PDX a + 1) 0 0
           in if a < a' then deallocuvm_loop pgdir a' oldsz else kundef)
        else
          kbind (kget (\<lambda>s. load32 (mem s) pte)) (\<lambda>e.
          kseq (if e AND PTE_P \<noteq> 0 then
                  if PTE_ADDR e = 0 then kpanic ''kfree''
                  else kseq (kfree (P2V (PTE_ADDR e)))
                            (kmod (\<lambda>s. s\<lparr>mem := store32 (mem s) pte 0\<rparr>))
                else kret ())
               (if a < a + PGSIZE then deallocuvm_loop pgdir (a + PGSIZE) oldsz else kundef)))
      else kret ())"
  by pat_completeness auto
termination
  by (relation "measure (\<lambda>(pgdir, a, oldsz). unat oldsz - unat a)")
     (auto simp: word_less_nat_alt)

declare deallocuvm_loop.simps [simp del]

definition deallocuvm :: "uint \<Rightarrow> uint \<Rightarrow> uint \<Rightarrow> (uint, 'z kmem_scheme) M" where
  "deallocuvm pgdir oldsz newsz =
     (if newsz \<ge> oldsz then kret oldsz
      else kseq (deallocuvm_loop pgdir (PGROUNDUP newsz) oldsz) (kret newsz))"

text \<open>\<open>oldsz\<close> is the size to go back to when memory runs out.\<close>

function allocuvm_loop :: "uint \<Rightarrow> uint \<Rightarrow> uint \<Rightarrow> uint \<Rightarrow> (uint, 'z kmem_scheme) M" where
  "allocuvm_loop pgdir a oldsz newsz =
     (if a < newsz then
        kbind kalloc (\<lambda>m.
        if m = 0 then
          kseq (cprintf ''allocuvm out of memory\<newline>'' [])
         (kbind (deallocuvm pgdir newsz oldsz) (\<lambda>_. kret 0))
        else
          kseq (kmod (\<lambda>s. s\<lparr>mem := memset (mem s) m 0 PGSIZE\<rparr>))
         (kbind (mappages pgdir a PGSIZE (V2P m) (PTE_W OR PTE_U)) (\<lambda>r.
          if r < 0 then
            kseq (cprintf ''allocuvm out of memory (2)\<newline>'' [])
           (kbind (deallocuvm pgdir newsz oldsz) (\<lambda>_.
            kseq (kfree m) (kret 0)))
          else if a < a + PGSIZE then allocuvm_loop pgdir (a + PGSIZE) oldsz newsz else kundef)))
      else kret newsz)"
  by pat_completeness auto
termination
  by (relation "measure (\<lambda>(pgdir, a, oldsz, newsz). unat newsz - unat a)")
     (auto simp: word_less_nat_alt)

declare allocuvm_loop.simps [simp del]

definition allocuvm :: "uint \<Rightarrow> uint \<Rightarrow> uint \<Rightarrow> (uint, 'z kmem_scheme) M" where
  "allocuvm pgdir oldsz newsz =
     (if newsz \<ge> KERNBASE then kret 0
      else if newsz < oldsz then kret oldsz
      else allocuvm_loop pgdir (PGROUNDUP oldsz) oldsz newsz)"

definition freevm :: "uint \<Rightarrow> (unit, 'z kmem_scheme) M" where
  "freevm pgdir =
     (if pgdir = 0 then kpanic ''freevm: no pgdir''
      else
        kbind (deallocuvm pgdir KERNBASE 0) (\<lambda>_.
        kseq (kfor [0..<NPDENTRIES] (\<lambda>i.
                kbind (kget (\<lambda>s. load32 (mem s) (pgdir + 4 * of_nat i))) (\<lambda>e.
                kwhen (e AND PTE_P \<noteq> 0) (kfree (P2V (PTE_ADDR e))))))
             (kfree pgdir)))"

section \<open>The kernel part of a page table\<close>

record kmap_entry =
  km_virt :: uint
  km_phys_start :: uint
  km_phys_end :: uint
  km_perm :: uint

definition kmap :: "uint \<Rightarrow> kmap_entry list" where
  "kmap data =
     [\<lparr>km_virt = KERNBASE, km_phys_start = 0, km_phys_end = EXTMEM, km_perm = PTE_W\<rparr>,
      \<lparr>km_virt = KERNLINK, km_phys_start = V2P KERNLINK, km_phys_end = V2P data, km_perm = 0\<rparr>,
      \<lparr>km_virt = data, km_phys_start = V2P data, km_phys_end = PHYSTOP, km_perm = PTE_W\<rparr>,
      \<lparr>km_virt = DEVSPACE, km_phys_start = DEVSPACE, km_phys_end = 0, km_perm = PTE_W\<rparr>]"

primrec setupkvm_loop :: "kmap_entry list \<Rightarrow> uint \<Rightarrow> (uint, 'z kmem_scheme) M" where
  "setupkvm_loop [] pgdir = kret pgdir"
| "setupkvm_loop (k # ks) pgdir =
     kbind (mappages pgdir (km_virt k) (km_phys_end k - km_phys_start k) (km_phys_start k) (km_perm k))
      (\<lambda>r. if r < 0 then kseq (freevm pgdir) (kret 0) else setupkvm_loop ks pgdir)"

definition setupkvm :: "(uint, 'z kmem_scheme) M" where
  "setupkvm =
     kbind kalloc (\<lambda>pgdir.
     if pgdir = 0 then kret 0
     else
       kseq (kmod (\<lambda>s. s\<lparr>mem := memset (mem s) pgdir 0 PGSIZE\<rparr>))
      (if P2V PHYSTOP > DEVSPACE then kpanic ''PHYSTOP too high''
       else kbind (kget (\<lambda>s. sym_data (syms s))) (\<lambda>d. setupkvm_loop (kmap d) pgdir)))"

section \<open>User pages\<close>

definition inituvm :: "uint \<Rightarrow> uchar list \<Rightarrow> (unit, 'z kmem_scheme) M" where
  "inituvm pgdir init =
     (if of_nat (length init) \<ge> PGSIZE then kpanic ''inituvm: more than a page''
      else
        kbind kalloc (\<lambda>m.
        kseq (kmod (\<lambda>s. s\<lparr>mem := memset (mem s) m 0 PGSIZE\<rparr>))
       (kbind (mappages pgdir 0 PGSIZE (V2P m) (PTE_W OR PTE_U)) (\<lambda>_.
        kmod (\<lambda>s. s\<lparr>mem := store_bytes (mem s) m init\<rparr>)))))"

definition clearpteu :: "uint \<Rightarrow> uint \<Rightarrow> (unit, 'z kmem_scheme) M" where
  "clearpteu pgdir uva =
     kbind (walkpgdir pgdir uva False) (\<lambda>pte.
     if pte = 0 then kpanic ''clearpteu''
     else kmod (\<lambda>s. s\<lparr>mem := store32 (mem s) pte (load32 (mem s) pte AND NOT PTE_U)\<rparr>))"

function copyuvm_loop :: "uint \<Rightarrow> uint \<Rightarrow> uint \<Rightarrow> uint \<Rightarrow> (uint, 'z kmem_scheme) M" where
  "copyuvm_loop pgdir d i sz =
     (if i < sz then
        kbind (walkpgdir pgdir i False) (\<lambda>pte.
        if pte = 0 then kpanic ''copyuvm: pte should exist''
        else
          kbind (kget (\<lambda>s. load32 (mem s) pte)) (\<lambda>e.
          if e AND PTE_P = 0 then kpanic ''copyuvm: page not present''
          else
            kbind kalloc (\<lambda>m.
            if m = 0 then kseq (freevm d) (kret 0)
            else
              kseq (kmod (\<lambda>s. s\<lparr>mem := memmove (mem s) m (P2V (PTE_ADDR e)) PGSIZE\<rparr>))
             (kbind (mappages d i PGSIZE (V2P m) (PTE_FLAGS e)) (\<lambda>r.
              if r < 0 then kseq (kfree m) (kseq (freevm d) (kret 0))
              else if i < i + PGSIZE then copyuvm_loop pgdir d (i + PGSIZE) sz else kundef)))))
      else kret d)"
  by pat_completeness auto
termination
  by (relation "measure (\<lambda>(pgdir, d, i, sz). unat sz - unat i)")
     (auto simp: word_less_nat_alt)

declare copyuvm_loop.simps [simp del]

definition copyuvm :: "uint \<Rightarrow> uint \<Rightarrow> (uint, 'z kmem_scheme) M" where
  "copyuvm pgdir sz =
     kbind setupkvm (\<lambda>d. if d = 0 then kret 0 else copyuvm_loop pgdir d 0 sz)"

text \<open>\<^verbatim>\<open>uva2ka\<close> does not check for a missing page table: it reads through the null pointer then.\<close>

definition uva2ka :: "uint \<Rightarrow> uint \<Rightarrow> (uint, 'z kmem_scheme) M" where
  "uva2ka pgdir uva =
     kbind (walkpgdir pgdir uva False) (\<lambda>pte.
     if pte = 0 then kundef
     else
       kbind (kget (\<lambda>s. load32 (mem s) pte)) (\<lambda>e.
       if e AND PTE_P = 0 then kret 0
       else if e AND PTE_U = 0 then kret 0
       else kret (P2V (PTE_ADDR e))))"

text \<open>\<open>buf\<close> is what is left of the kernel buffer; \<open>len\<close> is its length.\<close>

function copyout :: "uint \<Rightarrow> uint \<Rightarrow> uchar list \<Rightarrow> (int, 'z kmem_scheme) M" where
  "copyout pgdir va buf =
     (if buf = [] then kret 0
      else
        (let va0 = PGROUNDDOWN va in
         kbind (uva2ka pgdir va0) (\<lambda>pa0.
         if pa0 = 0 then kret (- 1)
         else
           (let n = min (unat (PGSIZE - (va - va0))) (length buf) in
            kseq (kmod (\<lambda>s. s\<lparr>mem := store_bytes (mem s) (pa0 + (va - va0)) (take n buf)\<rparr>))
                 (if n = 0 then kundef else copyout pgdir (va0 + PGSIZE) (drop n buf))))))"
  by pat_completeness auto
termination
  by (relation "measure (\<lambda>(pgdir, va, buf). length buf)") auto

declare copyout.simps [simp del]

section \<open>The translation done by the hardware\<close>

definition mmu_pte :: "memory \<Rightarrow> uint \<Rightarrow> uint \<Rightarrow> uint option" where
  "mmu_pte m pgdir va =
     (let e = load32 m (pgdir + 4 * PDX va) in
      if e AND PTE_P = 0 then None
      else let e' = load32 m (P2V (PTE_ADDR e) + 4 * PTX va)
           in if e' AND PTE_P = 0 then None else Some e')"

definition mmu_translate :: "memory \<Rightarrow> uint \<Rightarrow> uint \<Rightarrow> uint option" where
  "mmu_translate m pgdir va =
     map_option (\<lambda>e. P2V (PTE_ADDR e) + (va AND 0xFFF)) (mmu_pte m pgdir va)"

section \<open>What the routines change\<close>

definition vm_rel :: "'z kmem_scheme \<Rightarrow> 'z kmem_scheme \<Rightarrow> bool" where
  "vm_rel s t \<longleftrightarrow> (\<exists>k m f. t = s\<lparr>con := k, mem := m, freelist := f\<rparr>)"

lemma vm_relI: "vm_rel s (s\<lparr>con := k, mem := m, freelist := f\<rparr>)"
  unfolding vm_rel_def by blast

lemma vm_rel_refl: "vm_rel s s"
  using vm_relI [where s = s and k = "con s" and m = "mem s" and f = "freelist s"] by simp

lemma vm_rel_mem: "vm_rel s (s\<lparr>mem := m\<rparr>)"
  using vm_relI [where s = s and k = "con s" and f = "freelist s"] by simp

lemma vm_rel_freelist: "vm_rel s (s\<lparr>freelist := f\<rparr>)"
  using vm_relI [where s = s and k = "con s" and m = "mem s"] by simp

lemma vm_rel_mem_freelist: "vm_rel s (s\<lparr>mem := m, freelist := f\<rparr>)"
  using vm_relI [where s = s and k = "con s"] by simp

interpretation vm_frame: state_frame "vm_rel :: 'z kmem_scheme \<Rightarrow> 'z kmem_scheme \<Rightarrow> bool"
proof
  fix s t u :: "'z kmem_scheme"
  show "vm_rel s s" by (rule vm_rel_refl)
  assume "vm_rel s t" "vm_rel t u"
  then obtain k m f k' m' f' where "t = s\<lparr>con := k, mem := m, freelist := f\<rparr>"
    "u = t\<lparr>con := k', mem := m', freelist := f'\<rparr>"
    unfolding vm_rel_def by blast
  then show "vm_rel s u" by (simp add: vm_relI)
qed

lemma mod_mem_frame: "kframe vm_rel (kmod (\<lambda>s. s\<lparr>mem := f s\<rparr>))"
  by (rule kframe_mod) (rule vm_rel_mem)

lemma cprintf_vm_frame: "kframe vm_rel (cprintf fmt args :: (unit, 'z kmem_scheme) M)"
proof (rule kframe_mono [OF cprintf_frame])
  fix s t :: "'z kmem_scheme"
  assume "con_rel s t"
  then obtain k where "t = s\<lparr>con := k\<rparr>" by (auto simp: con_rel_def)
  then show "vm_rel s t" using vm_relI [where s = s and m = "mem s" and f = "freelist s"] by simp
qed

lemma kalloc_frame: "kframe vm_rel (kalloc :: (uint, 'z kmem_scheme) M)"
  unfolding kframe_def kalloc_def
  by (auto simp: krun acquire_def release_def vm_rel_refl vm_rel_freelist split: if_splits)

lemma kfree_frame: "kframe vm_rel (kfree v :: (unit, 'z kmem_scheme) M)"
  unfolding kframe_def kfree_def
  by (auto simp: krun acquire_def release_def vm_rel_mem_freelist split: if_splits)

lemmas vm_frames = vm_frame.frame mod_mem_frame cprintf_vm_frame kalloc_frame kfree_frame

lemma walkpgdir_frame: "kframe vm_rel (walkpgdir pgdir va alloc :: (uint, 'z kmem_scheme) M)"
  unfolding walkpgdir_def Let_def by (intro vm_frames)

lemma mappages_frame: "kframe vm_rel (mappages pgdir va sz pa perm :: (int, 'z kmem_scheme) M)"
proof -
  have "kframe vm_rel (mappages_loop n pgdir a pa perm :: (int, 'z kmem_scheme) M)" for n a pa
    by (induction n arbitrary: a pa)
       (auto intro!: vm_frames walkpgdir_frame)
  then show ?thesis by (simp add: mappages_def Let_def)
qed

lemma deallocuvm_loop_frame:
  "kframe vm_rel (deallocuvm_loop pgdir a oldsz :: (unit, 'z kmem_scheme) M)"
proof (induction pgdir a oldsz rule: deallocuvm_loop.induct)
  case (1 pgdir a oldsz)
  show ?case
    unfolding deallocuvm_loop.simps [of pgdir a oldsz] Let_def
    by (intro vm_frames walkpgdir_frame 1 refl)
qed

lemma deallocuvm_frame: "kframe vm_rel (deallocuvm pgdir oldsz newsz :: (uint, 'z kmem_scheme) M)"
  unfolding deallocuvm_def by (intro vm_frames deallocuvm_loop_frame)

lemma allocuvm_loop_frame:
  "kframe vm_rel (allocuvm_loop pgdir a oldsz newsz :: (uint, 'z kmem_scheme) M)"
proof (induction pgdir a oldsz newsz rule: allocuvm_loop.induct)
  case (1 pgdir a oldsz newsz)
  show ?case
    unfolding allocuvm_loop.simps [of pgdir a oldsz newsz]
    by (intro vm_frames mappages_frame deallocuvm_frame 1)
qed

lemma allocuvm_frame: "kframe vm_rel (allocuvm pgdir oldsz newsz :: (uint, 'z kmem_scheme) M)"
  unfolding allocuvm_def by (intro vm_frames allocuvm_loop_frame)

lemma freevm_frame: "kframe vm_rel (freevm pgdir :: (unit, 'z kmem_scheme) M)"
  unfolding freevm_def by (intro vm_frames deallocuvm_frame)

lemma setupkvm_frame: "kframe vm_rel (setupkvm :: (uint, 'z kmem_scheme) M)"
proof -
  have "kframe vm_rel (setupkvm_loop ks pgdir :: (uint, 'z kmem_scheme) M)" for ks pgdir
    by (induction ks) (auto intro!: vm_frames mappages_frame freevm_frame)
  then show ?thesis unfolding setupkvm_def by (intro vm_frames)
qed

lemma inituvm_frame: "kframe vm_rel (inituvm pgdir ini :: (unit, 'z kmem_scheme) M)"
  unfolding inituvm_def by (intro vm_frames mappages_frame)

lemma clearpteu_frame: "kframe vm_rel (clearpteu pgdir uva :: (unit, 'z kmem_scheme) M)"
  unfolding clearpteu_def by (intro vm_frames walkpgdir_frame)

lemma copyuvm_loop_frame: "kframe vm_rel (copyuvm_loop pgdir d i sz :: (uint, 'z kmem_scheme) M)"
proof (induction pgdir d i sz rule: copyuvm_loop.induct)
  case (1 pgdir d i sz)
  show ?case
    unfolding copyuvm_loop.simps [of pgdir d i sz]
    by (intro vm_frames mappages_frame walkpgdir_frame freevm_frame 1)
qed

lemma copyuvm_frame: "kframe vm_rel (copyuvm pgdir sz :: (uint, 'z kmem_scheme) M)"
  unfolding copyuvm_def by (intro vm_frames setupkvm_frame copyuvm_loop_frame)

lemma copyout_frame: "kframe vm_rel (copyout pgdir va buf :: (int, 'z kmem_scheme) M)"
proof (induction pgdir va buf rule: copyout.induct)
  case (1 pgdir va buf)
  show ?case
    unfolding copyout.simps [of pgdir va buf] Let_def uva2ka_def
    by (intro vm_frames walkpgdir_frame 1 refl)
qed

end
