(* ===== verification/Proc.thy ===== *)
theory Proc
  imports Vm
begin

text \<open>
  Processes and the scheduler (\<^verbatim>\<open>proc.h\<close>, \<^verbatim>\<open>proc.c\<close>), as far as they do not need the file system:
  the process table, the allocation of a process, the priority scheduler, sleeping and waking up, killing,
  the priorities and statistics, growing a process and waiting for children.  A process is its index in
  the table.
\<close>

section \<open>The process table\<close>

datatype procstate = UNUSED | EMBRYO | SLEEPING | RUNNABLE | RUNNING | ZOMBIE

record proc =
  p_sz :: uint
  p_pgdir :: uint
  p_kstack :: uint
  p_state :: procstate
  p_pid :: int
  p_parent :: "nat option"
  p_tf :: uint
  p_context :: uint
  p_chan :: "chan option"
  p_killed :: bool
  p_ofile :: "nat option list"
  p_cwd :: "nat option"
  p_name :: "uchar list"
  p_priority :: int
  p_wait_time :: uint
  p_run_time :: uint
  p_turnaround_time :: uint
  p_creation_time :: uint
  p_last_scheduled :: uint

text \<open>
  \<open>initproc\<close> and \<open>nextpid\<close> are the globals of \<^verbatim>\<open>proc.c\<close>; \<open>curproc\<close> is \<^verbatim>\<open>mycpu()->proc\<close>; \<open>cr3\<close> and
  \<open>ts_esp0\<close> are the registers that \<^verbatim>\<open>switchuvm\<close> loads, and \<open>kpgdir\<close> the page table of the scheduler.
\<close>

record proctable =
  procs :: "proc list"
  nextpid :: int
  initproc :: "nat option"

record kproc = kmem +
  ptable :: proctable
  curproc :: "nat option"
  ticks :: uint
  cr3 :: uint
  ts_esp0 :: uint
  kpgdir :: uint

definition getp :: "nat \<Rightarrow> (proc, 'z kproc_scheme) M" where
  "getp i = (\<lambda>s. if i < length (procs (ptable s)) then Ok (procs (ptable s) ! i) s else Undef)"

definition ptable_upd :: "nat \<Rightarrow> (proc \<Rightarrow> proc) \<Rightarrow> proctable \<Rightarrow> proctable" where
  "ptable_upd i f pt = pt\<lparr>procs := (procs pt)[i := f (procs pt ! i)]\<rparr>"

definition updp :: "nat \<Rightarrow> (proc \<Rightarrow> proc) \<Rightarrow> (unit, 'z kproc_scheme) M" where
  "updp i f = (\<lambda>s.
     if i < length (procs (ptable s)) then Ok () (s\<lparr>ptable := ptable_upd i f (ptable s)\<rparr>) else Undef)"

text \<open>The first process of the table, in the order of the loops, that satisfies a condition.\<close>

definition findp :: "(proc \<Rightarrow> bool) \<Rightarrow> proctable \<Rightarrow> nat option" where
  "findp P pt = find (\<lambda>i. P (procs pt ! i)) [0..<length (procs pt)]"

text \<open>A dereference of \<^verbatim>\<open>myproc()\<close>.\<close>

definition myproc :: "(nat, 'z kproc_scheme) M" where
  "myproc = kbind (kget curproc) kopt"

section \<open>Address spaces and processes (vm.c)\<close>

definition switchkvm :: "(unit, 'z kproc_scheme) M" where
  "switchkvm = kmod (\<lambda>s. s\<lparr>cr3 := V2P (kpgdir s)\<rparr>)"

definition switchuvm :: "nat \<Rightarrow> (unit, 'z kproc_scheme) M" where
  "switchuvm i =
     kbind (getp i) (\<lambda>p.
     if p_kstack p = 0 then kpanic ''switchuvm: no kstack''
     else if p_pgdir p = 0 then kpanic ''switchuvm: no pgdir''
     else kseq (kmod (\<lambda>s. s\<lparr>ts_esp0 := p_kstack p + KSTACKSIZE\<rparr>))
               (kmod (\<lambda>s. s\<lparr>cr3 := V2P (p_pgdir p)\<rparr>)))"

definition kvmalloc :: "(unit, 'z kproc_scheme) M" where
  "kvmalloc = kbind setupkvm (\<lambda>d. kseq (kmod (\<lambda>s. s\<lparr>kpgdir := d\<rparr>)) switchkvm)"

section \<open>Allocating a process\<close>

definition TF_SIZE :: uint where "TF_SIZE = 76"
definition CONTEXT_SIZE :: uint where "CONTEXT_SIZE = 20"

definition INT_MAX :: int where "INT_MAX = 2147483647"

text \<open>
  The kernel stack of a new process, with room for the trap frame and the context that starts it in
  \<^verbatim>\<open>forkret\<close>.
\<close>

definition allocproc_kstack :: "nat \<Rightarrow> (nat option, 'z kproc_scheme) M" where
  "allocproc_kstack i =
     kbind kalloc (\<lambda>ks.
     kseq (updp i (\<lambda>p. p\<lparr>p_kstack := ks\<rparr>))
    (if ks = 0 then kseq (updp i (\<lambda>p. p\<lparr>p_state := UNUSED\<rparr>)) (kret None)
     else
       (let sp = ks + KSTACKSIZE - TF_SIZE; sp2 = sp - 4; sp3 = sp2 - CONTEXT_SIZE in
        kseq (updp i (\<lambda>p. p\<lparr>p_tf := sp\<rparr>))
       (kseq (kmod (\<lambda>s. s\<lparr>mem := store32 (mem s) sp2 (sym_trapret (syms s))\<rparr>))
       (kseq (updp i (\<lambda>p. p\<lparr>p_context := sp3\<rparr>))
       (kseq (kmod (\<lambda>s. s\<lparr>mem := memset (mem s) sp3 0 CONTEXT_SIZE\<rparr>))
       (kseq (kmod (\<lambda>s. s\<lparr>mem := store32 (mem s) (sp3 + 16) (sym_forkret (syms s))\<rparr>))
             (kret (Some i)))))))))"

text \<open>Incrementing \<^verbatim>\<open>nextpid\<close> past the largest int is undefined.\<close>

definition allocproc :: "(nat option, 'z kproc_scheme) M" where
  "allocproc =
     kseq (acquire PtableLock)
    (kbind (kget (\<lambda>s. findp (\<lambda>p. p_state p = UNUSED) (ptable s))) (\<lambda>r. case r of
       None \<Rightarrow> kseq (release PtableLock) (kret None)
     | Some i \<Rightarrow>
         kseq (updp i (\<lambda>p. p\<lparr>p_state := EMBRYO\<rparr>))
        (kbind (kget (\<lambda>s. nextpid (ptable s))) (\<lambda>pid.
         if pid \<ge> INT_MAX then kundef
         else
           kseq (updp i (\<lambda>p. p\<lparr>p_pid := pid\<rparr>))
          (kseq (kmod (\<lambda>s. s\<lparr>ptable := (ptable s)\<lparr>nextpid := pid + 1\<rparr>\<rparr>))
          (kbind (kget ticks) (\<lambda>now.
           kseq (updp i (\<lambda>p. p\<lparr>p_priority := DEFAULT_PRIORITY, p_wait_time := 0, p_run_time := 0,
                               p_turnaround_time := 0, p_creation_time := now,
                               p_last_scheduled := now\<rparr>))
          (kseq (release PtableLock)
                (allocproc_kstack i)))))))))"

text \<open>
  \<^verbatim>\<open>growproc\<close>: \<open>n\<close> is an int added to the unsigned size, so it wraps around.
\<close>

definition growproc :: "uint \<Rightarrow> (int, 'z kproc_scheme) M" where
  "growproc n =
     kbind myproc (\<lambda>c.
     kbind (getp c) (\<lambda>p.
     kbind (if 0 <s n then allocuvm (p_pgdir p) (p_sz p) (p_sz p + n)
            else if n <s 0 then deallocuvm (p_pgdir p) (p_sz p) (p_sz p + n)
            else kret (p_sz p)) (\<lambda>sz.
     if n \<noteq> 0 \<and> sz = 0 then kret (- 1)
     else
       kseq (updp c (\<lambda>p. p\<lparr>p_sz := sz\<rparr>))
      (kseq (switchuvm c) (kret 0)))))"

section \<open>The scheduler\<close>

text \<open>The first loop: the time since \<open>last_scheduled\<close> is added to the running or waiting time.\<close>

definition update_timing :: "uint \<Rightarrow> proc \<Rightarrow> proc" where
  "update_timing now p =
     (if p_state p \<noteq> UNUSED \<and> p_last_scheduled p \<noteq> 0 then
        (let p' = (if p_state p = RUNNING then
                     p\<lparr>p_run_time := p_run_time p + (now - p_last_scheduled p)\<rparr>
                   else if p_state p = RUNNABLE then
                     p\<lparr>p_wait_time := p_wait_time p + (now - p_last_scheduled p)\<rparr>
                   else p)
         in p'\<lparr>p_last_scheduled := now\<rparr>)
      else p)"

text \<open>The second loop: one step of it, and the loop.\<close>

definition choose_step :: "proc list \<Rightarrow> nat option \<Rightarrow> nat \<Rightarrow> nat option" where
  "choose_step ps chosen i =
     (if p_state (ps ! i) \<noteq> RUNNABLE then chosen
      else case chosen of
        None \<Rightarrow> Some i
      | Some c \<Rightarrow> if p_priority (ps ! i) < p_priority (ps ! c) then Some i else chosen)"

definition choose_proc :: "proc list \<Rightarrow> nat option" where
  "choose_proc ps = foldl (choose_step ps) None [0..<length ps]"

text \<open>
  One round of the scheduler, up to the call of \<^verbatim>\<open>swtch\<close>: it returns the process that now runs, with
  \<open>ptable.lock\<close> held for it, or, when none is runnable, it releases the lock.
\<close>

definition scheduler_pick :: "(nat option, 'z kproc_scheme) M" where
  "scheduler_pick =
     kseq (acquire PtableLock)
    (kseq (kmod (\<lambda>s. s\<lparr>ptable := (ptable s)\<lparr>procs := map (update_timing (ticks s)) (procs (ptable s))\<rparr>\<rparr>))
    (kbind (kget (\<lambda>s. choose_proc (procs (ptable s)))) (\<lambda>chosen. case chosen of
       None \<Rightarrow> kseq (release PtableLock) (kret None)
     | Some c \<Rightarrow>
         kbind (kget ticks) (\<lambda>now.
         kseq (updp c (\<lambda>p. p\<lparr>p_last_scheduled := now\<rparr>))
        (kseq (kmod (\<lambda>s. s\<lparr>curproc := Some c\<rparr>))
        (kseq (switchuvm c)
        (kseq (updp c (\<lambda>p. p\<lparr>p_state := RUNNING\<rparr>))
              (kret (Some c)))))))))"

text \<open>The rest of the round, when the chosen process has given the CPU back.\<close>

definition scheduler_return :: "nat \<Rightarrow> (unit, 'z kproc_scheme) M" where
  "scheduler_return c =
     kseq switchkvm
    (kbind (kget ticks) (\<lambda>now.
     kseq (updp c (\<lambda>p. if p_last_scheduled p \<noteq> 0
                       then p\<lparr>p_run_time := p_run_time p + (now - p_last_scheduled p)\<rparr> else p))
    (kseq (updp c (\<lambda>p. p\<lparr>p_last_scheduled := now\<rparr>))
    (kseq (kmod (\<lambda>s. s\<lparr>curproc := None\<rparr>))
          (release PtableLock)))))"

section \<open>Giving up the CPU\<close>

text \<open>
  The depth of \<^verbatim>\<open>pushcli\<close> is the number of spin locks held, and interrupts are disabled while it is not
  0; the theory Spinlock has both.  The call of \<^verbatim>\<open>swtch\<close> ends the run of the thread.
\<close>

definition sched :: "('a, 'z kproc_scheme) M" where
  "sched =
     kbind myproc (\<lambda>c.
     kbind (kget held) (\<lambda>h.
     if PtableLock \<notin> set h then kpanic ''sched ptable.lock''
     else if length h \<noteq> 1 then kpanic ''sched locks''
     else
       kbind (getp c) (\<lambda>p.
       if p_state p = RUNNING then kpanic ''sched running'' else kswtch)))"

definition yield :: "('a, 'z kproc_scheme) M" where
  "yield =
     kseq (acquire PtableLock)
    (kbind myproc (\<lambda>c.
     kseq (updp c (\<lambda>p. p\<lparr>p_state := RUNNABLE\<rparr>))
           sched))"

definition yield_return :: "(unit, 'z kproc_scheme) M" where
  "yield_return = release PtableLock"

definition sleep :: "chan \<Rightarrow> lockid \<Rightarrow> ('a, 'z kproc_scheme) M" where
  "sleep ch lk =
     kbind (kget curproc) (\<lambda>p. case p of
       None \<Rightarrow> kpanic ''sleep''
     | Some c \<Rightarrow>
         kseq (kwhen (lk \<noteq> PtableLock) (kseq (acquire PtableLock) (release lk)))
        (kseq (updp c (\<lambda>p. p\<lparr>p_chan := Some ch\<rparr>))
        (kseq (updp c (\<lambda>p. p\<lparr>p_state := SLEEPING\<rparr>))
               sched)))"

text \<open>What \<^verbatim>\<open>sleep\<close> does once \<^verbatim>\<open>sched\<close> has returned to the process \<open>c\<close>.\<close>

definition sleep_return :: "nat \<Rightarrow> lockid \<Rightarrow> (unit, 'z kproc_scheme) M" where
  "sleep_return c lk =
     kseq (updp c (\<lambda>p. p\<lparr>p_chan := None\<rparr>))
          (kwhen (lk \<noteq> PtableLock) (kseq (release PtableLock) (acquire lk)))"

definition wakeup_proc :: "chan \<Rightarrow> proc \<Rightarrow> proc" where
  "wakeup_proc ch p =
     (if p_state p = SLEEPING \<and> p_chan p = Some ch then p\<lparr>p_state := RUNNABLE\<rparr> else p)"

definition wakeup1 :: "chan \<Rightarrow> (unit, 'z kproc_scheme) M" where
  "wakeup1 ch =
     kmod (\<lambda>s. s\<lparr>ptable := (ptable s)\<lparr>procs := map (wakeup_proc ch) (procs (ptable s))\<rparr>\<rparr>)"

definition wakeup :: "chan \<Rightarrow> (unit, 'z kproc_scheme) M" where
  "wakeup ch = kseq (acquire PtableLock) (kseq (wakeup1 ch) (release PtableLock))"

section \<open>Operations on other processes\<close>

definition kill :: "int \<Rightarrow> (int, 'z kproc_scheme) M" where
  "kill pid =
     kseq (acquire PtableLock)
    (kbind (kget (\<lambda>s. findp (\<lambda>p. p_pid p = pid) (ptable s))) (\<lambda>r. case r of
       Some i \<Rightarrow>
         kseq (updp i (\<lambda>p. p\<lparr>p_killed := True\<rparr>))
        (kseq (updp i (\<lambda>p. if p_state p = SLEEPING then p\<lparr>p_state := RUNNABLE\<rparr> else p))
        (kseq (release PtableLock) (kret 0)))
     | None \<Rightarrow> kseq (release PtableLock) (kret (- 1))))"

definition setpriority :: "int \<Rightarrow> int \<Rightarrow> (int, 'z kproc_scheme) M" where
  "setpriority pid priority =
     (if priority < MIN_PRIORITY \<or> priority > MAX_PRIORITY then kret (- 1)
      else
        kseq (acquire PtableLock)
       (kbind (kget (\<lambda>s. findp (\<lambda>p. p_pid p = pid) (ptable s))) (\<lambda>r. case r of
          Some i \<Rightarrow>
            kseq (updp i (\<lambda>p. p\<lparr>p_priority := priority\<rparr>))
           (kseq (release PtableLock) (kret 0))
        | None \<Rightarrow> kseq (release PtableLock) (kret (- 1)))))"

record pstat =
  ps_pid :: uint
  ps_priority :: uint
  ps_wait_time :: uint
  ps_run_time :: uint
  ps_turnaround_time :: uint

definition word_bytes :: "uint \<Rightarrow> uchar list" where
  "word_bytes w = [ucast w, ucast (drop_bit 8 w), ucast (drop_bit 16 w), ucast (drop_bit 24 w)]"

definition pstat_bytes :: "pstat \<Rightarrow> uchar list" where
  "pstat_bytes k = word_bytes (ps_pid k) @ word_bytes (ps_priority k) @ word_bytes (ps_wait_time k)
     @ word_bytes (ps_run_time k) @ word_bytes (ps_turnaround_time k)"

definition pstat_of :: "uint \<Rightarrow> proc \<Rightarrow> pstat" where
  "pstat_of now p =
     \<lparr>ps_pid = of_int (p_pid p), ps_priority = of_int (p_priority p), ps_wait_time = p_wait_time p,
      ps_run_time = p_run_time p,
      ps_turnaround_time = (if p_state p = ZOMBIE \<or> p_state p = UNUSED then p_turnaround_time p
                            else now - p_creation_time p)\<rparr>"

definition getstats :: "int \<Rightarrow> uint \<Rightarrow> (int, 'z kproc_scheme) M" where
  "getstats pid stats_user_ptr =
     kseq (acquire PtableLock)
    (kbind (kget (\<lambda>s. findp (\<lambda>p. p_pid p = pid) (ptable s))) (\<lambda>r. case r of
       Some i \<Rightarrow>
         kbind (getp i) (\<lambda>p.
         kbind (kget ticks) (\<lambda>now.
         kbind myproc (\<lambda>c.
         kbind (getp c) (\<lambda>me.
         kbind (copyout (p_pgdir me) stats_user_ptr (pstat_bytes (pstat_of now p))) (\<lambda>r.
         if r < 0 then kseq (release PtableLock) (kret (- 1))
         else kseq (release PtableLock) (kret 0))))))
     | None \<Rightarrow> kseq (release PtableLock) (kret (- 1))))"

section \<open>Waiting for a child\<close>

text \<open>
  The body of the loop of \<^verbatim>\<open>wait\<close>, run with \<open>ptable.lock\<close> held: it is run first, and again each time the
  process is woken up.
\<close>

definition wait_loop :: "nat \<Rightarrow> (int, 'z kproc_scheme) M" where
  "wait_loop c =
     kbind (kget (\<lambda>s. findp (\<lambda>p. p_parent p = Some c \<and> p_state p = ZOMBIE) (ptable s))) (\<lambda>r. case r of
       Some i \<Rightarrow>
         kbind (getp i) (\<lambda>p.
         kseq (kfree (p_kstack p))
        (kseq (updp i (\<lambda>p. p\<lparr>p_kstack := 0\<rparr>))
        (kseq (freevm (p_pgdir p))
        (kseq (updp i (\<lambda>p. p\<lparr>p_pid := 0, p_parent := None, p_name := (p_name p)[0 := 0],
                            p_killed := False, p_state := UNUSED\<rparr>))
        (kseq (release PtableLock)
              (kret (p_pid p)))))))
     | None \<Rightarrow>
         kbind (kget (\<lambda>s. findp (\<lambda>p. p_parent p = Some c) (ptable s))) (\<lambda>kid.
         kbind (getp c) (\<lambda>me.
         if kid = None \<or> p_killed me then kseq (release PtableLock) (kret (- 1))
         else sleep (ChProc c) PtableLock)))"

definition wait :: "(int, 'z kproc_scheme) M" where
  "wait = kbind myproc (\<lambda>c. kseq (acquire PtableLock) (wait_loop c))"

definition wait_return :: "nat \<Rightarrow> (int, 'z kproc_scheme) M" where
  "wait_return c = kseq (sleep_return c PtableLock) (wait_loop c)"

section \<open>The process listing\<close>

primrec getcallerpcs_loop :: "nat \<Rightarrow> memory \<Rightarrow> uint \<Rightarrow> uint list" where
  "getcallerpcs_loop 0 m ebp = []"
| "getcallerpcs_loop (Suc n) m ebp =
     (if ebp = 0 \<or> ebp < KERNBASE \<or> ebp = 0xffffffff then replicate (Suc n) 0
      else load32 m (ebp + 4) # getcallerpcs_loop n m (load32 m ebp))"

definition getcallerpcs :: "memory \<Rightarrow> uint \<Rightarrow> uint list" where
  "getcallerpcs m v = getcallerpcs_loop 10 m (v - 8)"

fun state_name :: "procstate \<Rightarrow> string" where
  "state_name UNUSED = ''unused''"
| "state_name EMBRYO = ''embryo''"
| "state_name SLEEPING = ''sleep ''"
| "state_name RUNNABLE = ''runble''"
| "state_name RUNNING = ''run   ''"
| "state_name ZOMBIE = ''zombie''"

definition procdump :: "(unit, 'z kproc_scheme) M" where
  "procdump =
     kfor [0..<NPROC] (\<lambda>i.
       kbind (getp i) (\<lambda>p.
       if p_state p = UNUSED then kret ()
       else
         kseq (cprintf ''%d %s %s prio:%d wait:%d run:%d''
                 [ArgU (of_int (p_pid p)), ArgS (Some (lit (state_name (p_state p)) @ [0])),
                  ArgS (Some (p_name p)), ArgU (of_int (p_priority p)), ArgU (p_wait_time p),
                  ArgU (p_run_time p)])
        (kseq (kwhen (p_state p = SLEEPING)
                (kbind (kget (\<lambda>s. getcallerpcs (mem s) (load32 (mem s) (p_context p + 12) + 8))) (\<lambda>pc.
                 kfor (takeWhile (\<lambda>x. x \<noteq> 0) pc) (\<lambda>x. cprintf '' %p'' [ArgU x]))))
              (cprintf [CHR 0x0A] []))))"

end
