(* ===== verification/Proc_Inv.thy ===== *)
theory Proc_Inv
  imports Proc
begin

text \<open>
  The process table as a state machine, its invariant, the refinement of the operations of the theory Proc
  to the steps of the machine, and the properties of the scheduler and of the operations on processes.
\<close>

section \<open>Lemmas on the table\<close>

lemma getp_run [krun]:
  "getp i s = (if i < length (procs (ptable s)) then Ok (procs (ptable s) ! i) s else Undef)"
  by (simp add: getp_def)

lemma updp_run [krun]:
  "updp i f s = (if i < length (procs (ptable s)) then Ok () (s\<lparr>ptable := ptable_upd i f (ptable s)\<rparr>)
     else Undef)"
  by (simp add: updp_def)

lemma myproc_run [krun]: "myproc s = (case curproc s of None \<Rightarrow> Undef | Some c \<Rightarrow> Ok c s)"
  by (simp add: myproc_def krun)

lemma ptable_upd_simps [simp]:
  "length (procs (ptable_upd i f pt)) = length (procs pt)"
  "nextpid (ptable_upd i f pt) = nextpid pt"
  "initproc (ptable_upd i f pt) = initproc pt"
  by (simp_all add: ptable_upd_def)

lemma ptable_upd_nth:
  "j < length (procs pt) \<Longrightarrow>
     procs (ptable_upd i f pt) ! j = (if i = j then f (procs pt ! j) else procs pt ! j)"
  by (simp add: ptable_upd_def nth_list_update)

lemma ptable_upd_upd [simp]:
  "i < length (procs pt) \<Longrightarrow> ptable_upd i f (ptable_upd i g pt) = ptable_upd i (f \<circ> g) pt"
  by (simp add: ptable_upd_def)

lemma findp_Some:
  "findp P pt = Some i \<longleftrightarrow> i < length (procs pt) \<and> P (procs pt ! i) \<and> (\<forall>j < i. \<not> P (procs pt ! j))"
  unfolding findp_def by (auto simp: find_Some_iff)

lemma findp_None: "findp P pt = None \<longleftrightarrow> (\<forall>j < length (procs pt). \<not> P (procs pt ! j))"
  unfolding findp_def by (auto simp: find_None_iff)

section \<open>The choice of the scheduler\<close>

text \<open>The best process among the first \<open>n\<close>: runnable, of least priority number, the first of those.\<close>

definition best :: "proc list \<Rightarrow> nat \<Rightarrow> nat option \<Rightarrow> bool" where
  "best ps n r \<longleftrightarrow> (case r of
     None \<Rightarrow> \<forall>i < n. p_state (ps ! i) \<noteq> RUNNABLE
   | Some c \<Rightarrow> c < n \<and> p_state (ps ! c) = RUNNABLE
       \<and> (\<forall>i < n. p_state (ps ! i) = RUNNABLE \<longrightarrow> p_priority (ps ! c) \<le> p_priority (ps ! i))
       \<and> (\<forall>i < c. p_state (ps ! i) = RUNNABLE \<longrightarrow> p_priority (ps ! c) < p_priority (ps ! i)))"

lemma best_step: "best ps n r \<Longrightarrow> best ps (Suc n) (choose_step ps r n)"
  unfolding best_def choose_step_def
  by (cases r) (force simp: less_Suc_eq not_less)+

lemma choose_proc_best: "best ps (length ps) (choose_proc ps)"
proof -
  have "best ps n (foldl (choose_step ps) None [0..<n])" for n
    by (induction n) (simp_all add: best_step, simp add: best_def)
  then show ?thesis by (simp add: choose_proc_def)
qed

lemma best_unique: "best ps n r \<Longrightarrow> best ps n r' \<Longrightarrow> r = r'"
  unfolding best_def
  by (cases r; cases r') (auto, metis linorder_neqE_nat not_less)

section \<open>The process table as a state machine\<close>

text \<open>
  The states a process goes through, as a step relation on the table and the process of the CPU.  Every
  operation of the kernel on the table is a sequence of these steps (the refinement lemmas below), and
  the invariant is proved on the steps.
\<close>

definition pt_map :: "(proc \<Rightarrow> proc) \<Rightarrow> proctable \<Rightarrow> proctable" where
  "pt_map f pt = pt\<lparr>procs := map f (procs pt)\<rparr>"

definition pt_core :: "proc \<Rightarrow> procstate \<times> int \<times> nat option \<times> int" where
  "pt_core p = (p_state p, p_pid p, p_parent p, p_priority p)"

definition pt_same :: "proctable \<Rightarrow> proctable \<Rightarrow> bool" where
  "pt_same pt pt' \<longleftrightarrow> map pt_core (procs pt') = map pt_core (procs pt) \<and> nextpid pt' = nextpid pt
     \<and> initproc pt' = initproc pt"

definition new_proc :: "int \<Rightarrow> uint \<Rightarrow> proc \<Rightarrow> proc" where
  "new_proc pid now p = p\<lparr>p_state := EMBRYO, p_pid := pid, p_priority := DEFAULT_PRIORITY,
     p_wait_time := 0, p_run_time := 0, p_turnaround_time := 0, p_creation_time := now,
     p_last_scheduled := now\<rparr>"

definition reap_proc :: "proc \<Rightarrow> proc" where
  "reap_proc p = p\<lparr>p_kstack := 0, p_pid := 0, p_parent := None, p_name := (p_name p)[0 := 0],
     p_killed := False, p_state := UNUSED\<rparr>"

definition reparent_proc :: "nat \<Rightarrow> nat option \<Rightarrow> proc \<Rightarrow> proc" where
  "reparent_proc c ini p = (if p_parent p = Some c then p\<lparr>p_parent := ini\<rparr> else p)"

definition set_state :: "procstate \<Rightarrow> proc \<Rightarrow> proc" where
  "set_state st p = p\<lparr>p_state := st\<rparr>"

definition wake_proc :: "(proc \<Rightarrow> bool) \<Rightarrow> proc \<Rightarrow> proc" where
  "wake_proc P p = (if p_state p = SLEEPING \<and> P p then p\<lparr>p_state := RUNNABLE\<rparr> else p)"

inductive ptstep :: "proctable \<times> nat option \<Rightarrow> proctable \<times> nat option \<Rightarrow> bool" where
  same: "pt_same pt pt' \<Longrightarrow> ptstep (pt, c) (pt', c)"
| alloc: "findp (\<lambda>p. p_state p = UNUSED) pt = Some i \<Longrightarrow>
    ptstep (pt, c) ((ptable_upd i (new_proc (nextpid pt) now) pt)\<lparr>nextpid := nextpid pt + 1\<rparr>, c)"
| discard: "i < length (procs pt) \<Longrightarrow> p_state (procs pt ! i) = EMBRYO \<Longrightarrow> p_parent (procs pt ! i) = None
    \<Longrightarrow> initproc pt \<noteq> Some i \<Longrightarrow> ptstep (pt, c) (ptable_upd i (set_state UNUSED) pt, c)"
| first: "i < length (procs pt) \<Longrightarrow> p_state (procs pt ! i) = EMBRYO \<Longrightarrow> initproc pt = None
    \<Longrightarrow> ptstep (pt, c) (pt\<lparr>initproc := Some i\<rparr>, c)"
| adopt: "i < length (procs pt) \<Longrightarrow> p_state (procs pt ! i) = EMBRYO \<Longrightarrow> p_state (procs pt ! c) = RUNNING
    \<Longrightarrow> prio = p_priority (procs pt ! i) \<or> prio = p_priority (procs pt ! c)
    \<Longrightarrow> ptstep (pt, Some c) (ptable_upd i (\<lambda>p. p\<lparr>p_parent := Some c, p_priority := prio\<rparr>) pt, Some c)"
| ready: "i < length (procs pt) \<Longrightarrow> p_state (procs pt ! i) = EMBRYO
    \<Longrightarrow> initproc pt = Some i \<or> p_parent (procs pt ! i) \<noteq> None
    \<Longrightarrow> ptstep (pt, c) (ptable_upd i (set_state RUNNABLE) pt, c)"
| pick: "choose_proc (procs pt) = Some c
    \<Longrightarrow> ptstep (pt, None) (ptable_upd c (set_state RUNNING) pt, Some c)"
| leave: "p_state (procs pt ! c) \<noteq> RUNNING \<Longrightarrow> ptstep (pt, Some c) (pt, None)"
| park: "p_state (procs pt ! c) = RUNNING \<Longrightarrow> st \<in> {SLEEPING, RUNNABLE}
    \<Longrightarrow> ptstep (pt, Some c) (ptable_upd c (\<lambda>p. p\<lparr>p_chan := ch, p_state := st\<rparr>) pt, Some c)"
| wake: "ptstep (pt, c) (pt_map (wake_proc P) pt, c)"
| kill: "ptstep (pt, c) (ptable_upd i (\<lambda>p. wake_proc (\<lambda>_. True) (p\<lparr>p_killed := True\<rparr>)) pt, c)"
| prio: "MIN_PRIORITY \<le> n \<Longrightarrow> n \<le> MAX_PRIORITY
    \<Longrightarrow> ptstep (pt, c) (ptable_upd i (\<lambda>p. p\<lparr>p_priority := n\<rparr>) pt, c)"
| exit: "p_state (procs pt ! c) = RUNNING \<Longrightarrow> initproc pt \<noteq> Some c
    \<Longrightarrow> ptstep (pt, Some c)
          (ptable_upd c (set_state ZOMBIE) (pt_map (reparent_proc c (initproc pt)) pt), Some c)"
| reap: "i < length (procs pt) \<Longrightarrow> p_state (procs pt ! i) = ZOMBIE \<Longrightarrow> p_parent (procs pt ! i) = Some c
    \<Longrightarrow> ptstep (pt, Some c) (ptable_upd i reap_proc pt, Some c)"

definition alive :: "proc \<Rightarrow> bool" where
  "alive p \<longleftrightarrow> p_state p \<in> {SLEEPING, RUNNABLE, RUNNING}"

text \<open>
  What holds of each process of the table: a pid that was handed out, a priority in range, it runs only as
  the process of the CPU, a parent that is alive, and, unless it is the first process, a parent at all.
\<close>

definition proc_ok :: "proctable \<Rightarrow> nat option \<Rightarrow> nat \<Rightarrow> bool" where
  "proc_ok pt cur i \<longleftrightarrow> (let p = procs pt ! i in
     0 \<le> p_pid p \<and> p_pid p < nextpid pt
   \<and> (p_state p \<noteq> UNUSED \<longrightarrow> p_pid p \<noteq> 0)
   \<and> MIN_PRIORITY \<le> p_priority p \<and> p_priority p \<le> MAX_PRIORITY
   \<and> (p_state p = RUNNING \<longrightarrow> cur = Some i)
   \<and> (p_state p = UNUSED \<longrightarrow> p_parent p = None)
   \<and> (\<forall>q. p_parent p = Some q \<longrightarrow> q < length (procs pt) \<and> alive (procs pt ! q))
   \<and> (p_state p \<notin> {UNUSED, EMBRYO} \<longrightarrow>
        (\<exists>r. initproc pt = Some r \<and> r < length (procs pt) \<and> alive (procs pt ! r))
      \<and> (p_parent p \<noteq> None \<or> initproc pt = Some i)))"

definition pt_inv :: "proctable \<times> nat option \<Rightarrow> bool" where
  "pt_inv = (\<lambda>(pt, cur).
     length (procs pt) = NPROC \<and> 1 \<le> nextpid pt
   \<and> (\<forall>i < length (procs pt). proc_ok pt cur i)
   \<and> (\<forall>i < length (procs pt). \<forall>j < length (procs pt).
        p_pid (procs pt ! i) = p_pid (procs pt ! j) \<and> p_pid (procs pt ! i) \<noteq> 0 \<longrightarrow> i = j)
   \<and> (\<forall>i. initproc pt = Some i \<longrightarrow>
        i < length (procs pt) \<and> p_state (procs pt ! i) \<notin> {UNUSED, ZOMBIE})
   \<and> (\<forall>c. cur = Some c \<longrightarrow> c < length (procs pt) \<and> p_state (procs pt ! c) \<notin> {UNUSED, EMBRYO}))"

lemma pt_map_simps [simp]:
  "length (procs (pt_map f pt)) = length (procs pt)"
  "nextpid (pt_map f pt) = nextpid pt" "initproc (pt_map f pt) = initproc pt"
  "i < length (procs pt) \<Longrightarrow> procs (pt_map f pt) ! i = f (procs pt ! i)"
  by (simp_all add: pt_map_def)

lemma pt_same_nth:
  assumes "pt_same pt pt'"
  shows "length (procs pt') = length (procs pt)" "nextpid pt' = nextpid pt" "initproc pt' = initproc pt"
    and "i < length (procs pt) \<Longrightarrow> pt_core (procs pt' ! i) = pt_core (procs pt ! i)"
proof -
  show len: "length (procs pt') = length (procs pt)"
    using assms unfolding pt_same_def by (metis length_map)
  show "nextpid pt' = nextpid pt" "initproc pt' = initproc pt" using assms by (simp_all add: pt_same_def)
  show "i < length (procs pt) \<Longrightarrow> pt_core (procs pt' ! i) = pt_core (procs pt ! i)"
    using assms len unfolding pt_same_def by (metis nth_map)
qed

lemma wake_proc_core:
  "p_pid (wake_proc P p) = p_pid p" "p_parent (wake_proc P p) = p_parent p"
  "p_priority (wake_proc P p) = p_priority p"
  "p_state (wake_proc P p) = p_state p \<or> p_state p = SLEEPING \<and> p_state (wake_proc P p) = RUNNABLE"
  by (simp_all add: wake_proc_def)

lemma reparent_proc_core:
  "p_pid (reparent_proc c r p) = p_pid p" "p_priority (reparent_proc c r p) = p_priority p"
  "p_state (reparent_proc c r p) = p_state p"
  "p_parent (reparent_proc c r p) = (if p_parent p = Some c then r else p_parent p)"
  by (simp_all add: reparent_proc_def)

lemma pt_invI:
  assumes "length (procs pt) = NPROC" and "1 \<le> nextpid pt"
    and "\<And>i. i < length (procs pt) \<Longrightarrow> proc_ok pt cur i"
    and "\<And>i j. i < length (procs pt) \<Longrightarrow> j < length (procs pt) \<Longrightarrow>
          p_pid (procs pt ! i) = p_pid (procs pt ! j) \<Longrightarrow> p_pid (procs pt ! i) \<noteq> 0 \<Longrightarrow> i = j"
    and "\<And>i. initproc pt = Some i \<Longrightarrow> i < length (procs pt) \<and> p_state (procs pt ! i) \<notin> {UNUSED, ZOMBIE}"
    and "\<And>c. cur = Some c \<Longrightarrow> c < length (procs pt) \<and> p_state (procs pt ! c) \<notin> {UNUSED, EMBRYO}"
  shows "pt_inv (pt, cur)"
  using assms unfolding pt_inv_def by blast

lemma pt_invD:
  assumes "pt_inv (pt, cur)"
  shows "length (procs pt) = NPROC" and "1 \<le> nextpid pt"
    and "\<And>i. i < length (procs pt) \<Longrightarrow> proc_ok pt cur i"
    and "\<And>i j. i < length (procs pt) \<Longrightarrow> j < length (procs pt) \<Longrightarrow>
          p_pid (procs pt ! i) = p_pid (procs pt ! j) \<Longrightarrow> p_pid (procs pt ! i) \<noteq> 0 \<Longrightarrow> i = j"
    and "\<And>i. initproc pt = Some i \<Longrightarrow> i < length (procs pt) \<and> p_state (procs pt ! i) \<notin> {UNUSED, ZOMBIE}"
    and "\<And>c. cur = Some c \<Longrightarrow> c < length (procs pt) \<and> p_state (procs pt ! c) \<notin> {UNUSED, EMBRYO}"
  using assms unfolding pt_inv_def by blast+

lemma pt_inv_same:
  assumes inv: "pt_inv (pt, c)" and "pt_same pt pt'"
  shows "pt_inv (pt', c)"
proof -
  note same = pt_same_nth [OF assms(2)]
  have core: "p_state (procs pt' ! i) = p_state (procs pt ! i)" "p_pid (procs pt' ! i) = p_pid (procs pt ! i)"
    "p_parent (procs pt' ! i) = p_parent (procs pt ! i)" "p_priority (procs pt' ! i) = p_priority (procs pt ! i)"
    if "i < length (procs pt)" for i
    using same(4) [OF that] by (simp_all add: pt_core_def)
  show ?thesis
  proof (rule pt_invI, goal_cases)
    case (3 i)
    then show ?case using pt_invD(3) [OF inv, of i] by (auto simp: proc_ok_def Let_def same core alive_def)
  next
    case (4 i j)
    then show ?case using pt_invD(4) [OF inv, of i j] by (simp add: same core)
  next
    case (5 i)
    then show ?case using pt_invD(5) [OF inv, of i] by (simp add: same core)
  next
    case (6 i)
    then show ?case using pt_invD(6) [OF inv, of i] by (simp add: same core)
  qed (use pt_invD(1,2) [OF inv] in \<open>simp_all add: same\<close>)
qed

text \<open>A change of one process, to one that satisfies the invariant and stays alive if it has children.\<close>

lemma pt_inv_upd:
  assumes inv: "pt_inv (pt, cur)" and i: "i < length (procs pt)" and p': "p' = f (procs pt ! i)"
    and pid: "p_pid p' = p_pid (procs pt ! i) \<or> p_pid p' = 0"
    and used: "p_state p' \<noteq> UNUSED \<longrightarrow> p_pid p' \<noteq> 0"
    and prio: "MIN_PRIORITY \<le> p_priority p' \<and> p_priority p' \<le> MAX_PRIORITY"
    and run: "p_state p' = RUNNING \<longrightarrow> cur' = Some i"
    and unused: "p_state p' = UNUSED \<longrightarrow> p_parent p' = None"
    and par: "\<And>q. p_parent p' = Some q \<Longrightarrow> q < length (procs pt) \<and> alive (if q = i then p' else procs pt ! q)"
    and has: "p_state p' \<notin> {UNUSED, EMBRYO} \<longrightarrow>
        (\<exists>r. initproc pt = Some r \<and> r < length (procs pt) \<and> alive (if r = i then p' else procs pt ! r))
      \<and> (p_parent p' \<noteq> None \<or> initproc pt = Some i)"
    and dead: "alive (procs pt ! i) \<Longrightarrow> \<not> alive p' \<Longrightarrow>
        initproc pt \<noteq> Some i \<and> (\<forall>j < length (procs pt). p_parent (procs pt ! j) \<noteq> Some i)"
    and ini: "initproc pt = Some i \<Longrightarrow> p_state p' \<notin> {UNUSED, ZOMBIE}"
    and cur: "\<And>c. cur' = Some c \<Longrightarrow> c < length (procs pt)
        \<and> p_state (if c = i then p' else procs pt ! c) \<notin> {UNUSED, EMBRYO}"
    and others: "\<And>j. j < length (procs pt) \<Longrightarrow> j \<noteq> i \<Longrightarrow> p_state (procs pt ! j) = RUNNING \<Longrightarrow> cur' = Some j"
  shows "pt_inv (ptable_upd i f pt, cur')"
proof -
  let ?pt = "ptable_upd i f pt"
  have nth: "procs ?pt ! j = (if j = i then p' else procs pt ! j)" if "j < length (procs pt)" for j
    using that by (simp add: ptable_upd_nth p')
  show ?thesis
  proof (rule pt_invI, goal_cases)
    case (3 j)
    show ?case
    proof (cases "j = i")
      case True
      have "0 \<le> p_pid p'" "p_pid p' < nextpid pt"
        using pid pt_invD(2) [OF inv] pt_invD(3) [OF inv i] by (auto simp: proc_ok_def Let_def)
      then show ?thesis
        unfolding True using i used prio run unused par has by (auto simp: proc_ok_def Let_def nth)
    next
      case False
      with 3 have j: "j < length (procs pt)" by simp
      note ok = pt_invD(3) [OF inv j, unfolded proc_ok_def Let_def]
      have "procs ?pt ! j = procs pt ! j" using False j by (simp add: nth)
      moreover have "q < length (procs pt) \<and> alive (procs ?pt ! q)"
        if "p_parent (procs pt ! j) = Some q" for q
        using that ok dead j i by (cases "q = i") (auto simp: nth)
      moreover have "\<exists>r. initproc pt = Some r \<and> r < length (procs pt) \<and> alive (procs ?pt ! r)"
        if st: "p_state (procs pt ! j) \<notin> {UNUSED, EMBRYO}"
      proof -
        obtain r where r: "initproc pt = Some r" "r < length (procs pt)" "alive (procs pt ! r)"
          using ok st by auto
        then show ?thesis using dead i by (cases "r = i") (auto simp: nth)
      qed
      ultimately show ?thesis
        using ok others [OF j False] by (auto simp: proc_ok_def Let_def)
    qed
  next
    case (4 j k)
    then show ?case using pt_invD(4) [OF inv, of j k] pid
      by (auto simp: nth split: if_splits dest: pt_invD(4) [OF inv, of i k] pt_invD(4) [OF inv, of j i])
  next
    case (5 j)
    then show ?case using pt_invD(5) [OF inv, of j] ini i by (auto simp: nth split: if_splits)
  next
    case (6 c)
    then show ?case using cur [of c] by (simp add: nth)
  qed (use pt_invD(1,2) [OF inv] in simp_all)
qed

lemma pt_inv_no_child:
  "pt_inv (pt, cur) \<Longrightarrow> i < length (procs pt) \<Longrightarrow> \<not> alive (procs pt ! i)
     \<Longrightarrow> j < length (procs pt) \<Longrightarrow> p_parent (procs pt ! j) \<noteq> Some i"
  using pt_invD(3) [of pt cur j] by (auto simp: proc_ok_def Let_def)

lemma pt_inv_running:
  "pt_inv (pt, cur) \<Longrightarrow> j < length (procs pt) \<Longrightarrow> p_state (procs pt ! j) = RUNNING \<Longrightarrow> cur = Some j"
  using pt_invD(3) [of pt cur j] by (simp add: proc_ok_def Let_def)

text \<open>A process that has been set up becomes or stays runnable, running or sleeping.\<close>

lemma pt_inv_set_state:
  assumes inv: "pt_inv (pt, cur)" and i: "i < length (procs pt)"
    and st: "p_state (procs pt ! i) \<notin> {UNUSED, ZOMBIE}" "st \<in> {SLEEPING, RUNNABLE, RUNNING}"
    and has: "p_parent (procs pt ! i) \<noteq> None \<or> initproc pt = Some i"
    and f: "pt_core (f (procs pt ! i)) = pt_core (set_state st (procs pt ! i))"
    and cur: "st = RUNNING \<longrightarrow> cur' = Some i"
      "\<And>j. j < length (procs pt) \<Longrightarrow> j \<noteq> i \<Longrightarrow> p_state (procs pt ! j) = RUNNING \<Longrightarrow> cur' = Some j"
      "\<And>c. cur' = Some c \<Longrightarrow> c = i \<or> cur = Some c"
  shows "pt_inv (ptable_upd i f pt, cur')"
proof -
  have core: "p_state (f (procs pt ! i)) = st" "p_pid (f (procs pt ! i)) = p_pid (procs pt ! i)"
    "p_parent (f (procs pt ! i)) = p_parent (procs pt ! i)"
    "p_priority (f (procs pt ! i)) = p_priority (procs pt ! i)"
    using f by (simp_all add: pt_core_def set_state_def)
  have al: "alive (f (procs pt ! i))" using st(2) by (simp add: alive_def core)
  note ok = pt_invD(3) [OF inv i, unfolded proc_ok_def Let_def]
  have init: "\<exists>r. initproc pt = Some r \<and> r < length (procs pt) \<and> (r = i \<or> alive (procs pt ! r))"
  proof (cases "initproc pt = Some i")
    case True
    then show ?thesis using i by auto
  next
    case False
    with has obtain q where "q < length (procs pt)" "alive (procs pt ! q)" using ok by auto
    then show ?thesis using pt_invD(3) [OF inv, of q] by (auto simp: proc_ok_def Let_def alive_def)
  qed
  show ?thesis
  proof (rule pt_inv_upd [OF inv i refl], goal_cases)
    case (6 q)
    then show ?case using ok al by (cases "q = i") (auto simp: core)
  next
    case 7
    then show ?case using init al has by (auto simp: core)
  next
    case (10 c)
    then show ?case using cur(3) [of c] pt_invD(6) [OF inv, of c] st i by (cases "c = i") (auto simp: core)
  qed (use ok st al cur(1,2) in \<open>auto simp: core\<close>)
qed

lemma pt_inv_alloc:
  assumes inv: "pt_inv (pt, c)" and i: "findp (\<lambda>p. p_state p = UNUSED) pt = Some i"
  shows "pt_inv ((ptable_upd i (new_proc (nextpid pt) now) pt)\<lparr>nextpid := nextpid pt + 1\<rparr>, c)"
proof -
  let ?f = "new_proc (nextpid pt) now"
  have i: "i < length (procs pt)" "p_state (procs pt ! i) = UNUSED"
    using i by (auto simp: findp_Some)
  have less: "p_pid (procs pt ! j) < nextpid pt" if "j < length (procs pt)" for j
    using pt_invD(3) [OF inv that] by (simp add: proc_ok_def Let_def)
  show ?thesis
  proof (rule pt_invI, goal_cases)
    case (3 j)
    then have "proc_ok pt c j" by (simp add: pt_invD(3) [OF inv])
    note ok = this [unfolded proc_ok_def Let_def]
    have par: "q \<noteq> i" if "p_parent (procs pt ! j) = Some q" for q
      using 3 that pt_inv_no_child [OF inv i(1), of j] i(2) by (auto simp: alive_def)
    show ?case
    proof (cases "j = i")
      case True
      then show ?thesis using 3 ok i(2) pt_invD(2) [OF inv]
        by (auto simp: proc_ok_def ptable_upd_nth new_proc_def DEFAULT_PRIORITY_def MIN_PRIORITY_def MAX_PRIORITY_def)
    next
      case False
      have al: "alive (procs (ptable_upd i ?f pt) ! q)" if "q < length (procs pt)" "alive (procs pt ! q)" for q
        using that i(2) by (cases "q = i") (auto simp: ptable_upd_nth alive_def)
      show ?thesis using 3 ok False al by (auto simp: proc_ok_def Let_def ptable_upd_nth)
    qed
  next
    case (4 j k)
    then show ?case
      using pt_invD(4) [OF inv, of j k] less [of j] less [of k]
      by (auto simp: ptable_upd_nth new_proc_def split: if_splits)
  next
    case (5 j)
    then show ?case using pt_invD(5) [OF inv, of j] by (auto simp: ptable_upd_nth new_proc_def)
  next
    case (6 j)
    then show ?case using pt_invD(6) [OF inv, of j] i by (auto simp: ptable_upd_nth)
  qed (use pt_invD(1,2) [OF inv] in simp_all)
qed

lemma pt_inv_wake: "pt_inv (pt, c) \<Longrightarrow> pt_inv (pt_map (wake_proc P) pt, c)"
proof (rule pt_invI, goal_cases)
  case (3 j)
  then have ok: "proc_ok pt c j" by (simp add: pt_invD(3))
  have "alive (wake_proc P p)" if "alive p" for p
    using that by (auto simp: alive_def wake_proc_def)
  then show ?case
    using 3 ok wake_proc_core [of P "procs pt ! j"] by (auto simp: proc_ok_def Let_def)
next
  case (4 j k)
  then show ?case using pt_invD(4) [OF 4(1), of j k] by (simp add: wake_proc_core)
next
  case (5 j)
  then show ?case using pt_invD(5) [OF 5(1), of j] wake_proc_core(4) [of P "procs pt ! j"] by auto
next
  case (6 j)
  then show ?case using pt_invD(6) [OF 6(1), of j] wake_proc_core(4) [of P "procs pt ! j"] by auto
qed (simp_all add: pt_invD(1,2))

lemma pt_inv_reparent:
  assumes inv: "pt_inv (pt, Some c)" and c: "initproc pt \<noteq> Some c"
  shows "pt_inv (pt_map (reparent_proc c (initproc pt)) pt, Some c)"
proof (rule pt_invI, goal_cases)
  case (3 j)
  then have ok: "proc_ok pt (Some c) j" by (simp add: pt_invD(3) [OF inv])
  obtain r where "initproc pt = Some r" "r < length (procs pt)" "alive (procs pt ! r)"
    using pt_invD(3) [OF inv, of c] pt_invD(6) [OF inv] by (auto simp: proc_ok_def Let_def)
  then show ?case
    using 3 ok by (auto simp: proc_ok_def Let_def reparent_proc_core alive_def)
next
  case (4 j k)
  then show ?case using pt_invD(4) [OF inv, of j k] by (simp add: reparent_proc_core)
next
  case (5 j)
  then show ?case using pt_invD(5) [OF inv, of j] by (simp add: reparent_proc_core)
next
  case (6 j)
  then show ?case using pt_invD(6) [OF inv, of j] by (simp add: reparent_proc_core)
qed (use pt_invD(1,2) [OF inv] in simp_all)

lemma pt_inv_exit:
  assumes inv: "pt_inv (pt, Some c)" and c: "initproc pt \<noteq> Some c" and st: "p_state (procs pt ! c) = RUNNING"
  shows "pt_inv (ptable_upd c (set_state ZOMBIE) (pt_map (reparent_proc c (initproc pt)) pt), Some c)"
proof -
  let ?pt = "pt_map (reparent_proc c (initproc pt)) pt"
  have inv': "pt_inv (?pt, Some c)" by (rule pt_inv_reparent [OF inv c])
  have len: "c < length (procs pt)" using pt_invD(6) [OF inv] by simp
  have none: "p_parent (procs ?pt ! j) \<noteq> Some c" if "j < length (procs pt)" for j
    using that c by (auto simp: reparent_proc_core)
  have len': "c < length (procs ?pt)" using len by simp
  note ok = pt_invD(3) [OF inv' len', unfolded proc_ok_def Let_def]
  have st': "p_state (procs ?pt ! c) = RUNNING" using len st by (simp add: reparent_proc_core)
  show ?thesis
  proof (rule pt_inv_upd [OF inv' len' refl], goal_cases)
    case (6 q)
    then show ?case using ok none [OF len] by (auto simp: set_state_def)
  next
    case 7
    then show ?case using ok st' c by (auto simp: set_state_def)
  next
    case 8
    then show ?case using none c by simp
  next
    case (11 j)
    then show ?case using pt_inv_running [OF inv', of j] by simp
  qed (use ok st' len c in \<open>simp_all add: set_state_def\<close>)
qed

lemma pt_inv_discard:
  assumes inv: "pt_inv (pt, c)" and i: "i < length (procs pt)" and st: "p_state (procs pt ! i) = EMBRYO"
    and par: "p_parent (procs pt ! i) = None" and ini: "initproc pt \<noteq> Some i"
  shows "pt_inv (ptable_upd i (set_state UNUSED) pt, c)"
proof -
  note ok = pt_invD(3) [OF inv i, unfolded proc_ok_def Let_def]
  have none: "p_parent (procs pt ! j) \<noteq> Some i" if "j < length (procs pt)" for j
    using pt_inv_no_child [OF inv i _ that] st by (simp add: alive_def)
  show ?thesis
  proof (rule pt_inv_upd [OF inv i refl], goal_cases)
    case (10 d)
    then show ?case using pt_invD(6) [OF inv, of d] st by (auto simp: set_state_def)
  next
    case (11 j)
    then show ?case using pt_inv_running [OF inv, of j] by simp
  qed (use ok st par ini none in \<open>simp_all add: set_state_def\<close>)
qed

lemma pt_inv_first:
  assumes inv: "pt_inv (pt, c)" and i: "i < length (procs pt)" and st: "p_state (procs pt ! i) = EMBRYO"
    and ini: "initproc pt = None"
  shows "pt_inv (pt\<lparr>initproc := Some i\<rparr>, c)"
proof -
  have emb: "p_state (procs pt ! j) \<in> {UNUSED, EMBRYO}" if "j < length (procs pt)" for j
    using pt_invD(3) [OF inv that] ini by (auto simp: proc_ok_def Let_def)
  show ?thesis
  proof (rule pt_invI, goal_cases)
    case (3 j)
    then show ?case using pt_invD(3) [OF inv, of j] emb [of j] by (auto simp: proc_ok_def Let_def)
  next
    case (4 j k)
    then show ?case using pt_invD(4) [OF inv, of j k] by simp
  next
    case (5 j)
    then show ?case using i st by auto
  next
    case (6 d)
    then show ?case using pt_invD(6) [OF inv, of d] by simp
  qed (use pt_invD(1,2) [OF inv] in simp_all)
qed

lemma pt_inv_adopt:
  assumes inv: "pt_inv (pt, Some c)" and i: "i < length (procs pt)" and st: "p_state (procs pt ! i) = EMBRYO"
    and run: "p_state (procs pt ! c) = RUNNING"
    and prio: "prio = p_priority (procs pt ! i) \<or> prio = p_priority (procs pt ! c)"
  shows "pt_inv (ptable_upd i (\<lambda>p. p\<lparr>p_parent := Some c, p_priority := prio\<rparr>) pt, Some c)"
proof -
  note ok = pt_invD(3) [OF inv i, unfolded proc_ok_def Let_def]
  have c: "c < length (procs pt)" "alive (procs pt ! c)" "c \<noteq> i"
    using pt_invD(6) [OF inv] st run by (auto simp: alive_def)
  note okc = pt_invD(3) [OF inv c(1), unfolded proc_ok_def Let_def]
  show ?thesis
  proof (rule pt_inv_upd [OF inv i refl], goal_cases)
    case (10 d)
    then show ?case using c run by simp
  next
    case (11 j)
    then show ?case using pt_inv_running [OF inv, of j] by simp
  qed (use ok okc c st prio in \<open>auto simp: alive_def\<close>)
qed

lemma pt_inv_ready:
  assumes inv: "pt_inv (pt, c)" and i: "i < length (procs pt)" and st: "p_state (procs pt ! i) = EMBRYO"
    and has: "initproc pt = Some i \<or> p_parent (procs pt ! i) \<noteq> None"
  shows "pt_inv (ptable_upd i (set_state RUNNABLE) pt, c)"
  using pt_inv_set_state [OF inv i, of RUNNABLE "set_state RUNNABLE" c] st has pt_inv_running [OF inv]
  by auto

lemma pt_inv_pick:
  assumes inv: "pt_inv (pt, None)" and ch: "choose_proc (procs pt) = Some c"
  shows "pt_inv (ptable_upd c (set_state RUNNING) pt, Some c)"
proof -
  have c: "c < length (procs pt)" "p_state (procs pt ! c) = RUNNABLE"
    using choose_proc_best [of "procs pt"] ch by (simp_all add: best_def)
  have has: "p_parent (procs pt ! c) \<noteq> None \<or> initproc pt = Some c"
    using pt_invD(3) [OF inv c(1)] c(2) by (simp add: proc_ok_def Let_def)
  show ?thesis
    by (rule pt_inv_set_state [OF inv c(1) _ _ has, where st = RUNNING])
       (use c in \<open>auto dest: pt_inv_running [OF inv]\<close>)
qed

lemma pt_inv_leave:
  assumes inv: "pt_inv (pt, Some c)" and st: "p_state (procs pt ! c) \<noteq> RUNNING"
  shows "pt_inv (pt, None)"
proof -
  have run: "p_state (procs pt ! j) \<noteq> RUNNING" if "j < length (procs pt)" for j
    using pt_inv_running [OF inv that] st by auto
  show ?thesis
  proof (rule pt_invI, goal_cases)
    case (3 j)
    then show ?case using pt_invD(3) [OF inv, of j] run [of j] by (simp add: proc_ok_def Let_def)
  next
    case (4 j k)
    then show ?case by (rule pt_invD(4) [OF inv])
  next
    case (5 j)
    then show ?case by (rule pt_invD(5) [OF inv])
  qed (use pt_invD(1,2) [OF inv] in simp_all)
qed

lemma pt_inv_park:
  assumes inv: "pt_inv (pt, Some c)" and run: "p_state (procs pt ! c) = RUNNING"
    and st: "st \<in> {SLEEPING, RUNNABLE}"
  shows "pt_inv (ptable_upd c (\<lambda>p. p\<lparr>p_chan := ch, p_state := st\<rparr>) pt, Some c)"
proof -
  have c: "c < length (procs pt)" using pt_invD(6) [OF inv] by simp
  have has: "p_parent (procs pt ! c) \<noteq> None \<or> initproc pt = Some c"
    using pt_invD(3) [OF inv c] run by (simp add: proc_ok_def Let_def)
  show ?thesis
    by (rule pt_inv_set_state [OF inv c _ _ has, where st = st])
       (use run st in \<open>auto simp: pt_core_def set_state_def dest: pt_inv_running [OF inv]\<close>)
qed

lemma pt_inv_prio:
  assumes inv: "pt_inv (pt, c)" and n: "MIN_PRIORITY \<le> n" "n \<le> MAX_PRIORITY"
  shows "pt_inv (ptable_upd i (\<lambda>p. p\<lparr>p_priority := n\<rparr>) pt, c)"
proof (cases "i < length (procs pt)")
  case True
  note ok = pt_invD(3) [OF inv True, unfolded proc_ok_def Let_def]
  show ?thesis
  proof (rule pt_inv_upd [OF inv True refl], goal_cases)
    case 9
    then show ?case using pt_invD(5) [OF inv, of i] by simp
  next
    case (10 d)
    then show ?case using pt_invD(6) [OF inv, of d] by auto
  next
    case (11 j)
    then show ?case using pt_inv_running [OF inv, of j] by simp
  qed (use ok n in \<open>auto simp: alive_def\<close>)
next
  case False
  then have "ptable_upd i (\<lambda>p. p\<lparr>p_priority := n\<rparr>) pt = pt"
    by (simp add: ptable_upd_def list_update_beyond)
  then show ?thesis using inv by simp
qed

lemma pt_inv_kill:
  assumes inv: "pt_inv (pt, c)"
  shows "pt_inv (ptable_upd i (\<lambda>p. wake_proc (\<lambda>_. True) (p\<lparr>p_killed := True\<rparr>)) pt, c)"
proof (cases "i < length (procs pt) \<and> p_state (procs pt ! i) = SLEEPING")
  case True
  then have "p_parent (procs pt ! i) \<noteq> None \<or> initproc pt = Some i"
    using pt_invD(3) [OF inv, of i] by (auto simp: proc_ok_def Let_def)
  then show ?thesis
    using True pt_inv_set_state [OF inv, of i RUNNABLE "\<lambda>p. wake_proc (\<lambda>_. True) (p\<lparr>p_killed := True\<rparr>)" c]
      pt_inv_running [OF inv]
    by (auto simp: wake_proc_def pt_core_def set_state_def)
next
  case False
  have "pt_same pt (ptable_upd i (\<lambda>p. wake_proc (\<lambda>_. True) (p\<lparr>p_killed := True\<rparr>)) pt)"
    unfolding pt_same_def
    using False by (auto simp: ptable_upd_nth pt_core_def wake_proc_def intro!: nth_equalityI)
  with inv show ?thesis by (rule pt_inv_same)
qed

lemma pt_inv_reap:
  assumes inv: "pt_inv (pt, Some c)" and i: "i < length (procs pt)" and st: "p_state (procs pt ! i) = ZOMBIE"
    and par: "p_parent (procs pt ! i) = Some c"
  shows "pt_inv (ptable_upd i reap_proc pt, Some c)"
proof -
  have none: "p_parent (procs pt ! j) \<noteq> Some i" if "j < length (procs pt)" for j
    using pt_inv_no_child [OF inv i _ that] st by (simp add: alive_def)
  have c: "c \<noteq> i" using none [OF i] par by auto
  show ?thesis
  proof (rule pt_inv_upd [OF inv i refl], goal_cases)
    case 8
    then show ?case using st by (simp add: alive_def)
  next
    case 9
    then show ?case using pt_invD(5) [OF inv, of i] st by simp
  next
    case (10 d)
    then show ?case using pt_invD(6) [OF inv, of d] c by simp
  next
    case (11 j)
    then show ?case using pt_inv_running [OF inv, of j] by simp
  qed (use pt_invD(3) [OF inv i] none in \<open>simp_all add: reap_proc_def proc_ok_def Let_def\<close>)
qed

lemmas pt_inv_cases = pt_inv_same pt_inv_alloc pt_inv_discard pt_inv_first pt_inv_adopt pt_inv_ready
  pt_inv_pick pt_inv_leave pt_inv_park pt_inv_wake pt_inv_kill pt_inv_prio pt_inv_exit pt_inv_reap

lemma pt_inv_step: "ptstep a b \<Longrightarrow> pt_inv a \<Longrightarrow> pt_inv b"
  by (induction rule: ptstep.induct) (auto intro: pt_inv_cases)

lemma pt_inv_steps: "ptstep\<^sup>*\<^sup>* a b \<Longrightarrow> pt_inv a \<Longrightarrow> pt_inv b"
  by (induction rule: rtranclp_induct) (auto intro: pt_inv_step)

section \<open>The operations are steps of the machine\<close>

definition pview :: "'z kproc_scheme \<Rightarrow> proctable \<times> nat option" where
  "pview s = (ptable s, curproc s)"

definition pt_refines :: "('a, 'z kproc_scheme) M \<Rightarrow> 'z kproc_scheme \<Rightarrow> bool" where
  "pt_refines m s \<longleftrightarrow> (case m s of
     Ok x t \<Rightarrow> ptstep\<^sup>*\<^sup>* (pview s) (pview t) | Swtch t \<Rightarrow> ptstep\<^sup>*\<^sup>* (pview s) (pview t)
   | Panic e \<Rightarrow> True | Undef \<Rightarrow> True)"

lemma pview_simps [simp]:
  "pview (s\<lparr>held := h\<rparr>) = pview s" "pview (s\<lparr>con := k\<rparr>) = pview s" "pview (s\<lparr>mem := m\<rparr>) = pview s"
  "pview (s\<lparr>freelist := f\<rparr>) = pview s" "pview (s\<lparr>cr3 := r\<rparr>) = pview s" "pview (s\<lparr>ts_esp0 := e\<rparr>) = pview s"
  "pview (s\<lparr>ptable := pt\<rparr>) = (pt, curproc s)" "pview (s\<lparr>curproc := c\<rparr>) = (ptable s, c)"
  by (simp_all add: pview_def)

lemma vm_rel_pview: "vm_rel s t \<Longrightarrow> pview t = pview s"
  by (auto simp: vm_rel_def)

lemma vm_rel_fields:
  fixes s :: "'z kproc_scheme"
  assumes "vm_rel s t"
  shows "ptable t = ptable s" "curproc t = curproc s" "held t = held s" "ticks t = ticks s"
    "cr3 t = cr3 s"
  using assms by (auto simp: vm_rel_def)

lemma pt_refines_vm:
  assumes "kframe vm_rel m"
  shows "pt_refines m s"
proof (cases "m s")
  case (Ok x t)
  with kframeD [OF assms Ok] show ?thesis by (simp add: pt_refines_def vm_rel_pview [of s t])
qed (use kframe_no_swtch [OF assms] in \<open>simp_all add: pt_refines_def\<close>)

lemma pt_same_upd:
  "(\<And>p. pt_core (f p) = pt_core p) \<Longrightarrow> pt_same pt (ptable_upd i f pt)"
  by (auto simp: pt_same_def ptable_upd_nth intro!: nth_equalityI)

lemma pt_same_map:
  "(\<And>p. pt_core (f p) = pt_core p) \<Longrightarrow> pt_same pt (pt\<lparr>procs := map f (procs pt)\<rparr>)"
  by (simp add: pt_same_def)

lemma acquire_cases:
  "acquire lk s = (if lk \<in> set (held s) then Panic ''acquire'' else Ok () (s\<lparr>held := lk # held s\<rparr>))"
  by simp

lemma release_cases:
  "release lk s = (if lk \<in> set (held s) then Ok () (s\<lparr>held := remove1 lk (held s)\<rparr>) else Panic ''release'')"
  by simp

lemma wakeup_refines: "pt_refines (wakeup ch) s"
proof -
  have "pt_map (wake_proc (\<lambda>p. p_chan p = Some ch)) pt = pt\<lparr>procs := map (wakeup_proc ch) (procs pt)\<rparr>" for pt
    by (simp add: pt_map_def wake_proc_def [abs_def] wakeup_proc_def [abs_def])
  then show ?thesis
    using ptstep.wake [of "ptable s" "curproc s" "\<lambda>p. p_chan p = Some ch"]
    by (simp add: pt_refines_def wakeup_def wakeup1_def krun r_into_rtranclp acquire_cases pview_def)
qed

lemma kill_refines: "pt_refines (kill pid) s"
proof -
  have f: "(\<lambda>p. if p_state p = SLEEPING then p\<lparr>p_state := RUNNABLE\<rparr> else p) \<circ> (\<lambda>p. p\<lparr>p_killed := True\<rparr>)
     = (\<lambda>p. wake_proc (\<lambda>_. True) (p\<lparr>p_killed := True\<rparr>))"
    by (auto simp: wake_proc_def)
  show ?thesis
  proof (cases "findp (\<lambda>p. p_pid p = pid) (ptable s)")
    case None
    then show ?thesis
      by (simp add: pt_refines_def kill_def krun r_into_rtranclp acquire_cases pview_def)
  next
    case (Some i)
    then have "i < length (procs (ptable s))" by (simp add: findp_Some)
    with Some show ?thesis
      using ptstep.kill [of "ptable s" "curproc s" i]
      by (simp add: pt_refines_def kill_def krun r_into_rtranclp acquire_cases pview_def f)
  qed
qed

lemma setpriority_refines: "pt_refines (setpriority pid n) s"
proof (cases "findp (\<lambda>p. p_pid p = pid) (ptable s)")
  case None
  then show ?thesis
    by (simp add: pt_refines_def setpriority_def not_less krun r_into_rtranclp acquire_cases pview_def)
next
  case (Some i)
  then have "i < length (procs (ptable s))" by (simp add: findp_Some)
  with Some show ?thesis
    using ptstep.prio [of n "ptable s" "curproc s" i]
    by (simp add: pt_refines_def setpriority_def not_less krun r_into_rtranclp acquire_cases pview_def)
qed

lemma sched_cases:
  "sched s = (case curproc s of None \<Rightarrow> Undef | Some c \<Rightarrow>
     if PtableLock \<notin> set (held s) then Panic ''sched ptable.lock''
     else if length (held s) \<noteq> 1 then Panic ''sched locks''
     else if c < length (procs (ptable s)) then
       if p_state (procs (ptable s) ! c) = RUNNING then Panic ''sched running'' else Swtch s
     else Undef)"
  by (simp add: sched_def krun split: option.split)

lemma park_comp:
  "(\<lambda>p. p\<lparr>p_state := SLEEPING\<rparr>) \<circ> (\<lambda>p. p\<lparr>p_chan := Some ch\<rparr>) =
   (\<lambda>p. p\<lparr>p_chan := Some ch, p_state := SLEEPING\<rparr>)"
  by auto

lemma sleep_refines:
  assumes c: "curproc s = Some c" "c < length (procs (ptable s))" "p_state (procs (ptable s) ! c) = RUNNING"
  shows "pt_refines (sleep ch lk) s"
  using c ptstep.park [OF c(3), of SLEEPING "Some ch"]
  by (simp add: pt_refines_def sleep_def krun r_into_rtranclp acquire_cases release_cases sched_cases pview_def park_comp)

lemma yield_refines:
  assumes c: "curproc s = Some c" "c < length (procs (ptable s))" "p_state (procs (ptable s) ! c) = RUNNING"
  shows "pt_refines yield s"
proof -
  have f: "ptable_upd c (\<lambda>p. p\<lparr>p_chan := p_chan (procs (ptable s) ! c), p_state := RUNNABLE\<rparr>) (ptable s)
     = ptable_upd c (\<lambda>p. p\<lparr>p_state := RUNNABLE\<rparr>) (ptable s)"
    by (simp add: ptable_upd_def)
  show ?thesis
    using c ptstep.park [OF c(3), of RUNNABLE "p_chan (procs (ptable s) ! c)"]
    by (simp add: pt_refines_def yield_def krun r_into_rtranclp acquire_cases sched_cases pview_def f)
qed

lemma switchuvm_cases:
  "switchuvm i s = (if i < length (procs (ptable s)) then
     let p = procs (ptable s) ! i in
     if p_kstack p = 0 then Panic ''switchuvm: no kstack''
     else if p_pgdir p = 0 then Panic ''switchuvm: no pgdir''
     else Ok () (s\<lparr>ts_esp0 := p_kstack p + KSTACKSIZE, cr3 := V2P (p_pgdir p)\<rparr>) else Undef)"
  by (simp add: switchuvm_def krun Let_def)

lemma update_timing_core: "pt_core (update_timing now p) = pt_core p"
  by (simp add: update_timing_def pt_core_def Let_def)

lemma choose_proc_cong:
  assumes "map pt_core ps = map pt_core qs"
  shows "choose_proc ps = choose_proc qs"
proof -
  have len: "length ps = length qs" using assms by (metis length_map)
  have nth: "pt_core (ps ! i) = pt_core (qs ! i)" if "i < length qs" for i
    using assms len that by (metis nth_map)
  then have nth': "p_state (ps ! i) = p_state (qs ! i)" "p_priority (ps ! i) = p_priority (qs ! i)"
    if "i < length qs" for i
    using nth [OF that] by (simp_all add: pt_core_def)
  have "best qs (length qs) (choose_proc ps)"
    using choose_proc_best [of ps] nth' unfolding best_def len by (auto split: option.splits)
  then show ?thesis by (rule best_unique [OF _ choose_proc_best])
qed

text \<open>What one round of the scheduler does.\<close>

lemma scheduler_pick_run:
  assumes lk: "PtableLock \<notin> set (held s)"
  defines "now \<equiv> ticks s" and "ps \<equiv> map (update_timing (ticks s)) (procs (ptable s))"
  shows "scheduler_pick s = (case choose_proc (procs (ptable s)) of
     None \<Rightarrow> Ok None (s\<lparr>ptable := (ptable s)\<lparr>procs := ps\<rparr>\<rparr>)
   | Some c \<Rightarrow>
       if p_kstack (procs (ptable s) ! c) = 0 then Panic ''switchuvm: no kstack''
       else if p_pgdir (procs (ptable s) ! c) = 0 then Panic ''switchuvm: no pgdir''
       else Ok (Some c) (s\<lparr>held := PtableLock # held s,
              ptable := ptable_upd c (\<lambda>p. p\<lparr>p_last_scheduled := now, p_state := RUNNING\<rparr>)
                          ((ptable s)\<lparr>procs := ps\<rparr>),
              curproc := Some c, ts_esp0 := p_kstack (procs (ptable s) ! c) + KSTACKSIZE,
              cr3 := V2P (p_pgdir (procs (ptable s) ! c))\<rparr>))"
proof -
  have ch: "choose_proc ps = choose_proc (procs (ptable s))"
    by (rule choose_proc_cong) (simp add: ps_def update_timing_core)
  have len: "c < length (procs (ptable s))" if "choose_proc (procs (ptable s)) = Some c" for c
    using choose_proc_best [of "procs (ptable s)"] that by (simp add: best_def)
  have f: "(\<lambda>p. p\<lparr>p_state := RUNNING\<rparr>) \<circ> (\<lambda>p. p\<lparr>p_last_scheduled := now\<rparr>)
     = (\<lambda>p. p\<lparr>p_last_scheduled := now, p_state := RUNNING\<rparr>)"
    by auto
  have keep: "p_kstack (update_timing n p) = p_kstack p" "p_pgdir (update_timing n p) = p_pgdir p" for n p
    by (simp_all add: update_timing_def Let_def)
  show ?thesis
  proof (cases "choose_proc (procs (ptable s))")
    case None
    then show ?thesis
      using lk ch by (simp add: scheduler_pick_def krun ps_def [symmetric])
  next
    case (Some c)
    then show ?thesis
      using lk ch len [OF Some]
      by (simp add: scheduler_pick_def krun ps_def [symmetric] switchuvm_cases Let_def ptable_upd_nth now_def)
         (simp add: ps_def keep f [unfolded now_def])
  qed
qed

lemma scheduler_pick_refines:
  assumes "curproc s = None"
  shows "pt_refines scheduler_pick s"
proof (cases "PtableLock \<in> set (held s)")
  case True
  then show ?thesis by (simp add: pt_refines_def scheduler_pick_def krun)
next
  case False
  let ?pt = "(ptable s)\<lparr>procs := map (update_timing (ticks s)) (procs (ptable s))\<rparr>"
  have same: "ptstep (ptable s, None) (?pt, None)"
    by (rule ptstep.same) (rule pt_same_map, rule update_timing_core)
  show ?thesis
  proof (cases "choose_proc (procs (ptable s))")
    case None
    then show ?thesis
      using assms False same by (simp add: pt_refines_def scheduler_pick_run pview_def r_into_rtranclp)
  next
    case (Some c)
    let ?f = "\<lambda>p. p\<lparr>p_last_scheduled := ticks s, p_state := RUNNING\<rparr>"
    have "choose_proc (procs ?pt) = Some c"
      using Some choose_proc_cong [of "procs ?pt" "procs (ptable s)"] by (simp add: update_timing_core)
    then have pick: "ptstep (?pt, None) (ptable_upd c (set_state RUNNING) ?pt, Some c)" by (rule ptstep.pick)
    have "ptstep (ptable_upd c (set_state RUNNING) ?pt, Some c) (ptable_upd c ?f ?pt, Some c)"
      by (rule ptstep.same) (auto simp: pt_same_def ptable_upd_nth set_state_def pt_core_def intro!: nth_equalityI)
    with same pick have "ptstep\<^sup>*\<^sup>* (ptable s, None) (ptable_upd c ?f ?pt, Some c)"
      by (meson converse_rtranclp_into_rtranclp r_into_rtranclp)
    then show ?thesis
      using assms False Some by (simp add: pt_refines_def scheduler_pick_run pview_def)
  qed
qed

lemma scheduler_return_refines:
  assumes c: "curproc s = Some c" "c < length (procs (ptable s))" "p_state (procs (ptable s) ! c) \<noteq> RUNNING"
  shows "pt_refines (scheduler_return c) s"
proof -
  let ?f = "(\<lambda>p. p\<lparr>p_last_scheduled := ticks s\<rparr>) \<circ> (\<lambda>p. if p_last_scheduled p \<noteq> 0
              then p\<lparr>p_run_time := p_run_time p + (ticks s - p_last_scheduled p)\<rparr> else p)"
  let ?pt = "ptable_upd c ?f (ptable s)"
  have "ptstep (ptable s, Some c) (?pt, Some c)"
    by (rule ptstep.same) (rule pt_same_upd, simp add: pt_core_def)
  moreover have "ptstep (?pt, Some c) (?pt, None)"
    using c by (intro ptstep.leave) (simp add: ptable_upd_nth)
  ultimately have "ptstep\<^sup>*\<^sup>* (ptable s, Some c) (?pt, None)"
    by (meson converse_rtranclp_into_rtranclp r_into_rtranclp)
  then show ?thesis
    using c by (simp add: pt_refines_def scheduler_return_def switchkvm_def krun release_cases pview_def)
qed

lemma sleep_return_refines: "pt_refines (sleep_return c lk) s"
proof -
  have "ptstep (ptable s, curproc s) (ptable_upd c (\<lambda>p. p\<lparr>p_chan := None\<rparr>) (ptable s), curproc s)"
    by (rule ptstep.same) (rule pt_same_upd, simp add: pt_core_def)
  then show ?thesis
    by (simp add: pt_refines_def sleep_return_def krun acquire_cases release_cases pview_def r_into_rtranclp)
qed

lemma pt_refines_bind:
  assumes m: "pt_refines m s" and f: "\<And>x t. m s = Ok x t \<Longrightarrow> pt_refines (f x) t"
  shows "pt_refines (kbind m f) s"
proof (cases "m s")
  case (Ok x t)
  with m f [OF Ok] show ?thesis
    by (cases "f x t") (auto simp: pt_refines_def krun intro: rtranclp_trans)
qed (use m in \<open>simp_all add: pt_refines_def krun\<close>)

lemma pt_refines_seq:
  "pt_refines m s \<Longrightarrow> (\<And>t. m s = Ok () t \<Longrightarrow> pt_refines n t) \<Longrightarrow> pt_refines (kseq m n) s"
  unfolding kseq_def by (rule pt_refines_bind) auto

lemma pt_refines_simple [simp]:
  "pt_refines (kret x) s" "pt_refines (kget f) s" "pt_refines (kpanic e) s" "pt_refines kundef s"
  "pt_refines (acquire lk) s" "pt_refines (release lk) s" "pt_refines (getp i) s" "pt_refines myproc s"
  "pt_refines (switchuvm i) s"
  by (simp_all add: pt_refines_def krun acquire_cases release_cases switchuvm_cases Let_def split: option.split)

lemma pt_refines_mem [simp]: "pt_refines (kmod (\<lambda>s. s\<lparr>mem := f s\<rparr>)) s"
  by (simp add: pt_refines_def krun)

lemma pt_refines_updp:
  "(\<And>p. pt_core (f p) = pt_core p) \<Longrightarrow> pt_refines (updp i f) s"
  using ptstep.same [OF pt_same_upd [of f "ptable s" i], of "curproc s"]
  by (simp add: pt_refines_def krun pview_def r_into_rtranclp)

lemma new_proc_comp:
  "(\<lambda>p. p\<lparr>p_priority := DEFAULT_PRIORITY, p_wait_time := 0, p_run_time := 0, p_turnaround_time := 0,
      p_creation_time := now, p_last_scheduled := now\<rparr>) \<circ> ((\<lambda>p. p\<lparr>p_pid := pid\<rparr>) \<circ> (\<lambda>p. p\<lparr>p_state := EMBRYO\<rparr>))
   = new_proc pid now"
  by (auto simp: new_proc_def)

lemma ptable_upd_nextpid:
  "ptable_upd i f (pt\<lparr>nextpid := n\<rparr>) = (ptable_upd i f pt)\<lparr>nextpid := n\<rparr>"
  by (simp add: ptable_upd_def)

text \<open>The table with a new process in the slot \<open>i\<close>.\<close>

definition pt_new :: "nat \<Rightarrow> uint \<Rightarrow> proctable \<Rightarrow> proctable" where
  "pt_new i now pt = (ptable_upd i (new_proc (nextpid pt) now) pt)\<lparr>nextpid := nextpid pt + 1\<rparr>"

lemma allocproc_run:
  assumes lk: "PtableLock \<notin> set (held s)"
  shows "allocproc s = (case findp (\<lambda>p. p_state p = UNUSED) (ptable s) of
     None \<Rightarrow> Ok None s
   | Some i \<Rightarrow> if nextpid (ptable s) \<ge> INT_MAX then Undef
       else allocproc_kstack i (s\<lparr>ptable := pt_new i (ticks s) (ptable s)\<rparr>))"
proof (cases "findp (\<lambda>p. p_state p = UNUSED) (ptable s)")
  case None
  then show ?thesis using lk by (simp add: allocproc_def krun)
next
  case (Some i)
  then have i: "i < length (procs (ptable s))" by (simp add: findp_Some)
  then show ?thesis
    using lk Some
    by (simp add: allocproc_def krun pt_new_def ptable_upd_nextpid new_proc_comp [symmetric])
qed

lemma pt_refines_discard:
  assumes "p_state (procs (ptable s) ! i) = EMBRYO" and "p_parent (procs (ptable s) ! i) = None"
    and "initproc (ptable s) \<noteq> Some i"
  shows "pt_refines (updp i (\<lambda>p. p\<lparr>p_state := UNUSED\<rparr>)) s"
  using ptstep.discard [OF _ assms, of "curproc s"]
  by (simp add: pt_refines_def krun pview_def r_into_rtranclp set_state_def [abs_def])

lemma allocproc_kstack_refines:
  assumes i: "i < length (procs (ptable s))" "p_state (procs (ptable s) ! i) = EMBRYO"
    "p_parent (procs (ptable s) ! i) = None" "initproc (ptable s) \<noteq> Some i"
  shows "pt_refines (allocproc_kstack i) s"
  unfolding allocproc_kstack_def
proof (intro pt_refines_bind pt_refines_seq pt_refines_vm [OF kalloc_frame] pt_refines_updp)
  fix ks t u
  assume "kalloc s = Ok ks t" and u: "updp i (\<lambda>p. p\<lparr>p_kstack := ks\<rparr>) t = Ok () u"
  then have "ptable t = ptable s" using kframeD [OF kalloc_frame] vm_rel_fields by blast
  then have "pt_refines (updp i (\<lambda>p. p\<lparr>p_state := UNUSED\<rparr>)) u"
    using i u by (intro pt_refines_discard) (auto simp: krun ptable_upd_nth split: if_splits)
  then show "pt_refines (if ks = 0 then kseq (updp i (\<lambda>p. p\<lparr>p_state := UNUSED\<rparr>)) (kret None)
     else
       (let sp = ks + KSTACKSIZE - TF_SIZE; sp2 = sp - 4; sp3 = sp2 - CONTEXT_SIZE in
        kseq (updp i (\<lambda>p. p\<lparr>p_tf := sp\<rparr>))
       (kseq (kmod (\<lambda>s. s\<lparr>mem := store32 (mem s) sp2 (sym_trapret (syms s))\<rparr>))
       (kseq (updp i (\<lambda>p. p\<lparr>p_context := sp3\<rparr>))
       (kseq (kmod (\<lambda>s. s\<lparr>mem := memset (mem s) sp3 0 CONTEXT_SIZE\<rparr>))
       (kseq (kmod (\<lambda>s. s\<lparr>mem := store32 (mem s) (sp3 + 16) (sym_forkret (syms s))\<rparr>))
             (kret (Some i)))))))) u"
    by (auto simp: Let_def pt_core_def intro!: pt_refines_seq pt_refines_updp)
qed (simp_all add: pt_core_def)

lemma allocproc_refines:
  assumes inv: "pt_inv (pview s)"
  shows "pt_refines allocproc s"
proof (cases "PtableLock \<in> set (held s)")
  case True
  then show ?thesis by (simp add: pt_refines_def allocproc_def krun)
next
  case lk: False
  show ?thesis
  proof (cases "findp (\<lambda>p. p_state p = UNUSED) (ptable s)")
    case None
    then show ?thesis by (simp add: pt_refines_def allocproc_run [OF lk])
  next
    case (Some i)
    then have i: "i < length (procs (ptable s))" "p_state (procs (ptable s) ! i) = UNUSED"
      by (simp_all add: findp_Some)
    let ?s = "s\<lparr>ptable := pt_new i (ticks s) (ptable s)\<rparr>"
    have inv': "pt_inv (ptable s, curproc s)" using inv by (simp add: pview_def)
    have "p_parent (procs (ptable s) ! i) = None" "initproc (ptable s) \<noteq> Some i"
      using pt_invD(3) [OF inv' i(1)] pt_invD(5) [OF inv', of i] i by (auto simp: proc_ok_def Let_def)
    then have "pt_refines (allocproc_kstack i) ?s"
      using i by (intro allocproc_kstack_refines) (simp_all add: pt_new_def ptable_upd_nth new_proc_def)
    moreover have "ptstep (pview s) (pview ?s)"
      using ptstep.alloc [OF Some, of "curproc s" "ticks s"] by (simp add: pview_def pt_new_def)
    ultimately show ?thesis
      using Some lk unfolding pt_refines_def allocproc_run [OF lk]
      by (auto split: outcome.splits intro: converse_rtranclp_into_rtranclp)
  qed
qed

lemma pt_refines_if:
  "(b \<Longrightarrow> pt_refines m s) \<Longrightarrow> (\<not> b \<Longrightarrow> pt_refines n s) \<Longrightarrow> pt_refines (if b then m else n) s"
  by simp

lemma growproc_refines: "pt_refines (growproc n) s"
  unfolding growproc_def
  by (intro pt_refines_bind pt_refines_seq pt_refines_if pt_refines_simple pt_refines_updp
      pt_refines_vm [OF allocuvm_frame] pt_refines_vm [OF deallocuvm_frame])
     (simp add: pt_core_def)

lemma getstats_refines: "pt_refines (getstats pid ptr) s"
  unfolding getstats_def
  by (auto intro!: pt_refines_bind pt_refines_seq pt_refines_vm [OF copyout_frame] split: option.split)

lemma reap_comp:
  "(\<lambda>p. p\<lparr>p_pid := 0, p_parent := None, p_name := (p_name p)[0 := 0], p_killed := False, p_state := UNUSED\<rparr>)
     \<circ> (\<lambda>p. p\<lparr>p_kstack := 0\<rparr>) = reap_proc"
  by (auto simp: reap_proc_def)

text \<open>Reaping the child \<open>i\<close>, when the memory of its stack and its page table can be given back.\<close>

lemma wait_reap_run:
  assumes i: "findp (\<lambda>p. p_parent p = Some c \<and> p_state p = ZOMBIE) (ptable s) = Some i"
    and ok: "wait_loop c s = Ok r t"
  shows "r = p_pid (procs (ptable s) ! i)" and "pview t = (ptable_upd i reap_proc (ptable s), curproc s)"
proof -
  have len: "i < length (procs (ptable s))" using i by (simp add: findp_Some)
  let ?p = "procs (ptable s) ! i"
  from ok i len obtain s1 where s1: "kfree (p_kstack ?p) s = Ok () s1"
    and r1: "kseq (updp i (\<lambda>p. p\<lparr>p_kstack := 0\<rparr>)) (kseq (freevm (p_pgdir ?p))
        (kseq (updp i (\<lambda>p. p\<lparr>p_pid := 0, p_parent := None, p_name := (p_name p)[0 := 0],
                            p_killed := False, p_state := UNUSED\<rparr>))
        (kseq (release PtableLock) (kret (p_pid ?p))))) s1 = Ok r t"
    by (auto simp: wait_loop_def krun split: outcome.splits)
  have p1: "ptable s1 = ptable s" "curproc s1 = curproc s"
    using vm_rel_fields [OF kframeD [OF kfree_frame s1]] by auto
  let ?s2 = "s1\<lparr>ptable := ptable_upd i (\<lambda>p. p\<lparr>p_kstack := 0\<rparr>) (ptable s)\<rparr>"
  from r1 obtain s3 where s3: "freevm (p_pgdir ?p) ?s2 = Ok () s3"
    and r2: "kseq (updp i (\<lambda>p. p\<lparr>p_pid := 0, p_parent := None, p_name := (p_name p)[0 := 0],
                            p_killed := False, p_state := UNUSED\<rparr>))
        (kseq (release PtableLock) (kret (p_pid ?p))) s3 = Ok r t"
    using len p1 by (auto simp: krun split: outcome.splits)
  have p3: "ptable s3 = ptable ?s2" "curproc s3 = curproc s"
    using vm_rel_fields [OF kframeD [OF freevm_frame s3]] p1 by auto
  show "r = p_pid ?p" "pview t = (ptable_upd i reap_proc (ptable s), curproc s)"
    using r2 len p3 by (auto simp: krun pview_def reap_comp release_cases split: if_splits)
qed

lemma wait_loop_refines:
  assumes c: "curproc s = Some c" "c < length (procs (ptable s))" "p_state (procs (ptable s) ! c) = RUNNING"
  shows "pt_refines (wait_loop c) s"
proof (cases "findp (\<lambda>p. p_parent p = Some c \<and> p_state p = ZOMBIE) (ptable s)")
  case None
  then show ?thesis
    unfolding wait_loop_def
    by (auto intro!: pt_refines_bind pt_refines_seq sleep_refines c simp: krun split: if_splits)
       (auto simp: krun split: if_splits intro!: sleep_refines c)
next
  case (Some i)
  then have len: "i < length (procs (ptable s))" "p_state (procs (ptable s) ! i) = ZOMBIE"
    "p_parent (procs (ptable s) ! i) = Some c"
    by (simp_all add: findp_Some)
  show ?thesis
  proof (cases "wait_loop c s")
    case (Ok r t)
    then show ?thesis
      using wait_reap_run [OF Some Ok] ptstep.reap [OF len] c(1)
      by (simp add: pt_refines_def pview_def r_into_rtranclp)
  next
    case (Swtch t)
    have "wait_loop c s \<noteq> Swtch t"
      using Some len
      by (auto simp: wait_loop_def krun release_cases kframe_no_swtch [OF kfree_frame]
          kframe_no_swtch [OF freevm_frame] split: outcome.splits if_splits)
    with Swtch show ?thesis by simp
  qed (simp_all add: pt_refines_def)
qed

text \<open>A routine keeps a property of the state if it holds where the routine returns or gives up the CPU.\<close>

definition keeps :: "('s \<Rightarrow> bool) \<Rightarrow> ('a, 's) M \<Rightarrow> 's \<Rightarrow> bool" where
  "keeps I m s \<longleftrightarrow> (case m s of Ok x t \<Rightarrow> I t | Swtch t \<Rightarrow> I t | Panic e \<Rightarrow> True | Undef \<Rightarrow> True)"

lemma pt_refines_keeps: "pt_refines m s \<Longrightarrow> pt_inv (pview s) \<Longrightarrow> keeps (\<lambda>t. pt_inv (pview t)) m s"
  unfolding pt_refines_def keeps_def by (auto split: outcome.splits intro: pt_inv_steps)

text \<open>The table and the state at boot.\<close>

definition proc0 :: proc where
  "proc0 = \<lparr>p_sz = 0, p_pgdir = 0, p_kstack = 0, p_state = UNUSED, p_pid = 0, p_parent = None, p_tf = 0,
     p_context = 0, p_chan = None, p_killed = False, p_ofile = replicate NOFILE None, p_cwd = None,
     p_name = replicate 16 0, p_priority = 0, p_wait_time = 0, p_run_time = 0, p_turnaround_time = 0,
     p_creation_time = 0, p_last_scheduled = 0\<rparr>"

definition ptable0 :: proctable where
  "ptable0 = \<lparr>procs = replicate NPROC proc0, nextpid = 1, initproc = None\<rparr>"

definition kproc0 :: kproc where
  "kproc0 = \<lparr>held = [], con = \<lparr>panicked = False, locking = False, uart = False, uart_out = [],
     crt = (\<lambda>_. 0), crt_pos = 0\<rparr>, mem = (\<lambda>_. 0), freelist = 0x80116000, use_lock = True,
     syms = \<lparr>sym_end = 0x80115000, sym_data = 0x80108000, sym_trapret = 0x80105000,
             sym_forkret = 0x80103000, sym_initcode = []\<rparr>,
     ptable = ptable0, curproc = None, ticks = 0, cr3 = 0, ts_esp0 = 0, kpgdir = 0\<rparr>"

lemma ptable0_inv: "pt_inv (ptable0, None)"
  by (rule pt_invI) (simp_all add: ptable0_def proc_ok_def proc0_def Let_def MIN_PRIORITY_def MAX_PRIORITY_def)

section \<open>Properties\<close>

text \<open>
  C5: A round of the scheduler with \<open>ptable.lock\<close> free, if it returns, either finds no runnable process and
  leaves all states as they are, or starts a runnable process \<open>c\<close> such that no runnable process has a
  smaller priority number and none before \<open>c\<close> in the table has the same: \<open>c\<close> is then RUNNING and the
  process of the CPU, with its page table loaded and the lock held for it, and no other state has changed.
\<close>

theorem scheduler_picks_best:
  assumes "PtableLock \<notin> set (held s)" and "scheduler_pick s = Ok r t"
  shows "case r of
     None \<Rightarrow> (\<forall>i < length (procs (ptable s)). p_state (procs (ptable s) ! i) \<noteq> RUNNABLE)
       \<and> map p_state (procs (ptable t)) = map p_state (procs (ptable s)) \<and> held t = held s
   | Some c \<Rightarrow> c < length (procs (ptable s)) \<and> p_state (procs (ptable s) ! c) = RUNNABLE
       \<and> (\<forall>i < length (procs (ptable s)). p_state (procs (ptable s) ! i) = RUNNABLE \<longrightarrow>
            p_priority (procs (ptable s) ! c) \<le> p_priority (procs (ptable s) ! i)
          \<and> (i < c \<longrightarrow> p_priority (procs (ptable s) ! c) < p_priority (procs (ptable s) ! i)))
       \<and> map p_state (procs (ptable t)) = (map p_state (procs (ptable s)))[c := RUNNING]
       \<and> curproc t = Some c \<and> cr3 t = V2P (p_pgdir (procs (ptable s) ! c)) \<and> held t = PtableLock # held s"
proof -
  have st: "p_state (update_timing n p) = p_state p" for n p
    using update_timing_core [of n p] by (simp add: pt_core_def)
  then have st': "map (p_state \<circ> update_timing n) ps = map p_state ps" for n ps by simp
  show ?thesis
    using choose_proc_best [of "procs (ptable s)"] assms(2)
    unfolding scheduler_pick_run [OF assms(1)]
    by (auto simp: best_def st' ptable_upd_def map_update st split: option.splits if_splits)
qed



text \<open>A table with three runnable processes, of priorities 16, 5 and 5.\<close>

definition kproc3 :: kproc where
  "kproc3 = kproc0\<lparr>ptable := ptable0\<lparr>procs :=
     [proc0\<lparr>p_state := RUNNABLE, p_pid := 1, p_priority := 16, p_kstack := 0x80200000, p_pgdir := 0x80201000\<rparr>,
      proc0\<lparr>p_state := RUNNABLE, p_pid := 2, p_priority := 5, p_kstack := 0x80202000, p_pgdir := 0x80203000\<rparr>,
      proc0\<lparr>p_state := RUNNABLE, p_pid := 3, p_priority := 5, p_kstack := 0x80204000, p_pgdir := 0x80205000\<rparr>]\<rparr>\<rparr>"

theorem scheduler_picks_best_witness:
  "\<exists>t. scheduler_pick kproc3 = Ok (Some 1) t \<and> map p_state (procs (ptable t)) = [RUNNABLE, RUNNING, RUNNABLE]
     \<and> curproc t = Some 1 \<and> cr3 t = 0x203000"
proof -
  have lk: "PtableLock \<notin> set (held kproc3)" by (simp add: kproc3_def kproc0_def)
  have "\<exists>t. scheduler_pick kproc3 = Ok (Some 1) t"
    unfolding scheduler_pick_run [OF lk]
    by (simp add: kproc3_def ptable0_def proc0_def choose_proc_def choose_step_def kproc0_def upt_conv_Cons)
  then obtain t where t: "scheduler_pick kproc3 = Ok (Some 1) t" by blast
  show ?thesis
    using scheduler_picks_best [OF lk t] t
    by (simp add: kproc3_def kproc0_def ptable0_def proc0_def V2P_def KERNBASE_def)
qed

text \<open>
  \<^verbatim>\<open>setpriority\<close> with a priority outside of 0 to 31 or a pid that no slot of the table has returns -1 and
  changes nothing; otherwise it returns 0 and sets the priority of the first slot with this pid, and
  changes nothing else: it does not give the CPU to a process that is now preferred.
\<close>

theorem setpriority_spec:
  assumes "PtableLock \<notin> set (held s)"
  shows "setpriority pid n s =
    (if 0 \<le> n \<and> n \<le> 31 then case findp (\<lambda>p. p_pid p = pid) (ptable s) of
       None \<Rightarrow> Ok (- 1) s
     | Some i \<Rightarrow> Ok 0 (s\<lparr>ptable := ptable_upd i (\<lambda>p. p\<lparr>p_priority := n\<rparr>) (ptable s)\<rparr>)
     else Ok (- 1) s)"
proof (cases "findp (\<lambda>p. p_pid p = pid) (ptable s)")
  case None
  with assms show ?thesis by (simp add: setpriority_def krun MIN_PRIORITY_def MAX_PRIORITY_def)
next
  case (Some i)
  then have "i < length (procs (ptable s))" by (simp add: findp_Some)
  with Some assms show ?thesis by (auto simp: setpriority_def krun MIN_PRIORITY_def MAX_PRIORITY_def)
qed

theorem setpriority_spec_witness:
  "setpriority 2 40 kproc3 = Ok (- 1) kproc3
   \<and> setpriority 2 31 kproc3 = Ok 0 (kproc3\<lparr>ptable := ptable_upd 1 (\<lambda>p. p\<lparr>p_priority := 31\<rparr>) (ptable kproc3)\<rparr>)"
proof -
  have lk: "PtableLock \<notin> set (held kproc3)" by (simp add: kproc3_def kproc0_def)
  have "findp (\<lambda>p. p_pid p = 2) (ptable kproc3) = Some 1"
    by (simp add: findp_def kproc3_def ptable0_def proc0_def upt_conv_Cons)
  then show ?thesis using setpriority_spec [OF lk] by simp
qed



text \<open>
  C30: \<^verbatim>\<open>kill(0)\<close> takes a free slot for a process, since free slots have pid 0: it marks the slot as killed
  and reports success.  \<^verbatim>\<open>allocproc\<close> does not clear the mark, so the next process created is killed before
  it has run.
\<close>

theorem kill_zero_kills_next_process:
  fixes s :: "'z kproc_scheme"
  assumes inv: "pt_inv (pview s)" and lk: "held s = []"
    and i: "findp (\<lambda>p. p_state p = UNUSED) (ptable s) = Some i" and pid: "p_pid (procs (ptable s) ! i) = 0"
    and next_pid: "nextpid (ptable s) < INT_MAX" and free: "kmem_inv s (x # xs)"
  shows "\<exists>t u. kill 0 s = Ok 0 t \<and> allocproc t = Ok (Some i) u \<and> p_killed (procs (ptable u) ! i)
     \<and> p_state (procs (ptable u) ! i) = EMBRYO \<and> p_pid (procs (ptable u) ! i) = nextpid (ptable s)"
proof -
  have len: "i < length (procs (ptable s))" and un: "p_state (procs (ptable s) ! i) = UNUSED"
    and used: "\<And>j. j < i \<Longrightarrow> p_state (procs (ptable s) ! j) \<noteq> UNUSED"
    using i by (auto simp: findp_Some)
  have "p_pid (procs (ptable s) ! j) \<noteq> 0" if "j < i" for j
    using inv used [OF that] that len pt_invD(3) [of "ptable s" "curproc s" j]
    by (auto simp: pview_def proc_ok_def Let_def)
  then have f0: "findp (\<lambda>p. p_pid p = 0) (ptable s) = Some i" using len pid by (simp add: findp_Some)
  let ?pt = "ptable_upd i (\<lambda>p. p\<lparr>p_killed := True\<rparr>) (ptable s)"
  let ?t = "s\<lparr>ptable := ?pt\<rparr>"
  have kill: "kill 0 s = Ok 0 ?t"
    using f0 len lk un by (simp add: kill_def krun ptable_upd_def)
  have f1: "findp (\<lambda>p. p_state p = UNUSED) ?pt = Some i"
    using len un used by (simp add: findp_Some ptable_upd_nth)
  let ?t1 = "?t\<lparr>ptable := pt_new i (ticks s) ?pt\<rparr>"
  have "kmem_inv ?t1 (x # xs)" using free by (auto simp: kmem_inv_def)
  then have al: "kalloc ?t1 = Ok x (?t1\<lparr>freelist := load32 (mem s) x\<rparr>)" "x \<noteq> 0"
    using kalloc_Cons(1) [of ?t1 x xs] kmem.inv_valid [OF free] lk by auto
  show ?thesis
    using kill f1 next_pid lk al len
    by (simp add: allocproc_run allocproc_kstack_def krun Let_def pt_new_def ptable_upd_nth new_proc_def)
qed

theorem kill_zero_kills_next_process_witness:
  "\<exists>t u. kill 0 kproc0 = Ok 0 t \<and> allocproc t = Ok (Some 0) u \<and> p_killed (procs (ptable u) ! 0)
     \<and> p_pid (procs (ptable u) ! 0) = 1"
proof -
  have "findp (\<lambda>p. p_state p = UNUSED) ptable0 = Some 0"
    by (simp add: findp_Some ptable0_def proc0_def NPROC_def)
  moreover have "kmem_inv kproc0 [0x80116000]"
    by (simp add: kmem_inv_def kproc0_def KERNBASE_def page_ok_def page_aligned_def PGSIZE_def V2P_def
        PHYSTOP_def load32_def)
  ultimately show ?thesis
    using kill_zero_kills_next_process [of kproc0 0 "0x80116000" "[]"] ptable0_inv
    by (fastforce simp: pview_def kproc0_def ptable0_def proc0_def NPROC_def INT_MAX_def)
qed

end
