(* ===== verification/Spinlock.thy ===== *)
theory Spinlock
  imports Proc
begin

text \<open>
  Spin locks (\<^verbatim>\<open>spinlock.c\<close>, \<^verbatim>\<open>spinlock.h\<close>) on a machine with several CPUs.  The threads of the CPUs are interleaved; a step is one access to
  the memory that they share (the word of the lock, the owner of the lock) or a piece of code that touches only the data
  of its own CPU.  Memory is sequentially consistent: the code has a barrier wherever the order of its accesses
  matters.

  The theory shows that the locks exclude each other, that interrupts are disabled while a lock is held, that \<^verbatim>\<open>ncli\<close>
  counts the locks held, and that the two operations \<open>acquire\<close> and \<open>release\<close> of the prelude, which
  the rest of the kernel is modelled with, are what one CPU sees of this code.
\<close>

section \<open>State\<close>

definition FL_IF :: uint where "FL_IF = 0x200"

text \<open>The owner of a lock, a pointer to an entry of \<^verbatim>\<open>cpus\<close>, is the index of the entry.\<close>

record spinlock =
  lk_locked :: uint
  lk_name :: string
  lk_cpu :: "nat option"
  lk_pcs :: "uint list"

record cpu =
  c_apicid :: uchar
  c_ncli :: int
  c_intena :: uint

text \<open>
  Where a CPU is.  The positions of \<^verbatim>\<open>holding\<close> occur in both operations; \<open>H_ret\<close> is its return with a value.
  \<open>Idle\<close> is any code outside of \<^verbatim>\<open>spinlock.c\<close>, and \<open>Stopped\<close> is a CPU after a panic.
\<close>

datatype hpos = H_push | H_locked | H_cpu | H_pop bool | H_ret bool

datatype pc =
    Idle | Stopped string
  | A_push lockid | A_hold lockid hpos | A_xchg lockid | A_cpu lockid | A_pcs lockid
  | R_hold lockid hpos | R_pcs lockid | R_cpu lockid | R_unlock lockid | R_pop
  | M_push | M_pop

text \<open>
  The registers of a CPU: the flags, the identifier of its local APIC, the address of the argument of \<^verbatim>\<open>acquire\<close> on its
  stack, and its position.  The auxiliary variable \<open>h_taken\<close> lists the locks that it has taken; no
  code reads it.
\<close>

record hart =
  h_eflags :: uint
  h_apicid :: uint
  h_argp :: uint
  h_pc :: pc
  h_taken :: "lockid list"

text \<open>The threads that were interrupted inside of this code, or in front of it, wait in \<open>frames\<close> with the position to go on from.\<close>

record mp =
  locks :: "lockid \<Rightarrow> spinlock"
  cpus :: "cpu list"
  harts :: "hart list"
  shared :: memory
  frames :: "pc list"

definition updl :: "lockid \<Rightarrow> (spinlock \<Rightarrow> spinlock) \<Rightarrow> mp \<Rightarrow> mp" where
  "updl l f s = s\<lparr>locks := (locks s)(l := f (locks s l))\<rparr>"

definition updc :: "nat \<Rightarrow> (cpu \<Rightarrow> cpu) \<Rightarrow> mp \<Rightarrow> mp" where
  "updc i f s = s\<lparr>cpus := (cpus s)[i := f (cpus s ! i)]\<rparr>"

definition updh :: "nat \<Rightarrow> (hart \<Rightarrow> hart) \<Rightarrow> mp \<Rightarrow> mp" where
  "updh c f s = s\<lparr>harts := (harts s)[c := f (harts s ! c)]\<rparr>"

section \<open>Interrupts\<close>

definition readeflags :: "nat \<Rightarrow> (uint, mp) M" where
  "readeflags c = kget (\<lambda>s. h_eflags (harts s ! c))"

definition cli :: "nat \<Rightarrow> (unit, mp) M" where
  "cli c = kmod (updh c (\<lambda>h. h\<lparr>h_eflags := h_eflags h AND NOT FL_IF\<rparr>))"

definition sti :: "nat \<Rightarrow> (unit, mp) M" where
  "sti c = kmod (updh c (\<lambda>h. h\<lparr>h_eflags := h_eflags h OR FL_IF\<rparr>))"

definition mycpu :: "nat \<Rightarrow> (nat, mp) M" where
  "mycpu c =
     kbind (readeflags c) (\<lambda>fl.
     if fl AND FL_IF \<noteq> 0 then kpanic ''mycpu called with interrupts enabled\<newline>''
     else
       kbind (kget (\<lambda>s. find (\<lambda>i. ucast (c_apicid (cpus s ! i)) = h_apicid (harts s ! c)) [0..<length (cpus s)])) (\<lambda>r.
       case r of None \<Rightarrow> kpanic ''unknown apicid\<newline>'' | Some i \<Rightarrow> kret i))"

definition pushcli :: "nat \<Rightarrow> (unit, mp) M" where
  "pushcli c =
     kbind (readeflags c) (\<lambda>eflags.
     kseq (cli c)
    (kbind (mycpu c) (\<lambda>i.
     kseq (kmod (updc i (\<lambda>k. if c_ncli k = 0 then k\<lparr>c_intena := eflags AND FL_IF\<rparr> else k)))
          (kmod (updc i (\<lambda>k. k\<lparr>c_ncli := c_ncli k + 1\<rparr>))))))"

definition popcli :: "nat \<Rightarrow> (unit, mp) M" where
  "popcli c =
     kbind (readeflags c) (\<lambda>eflags.
     if eflags AND FL_IF \<noteq> 0 then kpanic ''popcli - interruptible''
     else
       kbind (mycpu c) (\<lambda>i.
       kseq (kmod (updc i (\<lambda>k. k\<lparr>c_ncli := c_ncli k - 1\<rparr>)))
      (kbind (kget (\<lambda>s. cpus s ! i)) (\<lambda>k.
       if c_ncli k < 0 then kpanic ''popcli''
       else kwhen (c_ncli k = 0 \<and> c_intena k \<noteq> 0) (sti c)))))"

section \<open>Operations\<close>

definition initlock :: "lockid \<Rightarrow> string \<Rightarrow> (unit, mp) M" where
  "initlock l name = kmod (updl l (\<lambda>k. k\<lparr>lk_name := name, lk_locked := 0, lk_cpu := None\<rparr>))"

text \<open>The atomic exchange: the old value, with the new one in its place.\<close>

definition xchg :: "lockid \<Rightarrow> uint \<Rightarrow> (uint, mp) M" where
  "xchg l v = (\<lambda>s. Ok (lk_locked (locks s l)) (updl l (\<lambda>k. k\<lparr>lk_locked := v\<rparr>) s))"

text \<open>A step of \<^verbatim>\<open>holding\<close>; the owner is not read when the lock is free.\<close>

fun holding_step :: "nat \<Rightarrow> lockid \<Rightarrow> hpos \<Rightarrow> (hpos, mp) M" where
  "holding_step c l H_push = kseq (pushcli c) (kret H_locked)"
| "holding_step c l H_locked =
     kbind (kget (\<lambda>s. lk_locked (locks s l))) (\<lambda>k. kret (if k \<noteq> 0 then H_cpu else H_pop False))"
| "holding_step c l H_cpu =
     kbind (mycpu c) (\<lambda>i. kbind (kget (\<lambda>s. lk_cpu (locks s l))) (\<lambda>k. kret (H_pop (k = Some i))))"
| "holding_step c l (H_pop r) = kseq (popcli c) (kret (H_ret r))"
| "holding_step c l (H_ret r) = kundef"

text \<open>A step of \<^verbatim>\<open>acquire\<close> and of \<^verbatim>\<open>release\<close>, and of \<^verbatim>\<open>myproc\<close>, which brackets its access to \<^verbatim>\<open>cpus\<close> in the same way.\<close>

fun acquire_step :: "nat \<Rightarrow> pc \<Rightarrow> (pc, mp) M" where
  "acquire_step c (A_push l) = kseq (pushcli c) (kret (A_hold l H_push))"
| "acquire_step c (A_hold l (H_ret r)) = (if r then kpanic ''acquire'' else kret (A_xchg l))"
| "acquire_step c (A_hold l h) = kbind (holding_step c l h) (\<lambda>h. kret (A_hold l h))"
| "acquire_step c (A_xchg l) =
     kbind (xchg l 1) (\<lambda>old.
     if old \<noteq> 0 then kret (A_xchg l)
     else kseq (kmod (updh c (\<lambda>h. h\<lparr>h_taken := l # h_taken h\<rparr>))) (kret (A_cpu l)))"
| "acquire_step c (A_cpu l) =
     kbind (mycpu c) (\<lambda>i. kseq (kmod (updl l (\<lambda>k. k\<lparr>lk_cpu := Some i\<rparr>))) (kret (A_pcs l)))"
| "acquire_step c (A_pcs l) =
     kseq (kmod (\<lambda>s. updl l (\<lambda>k. k\<lparr>lk_pcs := getcallerpcs (shared s) (h_argp (harts s ! c))\<rparr>) s)) (kret Idle)"
| "acquire_step c p = kundef"

fun release_step :: "nat \<Rightarrow> pc \<Rightarrow> (pc, mp) M" where
  "release_step c (R_hold l (H_ret r)) = (if \<not> r then kpanic ''release'' else kret (R_pcs l))"
| "release_step c (R_hold l h) = kbind (holding_step c l h) (\<lambda>h. kret (R_hold l h))"
| "release_step c (R_pcs l) = kseq (kmod (updl l (\<lambda>k. k\<lparr>lk_pcs := (lk_pcs k)[0 := 0]\<rparr>))) (kret (R_cpu l))"
| "release_step c (R_cpu l) = kseq (kmod (updl l (\<lambda>k. k\<lparr>lk_cpu := None\<rparr>))) (kret (R_unlock l))"
| "release_step c (R_unlock l) =
     kseq (kmod (updl l (\<lambda>k. k\<lparr>lk_locked := 0\<rparr>)))
    (kseq (kmod (updh c (\<lambda>h. h\<lparr>h_taken := remove1 l (h_taken h)\<rparr>))) (kret R_pop))"
| "release_step c R_pop = kseq (popcli c) (kret Idle)"
| "release_step c p = kundef"

fun myproc_step :: "nat \<Rightarrow> pc \<Rightarrow> (pc, mp) M" where
  "myproc_step c M_push = kseq (pushcli c) (kret M_pop)"
| "myproc_step c M_pop = kbind (mycpu c) (\<lambda>_. kseq (popcli c) (kret Idle))"
| "myproc_step c p = kundef"

fun cpu_step :: "nat \<Rightarrow> pc \<Rightarrow> (pc, mp) M" where
  "cpu_step c Idle = kundef"
| "cpu_step c (Stopped e) = kundef"
| "cpu_step c (A_push l) = acquire_step c (A_push l)"
| "cpu_step c (A_hold l h) = acquire_step c (A_hold l h)"
| "cpu_step c (A_xchg l) = acquire_step c (A_xchg l)"
| "cpu_step c (A_cpu l) = acquire_step c (A_cpu l)"
| "cpu_step c (A_pcs l) = acquire_step c (A_pcs l)"
| "cpu_step c (R_hold l h) = release_step c (R_hold l h)"
| "cpu_step c (R_pcs l) = release_step c (R_pcs l)"
| "cpu_step c (R_cpu l) = release_step c (R_cpu l)"
| "cpu_step c (R_unlock l) = release_step c (R_unlock l)"
| "cpu_step c R_pop = release_step c R_pop"
| "cpu_step c M_push = myproc_step c M_push"
| "cpu_step c M_pop = myproc_step c M_pop"

text \<open>
  The machine.  A CPU that is elsewhere may call an operation on any lock at any time.  When its interrupt flag is set it may be
  interrupted anywhere: the position is put away, with the flag set, and the handler runs with the flag clear.  The trap code returns to
  an interrupted thread, maybe to one of another CPU, and the scheduler enables interrupts, only when no lock is
  held.  \<^verbatim>\<open>panic\<close> disables interrupts for good.  \<^verbatim>\<open>sched\<close> may store any value in \<^verbatim>\<open>intena\<close>, the one of the thread that it switches to, and other code may change the rest of
  the memory.
\<close>

inductive mp_step :: "mp \<Rightarrow> mp \<Rightarrow> bool" where
  call_acquire: "c < length (harts s) \<Longrightarrow> h_pc (harts s ! c) = Idle \<Longrightarrow>
    mp_step s (updh c (\<lambda>h. h\<lparr>h_pc := A_push l, h_argp := v\<rparr>) s)"
| call_release: "c < length (harts s) \<Longrightarrow> h_pc (harts s ! c) = Idle \<Longrightarrow>
    mp_step s (updh c (\<lambda>h. h\<lparr>h_pc := R_hold l H_push\<rparr>) s)"
| call_myproc: "c < length (harts s) \<Longrightarrow> h_pc (harts s ! c) = Idle \<Longrightarrow>
    mp_step s (updh c (\<lambda>h. h\<lparr>h_pc := M_push\<rparr>) s)"
| run: "c < length (harts s) \<Longrightarrow> cpu_step c (h_pc (harts s ! c)) s = Ok p t \<Longrightarrow>
    mp_step s (updh c (\<lambda>h. h\<lparr>h_pc := p\<rparr>) t)"
| panic: "c < length (harts s) \<Longrightarrow> cpu_step c (h_pc (harts s ! c)) s = Panic e \<Longrightarrow>
    mp_step s (updh c (\<lambda>h. h\<lparr>h_pc := Stopped e, h_eflags := h_eflags h AND NOT FL_IF\<rparr>) s)"
| intr: "c < length (harts s) \<Longrightarrow> h_eflags (harts s ! c) AND FL_IF \<noteq> 0 \<Longrightarrow>
    mp_step s (updh c (\<lambda>h. h\<lparr>h_pc := Idle, h_eflags := h_eflags h AND NOT FL_IF\<rparr>) (s\<lparr>frames := h_pc (harts s ! c) # frames s\<rparr>))"
| iret: "c < length (harts s) \<Longrightarrow> h_pc (harts s ! c) = Idle \<Longrightarrow> c_ncli (cpus s ! c) = 0 \<Longrightarrow> p \<in> set (frames s) \<Longrightarrow>
    mp_step s (updh c (\<lambda>h. h\<lparr>h_pc := p, h_eflags := h_eflags h OR FL_IF\<rparr>) (s\<lparr>frames := remove1 p (frames s)\<rparr>))"
| enable: "c < length (harts s) \<Longrightarrow> h_pc (harts s ! c) = Idle \<Longrightarrow> c_ncli (cpus s ! c) = 0 \<Longrightarrow> sti c s = Ok () t \<Longrightarrow>
    mp_step s t"
| switch: "c < length (harts s) \<Longrightarrow> h_pc (harts s ! c) = Idle \<Longrightarrow> mp_step s (updc c (\<lambda>k. k\<lparr>c_intena := i\<rparr>) s)"
| others: "mp_step s (s\<lparr>shared := m\<rparr>)"


section \<open>The invariant\<close>

text \<open>How often \<^verbatim>\<open>pushcli\<close> has been called at a position, beyond once for every lock taken, and what is known there of the locks taken.\<close>

fun hdepth :: "hpos \<Rightarrow> int" where
  "hdepth H_push = 0"
| "hdepth (H_ret r) = 0"
| "hdepth _ = 1"

fun depth :: "pc \<Rightarrow> int" where
  "depth (A_hold l h) = 1 + hdepth h"
| "depth (R_hold l h) = hdepth h"
| "depth (A_xchg l) = 1"
| "depth R_pop = 1"
| "depth M_pop = 1"
| "depth _ = 0"

fun hknows :: "lockid \<Rightarrow> hpos \<Rightarrow> lockid list \<Rightarrow> bool" where
  "hknows l (H_pop r) ts \<longleftrightarrow> (r \<longleftrightarrow> l \<in> set ts)"
| "hknows l (H_ret r) ts \<longleftrightarrow> (r \<longleftrightarrow> l \<in> set ts)"
| "hknows l _ ts \<longleftrightarrow> True"

fun knows :: "pc \<Rightarrow> lockid list \<Rightarrow> bool" where
  "knows (A_hold l h) ts \<longleftrightarrow> hknows l h ts"
| "knows (R_hold l h) ts \<longleftrightarrow> hknows l h ts"
| "knows (A_xchg l) ts \<longleftrightarrow> l \<notin> set ts"
| "knows (A_cpu l) ts \<longleftrightarrow> l \<in> set ts"
| "knows (A_pcs l) ts \<longleftrightarrow> l \<in> set ts"
| "knows (R_pcs l) ts \<longleftrightarrow> l \<in> set ts"
| "knows (R_cpu l) ts \<longleftrightarrow> l \<in> set ts"
| "knows (R_unlock l) ts \<longleftrightarrow> l \<in> set ts"
| "knows _ ts \<longleftrightarrow> True"

fun stopped :: "pc \<Rightarrow> bool" where
  "stopped (Stopped e) = True"
| "stopped _ = False"

text \<open>One CPU with its entry of \<^verbatim>\<open>cpus\<close>: a set interrupt flag means that it has called no \<^verbatim>\<open>pushcli\<close> that is still open.\<close>

definition hart_ok :: "hart \<Rightarrow> cpu \<Rightarrow> bool" where
  "hart_ok h k \<longleftrightarrow> ucast (c_apicid k) = h_apicid h \<and> distinct (h_taken h)
     \<and> (h_eflags h AND FL_IF \<noteq> 0 \<longrightarrow> c_ncli k = 0 \<and> h_taken h = [] \<and> \<not> stopped (h_pc h))
     \<and> (\<not> stopped (h_pc h) \<longrightarrow> c_ncli k = int (length (h_taken h)) + depth (h_pc h) \<and> knows (h_pc h) (h_taken h))"

text \<open>A lock is marked as locked when a CPU has taken it, its owner is that CPU except right after taking it and right before giving it back.\<close>

definition lock_ok :: "lockid \<Rightarrow> spinlock \<Rightarrow> hart list \<Rightarrow> bool" where
  "lock_ok l k hs \<longleftrightarrow>
     (lk_locked k \<noteq> 0 \<longleftrightarrow> (\<exists>c < length hs. l \<in> set (h_taken (hs ! c))))
     \<and> (\<forall>c < length hs. l \<in> set (h_taken (hs ! c)) \<longrightarrow> lk_cpu k = Some c \<or> h_pc (hs ! c) = A_cpu l \<or> h_pc (hs ! c) = R_unlock l)
     \<and> (\<forall>i. lk_cpu k = Some i \<longrightarrow> i < length hs \<and> l \<in> set (h_taken (hs ! i)))
     \<and> (\<forall>c < length hs. h_pc (hs ! c) = R_unlock l \<longrightarrow> lk_cpu k = None)
     \<and> (\<forall>c < length hs. \<forall>d < length hs. l \<in> set (h_taken (hs ! c)) \<longrightarrow> l \<in> set (h_taken (hs ! d)) \<longrightarrow> c = d)"

definition mp_inv :: "mp \<Rightarrow> bool" where
  "mp_inv s \<longleftrightarrow> length (cpus s) = length (harts s) \<and> distinct (map h_apicid (harts s))
     \<and> (\<forall>c < length (harts s). hart_ok (harts s ! c) (cpus s ! c))
     \<and> (\<forall>l. lock_ok l (locks s l) (harts s))
     \<and> (\<forall>p \<in> set (frames s). depth p = 0 \<and> knows p [] \<and> \<not> stopped p)"

section \<open>Steps keep the invariant\<close>

lemma no_IF [simp]: "(x AND NOT FL_IF) AND FL_IF = 0" "(x OR FL_IF) AND FL_IF \<noteq> 0"
  by (auto simp: FL_IF_def bit_eq_iff bit_simps) (intro exI [of _ 9], simp)

text \<open>One CPU changes, with its entry of \<^verbatim>\<open>cpus\<close>.\<close>

definition updk :: "nat \<Rightarrow> hart \<Rightarrow> cpu \<Rightarrow> mp \<Rightarrow> mp" where
  "updk c h k s = s\<lparr>harts := (harts s)[c := h], cpus := (cpus s)[c := k]\<rparr>"

lemma lock_okD:
  assumes "lock_ok l k hs" "c < length hs"
  shows "l \<in> set (h_taken (hs ! c)) \<Longrightarrow> lk_locked k \<noteq> 0"
    and "l \<in> set (h_taken (hs ! c)) \<Longrightarrow> h_pc (hs ! c) \<noteq> A_cpu l \<Longrightarrow> h_pc (hs ! c) \<noteq> R_unlock l \<Longrightarrow> lk_cpu k = Some c"
    and "h_pc (hs ! c) = R_unlock l \<Longrightarrow> lk_cpu k = None"
    and "d < length hs \<Longrightarrow> l \<in> set (h_taken (hs ! c)) \<Longrightarrow> l \<in> set (h_taken (hs ! d)) \<Longrightarrow> c = d"
  using assms unfolding lock_ok_def by blast+

lemma lock_ok_owner: "lock_ok l k hs \<Longrightarrow> lk_cpu k = Some i \<Longrightarrow> l \<in> set (h_taken (hs ! i))"
  by (simp add: lock_ok_def)

lemma lock_ok_upd:
  assumes "lock_ok l k hs" "c < length hs" "l \<in> set (h_taken h) \<longleftrightarrow> l \<in> set (h_taken (hs ! c))"
    and "l \<in> set (h_taken h) \<Longrightarrow> lk_cpu k = Some c \<or> h_pc h = A_cpu l" "h_pc h \<noteq> R_unlock l"
  shows "lock_ok l k (hs[c := h])"
proof -
  let ?hs = "hs[c := h]"
  have t: "l \<in> set (h_taken (?hs ! d)) \<longleftrightarrow> l \<in> set (h_taken (hs ! d))" if "d < length hs" for d
    using assms(2,3) that by (cases "d = c") auto
  have w: "lk_cpu k = Some d \<or> h_pc (?hs ! d) = A_cpu l \<or> h_pc (?hs ! d) = R_unlock l"
    if "d < length hs" "l \<in> set (h_taken (hs ! d))" for d
    using assms(2-4) lock_okD(2) [OF assms(1)] that by (cases "d = c") auto
  have r: "lk_cpu k = None" if "d < length hs" "h_pc (?hs ! d) = R_unlock l" for d
    using assms(2,5) lock_okD(3) [OF assms(1)] that by (cases "d = c") auto
  have e: "(\<exists>d < length hs. l \<in> set (h_taken (?hs ! d))) \<longleftrightarrow> (\<exists>d < length hs. l \<in> set (h_taken (hs ! d)))"
    using t by blast
  show ?thesis unfolding lock_ok_def length_list_update e
  proof (intro conjI allI impI)
    show "lk_locked k \<noteq> 0 \<longleftrightarrow> (\<exists>d < length hs. l \<in> set (h_taken (hs ! d)))" using assms(1) by (simp add: lock_ok_def)
  next
    fix i assume "lk_cpu k = Some i"
    then have i: "i < length hs" "l \<in> set (h_taken (hs ! i))" using assms(1) by (simp_all add: lock_ok_def)
    then show "i < length hs" "l \<in> set (h_taken (?hs ! i))" using t by simp_all
  qed (simp_all add: t w r lock_okD(4) [OF assms(1)])
qed

lemma mp_inv_upd:
  assumes inv: "mp_inv s" and c: "c < length (harts s)" and h: "hart_ok h k" "h_apicid h = h_apicid (harts s ! c)"
    and t: "set (h_taken h) = set (h_taken (harts s ! c))"
    and w: "\<And>l. l \<in> set (h_taken h) \<Longrightarrow> lk_cpu (locks s l) = Some c \<or> h_pc h = A_cpu l" "\<And>l. h_pc h \<noteq> R_unlock l"
  shows "mp_inv (updk c h k s)"
proof -
  have "map h_apicid ((harts s)[c := h]) = map h_apicid (harts s)"
    using c h(2) by (simp add: map_update list_update_same_conv)
  moreover have "lock_ok l (locks s l) ((harts s)[c := h])" for l
    using inv c t w by (intro lock_ok_upd) (auto simp: mp_inv_def)
  moreover have "hart_ok ((harts s)[c := h] ! d) ((cpus s)[c := k] ! d)" if "d < length (harts s)" for d
    using inv h(1) that c by (cases "d = c") (auto simp: mp_inv_def)
  ultimately show ?thesis using inv by (simp add: mp_inv_def updk_def)
qed


definition ids_ok :: "mp \<Rightarrow> bool" where
  "ids_ok s \<longleftrightarrow> length (cpus s) = length (harts s) \<and> distinct (map h_apicid (harts s))
     \<and> (\<forall>c < length (harts s). ucast (c_apicid (cpus s ! c)) = h_apicid (harts s ! c))"

lemma mp_inv_ids: "mp_inv s \<Longrightarrow> ids_ok s"
  by (simp add: mp_inv_def ids_ok_def hart_ok_def)

lemma ids_ok_cli:
  assumes "ids_ok s" "c < length (harts s)"
  shows "ids_ok (updh c (\<lambda>h. h\<lparr>h_eflags := x\<rparr>) s)"
proof -
  have "map h_apicid ((harts s)[c := (harts s ! c)\<lparr>h_eflags := x\<rparr>]) = map h_apicid (harts s)"
    using assms(2) by (simp add: map_update list_update_same_conv)
  then show ?thesis using assms by (auto simp: ids_ok_def updh_def nth_list_update)
qed

lemma mycpu_run:
  assumes ids: "ids_ok s" and c: "c < length (harts s)" "h_eflags (harts s ! c) AND FL_IF = 0"
  shows "mycpu c s = Ok c s"
proof -
  have "ucast (c_apicid (cpus s ! i)) = h_apicid (harts s ! c) \<longleftrightarrow> i = c" if "i < length (harts s)" for i
    using ids that c by (auto simp: ids_ok_def distinct_conv_nth)
  then have "find (\<lambda>i. ucast (c_apicid (cpus s ! i)) = h_apicid (harts s ! c)) [0..<length (cpus s)] = Some c"
    using ids c by (auto simp: find_Some_iff ids_ok_def intro!: exI [of _ c])
  then show ?thesis using c by (simp add: mycpu_def readeflags_def krun)
qed

lemma hart_inv: "mp_inv s \<Longrightarrow> c < length (harts s) \<Longrightarrow> hart_ok (harts s ! c) (cpus s ! c)"
  by (simp add: mp_inv_def)

lemma mp_inv_sizes: "mp_inv s \<Longrightarrow> length (cpus s) = length (harts s)"
  by (simp add: mp_inv_def)

lemma owner_inv:
  assumes "mp_inv s" "c < length (harts s)" "l \<in> set (h_taken (harts s ! c))"
    and "h_pc (harts s ! c) \<noteq> A_cpu l" "h_pc (harts s ! c) \<noteq> R_unlock l"
  shows "lk_cpu (locks s l) = Some c"
  using assms unfolding mp_inv_def lock_ok_def by blast

text \<open>The two halves of the bracket.\<close>

definition pushed :: "hart \<Rightarrow> cpu \<Rightarrow> cpu" where
  "pushed h k = (if c_ncli k = 0 then k\<lparr>c_intena := h_eflags h AND FL_IF, c_ncli := 1\<rparr> else k\<lparr>c_ncli := c_ncli k + 1\<rparr>)"

definition popped :: "hart \<Rightarrow> cpu \<Rightarrow> hart" where
  "popped h k = (if c_ncli k = 1 \<and> c_intena k \<noteq> 0 then h\<lparr>h_eflags := h_eflags h OR FL_IF\<rparr> else h)"

lemma popped_simps [simp]: "h_taken (popped h k) = h_taken h" "h_apicid (popped h k) = h_apicid h" "h_pc (popped h k) = h_pc h"
  by (simp_all add: popped_def)

lemma updh_updk: "c < length (harts s) \<Longrightarrow> updh c f (updk c h k s) = updk c (f h) k s"
  by (cases s) (simp add: updk_def updh_def)

lemma pushcli_run:
  assumes "mp_inv s" "c < length (harts s)"
  shows "pushcli c s = Ok () (updk c ((harts s ! c)\<lparr>h_eflags := h_eflags (harts s ! c) AND NOT FL_IF\<rparr>) (pushed (harts s ! c) (cpus s ! c)) s)"
proof -
  let ?x = "h_eflags (harts s ! c) AND NOT FL_IF"
  have "mycpu c (updh c (\<lambda>h. h\<lparr>h_eflags := ?x\<rparr>) s) = Ok c (updh c (\<lambda>h. h\<lparr>h_eflags := ?x\<rparr>) s)"
    using assms(2) by (intro mycpu_run ids_ok_cli mp_inv_ids assms) (simp_all add: updh_def)
  then show ?thesis using assms(2) mp_inv_sizes [OF assms(1)]
    by (simp add: pushcli_def krun readeflags_def cli_def updh_def updc_def updk_def pushed_def)
qed

lemma popcli_run:
  assumes "mp_inv s" "c < length (harts s)" "h_eflags (harts s ! c) AND FL_IF = 0" "c_ncli (cpus s ! c) > 0"
  shows "popcli c s = Ok () (updk c (popped (harts s ! c) (cpus s ! c)) ((cpus s ! c)\<lparr>c_ncli := c_ncli (cpus s ! c) - 1\<rparr>) s)"
  using mycpu_run [OF mp_inv_ids [OF assms(1)] assms(2,3)] assms mp_inv_sizes [OF assms(1)]
  by (simp add: popcli_def krun readeflags_def sti_def updh_def updc_def updk_def popped_def)

lemma hdepth_nonneg: "0 \<le> hdepth h"
  by (cases h) auto

lemma depth_nonneg: "0 \<le> depth p"
  using hdepth_nonneg by (cases p) (auto simp: add_nonneg_nonneg)

lemma unlocking:
  assumes "mp_inv s" "d < length (harts s)" "h_pc (harts s ! d) = R_unlock l"
  shows "l \<in> set (h_taken (harts s ! d))" "lk_cpu (locks s l) = None"
proof -
  have "lock_ok l (locks s l) (harts s)" using assms(1) by (simp add: mp_inv_def)
  then show "lk_cpu (locks s l) = None" using assms(2,3) unfolding lock_ok_def by blast
qed (use hart_inv [OF assms(1,2)] assms(3) in \<open>simp add: hart_ok_def\<close>)

lemma IF_clear:
  assumes "mp_inv s" "c < length (harts s)" "0 < depth (h_pc (harts s ! c)) \<or> h_taken (harts s ! c) \<noteq> []"
  shows "h_eflags (harts s ! c) AND FL_IF = 0"
  using hart_inv [OF assms(1,2)] assms(3) by (auto simp: hart_ok_def)

abbreviation in_window :: "pc \<Rightarrow> bool" where
  "in_window p \<equiv> \<exists>l. p = A_cpu l \<or> p = R_unlock l"

lemma move_inv:
  assumes "mp_inv s" "c < length (harts s)" "\<not> stopped (h_pc (harts s ! c))" "\<not> in_window (h_pc (harts s ! c))"
    and "\<not> stopped p" "\<And>l. p \<noteq> R_unlock l" "depth p = depth (h_pc (harts s ! c))" "knows p (h_taken (harts s ! c))"
  shows "mp_inv (updh c (\<lambda>h. h\<lparr>h_pc := p\<rparr>) s)"
proof -
  have "mp_inv (updk c ((harts s ! c)\<lparr>h_pc := p\<rparr>) (cpus s ! c) s)"
    using hart_inv [OF assms(1,2)] owner_inv [OF assms(1,2)] assms(3-)
    by (intro mp_inv_upd [OF assms(1,2)]) (auto simp: hart_ok_def)
  then show ?thesis by (simp add: updk_def updh_def)
qed

lemma push_inv:
  assumes "mp_inv s" "c < length (harts s)" "\<not> stopped (h_pc (harts s ! c))" "\<not> in_window (h_pc (harts s ! c))"
    and "\<not> stopped p" "\<And>l. p \<noteq> R_unlock l" "depth p = depth (h_pc (harts s ! c)) + 1" "knows p (h_taken (harts s ! c))" "pushcli c s = Ok () t"
  shows "mp_inv (updh c (\<lambda>h. h\<lparr>h_pc := p\<rparr>) t)"
proof -
  let ?h = "harts s ! c"
  have "mp_inv (updk c (?h\<lparr>h_eflags := h_eflags ?h AND NOT FL_IF, h_pc := p\<rparr>) (pushed ?h (cpus s ! c)) s)"
    using hart_inv [OF assms(1,2)] owner_inv [OF assms(1,2)] assms(3-8)
    by (intro mp_inv_upd [OF assms(1,2)]) (auto simp: hart_ok_def pushed_def)
  then show ?thesis using assms(2,9) pushcli_run [OF assms(1,2)] by (auto simp: updh_updk)
qed

lemma pop_inv:
  assumes "mp_inv s" "c < length (harts s)" "\<not> stopped (h_pc (harts s ! c))" "\<not> in_window (h_pc (harts s ! c))"
    and "\<not> stopped p" "\<And>l. p \<noteq> R_unlock l" "depth p + 1 = depth (h_pc (harts s ! c))" "knows p (h_taken (harts s ! c))" "popcli c s = Ok () t"
  shows "mp_inv (updh c (\<lambda>h. h\<lparr>h_pc := p\<rparr>) t)"
proof -
  let ?h = "harts s ! c" and ?k = "cpus s ! c"
  have d: "0 < depth (h_pc ?h)" using depth_nonneg [of p] assms(7) by simp
  have "c_ncli ?k = int (length (h_taken ?h)) + depth (h_pc ?h)" using hart_inv [OF assms(1,2)] assms(3) by (simp add: hart_ok_def)
  then have "c_ncli ?k > 0" "c_ncli ?k = 1 \<Longrightarrow> int (length (h_taken ?h)) = 0" using d by linarith+
  then have n: "h_eflags ?h AND FL_IF = 0" "c_ncli ?k > 0" "c_ncli ?k = 1 \<Longrightarrow> h_taken ?h = []"
    using IF_clear [OF assms(1,2)] d by simp_all
  have "hart_ok ((popped ?h ?k)\<lparr>h_pc := p\<rparr>) (?k\<lparr>c_ncli := c_ncli ?k - 1\<rparr>)"
    using hart_inv [OF assms(1,2)] assms(3-8) n by (auto simp: hart_ok_def) (auto simp: popped_def split: if_splits)
  then have "mp_inv (updk c ((popped ?h ?k)\<lparr>h_pc := p\<rparr>) (?k\<lparr>c_ncli := c_ncli ?k - 1\<rparr>) s)"
    using owner_inv [OF assms(1,2)] assms(4,6) by (intro mp_inv_upd [OF assms(1,2)]) auto
  then show ?thesis using assms(2,9) popcli_run [OF assms(1,2) n(1,2)] by (auto simp: updh_updk)
qed

text \<open>A CPU changes a lock and the list of locks that it has taken.\<close>

lemma mp_inv_lock:
  assumes inv: "mp_inv s" and c: "c < length (harts s)" and h: "hart_ok h (cpus s ! c)" "h_apicid h = h_apicid (harts s ! c)"
    and t: "\<And>l'. l' \<noteq> l \<Longrightarrow> l' \<in> set (h_taken h) \<longleftrightarrow> l' \<in> set (h_taken (harts s ! c))"
    and w: "\<And>l'. l' \<noteq> l \<Longrightarrow> l' \<in> set (h_taken h) \<Longrightarrow> lk_cpu (locks s l') = Some c"
    and l: "lock_ok l k ((harts s)[c := h])" "\<And>l'. l' \<noteq> l \<Longrightarrow> h_pc h \<noteq> R_unlock l'"
  shows "mp_inv (s\<lparr>locks := (locks s)(l := k), harts := (harts s)[c := h]\<rparr>)"
proof -
  have "map h_apicid ((harts s)[c := h]) = map h_apicid (harts s)"
    using c h(2) by (simp add: map_update list_update_same_conv)
  moreover have "lock_ok l' (locks s l') ((harts s)[c := h])" if "l' \<noteq> l" for l'
    using inv c t w l(2) that by (intro lock_ok_upd) (auto simp: mp_inv_def)
  moreover have "hart_ok ((harts s)[c := h] ! d) (cpus s ! d)" if "d < length (harts s)" for d
    using inv h(1) that c by (cases "d = c") (auto simp: mp_inv_def)
  ultimately show ?thesis using inv l(1) by (simp add: mp_inv_def)
qed

lemma updl_inv:
  assumes "lk_locked (f (locks s l)) = lk_locked (locks s l)" "lk_cpu (f (locks s l)) = lk_cpu (locks s l)"
  shows "mp_inv (updl l f s) = mp_inv s"
proof -
  have "lock_ok l' (locks (updl l f s) l') hs = lock_ok l' (locks s l') hs" for l' hs
    using assms by (cases "l' = l") (simp_all add: updl_def lock_ok_def)
  then show ?thesis by (simp add: mp_inv_def) (simp add: updl_def)
qed

lemma spin_inv:
  assumes "lk_locked (locks s l) \<noteq> 0" "mp_inv s"
  shows "mp_inv (updl l (\<lambda>k. k\<lparr>lk_locked := 1\<rparr>) s)"
proof -
  have "lock_ok l' (locks (updl l (\<lambda>k. k\<lparr>lk_locked := 1\<rparr>) s) l') hs = lock_ok l' (locks s l') hs" for l' hs
    using assms(1) by (cases "l' = l") (simp_all add: updl_def lock_ok_def)
  then show ?thesis using assms(2) by (simp add: mp_inv_def) (simp add: updl_def)
qed

lemma lock_inv: "mp_inv s \<Longrightarrow> lock_ok l (locks s l) (harts s)"
  by (simp add: mp_inv_def)

lemma others_taken:
  assumes "mp_inv s" "c < length (harts s)" "l \<in> set (h_taken (harts s ! c))" "d < length (harts s)" "d \<noteq> c"
  shows "l \<notin> set (h_taken (harts s ! d))"
  using lock_inv [OF assms(1), of l] assms(2-) unfolding lock_ok_def by blast

lemma free_not_taken:
  assumes "mp_inv s" "lk_locked (locks s l) = 0"
  shows "d < length (harts s) \<Longrightarrow> l \<notin> set (h_taken (harts s ! d))" "lk_cpu (locks s l) = None"
  using lock_inv [OF assms(1), of l] assms(2) unfolding lock_ok_def by (blast, metis not_None_eq)

lemma lock_okI:
  assumes "\<And>d. d < length hs \<Longrightarrow> l \<in> set (h_taken (hs ! d)) \<longleftrightarrow> own = Some d" "\<And>d. own = Some d \<Longrightarrow> d < length hs"
    and "lk_locked k \<noteq> 0 \<longleftrightarrow> own \<noteq> None"
    and "lk_cpu k = own \<or> lk_cpu k = None \<and> (\<forall>d. own = Some d \<longrightarrow> h_pc (hs ! d) = A_cpu l \<or> h_pc (hs ! d) = R_unlock l)"
    and "\<And>d. d < length hs \<Longrightarrow> h_pc (hs ! d) = R_unlock l \<Longrightarrow> lk_cpu k = None"
  shows "lock_ok l k hs"
  unfolding lock_ok_def
proof (intro conjI allI impI)
  show "lk_locked k \<noteq> 0 \<longleftrightarrow> (\<exists>d < length hs. l \<in> set (h_taken (hs ! d)))"
    using assms(1,2,3) by (cases own) auto
qed (use assms in auto)

lemma lock_ok_held:
  assumes "c < length hs" "\<And>d. d < length hs \<Longrightarrow> d \<noteq> c \<Longrightarrow> l \<notin> set (h_taken (hs ! d))" "l \<in> set (h_taken h)" "lk_locked k \<noteq> 0"
    and "lk_cpu k = Some c \<and> h_pc h \<noteq> R_unlock l \<or> lk_cpu k = None \<and> (h_pc h = A_cpu l \<or> h_pc h = R_unlock l)"
    and "\<And>d. d < length hs \<Longrightarrow> h_pc (hs ! d) = R_unlock l \<Longrightarrow> d = c"
  shows "lock_ok l k (hs[c := h])"
proof (rule lock_okI [where own = "Some c"])
  fix d assume d: "d < length (hs[c := h])"
  show "l \<in> set (h_taken (hs[c := h] ! d)) \<longleftrightarrow> Some c = Some d"
    using assms(2,3) d by (cases "d = c") auto
  assume "h_pc (hs[c := h] ! d) = R_unlock l"
  then have "h_pc h = R_unlock l" using assms(6) d by (cases "d = c") auto
  then show "lk_cpu k = None" using assms(5) by auto
qed (use assms(1,4,5) in auto)

lemma lock_ok_free:
  assumes "\<And>d. d < length hs \<Longrightarrow> d \<noteq> c \<Longrightarrow> l \<notin> set (h_taken (hs ! d))" "l \<notin> set (h_taken h)" "lk_locked k = 0" "lk_cpu k = None"
  shows "lock_ok l k (hs[c := h])"
proof (rule lock_okI [where own = None])
  fix d assume "d < length (hs[c := h])"
  then show "l \<in> set (h_taken (hs[c := h] ! d)) \<longleftrightarrow> None = Some d"
    using assms(1,2) by (cases "d = c") auto
qed (use assms(3,4) in auto)

lemma take_inv:
  assumes "mp_inv s" "c < length (harts s)" "h_pc (harts s ! c) = A_xchg l" "lk_locked (locks s l) = 0"
  shows "mp_inv (updh c (\<lambda>h. h\<lparr>h_taken := l # h_taken h, h_pc := A_cpu l\<rparr>) (updl l (\<lambda>k. k\<lparr>lk_locked := 1\<rparr>) s))"
proof -
  let ?h = "harts s ! c"
  let ?g = "?h\<lparr>h_taken := l # h_taken ?h, h_pc := A_cpu l\<rparr>"
  note f = free_not_taken [OF assms(1,4)]
  have "hart_ok ?g (cpus s ! c)"
    using hart_inv [OF assms(1,2)] IF_clear [OF assms(1,2)] assms(3) by (simp add: hart_ok_def)
  moreover have "lock_ok l ((locks s l)\<lparr>lk_locked := 1\<rparr>) ((harts s)[c := ?g])"
    using f assms(2) unlocking(1) [OF assms(1)] by (intro lock_ok_held) auto
  ultimately have "mp_inv (s\<lparr>locks := (locks s)(l := (locks s l)\<lparr>lk_locked := 1\<rparr>), harts := (harts s)[c := ?g]\<rparr>)"
    using owner_inv [OF assms(1,2)] assms(3) by (intro mp_inv_lock [OF assms(1,2)]) auto
  then show ?thesis by (simp add: updh_def updl_def)
qed

lemma owner_set_inv:
  assumes "mp_inv s" "c < length (harts s)" "h_pc (harts s ! c) = A_cpu l"
  shows "mp_inv (updh c (\<lambda>h. h\<lparr>h_pc := A_pcs l\<rparr>) (updl l (\<lambda>k. k\<lparr>lk_cpu := Some c\<rparr>) s))"
proof -
  let ?h = "harts s ! c"
  let ?g = "?h\<lparr>h_pc := A_pcs l\<rparr>"
  have l: "l \<in> set (h_taken ?h)" and h: "hart_ok ?g (cpus s ! c)"
    using hart_inv [OF assms(1,2)] assms(3) by (auto simp: hart_ok_def)
  have "lk_locked (locks s l) \<noteq> 0" using lock_inv [OF assms(1), of l] l assms(2) unfolding lock_ok_def by blast
  then have "lock_ok l ((locks s l)\<lparr>lk_cpu := Some c\<rparr>) ((harts s)[c := ?g])"
    using others_taken [OF assms(1,2) l] l assms(2) unlocking(1) [OF assms(1)] by (intro lock_ok_held) auto
  then have "mp_inv (s\<lparr>locks := (locks s)(l := (locks s l)\<lparr>lk_cpu := Some c\<rparr>), harts := (harts s)[c := ?g]\<rparr>)"
    using h owner_inv [OF assms(1,2)] assms(3) by (intro mp_inv_lock [OF assms(1,2)]) auto
  then show ?thesis by (simp add: updh_def updl_def)
qed

lemma owner_clear_inv:
  assumes "mp_inv s" "c < length (harts s)" "h_pc (harts s ! c) = R_cpu l"
  shows "mp_inv (updh c (\<lambda>h. h\<lparr>h_pc := R_unlock l\<rparr>) (updl l (\<lambda>k. k\<lparr>lk_cpu := None\<rparr>) s))"
proof -
  let ?h = "harts s ! c"
  let ?g = "?h\<lparr>h_pc := R_unlock l\<rparr>"
  have l: "l \<in> set (h_taken ?h)" and h: "hart_ok ?g (cpus s ! c)"
    using hart_inv [OF assms(1,2)] assms(3) by (auto simp: hart_ok_def)
  have "lk_locked (locks s l) \<noteq> 0" using lock_inv [OF assms(1), of l] l assms(2) unfolding lock_ok_def by blast
  then have "lock_ok l ((locks s l)\<lparr>lk_cpu := None\<rparr>) ((harts s)[c := ?g])"
    using others_taken [OF assms(1,2) l] l assms(2) unlocking(1) [OF assms(1)] by (intro lock_ok_held) auto
  then have "mp_inv (s\<lparr>locks := (locks s)(l := (locks s l)\<lparr>lk_cpu := None\<rparr>), harts := (harts s)[c := ?g]\<rparr>)"
    using h owner_inv [OF assms(1,2)] assms(3) by (intro mp_inv_lock [OF assms(1,2)]) auto
  then show ?thesis by (simp add: updh_def updl_def)
qed

lemma unlock_inv:
  assumes "mp_inv s" "c < length (harts s)" "h_pc (harts s ! c) = R_unlock l"
  shows "mp_inv (updh c (\<lambda>h. h\<lparr>h_taken := remove1 l (h_taken h), h_pc := R_pop\<rparr>) (updl l (\<lambda>k. k\<lparr>lk_locked := 0\<rparr>) s))"
proof -
  let ?h = "harts s ! c"
  let ?g = "?h\<lparr>h_taken := remove1 l (h_taken ?h), h_pc := R_pop\<rparr>"
  have l: "l \<in> set (h_taken ?h)" and "distinct (h_taken ?h)"
    using hart_inv [OF assms(1,2)] assms(3) by (auto simp: hart_ok_def)
  moreover then have "h_taken ?h \<noteq> []" by auto
  ultimately have h: "hart_ok ?g (cpus s ! c)" and r: "set (h_taken ?g) = set (h_taken ?h) - {l}"
    using hart_inv [OF assms(1,2)] IF_clear [OF assms(1,2)] assms(3) by (auto simp: hart_ok_def length_remove1 Suc_le_eq of_nat_diff)
  have "lock_ok l ((locks s l)\<lparr>lk_locked := 0\<rparr>) ((harts s)[c := ?g])"
    using others_taken [OF assms(1,2) l] r unlocking(2) [OF assms] by (intro lock_ok_free) auto
  then have "mp_inv (s\<lparr>locks := (locks s)(l := (locks s l)\<lparr>lk_locked := 0\<rparr>), harts := (harts s)[c := ?g]\<rparr>)"
    using h r owner_inv [OF assms(1,2)] assms(3) by (intro mp_inv_lock [OF assms(1,2)]) auto
  then show ?thesis by (simp add: updh_def updl_def)
qed

text \<open>\<^verbatim>\<open>holding\<close> returns whether the CPU has the lock, although it reads the fields of the lock while others may change them.\<close>

lemma holding_step_inv:
  assumes inv: "mp_inv s" "c < length (harts s)" and pc: "h_pc (harts s ! c) = K h"
    and K: "\<And>h. depth (K h) = a + hdepth h" "\<And>h ts. knows (K h) ts = hknows l h ts" "\<And>h. \<not> stopped (K h)" "\<And>h. \<not> in_window (K h)" "0 \<le> a"
    and run: "holding_step c l h s = Ok h' t"
  shows "mp_inv (updh c (\<lambda>h. h\<lparr>h_pc := K h'\<rparr>) t)"
proof (cases h)
  case H_push
  then have "pushcli c s = Ok () t" "h' = H_locked" using run by (auto simp: krun split: outcome.splits)
  then show ?thesis using H_push pc K by (intro push_inv [OF inv]) auto
next
  case H_locked
  then have t: "t = s" "h' = (if lk_locked (locks s l) \<noteq> 0 then H_cpu else H_pop False)" using run by (auto simp: krun)
  then have "hknows l h' (h_taken (harts s ! c))" using free_not_taken(1) [OF inv(1) _ inv(2)] by auto
  then show ?thesis unfolding t(1) using H_locked pc K t(2) by (intro move_inv [OF inv]) auto
next
  case H_cpu
  have "0 < depth (h_pc (harts s ! c))" using pc K(1,5) H_cpu by simp
  then have "mycpu c s = Ok c s" using mycpu_run [OF mp_inv_ids [OF inv(1)] inv(2)] IF_clear [OF inv] by simp
  then have t: "t = s" "h' = H_pop (lk_cpu (locks s l) = Some c)" using H_cpu run by (auto simp: krun)
  have "lk_cpu (locks s l) = Some c \<longleftrightarrow> l \<in> set (h_taken (harts s ! c))"
    using owner_inv [OF inv, of l] lock_ok_owner [OF lock_inv [OF inv(1)]] pc K(4) by metis
  then show ?thesis unfolding t(1) using H_cpu pc K t(2) by (intro move_inv [OF inv]) auto
next
  case (H_pop r)
  then have "popcli c s = Ok () t" "h' = H_ret r" using run by (auto simp: krun split: outcome.splits)
  moreover have "hknows l h (h_taken (harts s ! c))" using hart_inv [OF inv] pc K(2,3) by (simp add: hart_ok_def)
  ultimately show ?thesis using H_pop pc K by (intro pop_inv [OF inv]) auto
qed (use run in \<open>simp add: krun\<close>)

lemma updh_updh: "c < length (harts s) \<Longrightarrow> updh c f (updh c g s) = updh c (\<lambda>h. f (g h)) s"
  by (simp add: updh_def)

lemma acquire_step_inv:
  assumes inv: "mp_inv s" "c < length (harts s)" and run: "acquire_step c (h_pc (harts s ! c)) s = Ok p t"
  shows "mp_inv (updh c (\<lambda>h. h\<lparr>h_pc := p\<rparr>) t)"
proof (cases "h_pc (harts s ! c)")
  case (A_push l)
  then have "pushcli c s = Ok () t" "p = A_hold l H_push" using run by (auto simp: krun split: outcome.splits)
  then show ?thesis using A_push by (intro push_inv [OF inv]) auto
next
  case (A_hold l h)
  show ?thesis
  proof (cases "\<exists>r. h = H_ret r")
    case True
    then have "t = s" "p = A_xchg l" "h = H_ret False" using A_hold run by (auto simp: krun split: if_splits)
    then show ?thesis using A_hold hart_inv [OF inv] by (auto intro!: move_inv [OF inv] simp: hart_ok_def)
  next
    case False
    then obtain h' where "holding_step c l h s = Ok h' t" "p = A_hold l h'"
      using A_hold run by (cases h) (auto simp: krun simp del: holding_step.simps split: outcome.splits)
    then show ?thesis using holding_step_inv [where K = "A_hold l" and a = 1, OF inv A_hold] by simp
  qed
next
  case (A_xchg l)
  show ?thesis
  proof (cases "lk_locked (locks s l) = 0")
    case True
    then have "t = updh c (\<lambda>h. h\<lparr>h_taken := l # h_taken h\<rparr>) (updl l (\<lambda>k. k\<lparr>lk_locked := 1\<rparr>) s)" "p = A_cpu l"
      using A_xchg run by (auto simp: krun xchg_def)
    then show ?thesis using take_inv [OF inv A_xchg True] inv(2) by (simp add: updh_updh updl_def)
  next
    case False
    then have "t = updl l (\<lambda>k. k\<lparr>lk_locked := 1\<rparr>) s" "p = A_xchg l"
      using A_xchg run by (auto simp: krun xchg_def)
    moreover have "mp_inv (updl l (\<lambda>k. k\<lparr>lk_locked := 1\<rparr>) s)" "harts (updl l (\<lambda>k. k\<lparr>lk_locked := 1\<rparr>) s) = harts s"
      using spin_inv [OF False inv(1)] by (simp_all add: updl_def)
    moreover have "knows (A_xchg l) (h_taken (harts s ! c))" using hart_inv [OF inv] A_xchg by (simp add: hart_ok_def)
    ultimately show ?thesis using A_xchg inv(2) by (intro move_inv) simp_all
  qed
next
  case (A_cpu l)
  have "h_taken (harts s ! c) \<noteq> []" using A_cpu hart_inv [OF inv] by (auto simp: hart_ok_def)
  then have "mycpu c s = Ok c s" using mycpu_run [OF mp_inv_ids [OF inv(1)] inv(2)] IF_clear [OF inv] by simp
  then have "t = updl l (\<lambda>k. k\<lparr>lk_cpu := Some c\<rparr>) s" "p = A_pcs l" using A_cpu run by (auto simp: krun)
  then show ?thesis using owner_set_inv [OF inv A_cpu] by simp
next
  case (A_pcs l)
  then have t: "t = updl l (\<lambda>k. k\<lparr>lk_pcs := getcallerpcs (shared s) (h_argp (harts s ! c))\<rparr>) s" "p = Idle"
    using run by (auto simp: krun)
  have "harts t = harts s" by (simp add: t(1) updl_def)
  then show ?thesis using A_pcs inv t by (intro move_inv) (simp_all add: updl_inv)
qed (use run in \<open>simp_all add: krun\<close>)

lemma release_step_inv:
  assumes inv: "mp_inv s" "c < length (harts s)" and run: "release_step c (h_pc (harts s ! c)) s = Ok p t"
  shows "mp_inv (updh c (\<lambda>h. h\<lparr>h_pc := p\<rparr>) t)"
proof (cases "h_pc (harts s ! c)")
  case (R_hold l h)
  show ?thesis
  proof (cases "\<exists>r. h = H_ret r")
    case True
    then have "t = s" "p = R_pcs l" "h = H_ret True" using R_hold run by (auto simp: krun split: if_splits)
    then show ?thesis using R_hold hart_inv [OF inv] by (auto intro!: move_inv [OF inv] simp: hart_ok_def)
  next
    case False
    then obtain h' where "holding_step c l h s = Ok h' t" "p = R_hold l h'"
      using R_hold run by (cases h) (auto simp: krun simp del: holding_step.simps split: outcome.splits)
    then show ?thesis using holding_step_inv [where K = "R_hold l" and a = 0, OF inv R_hold] by simp
  qed
next
  case (R_pcs l)
  then have t: "t = updl l (\<lambda>k. k\<lparr>lk_pcs := (lk_pcs k)[0 := 0]\<rparr>) s" "p = R_cpu l" using run by (auto simp: krun)
  have "harts t = harts s" by (simp add: t(1) updl_def)
  moreover have "l \<in> set (h_taken (harts s ! c))" using R_pcs hart_inv [OF inv] by (simp add: hart_ok_def)
  ultimately show ?thesis using R_pcs inv t by (intro move_inv) (simp_all add: updl_inv)
next
  case (R_cpu l)
  then have "t = updl l (\<lambda>k. k\<lparr>lk_cpu := None\<rparr>) s" "p = R_unlock l" using run by (auto simp: krun)
  then show ?thesis using owner_clear_inv [OF inv R_cpu] by simp
next
  case (R_unlock l)
  then have "t = updh c (\<lambda>h. h\<lparr>h_taken := remove1 l (h_taken h)\<rparr>) (updl l (\<lambda>k. k\<lparr>lk_locked := 0\<rparr>) s)" "p = R_pop"
    using run by (auto simp: krun)
  then show ?thesis using unlock_inv [OF inv R_unlock] inv(2) by (simp add: updh_updh updl_def)
next
  case R_pop
  then have "popcli c s = Ok () t" "p = Idle" using run by (auto simp: krun split: outcome.splits)
  then show ?thesis using R_pop by (intro pop_inv [OF inv]) auto
qed (use run in \<open>simp_all add: krun\<close>)

lemma myproc_step_inv:
  assumes inv: "mp_inv s" "c < length (harts s)" and run: "myproc_step c (h_pc (harts s ! c)) s = Ok p t"
  shows "mp_inv (updh c (\<lambda>h. h\<lparr>h_pc := p\<rparr>) t)"
proof (cases "h_pc (harts s ! c)")
  case M_push
  then have "pushcli c s = Ok () t" "p = M_pop" using run by (auto simp: krun split: outcome.splits)
  then show ?thesis using M_push by (intro push_inv [OF inv]) auto
next
  case M_pop
  then have "mycpu c s = Ok c s" using mycpu_run [OF mp_inv_ids [OF inv(1)] inv(2)] IF_clear [OF inv] by simp
  then have "popcli c s = Ok () t" "p = Idle" using M_pop run by (auto simp: krun split: outcome.splits)
  then show ?thesis using M_pop by (intro pop_inv [OF inv]) auto
qed (use run in \<open>simp_all add: krun\<close>)

lemma cpu_step_inv:
  assumes inv: "mp_inv s" "c < length (harts s)" and run: "cpu_step c (h_pc (harts s ! c)) s = Ok p t"
  shows "mp_inv (updh c (\<lambda>h. h\<lparr>h_pc := p\<rparr>) t)"
proof -
  note steps = acquire_step.simps release_step.simps myproc_step.simps
  consider "acquire_step c (h_pc (harts s ! c)) s = Ok p t" | "release_step c (h_pc (harts s ! c)) s = Ok p t"
    | "myproc_step c (h_pc (harts s ! c)) s = Ok p t"
    using run by (cases "h_pc (harts s ! c)") (simp_all add: kundef_run del: steps)
  then show ?thesis
    by cases (rule acquire_step_inv [OF inv] release_step_inv [OF inv] myproc_step_inv [OF inv], assumption)+
qed

lemma mp_inv_other:
  assumes "mp_inv s" "harts t = harts s" "locks t = locks s" "cpus t = cpus s"
    and "\<And>p. p \<in> set (frames t) \<Longrightarrow> depth p = 0 \<and> knows p [] \<and> \<not> stopped p"
  shows "mp_inv t"
  using assms by (simp add: mp_inv_def)

text \<open>The fields of one CPU that are not watched by the locks may change together.\<close>

lemma control_inv:
  assumes inv: "mp_inv s" "c < length (harts s)" and h: "hart_ok h k" "h_apicid h = h_apicid (harts s ! c)" "h_taken h = h_taken (harts s ! c)"
    and w: "\<not> in_window (h_pc h)" "\<not> in_window (h_pc (harts s ! c)) \<or> h_taken h = []"
  shows "mp_inv (updk c h k s)"
proof (rule mp_inv_upd [OF inv h(1,2)])
  fix l assume "l \<in> set (h_taken h)"
  then show "lk_cpu (locks s l) = Some c \<or> h_pc h = A_cpu l" using owner_inv [OF inv, of l] w h(3) by auto
qed (use h(3) w(1) in auto)

lemma updh_updk_same: "updh c f s = updk c (f (harts s ! c)) (cpus s ! c) s"
  by (simp add: updh_def updk_def)

lemma call_inv:
  assumes inv: "mp_inv s" "c < length (harts s)" "h_pc (harts s ! c) = Idle"
    and p: "\<not> stopped p" "\<not> in_window p" "depth p = 0" "\<And>ts. knows p ts"
  shows "mp_inv (updh c (\<lambda>h. h\<lparr>h_pc := p\<rparr>) s)" "mp_inv (updh c (\<lambda>h. h\<lparr>h_pc := p, h_argp := v\<rparr>) s)"
  unfolding updh_updk_same
  by (rule control_inv [OF inv(1,2)]; use hart_inv [OF inv(1,2)] inv(3) p in \<open>simp add: hart_ok_def\<close>)+

lemma panic_inv:
  assumes inv: "mp_inv s" "c < length (harts s)" and run: "cpu_step c (h_pc (harts s ! c)) s = Panic e"
  shows "mp_inv (updh c (\<lambda>h. h\<lparr>h_pc := Stopped e, h_eflags := h_eflags h AND NOT FL_IF\<rparr>) s)"
proof -
  have "\<not> in_window (h_pc (harts s ! c))"
  proof
    assume "in_window (h_pc (harts s ! c))"
    then consider l where "h_pc (harts s ! c) = A_cpu l" | l where "h_pc (harts s ! c) = R_unlock l" by auto
    then show False
    proof cases
      case (1 l)
      then have "h_taken (harts s ! c) \<noteq> []" using hart_inv [OF inv] by (auto simp: hart_ok_def)
      then have "mycpu c s = Ok c s" using mycpu_run [OF mp_inv_ids [OF inv(1)] inv(2)] IF_clear [OF inv] by simp
      then show ?thesis using 1 run by (simp add: krun)
    next
      case 2
      then show ?thesis using run by (simp add: krun)
    qed
  qed
  then show ?thesis unfolding updh_updk_same
    using hart_inv [OF inv] by (intro control_inv [OF inv]) (simp_all add: hart_ok_def)
qed

lemma intr_inv:
  assumes inv: "mp_inv s" "c < length (harts s)" and IF: "h_eflags (harts s ! c) AND FL_IF \<noteq> 0"
  shows "mp_inv (updh c (\<lambda>h. h\<lparr>h_pc := Idle, h_eflags := h_eflags h AND NOT FL_IF\<rparr>) (s\<lparr>frames := h_pc (harts s ! c) # frames s\<rparr>))"
proof -
  let ?p = "h_pc (harts s ! c)"
  have t: "h_taken (harts s ! c) = []" "\<not> stopped ?p" "depth ?p = 0" "knows ?p []"
    using hart_inv [OF inv] IF by (auto simp: hart_ok_def)
  have "mp_inv (s\<lparr>frames := ?p # frames s\<rparr>)"
    using inv(1) t by (intro mp_inv_other [OF inv(1)]) (auto simp: mp_inv_def)
  then show ?thesis unfolding updh_updk_same
    using hart_inv [OF inv] inv(2) t IF by (intro control_inv) (simp_all add: hart_ok_def)
qed

lemma iret_inv:
  assumes inv: "mp_inv s" "c < length (harts s)" "h_pc (harts s ! c) = Idle" "c_ncli (cpus s ! c) = 0" "p \<in> set (frames s)"
  shows "mp_inv (updh c (\<lambda>h. h\<lparr>h_pc := p, h_eflags := h_eflags h OR FL_IF\<rparr>) (s\<lparr>frames := remove1 p (frames s)\<rparr>))"
proof -
  have t: "h_taken (harts s ! c) = []" using hart_inv [OF inv(1,2)] inv(3,4) by (simp add: hart_ok_def)
  have p: "depth p = 0" "knows p []" "\<not> stopped p" using inv(1,5) by (auto simp: mp_inv_def)
  then have w: "\<not> in_window p" by auto
  have "mp_inv (s\<lparr>frames := remove1 p (frames s)\<rparr>)"
    using inv(1) notin_set_remove1 by (intro mp_inv_other [OF inv(1)]) (fastforce simp: mp_inv_def)+
  then show ?thesis unfolding updh_updk_same
    using hart_inv [OF inv(1,2)] inv(2-4) t p w by (intro control_inv) (simp_all add: hart_ok_def)
qed

lemma mp_step_inv: "mp_step s t \<Longrightarrow> mp_inv s \<Longrightarrow> mp_inv t"
proof (induction rule: mp_step.induct)
  case (run c s p t)
  then show ?case by (intro cpu_step_inv)
next
  case (panic c s e)
  then show ?case by (intro panic_inv)
next
  case (intr c s)
  then show ?case by (intro intr_inv)
next
  case (iret c s p)
  then show ?case by (intro iret_inv)
next
  case (enable c s t)
  then have t: "h_taken (harts s ! c) = []" using hart_inv [of s c] by (simp add: hart_ok_def)
  have "t = updh c (\<lambda>h. h\<lparr>h_eflags := h_eflags h OR FL_IF\<rparr>) s" using enable(4) by (simp add: sti_def krun)
  then show ?case unfolding updh_updk_same
    using hart_inv [of s c] enable t by (auto intro!: control_inv simp: hart_ok_def updh_updk_same)
next
  case (switch c s i)
  then have "updc c (\<lambda>k. k\<lparr>c_intena := i\<rparr>) s = updk c (harts s ! c) ((cpus s ! c)\<lparr>c_intena := i\<rparr>) s"
    by (cases s) (simp add: updc_def updk_def)
  then show ?case using hart_inv [of s c] switch by (auto intro!: control_inv simp: hart_ok_def)
next
  case (others s m)
  then show ?case by (auto intro!: mp_inv_other [of s] simp: mp_inv_def)
qed (auto intro!: call_inv)

lemma reachable_inv: "mp_step\<^sup>*\<^sup>* s t \<Longrightarrow> mp_inv s \<Longrightarrow> mp_inv t"
  by (induction rule: rtranclp_induct) (auto intro: mp_step_inv)

section \<open>Only a misuse panics\<close>

definition taken_from :: "nat \<Rightarrow> mp \<Rightarrow> lockid list \<Rightarrow> mp \<Rightarrow> bool" where
  "taken_from c s ts t \<longleftrightarrow> (\<forall>d. d \<noteq> c \<longrightarrow> harts t ! d = harts s ! d) \<and> h_taken (harts t ! c) = ts \<and> length (harts t) = length (harts s)"

abbreviation quiet :: "nat \<Rightarrow> mp \<Rightarrow> mp \<Rightarrow> bool" where
  "quiet c s t \<equiv> taken_from c s (h_taken (harts s ! c)) t"

lemma taken_frame:
  assumes "mp_inv s" "c < length (harts s)"
  shows "pushcli c s = Ok () t \<Longrightarrow> quiet c s t" and "popcli c s = Ok () t \<Longrightarrow> quiet c s t"
proof -
  have upd: "quiet c s (updk c h k s)" if "h_taken h = h_taken (harts s ! c)" for h k
    using assms(2) that by (simp add: updk_def taken_from_def)
  then show "pushcli c s = Ok () t \<Longrightarrow> quiet c s t"
    using pushcli_run [OF assms] by auto
  assume run: "popcli c s = Ok () t"
  obtain i where i: "h_eflags (harts s ! c) AND FL_IF = 0" "mycpu c s = Ok i s"
    using run by (auto simp: popcli_def readeflags_def krun mycpu_def split: outcome.splits if_splits option.splits)
  then have "i = c" using mycpu_run [OF mp_inv_ids [OF assms(1)] assms(2) i(1)] by simp
  then show "quiet c s t"
    using run i assms(2) by (auto simp: popcli_def readeflags_def sti_def updh_def updc_def krun taken_from_def split: if_splits)
qed

lemma bracket_ok:
  assumes "mp_inv s" "c < length (harts s)" "\<not> stopped (h_pc (harts s ! c))" "0 < depth (h_pc (harts s ! c))"
  shows "\<exists>t. popcli c s = Ok () t" "mycpu c s = Ok c s"
proof -
  have "c_ncli (cpus s ! c) > 0" using hart_inv [OF assms(1,2)] assms(3,4) by (simp add: hart_ok_def)
  then show "\<exists>t. popcli c s = Ok () t" using popcli_run [OF assms(1,2)] IF_clear [OF assms(1,2)] assms(4) by auto
  show "mycpu c s = Ok c s" using mycpu_run [OF mp_inv_ids [OF assms(1)] assms(2)] IF_clear [OF assms(1,2)] assms(4) by simp
qed

lemma holding_step_ok:
  assumes "mp_inv s" "c < length (harts s)" "h_pc (harts s ! c) = K h" "\<not> stopped (K h)" "0 < hdepth h \<Longrightarrow> 0 < depth (K h)" "\<nexists>r. h = H_ret r"
  shows "\<exists>h' t. holding_step c l h s = Ok h' t \<and> quiet c s t"
proof (cases h)
  case H_push
  obtain t where "pushcli c s = Ok () t" using pushcli_run [OF assms(1,2)] by blast
  then show ?thesis using H_push taken_frame(1) [OF assms(1,2)] by (auto simp: krun)
next
  case (H_pop r)
  then obtain t where "popcli c s = Ok () t" using bracket_ok(1) [OF assms(1,2)] assms(3-5) by auto
  then show ?thesis using H_pop taken_frame(2) [OF assms(1,2)] by (auto simp: krun)
next
  case H_cpu
  then show ?thesis using bracket_ok(2) [OF assms(1,2)] assms(3-5) by (auto simp: krun taken_from_def)
qed (use assms(6) in \<open>auto simp: krun taken_from_def\<close>)

definition taken_after :: "mp \<Rightarrow> pc \<Rightarrow> lockid list \<Rightarrow> lockid list" where
  "taken_after s p ts = (case p of
     A_xchg l \<Rightarrow> if lk_locked (locks s l) = 0 then l # ts else ts
   | R_unlock l \<Rightarrow> remove1 l ts
   | _ \<Rightarrow> ts)"

definition misuse :: "pc \<Rightarrow> string \<Rightarrow> bool" where
  "misuse p e \<longleftrightarrow> (\<exists>l. p = A_hold l (H_ret True) \<and> e = ''acquire'') \<or> (\<exists>l. p = R_hold l (H_ret False) \<and> e = ''release'')"

text \<open>Every step of a CPU in this code succeeds, except the panic of an acquire of a lock that it has, or of a release of one that it has not.\<close>

lemma cpu_step_result:
  assumes inv: "mp_inv s" "c < length (harts s)" and p: "h_pc (harts s ! c) = p" "p \<noteq> Idle" "\<not> stopped p"
  shows "(\<exists>q t. cpu_step c p s = Ok q t \<and> taken_from c s (taken_after s p (h_taken (harts s ! c))) t)
    \<or> (\<exists>e. cpu_step c p s = Panic e \<and> misuse p e)"
proof (cases p)
  case (A_push l)
  obtain t where "pushcli c s = Ok () t" using pushcli_run [OF inv] by blast
  then show ?thesis using A_push taken_frame(1) [OF inv] by (auto simp: krun taken_after_def)
next
  case (A_hold l h)
  show ?thesis
  proof (cases "\<exists>r. h = H_ret r")
    case True
    then obtain r where "h = H_ret r" ..
    then show ?thesis using A_hold by (cases r) (auto simp: krun taken_after_def misuse_def taken_from_def)
  next
    case False
    then obtain h' t where "holding_step c l h s = Ok h' t" "quiet c s t"
      using holding_step_ok [where K = "A_hold l" and h = h and l = l, OF inv] A_hold p hdepth_nonneg [of h] by auto
    moreover have "cpu_step c p s = kbind (holding_step c l h) (\<lambda>h. kret (A_hold l h)) s"
      using A_hold False by (cases h) auto
    ultimately show ?thesis using A_hold by (auto simp: krun taken_after_def)
  qed
next
  case (R_hold l h)
  show ?thesis
  proof (cases "\<exists>r. h = H_ret r")
    case True
    then obtain r where "h = H_ret r" ..
    then show ?thesis using R_hold by (cases r) (auto simp: krun taken_after_def misuse_def taken_from_def)
  next
    case False
    then obtain h' t where "holding_step c l h s = Ok h' t" "quiet c s t"
      using holding_step_ok [where K = "R_hold l" and h = h and l = l, OF inv] R_hold p by auto
    moreover have "cpu_step c p s = kbind (holding_step c l h) (\<lambda>h. kret (R_hold l h)) s"
      using R_hold False by (cases h) auto
    ultimately show ?thesis using R_hold by (auto simp: krun taken_after_def)
  qed
next
  case (A_cpu l)
  have "h_taken (harts s ! c) \<noteq> []" using A_cpu p hart_inv [OF inv] by (auto simp: hart_ok_def)
  then have "mycpu c s = Ok c s" using mycpu_run [OF mp_inv_ids [OF inv(1)] inv(2)] IF_clear [OF inv] by simp
  then show ?thesis using A_cpu by (auto simp: krun taken_after_def updl_def taken_from_def)
next
  case R_pop
  then obtain t where "popcli c s = Ok () t" using bracket_ok(1) [OF inv] p by auto
  then show ?thesis using R_pop taken_frame(2) [OF inv] by (auto simp: krun taken_after_def)
next
  case M_push
  obtain t where "pushcli c s = Ok () t" using pushcli_run [OF inv] by blast
  then show ?thesis using M_push taken_frame(1) [OF inv] by (auto simp: krun taken_after_def)
next
  case M_pop
  then obtain t where "popcli c s = Ok () t" "mycpu c s = Ok c s" using bracket_ok [OF inv] p by auto
  then show ?thesis using M_pop taken_frame(2) [OF inv] by (auto simp: krun taken_after_def)
qed (use p inv(2) in \<open>auto simp: krun taken_after_def updl_def updh_def xchg_def taken_from_def\<close>)

lemma cpu_step_goes_on: "cpu_step c p s = Ok q t \<Longrightarrow> \<not> stopped q"
proof (cases p)
  case (A_hold l h)
  then show "cpu_step c p s = Ok q t \<Longrightarrow> ?thesis"
    by (cases h) (auto simp: krun split: outcome.splits if_splits)
next
  case (R_hold l h)
  then show "cpu_step c p s = Ok q t \<Longrightarrow> ?thesis"
    by (cases h) (auto simp: krun split: outcome.splits if_splits)
qed (auto simp: krun split: outcome.splits if_splits)

text \<open>A step of the machine as one CPU sees it: it takes a step in the code of the locks, it stops, or its list of locks stays.\<close>

lemma mp_step_view:
  assumes "mp_step s t" "mp_inv s" "c < length (harts s)"
  obtains (step) "\<not> stopped (h_pc (harts t ! c))" "h_taken (harts t ! c) = taken_after s (h_pc (harts s ! c)) (h_taken (harts s ! c))"
    | (stop) e where "misuse (h_pc (harts s ! c)) e" "h_pc (harts t ! c) = Stopped e"
    | (same) "h_taken (harts t ! c) = h_taken (harts s ! c)" "stopped (h_pc (harts t ! c)) \<longrightarrow> h_pc (harts t ! c) = h_pc (harts s ! c)"
  using assms(1)
proof cases
  case (run d p u)
  have n: "h_pc (harts s ! d) \<noteq> Idle" "\<not> stopped (h_pc (harts s ! d))" using run(3) by (cases "h_pc (harts s ! d)"; simp add: krun)+
  have q: "taken_from d s (taken_after s (h_pc (harts s ! d)) (h_taken (harts s ! d))) u"
    using cpu_step_result [OF assms(2) run(2) refl n] run(3) by auto
  show ?thesis
  proof (cases "d = c")
    case True
    then show ?thesis using q run assms(3) cpu_step_goes_on [OF run(3)]
      by (intro step) (simp_all add: updh_def taken_from_def)
  next
    case False
    then show ?thesis using q run by (intro same) (simp_all add: updh_def taken_from_def)
  qed
next
  case (panic d e)
  have n: "h_pc (harts s ! d) \<noteq> Idle" "\<not> stopped (h_pc (harts s ! d))" using panic(3) by (cases "h_pc (harts s ! d)"; simp add: krun)+
  then have "misuse (h_pc (harts s ! d)) e" using cpu_step_result [OF assms(2) panic(2) refl n] panic(3) by auto
  then show ?thesis using panic(1) assms(3) by (cases "d = c") (auto simp: updh_def intro: stop same)
next
  case (iret d p)
  have "\<not> stopped p" using iret(5) assms(2) by (auto simp: mp_inv_def)
  then show ?thesis using iret(1) assms(3) by (intro same) (cases "d = c"; simp add: updh_def)+
next
  case (enable d)
  have "t = updh d (\<lambda>h. h\<lparr>h_eflags := h_eflags h OR FL_IF\<rparr>) s" using enable(4) by (simp add: sti_def krun)
  then show ?thesis using assms(3) by (intro same) (cases "d = c"; simp add: updh_def)+
next
  case (call_acquire d l v)
  then show ?thesis using assms(3) by (intro same) (cases "d = c"; simp add: updh_def)+
next
  case (call_release d l)
  then show ?thesis using assms(3) by (intro same) (cases "d = c"; simp add: updh_def)+
next
  case (call_myproc d)
  then show ?thesis using assms(3) by (intro same) (cases "d = c"; simp add: updh_def)+
next
  case (intr d)
  then show ?thesis using assms(3) by (intro same) (cases "d = c"; simp add: updh_def)+
next
  case (switch d i)
  then show ?thesis by (intro same) (simp_all add: updc_def)
next
  case (others m)
  then show ?thesis by (intro same) simp_all
qed

section \<open>Properties\<close>

text \<open>The state after \<^verbatim>\<open>initlock\<close> of every lock, with the CPUs of the given identifiers in their start code.\<close>

definition mp_boot :: "uchar list \<Rightarrow> memory \<Rightarrow> mp" where
  "mp_boot ids m = \<lparr>locks = (\<lambda>l. \<lparr>lk_locked = 0, lk_name = [], lk_cpu = None, lk_pcs = replicate 10 0\<rparr>),
     cpus = map (\<lambda>i. \<lparr>c_apicid = i, c_ncli = 0, c_intena = 0\<rparr>) ids,
     harts = map (\<lambda>i. \<lparr>h_eflags = 0, h_apicid = ucast i, h_argp = 0, h_pc = Idle, h_taken = []\<rparr>) ids,
     shared = m, frames = []\<rparr>"

lemma mp_boot_inv:
  assumes "distinct ids"
  shows "mp_inv (mp_boot ids m)"
proof -
  have "inj (ucast :: uchar \<Rightarrow> uint)" proof (rule inj_onI)
    fix x y :: uchar assume e: "(ucast x :: uint) = ucast y"
    have "ucast (ucast z :: uint) = z" for z :: uchar by (rule bit_word_eqI) (auto simp: bit_simps)
    then show "x = y" using e by metis
  qed
  then show ?thesis using assms
    by (auto simp: mp_inv_def mp_boot_def hart_ok_def lock_ok_def distinct_map comp_def inj_on_def)
qed

text \<open>
  C3: Spin locks exclude each other.  In every state that several CPUs reach by calling \<^verbatim>\<open>acquire\<close> and \<^verbatim>\<open>release\<close> on any locks in any
  order, with interrupts at any time at which they are enabled, a lock that one CPU has taken no other CPU has; the memory
  says that the lock is locked; interrupts are disabled on this CPU, so no interrupt handler can wait for the lock there; and
  outside of the code of the locks \<^verbatim>\<open>ncli\<close> is the number of locks that the CPU has.
\<close>

theorem spinlock_mutual_exclusion:
  assumes "distinct ids" "mp_step\<^sup>*\<^sup>* (mp_boot ids m) s" "c < length (harts s)" "l \<in> set (h_taken (harts s ! c))"
  shows "(\<forall>d < length (harts s). d \<noteq> c \<longrightarrow> l \<notin> set (h_taken (harts s ! d))) \<and> lk_locked (locks s l) \<noteq> 0
    \<and> h_eflags (harts s ! c) AND FL_IF = 0
    \<and> (h_pc (harts s ! c) = Idle \<longrightarrow> c_ncli (cpus s ! c) = int (length (h_taken (harts s ! c))))"
proof -
  have inv: "mp_inv s" using assms(2) mp_boot_inv [OF assms(1)] by (rule reachable_inv)
  have "h_taken (harts s ! c) \<noteq> []" using assms(4) by auto
  then show ?thesis
    using others_taken [OF inv assms(3,4)] lock_okD(1) [OF lock_inv [OF inv] assms(3,4)] IF_clear [OF inv assms(3)] hart_inv [OF inv assms(3)]
    by (auto simp: hart_ok_def)
qed

text \<open>Steps of one CPU in a row.\<close>

fun mp_run :: "nat \<Rightarrow> nat \<Rightarrow> mp \<Rightarrow> mp option" where
  "mp_run 0 c s = Some s"
| "mp_run (Suc n) c s = (case cpu_step c (h_pc (harts s ! c)) s of
     Ok p t \<Rightarrow> mp_run n c (updh c (\<lambda>h. h\<lparr>h_pc := p\<rparr>) t) | _ \<Rightarrow> None)"

lemma mp_run_steps: "c < length (harts s) \<Longrightarrow> mp_inv s \<Longrightarrow> mp_run n c s = Some t \<Longrightarrow> mp_step\<^sup>*\<^sup>* s t"
proof (induction n arbitrary: s)
  case (Suc n)
  then obtain p u where u: "cpu_step c (h_pc (harts s ! c)) s = Ok p u" "mp_run n c (updh c (\<lambda>h. h\<lparr>h_pc := p\<rparr>) u) = Some t"
    by (auto split: outcome.splits)
  let ?v = "updh c (\<lambda>h. h\<lparr>h_pc := p\<rparr>) u"
  have step: "mp_step s ?v" using Suc.prems(1) u(1) by (rule mp_step.run)
  have n: "h_pc (harts s ! c) \<noteq> Idle" "\<not> stopped (h_pc (harts s ! c))" using u(1) by (cases "h_pc (harts s ! c)"; simp add: krun)+
  have "length (harts ?v) = length (harts s)"
    using cpu_step_result [OF Suc.prems(2,1) refl n] u(1) by (auto simp: taken_from_def updh_def)
  then have "mp_step\<^sup>*\<^sup>* ?v t" using Suc.IH Suc.prems(1) mp_step_inv [OF step Suc.prems(2)] u(2) by simp
  with step show ?case by (rule converse_rtranclp_into_rtranclp)
qed simp

text \<open>The second of two CPUs takes the lock of the page allocator: the state after \<open>n\<close> steps.\<close>

definition second_calls :: mp where
  "second_calls = updh 1 (\<lambda>h. h\<lparr>h_pc := A_push KmemLock, h_argp := 0\<rparr>) (mp_boot [0, 1] (\<lambda>_. 0))"

definition second_at :: "nat \<Rightarrow> mp" where
  "second_at n = the (mp_run n 1 second_calls)"

lemmas second_eval = second_at_def second_calls_def eval_nat_numeral mp_boot_def updh_def updl_def updc_def krun pushcli_def popcli_def mycpu_def
  readeflags_def cli_def sti_def xchg_def

lemma second_reached:
  assumes "mp_run n 1 second_calls = Some s"
  shows "mp_step\<^sup>*\<^sup>* (mp_boot [0, 1] (\<lambda>_. 0)) s"
proof -
  let ?b = "mp_boot [0, 1] (\<lambda>_. 0)"
  have b: "1 < length (harts ?b)" "h_pc (harts ?b ! 1) = Idle" by (simp_all add: mp_boot_def)
  have step: "mp_step ?b second_calls"
    using b unfolding second_calls_def by (rule mp_step.call_acquire)
  have "mp_inv ?b" by (rule mp_boot_inv) simp
  then have "mp_step\<^sup>*\<^sup>* second_calls s"
    using mp_step_inv [OF step] b(1) assms by (intro mp_run_steps [where n = n and c = 1]) (simp_all add: second_calls_def updh_def)
  with step show ?thesis by (rule converse_rtranclp_into_rtranclp)
qed

lemma second_run:
  "mp_run 8 1 second_calls = Some (second_at 8)" "mp_run 5 1 second_calls = Some (second_at 5)"
  "harts (second_at 8) = [\<lparr>h_eflags = 0, h_apicid = 0, h_argp = 0, h_pc = Idle, h_taken = []\<rparr>,
     \<lparr>h_eflags = 0, h_apicid = 1, h_argp = 0, h_pc = Idle, h_taken = [KmemLock]\<rparr>]"
  "harts (second_at 5) = [\<lparr>h_eflags = 0, h_apicid = 0, h_argp = 0, h_pc = Idle, h_taken = []\<rparr>,
     \<lparr>h_eflags = 0, h_apicid = 1, h_argp = 0, h_pc = A_xchg KmemLock, h_taken = []\<rparr>]"
  "lk_locked (locks (second_at 5) KmemLock) = 0"
  by (simp_all add: second_eval)

theorem spinlock_mutual_exclusion_witness:
  "h_taken (harts (second_at 8) ! 1) = [KmemLock] \<and> KmemLock \<notin> set (h_taken (harts (second_at 8) ! 0))
   \<and> lk_locked (locks (second_at 8) KmemLock) \<noteq> 0 \<and> c_ncli (cpus (second_at 8) ! 1) = 1"
  using spinlock_mutual_exclusion [OF _ second_reached [OF second_run(1)], of 1 KmemLock] by (simp add: second_run(3))

text \<open>
  C12: The locks of the prelude are this code.  Whatever step the machine takes from a reachable state, the locks that a CPU has taken change only when it takes a
  free lock or gives one back, and then as the operations \<open>acquire\<close> and \<open>release\<close> of the prelude change the list of
  the locks held; and a CPU stops in a panic only where these operations panic, with the same message.
\<close>

theorem spinlock_refines:
  assumes "distinct ids" "mp_step\<^sup>*\<^sup>* (mp_boot ids m) s" "mp_step s t" "c < length (harts s)"
  shows "let h = harts s ! c; h' = harts t ! c; abs = (\<lambda>h. \<lparr>held = h_taken h\<rparr>) in
    (h_taken h' = h_taken h \<and> (stopped (h_pc h') \<longrightarrow> h_pc h' = h_pc h))
    \<or> (\<exists>l. h_pc h = A_xchg l \<and> acquire l (abs h) = Ok () (abs h'))
    \<or> (\<exists>l. h_pc h = R_unlock l \<and> release l (abs h) = Ok () (abs h'))
    \<or> (\<exists>l e. h_pc h = A_hold l (H_ret True) \<and> h_pc h' = Stopped e \<and> acquire l (abs h) = Panic e)
    \<or> (\<exists>l e. h_pc h = R_hold l (H_ret False) \<and> h_pc h' = Stopped e \<and> release l (abs h) = Panic e)"
proof -
  have inv: "mp_inv s" using assms(2) mp_boot_inv [OF assms(1)] by (rule reachable_inv)
  have ok: "stopped (h_pc (harts s ! c)) \<or> knows (h_pc (harts s ! c)) (h_taken (harts s ! c))"
    using hart_inv [OF inv assms(4)] by (auto simp: hart_ok_def)
  show ?thesis using assms(3) inv assms(4)
  proof (cases rule: mp_step_view)
    case step
    then show ?thesis using ok by (auto simp: taken_after_def acquire_def release_def Let_def split: pc.splits if_splits)
  next
    case (stop e)
    then show ?thesis using ok by (auto simp: misuse_def acquire_def release_def Let_def)
  next
    case same
    then show ?thesis by (simp add: Let_def)
  qed
qed

theorem spinlock_refines_witness:
  "\<exists>t. mp_step (second_at 5) t \<and> h_pc (harts (second_at 5) ! 1) = A_xchg KmemLock
     \<and> acquire KmemLock \<lparr>held = h_taken (harts (second_at 5) ! 1)\<rparr> = Ok () \<lparr>held = h_taken (harts t ! 1)\<rparr>"
proof -
  let ?u = "updh 1 (\<lambda>h. h\<lparr>h_taken := KmemLock # h_taken h\<rparr>) (updl KmemLock (\<lambda>k. k\<lparr>lk_locked := 1\<rparr>) (second_at 5))"
  have "cpu_step 1 (h_pc (harts (second_at 5) ! 1)) (second_at 5) = Ok (A_cpu KmemLock) ?u"
    using second_run(5) by (simp add: second_run(4) krun xchg_def)
  then have step: "mp_step (second_at 5) (updh 1 (\<lambda>h. h\<lparr>h_pc := A_cpu KmemLock\<rparr>) ?u)"
    by (intro mp_step.run) (simp_all add: second_run(4))
  then show ?thesis
    using spinlock_refines [OF _ second_reached [OF second_run(2)] step, of 1]
    by (intro exI [of _ "updh 1 (\<lambda>h. h\<lparr>h_pc := A_cpu KmemLock\<rparr>) ?u"])
      (simp add: Let_def second_run(4) updh_def updl_def)
qed

end
