(* ===== verification/Vm_Inv.thy ===== *)
theory Vm_Inv
  imports Vm
begin

text \<open>
  Correctness of the page tables.  The invariant of a page directory says where its tables lie; the abstract
  state of the directory is the function that the hardware computes from it.
\<close>

section \<open>Entries of tables\<close>

lemma PDX_less: "unat (PDX va) < 1024" and PTX_less: "unat (PTX va) < 1024"
proof -
  have "unat (x AND 0x3FF) < 1024" for x :: uint
  proof -
    have "x AND 0x3FF = take_bit 10 x" by (simp add: take_bit_eq_mask mask_eq_exp_minus_1)
    then show ?thesis using take_bit_nat_less_exp [of 10 "unat x"] by (simp add: unsigned_take_bit_eq)
  qed
  then show "unat (PDX va) < 1024" "unat (PTX va) < 1024" by (simp_all add: PDX_def PTX_def)
qed

lemma unat_entry: "page_aligned t \<Longrightarrow> unat k < 1024 \<Longrightarrow> unat (t + 4 * k) = unat t + 4 * unat k"
  using unat_page_add [of t "4 * k"] by (simp add: unat_word_ariths)

lemma entry_byte: "page_aligned t \<Longrightarrow> unat k < 1024 \<Longrightarrow> d < 4 \<Longrightarrow> unat (t + 4 * k + d) = unat t + 4 * unat k + unat d"
  using unat_page_add [of t "4 * k + d"] by (simp add: unat_word_ariths word_less_nat_alt add.assoc)

lemma entry_in_page:
  assumes "page_aligned t" "unat k < 1024" "d < 4"
  shows "in_page t (t + 4 * k + d)"
proof -
  have "unat (4 * k + d) = 4 * unat k + unat d" using assms by (simp add: unat_word_ariths word_less_nat_alt)
  then show ?thesis using assms by (simp add: in_page_def word_less_nat_alt add.assoc)
qed

lemma split_unique:
  fixes n a b x y :: nat
  assumes "n * a + x = n * b + y" "x < n" "y < n"
  shows "a = b \<and> x = y"
proof -
  have "(n * a + x) div n = a" "(n * b + y) div n = b" using assms(2,3) by simp_all
  then show ?thesis using assms(1) by simp
qed

lemma store32_entry_other:
  assumes "page_aligned t" "page_aligned u" "unat k < 1024" "unat j < 1024" "t \<noteq> u \<or> k \<noteq> j"
  shows "load32 (store32 m (t + 4 * k) v) (u + 4 * j) = load32 m (u + 4 * j)"
proof (rule load32_cong)
  fix d :: uint
  assume d: "d < 4"
  have "\<not> u + 4 * j + d - (t + 4 * k) < 4"
  proof
    let ?c = "u + 4 * j + d - (t + 4 * k)"
    assume c: "?c < 4"
    then have eq: "unat u + 4 * unat j + unat d = unat t + 4 * unat k + unat ?c"
      using entry_byte [OF assms(2,4) d] entry_byte [OF assms(1,3) c] by (simp add: add.assoc)
    have "unat d < 4" "unat ?c < 4" using c d by (simp_all add: word_less_nat_alt)
    moreover obtain a b where "unat u = 4096 * a" "unat t = 4096 * b"
      using assms(1,2) by (auto simp: page_aligned_unat mod_eq_0_iff_dvd dvd_def)
    ultimately have "unat u = unat t \<and> unat j = unat k"
      using eq assms(3,4) split_unique [of 4096 a "4 * unat j + unat d" b "4 * unat k + unat ?c"]
        split_unique [of 4 "unat j" "unat d" "unat k" "unat ?c"] by simp
    then show False using assms(5) by (simp add: word_unat_eq_iff)
  qed
  then show "store32 m (t + 4 * k) v (u + 4 * j + d) = m (u + 4 * j + d)" by (rule store32_other)
qed

lemma in_page_other: "page_aligned t \<Longrightarrow> page_aligned u \<Longrightarrow> t \<noteq> u \<Longrightarrow> in_page u a \<Longrightarrow> \<not> in_page t a"
  using pages_disjoint by blast

lemma store32_entry_out:
  assumes "page_aligned t" "unat k < 1024" "\<not> in_page t a"
  shows "store32 m (t + 4 * k) v a = m a"
proof (rule store32_other)
  show "\<not> a - (t + 4 * k) < 4"
  proof
    assume "a - (t + 4 * k) < 4"
    from entry_in_page [OF assms(1,2) this] show False using assms(3) by simp
  qed
qed

lemma load32_entry_cong:
  assumes "page_aligned t" "unat k < 1024" "\<And>a. in_page t a \<Longrightarrow> m' a = m a"
  shows "load32 m' (t + 4 * k) = load32 m (t + 4 * k)"
  using assms by (intro load32_cong) (simp add: entry_in_page)

lemma load32_zero:
  assumes "page_aligned t" "unat k < 1024" "\<And>a. in_page t a \<Longrightarrow> m a = 0"
  shows "load32 m (t + 4 * k) = 0"
proof -
  have "load32 m (t + 4 * k) = load32 (\<lambda>_. 0) (t + 4 * k)"
    by (rule load32_entry_cong) (use assms in simp_all)
  then show ?thesis by (simp add: load32_def)
qed

section \<open>Addresses in entries\<close>

lemma low_bits: "(0xFFF :: uint) = mask 12"
  by (simp add: mask_eq_exp_minus_1)

lemma PTE_ADDR_bits: "bit (PTE_ADDR e) n \<longleftrightarrow> 12 \<le> n \<and> bit e n"
  unfolding PTE_ADDR_def low_bits using bit_imp_le_length [of e n] by (auto simp: bit_simps not_le)

lemma page_aligned_bits: "page_aligned x \<longleftrightarrow> (\<forall>n < 12. \<not> bit x n)"
proof -
  have "page_aligned x \<longleftrightarrow> take_bit 12 x = 0" by (simp add: page_aligned_def PGSIZE_def take_bit_eq_mod)
  also have "\<dots> \<longleftrightarrow> (\<forall>n < 12. \<not> bit x n)"
  proof
    assume z: "take_bit 12 x = 0"
    show "\<forall>n < 12. \<not> bit x n"
    proof (intro allI impI)
      fix n :: nat assume "n < 12"
      then show "\<not> bit x n" using arg_cong [OF z, of "\<lambda>y. bit y n"] by (simp add: bit_simps)
    qed
  qed (auto intro!: bit_word_eqI simp: bit_simps)
  finally show ?thesis .
qed

lemma PTE_ADDR_aligned: "page_aligned (PTE_ADDR e)"
  by (simp add: page_aligned_bits PTE_ADDR_bits)

lemma V2P_aligned [simp]: "page_aligned (V2P x) = page_aligned x"
proof -
  have "unat x mod 4096 = (unat (V2P x) + 4096 * 524288) mod 4096 \<or> unat x + 4096 * 1048576 = unat (V2P x) + 4096 * 524288"
    by (auto simp: V2P_def KERNBASE_def unat_sub_uint)
  then have "unat x mod 4096 = unat (V2P x) mod 4096" by (metis mod_mult_self2)
  then show ?thesis by (simp add: page_aligned_unat)
qed

lemma P2V_aligned [simp]: "page_aligned (P2V x) = page_aligned x"
  using V2P_aligned [of "P2V x"] by (simp add: V2P_def P2V_def)

text \<open>Flags are numbers without address bits.\<close>

lemma PTE_ADDR_or:
  assumes "page_aligned x" "PTE_ADDR f = 0"
  shows "PTE_ADDR (x OR f) = x" "PTE_FLAGS (x OR f) = f"
proof -
  have f: "n < 12" if "bit f n" for n using PTE_ADDR_bits [of f n] assms(2) that by auto
  have x: "12 \<le> n" if "bit x n" for n using assms(1) that by (auto simp: page_aligned_bits not_le [symmetric])
  show "PTE_ADDR (x OR f) = x"
    by (rule bit_word_eqI) (auto simp: PTE_ADDR_bits bit_simps not_le dest: f x)
  show "PTE_FLAGS (x OR f) = f"
    unfolding PTE_FLAGS_def low_bits by (rule bit_word_eqI) (auto simp: bit_simps not_le dest: f x)
qed

lemma PTE_ADDR_id: "page_aligned x \<Longrightarrow> PTE_ADDR x = x"
  using PTE_ADDR_or(1) [of x 0] by (simp add: PTE_ADDR_def)

lemma PTE_ADDR_flags [simp]: "PTE_ADDR (PTE_FLAGS e) = 0"
  by (rule bit_word_eqI) (auto simp: PTE_ADDR_bits PTE_FLAGS_def low_bits bit_simps)

lemma P2V_V2P [simp]: "P2V (V2P x) = x" "V2P (P2V x) = x"
  by (simp_all add: P2V_def V2P_def)

lemma PGROUNDDOWN_PTE_ADDR: "PGROUNDDOWN a = PTE_ADDR a"
  by (simp add: PGROUNDDOWN_def PTE_ADDR_def PGSIZE_def)

text \<open>The indices of an address tell its page.\<close>

lemma index_bits: "bit (PDX a) n \<longleftrightarrow> n < 10 \<and> bit a (n + 22)" "bit (PTX a) n \<longleftrightarrow> n < 10 \<and> bit a (n + 12)"
proof -
  have m: "(0x3FF :: uint) = mask 10" by (simp add: mask_eq_exp_minus_1)
  show "bit (PDX a) n \<longleftrightarrow> n < 10 \<and> bit a (n + 22)" "bit (PTX a) n \<longleftrightarrow> n < 10 \<and> bit a (n + 12)"
    unfolding PDX_def PTX_def m by (auto simp: bit_simps add.commute)
qed

lemma same_page: "PDX a = PDX b \<and> PTX a = PTX b \<longleftrightarrow> PTE_ADDR a = PTE_ADDR b"
proof (intro iffI conjI)
  assume eq: "PDX a = PDX b \<and> PTX a = PTX b"
  show "PTE_ADDR a = PTE_ADDR b"
  proof (rule bit_word_eqI)
    fix n assume "n < LENGTH(32)"
    then show "bit (PTE_ADDR a) n = bit (PTE_ADDR b) n"
      using eq index_bits(1) [of a "n - 22"] index_bits(1) [of b "n - 22"] index_bits(2) [of a "n - 12"] index_bits(2) [of b "n - 12"]
      by (cases "n < 22") (auto simp: PTE_ADDR_bits)
  qed
next
  assume eq: "PTE_ADDR a = PTE_ADDR b"
  have "bit a n = bit b n" if "12 \<le> n" for n
    using PTE_ADDR_bits [of a n] PTE_ADDR_bits [of b n] that eq by simp
  then show "PDX a = PDX b" "PTX a = PTX b" by (auto intro!: bit_word_eqI simp: index_bits)
qed

lemma in_own_page: "in_page (PTE_ADDR va) va"
proof -
  have "PTE_ADDR va OR PTE_FLAGS va = va"
    by (rule bit_word_eqI) (auto simp: PTE_ADDR_bits PTE_FLAGS_def low_bits bit_simps not_le)
  moreover have "PTE_ADDR va + PTE_FLAGS va = PTE_ADDR va OR PTE_FLAGS va"
    by (rule disjunctive_add) (auto simp: PTE_ADDR_bits PTE_FLAGS_def low_bits bit_simps)
  ultimately have "va - PTE_ADDR va = take_bit 12 va"
    by (simp add: PTE_FLAGS_def low_bits take_bit_eq_mask algebra_simps)
  moreover have "unat (take_bit 12 va) < 4096"
    using take_bit_nat_less_exp [of 12 "unat va"] by (simp add: unsigned_take_bit_eq)
  ultimately show ?thesis by (simp add: in_page_def word_less_nat_alt)
qed

lemma in_page_iff: "page_aligned a \<Longrightarrow> in_page a va \<longleftrightarrow> PTE_ADDR va = a"
  using in_own_page [of va] pages_disjoint [OF PTE_ADDR_aligned] by blast

section \<open>Page directories\<close>

definition present :: "uint \<Rightarrow> bool" where
  "present e \<longleftrightarrow> e AND PTE_P \<noteq> 0"

definition pde :: "memory \<Rightarrow> uint \<Rightarrow> uint \<Rightarrow> uint" where
  "pde m pgdir i = load32 m (pgdir + 4 * i)"

definition ptab :: "memory \<Rightarrow> uint \<Rightarrow> uint \<Rightarrow> uint" where
  "ptab m pgdir i = P2V (PTE_ADDR (pde m pgdir i))"

text \<open>The pages of a directory: its own page and those of its tables.\<close>

definition own :: "memory \<Rightarrow> uint \<Rightarrow> uint set" where
  "own m pgdir = insert pgdir {ptab m pgdir i | i. unat i < 1024 \<and> present (pde m pgdir i)}"

definition dir_ok :: "uint \<Rightarrow> memory \<Rightarrow> uint \<Rightarrow> bool" where
  "dir_ok e m pgdir \<longleftrightarrow> (\<forall>p \<in> own m pgdir. page_ok e p)
     \<and> (\<forall>i. unat i < 1024 \<longrightarrow> present (pde m pgdir i) \<longrightarrow> ptab m pgdir i \<noteq> pgdir)
     \<and> (\<forall>i j. unat i < 1024 \<longrightarrow> unat j < 1024 \<longrightarrow> present (pde m pgdir i) \<longrightarrow> present (pde m pgdir j)
          \<longrightarrow> ptab m pgdir i = ptab m pgdir j \<longrightarrow> i = j)"

text \<open>The invariant: \<open>ps\<close> are the free pages.\<close>

definition vm_inv :: "'z kmem_scheme \<Rightarrow> uint \<Rightarrow> uint list \<Rightarrow> bool" where
  "vm_inv s pgdir ps \<longleftrightarrow> kmem_inv s ps \<and> dir_ok (sym_end (syms s)) (mem s) pgdir \<and> own (mem s) pgdir \<inter> set ps = {}"

lemma mmu_pte_eq:
  "mmu_pte m pgdir va =
     (if present (pde m pgdir (PDX va)) then
        let e = load32 m (ptab m pgdir (PDX va) + 4 * PTX va) in if present e then Some e else None
      else None)"
  by (simp add: mmu_pte_def present_def pde_def ptab_def Let_def)

lemma dir_okD:
  assumes "dir_ok e m pgdir"
  shows "page_aligned pgdir" "page_ok e pgdir"
    "\<And>i. unat i < 1024 \<Longrightarrow> present (pde m pgdir i) \<Longrightarrow> page_aligned (ptab m pgdir i) \<and> ptab m pgdir i \<in> own m pgdir \<and> ptab m pgdir i \<noteq> pgdir"
    "\<And>p. p \<in> own m pgdir \<Longrightarrow> page_aligned p"
  using assms unfolding dir_ok_def own_def page_ok_def by blast+

lemma pde_cong: "page_aligned pgdir \<Longrightarrow> unat i < 1024 \<Longrightarrow> (\<And>a. in_page pgdir a \<Longrightarrow> m' a = m a) \<Longrightarrow> pde m' pgdir i = pde m pgdir i"
  unfolding pde_def by (rule load32_entry_cong)

lemma dir_cong:
  assumes ok: "dir_ok e m pgdir" and eq: "\<And>p a. p \<in> own m pgdir \<Longrightarrow> in_page p a \<Longrightarrow> m' a = m a"
  shows "dir_ok e m' pgdir" "own m' pgdir = own m pgdir" "mmu_pte m' pgdir = mmu_pte m pgdir"
proof -
  have p: "pde m' pgdir i = pde m pgdir i" if "unat i < 1024" for i
    using that eq dir_okD(1) [OF ok] by (intro pde_cong) (auto simp: own_def)
  then have t: "ptab m' pgdir i = ptab m pgdir i" if "unat i < 1024" for i
    using that by (simp add: ptab_def)
  show own: "own m' pgdir = own m pgdir" unfolding own_def using p t by metis
  show "dir_ok e m' pgdir" using ok p t unfolding dir_ok_def own by metis
  show "mmu_pte m' pgdir = mmu_pte m pgdir"
  proof
    fix va
    have "load32 m' (ptab m pgdir (PDX va) + 4 * PTX va) = load32 m (ptab m pgdir (PDX va) + 4 * PTX va)"
      if "present (pde m pgdir (PDX va))"
      using dir_okD(3) [OF ok PDX_less that] eq by (intro load32_entry_cong) (auto simp: PTX_less)
    then show "mmu_pte m' pgdir va = mmu_pte m pgdir va" by (simp add: mmu_pte_eq p t PDX_less)
  qed
qed

section \<open>Steps on a directory\<close>

text \<open>
  What every routine on a directory may do: change the memory and the free list so that the pages of the directory and
  the free pages together stay the same, and touch no other page.
\<close>

definition vm_step :: "uint \<Rightarrow> 'z kmem_scheme \<Rightarrow> uint list \<Rightarrow> 'z kmem_scheme \<Rightarrow> uint list \<Rightarrow> bool" where
  "vm_step pgdir s ps t ps' \<longleftrightarrow> (\<exists>m f. t = s\<lparr>mem := m, freelist := f\<rparr>) \<and> vm_inv t pgdir ps'
     \<and> own (mem t) pgdir \<union> set ps' = own (mem s) pgdir \<union> set ps
     \<and> (\<forall>a. (\<forall>p \<in> own (mem s) pgdir \<union> set ps. \<not> in_page p a) \<longrightarrow> mem t a = mem s a)"

lemma vm_stepI:
  "t = s\<lparr>mem := m, freelist := f\<rparr> \<Longrightarrow> vm_inv t pgdir ps' \<Longrightarrow> own m pgdir \<union> set ps' = own (mem s) pgdir \<union> set ps
    \<Longrightarrow> (\<And>a. \<forall>p \<in> own (mem s) pgdir \<union> set ps. \<not> in_page p a \<Longrightarrow> m a = mem s a) \<Longrightarrow> vm_step pgdir s ps t ps'"
  unfolding vm_step_def by auto

lemma vm_step_refl: "vm_inv s pgdir ps \<Longrightarrow> vm_step pgdir s ps s ps"
  by (rule vm_stepI [where m = "mem s" and f = "freelist s"]) simp_all

lemma vm_step_trans:
  assumes "vm_step pgdir s ps t qs" "vm_step pgdir t qs u rs"
  shows "vm_step pgdir s ps u rs"
proof -
  obtain m f where "t = s\<lparr>mem := m, freelist := f\<rparr>" using assms(1) by (auto simp: vm_step_def)
  moreover obtain m' f' where "u = t\<lparr>mem := m', freelist := f'\<rparr>" using assms(2) by (auto simp: vm_step_def)
  ultimately show ?thesis using assms by (intro vm_stepI [where m = m' and f = f']) (auto simp: vm_step_def)
qed

text \<open>Storing an entry of a table.\<close>

lemma vm_store_pte:
  assumes inv: "vm_inv s pgdir ps" and pr: "present (pde (mem s) pgdir (PDX va))"
    and t_def: "t = s\<lparr>mem := store32 (mem s) (ptab (mem s) pgdir (PDX va) + 4 * PTX va) v\<rparr>"
  shows "vm_step pgdir s ps t ps"
    and "mmu_pte (mem t) pgdir = (\<lambda>va'. if PTE_ADDR va' = PTE_ADDR va then if present v then Some v else None
            else mmu_pte (mem s) pgdir va')"
    and "own (mem t) pgdir = own (mem s) pgdir"
proof -
  let ?m = "mem s" and ?m' = "mem t" and ?T = "ptab (mem s) pgdir (PDX va)"
  have ok: "dir_ok (sym_end (syms s)) ?m pgdir" using inv by (simp add: vm_inv_def)
  note T = dir_okD(3) [OF ok PDX_less pr]
  have out: "?m' a = ?m a" if "\<not> in_page ?T a" for a
    using that T by (simp add: t_def store32_entry_out PTX_less)
  have p: "pde ?m' pgdir i = pde ?m pgdir i" if "unat i < 1024" for i
    using that T dir_okD(1) [OF ok] by (intro pde_cong out) (auto dest: in_page_other)
  then have tb: "ptab ?m' pgdir i = ptab ?m pgdir i" if "unat i < 1024" for i
    using that by (simp add: ptab_def)
  show own: "own ?m' pgdir = own ?m pgdir" unfolding own_def using p tb by metis
  have "dir_ok (sym_end (syms s)) ?m' pgdir" using ok p tb unfolding dir_ok_def own by metis
  moreover have "kmem_inv t ps"
    unfolding t_def
  proof (rule kmem_inv_mem)
    fix x a assume "x \<in> set ps" "in_page x a"
    then have "\<not> in_page ?T a"
      using inv T in_page_other [of ?T x a] by (auto simp: vm_inv_def kmem_inv_def page_ok_def)
    then show "store32 ?m (?T + 4 * PTX va) v a = ?m a" using out by (simp add: t_def)
  qed (use inv in \<open>simp add: vm_inv_def\<close>)
  ultimately have "vm_inv t pgdir ps" using inv own by (simp add: vm_inv_def t_def)
  then show "vm_step pgdir s ps t ps"
    by (intro vm_stepI [where m = ?m' and f = "freelist s"]) (use own out T in \<open>auto simp: t_def\<close>)
  show "mmu_pte ?m' pgdir = (\<lambda>va'. if PTE_ADDR va' = PTE_ADDR va then if present v then Some v else None
            else mmu_pte ?m pgdir va')"
  proof
    fix va'
    show "mmu_pte ?m' pgdir va' = (if PTE_ADDR va' = PTE_ADDR va then if present v then Some v else None
            else mmu_pte ?m pgdir va')"
    proof (cases "PDX va' = PDX va \<and> PTX va' = PTX va")
      case True
      then show ?thesis using pr same_page [of va' va] by (simp add: mmu_pte_eq p tb PDX_less) (simp add: t_def)
    next
      case False
      have "load32 ?m' (ptab ?m pgdir (PDX va') + 4 * PTX va') = load32 ?m (ptab ?m pgdir (PDX va') + 4 * PTX va')"
        if pr': "present (pde ?m pgdir (PDX va'))"
      proof -
        have "?T \<noteq> ptab ?m pgdir (PDX va') \<or> PTX va \<noteq> PTX va'"
          using False ok pr pr' PDX_less unfolding dir_ok_def by metis
        then show ?thesis unfolding t_def
          using T dir_okD(3) [OF ok PDX_less pr'] by (simp add: store32_entry_other PTX_less)
      qed
      then show ?thesis using False same_page [of va' va] by (simp add: mmu_pte_eq p tb PDX_less)
    qed
  qed
qed

text \<open>A new table: a free page, filled with zeros, for a part of the address space that had none.\<close>

lemma new_pde:
  assumes "page_aligned p"
  shows "present (V2P p OR PTE_P OR PTE_W OR PTE_U)" "P2V (PTE_ADDR (V2P p OR PTE_P OR PTE_W OR PTE_U)) = p"
proof -
  have f: "V2P p OR PTE_P OR PTE_W OR PTE_U = V2P p OR 7" by (simp add: PTE_P_def PTE_W_def PTE_U_def or.assoc)
  have "(V2P p OR 7) AND 1 = 1" by (rule bit_word_eqI) (auto simp: bit_simps)
  then show "present (V2P p OR PTE_P OR PTE_W OR PTE_U)" unfolding f by (simp add: present_def PTE_P_def)
  show "P2V (PTE_ADDR (V2P p OR PTE_P OR PTE_W OR PTE_U)) = p"
    unfolding f using PTE_ADDR_or(1) [of "V2P p" 7] assms PTE_ADDR_def [of 7] by simp
qed

lemma vm_new_table:
  assumes inv: "vm_inv s pgdir (p # ps)" and np: "\<not> present (pde (mem s) pgdir (PDX va))"
    and t_def: "t = s\<lparr>freelist := load32 (mem s) p, mem := store32 (memset (mem s) p 0 PGSIZE) (pgdir + 4 * PDX va)
                  (V2P p OR PTE_P OR PTE_W OR PTE_U)\<rparr>"
  shows "vm_step pgdir s (p # ps) t ps" "mmu_pte (mem t) pgdir = mmu_pte (mem s) pgdir"
    "present (pde (mem t) pgdir (PDX va))" "ptab (mem t) pgdir (PDX va) = p"
proof -
  let ?m = "mem s" and ?m' = "mem t"
  have ok: "dir_ok (sym_end (syms s)) ?m pgdir" and km: "kmem_inv s (p # ps)" using inv by (simp_all add: vm_inv_def)
  note D = dir_okD(1) [OF ok]
  have p: "page_ok (sym_end (syms s)) p" "page_aligned p" "p \<notin> own ?m pgdir" "p \<notin> set ps"
    using inv by (auto simp: vm_inv_def kmem_inv_def page_ok_def)
  then have "p \<noteq> pgdir" by (auto simp: own_def)
  note np' = in_page_other [OF p(2) D this] in_page_other [OF D p(2) this [symmetric]]
  have m1: "memset ?m p 0 PGSIZE a = (if in_page p a then 0 else ?m a)" for a
    by (simp add: memset_apply in_page_def)
  have out: "?m' a = (if in_page p a then 0 else ?m a)" if "\<not> in_page pgdir a" for a
    using that D by (simp add: t_def store32_entry_out PDX_less m1)
  have new: "pde ?m' pgdir (PDX va) = V2P p OR PTE_P OR PTE_W OR PTE_U" by (simp add: pde_def t_def)
  have old: "pde ?m' pgdir i = pde ?m pgdir i" if "unat i < 1024" "i \<noteq> PDX va" for i
  proof -
    have "pde ?m' pgdir i = pde (memset ?m p 0 PGSIZE) pgdir i"
      using that D by (simp add: pde_def t_def store32_entry_other PDX_less)
    also have "\<dots> = pde ?m pgdir i" using that D np' by (intro pde_cong) (simp_all add: m1)
    finally show ?thesis .
  qed
  show pr: "present (pde ?m' pgdir (PDX va))" and T: "ptab ?m' pgdir (PDX va) = p"
    using new new_pde [OF p(2)] by (simp_all add: ptab_def)
  have tb: "ptab ?m' pgdir i = ptab ?m pgdir i" if "unat i < 1024" "i \<noteq> PDX va" for i
    using old [OF that] by (simp add: ptab_def)
  have "{ptab ?m' pgdir i | i. unat i < 1024 \<and> present (pde ?m' pgdir i)}
      = insert p {ptab ?m pgdir i | i. unat i < 1024 \<and> present (pde ?m pgdir i)}"
    using pr T old tb np PDX_less [of va] by auto metis+
  then have own: "own ?m' pgdir = insert p (own ?m pgdir)" by (auto simp: own_def)
  have "dir_ok (sym_end (syms s)) ?m' pgdir"
    unfolding dir_ok_def own
  proof (intro conjI allI impI ballI)
    show "page_ok (sym_end (syms s)) q" if "q \<in> insert p (own ?m pgdir)" for q using that p ok by (auto simp: dir_ok_def)
    show "ptab ?m' pgdir i \<noteq> pgdir" if "unat i < 1024" "present (pde ?m' pgdir i)" for i
      using that T tb old ok \<open>p \<noteq> pgdir\<close> by (cases "i = PDX va") (auto simp: dir_ok_def)
    show "i = j" if "unat i < 1024" "unat j < 1024" "present (pde ?m' pgdir i)" "present (pde ?m' pgdir j)"
      "ptab ?m' pgdir i = ptab ?m' pgdir j" for i j
      using that T tb old ok p(3) dir_okD(3) [OF ok]
      by (cases "i = PDX va"; cases "j = PDX va") (auto simp: dir_ok_def)
  qed
  moreover have "kmem_inv ((s\<lparr>freelist := load32 ?m p\<rparr>)\<lparr>mem := ?m'\<rparr>) ps"
  proof (rule kmem_inv_mem)
    show "kmem_inv (s\<lparr>freelist := load32 ?m p\<rparr>) ps" using km by (auto simp: kmem_inv_def)
    fix x a assume x: "x \<in> set ps" "in_page x a"
    then have "page_aligned x" "x \<noteq> p" "x \<noteq> pgdir" using inv by (auto simp: vm_inv_def kmem_inv_def page_ok_def own_def)
    then have "\<not> in_page pgdir a" "\<not> in_page p a" using x D p(2) in_page_other [of _ x a] by auto
    then show "?m' a = mem (s\<lparr>freelist := load32 ?m p\<rparr>) a" by (simp add: out)
  qed
  ultimately have "vm_inv t pgdir ps" using inv own p(4) by (simp add: vm_inv_def t_def)
  then show "vm_step pgdir s (p # ps) t ps"
    by (intro vm_stepI [where m = ?m' and f = "load32 ?m p"]) (use own out in \<open>auto simp: t_def own_def\<close>)
  show "mmu_pte ?m' pgdir = mmu_pte ?m pgdir"
  proof
    fix va'
    show "mmu_pte ?m' pgdir va' = mmu_pte ?m pgdir va'"
    proof (cases "PDX va' = PDX va")
      case True
      have "load32 ?m' (p + 4 * PTX va') = 0"
        using p(2) np' out by (intro load32_zero) (simp_all add: PTX_less)
      then show ?thesis using True np T by (simp add: mmu_pte_eq present_def)
    next
      case False
      have "load32 ?m' (ptab ?m pgdir (PDX va') + 4 * PTX va') = load32 ?m (ptab ?m pgdir (PDX va') + 4 * PTX va')"
        if pr: "present (pde ?m pgdir (PDX va'))"
      proof (rule load32_entry_cong)
        note T' = dir_okD(3) [OF ok PDX_less pr]
        fix a assume "in_page (ptab ?m pgdir (PDX va')) a"
        then have "\<not> in_page pgdir a" "\<not> in_page p a"
          using T' D p in_page_other [of _ "ptab ?m pgdir (PDX va')" a] by auto
        then show "?m' a = ?m a" by (simp add: out)
      qed (use dir_okD(3) [OF ok PDX_less pr] in \<open>simp_all add: PTX_less\<close>)
      then show ?thesis using False by (simp add: mmu_pte_eq old tb PDX_less)
    qed
  qed
qed

section \<open>walkpgdir and mappages\<close>

lemma entry_nonzero:
  assumes "dir_ok e m pgdir" "KERNBASE \<le> e" "present (pde m pgdir (PDX va))"
  shows "ptab m pgdir (PDX va) + 4 * PTX va \<noteq> 0"
proof
  note T = dir_okD(3) [OF assms(1) PDX_less assms(3)]
  assume "ptab m pgdir (PDX va) + 4 * PTX va = 0"
  then have "unat (ptab m pgdir (PDX va)) = 0" using unat_entry [of "ptab m pgdir (PDX va)" "PTX va"] T PTX_less [of va] by simp
  then have "ptab m pgdir (PDX va) = 0" by (simp add: unat_eq_0)
  moreover have "page_ok e (ptab m pgdir (PDX va))" using T assms(1) by (simp add: dir_ok_def)
  ultimately show False using assms(2) page_ok_nonzero by blast
qed

lemma walkpgdir_run:
  "walkpgdir pgdir va False s =
     Ok (if present (pde (mem s) pgdir (PDX va)) then ptab (mem s) pgdir (PDX va) + 4 * PTX va else 0) s"
  by (simp add: walkpgdir_def Let_def krun present_def pde_def ptab_def)

lemma walkpgdir_alloc:
  assumes inv: "vm_inv s pgdir ps" and lk: "KmemLock \<notin> set (held s)"
  obtains r t ps' where "walkpgdir pgdir va True s = Ok r t" "vm_step pgdir s ps t ps'"
    "mmu_pte (mem t) pgdir = mmu_pte (mem s) pgdir" "r = 0 \<Longrightarrow> ps' = []"
    "r \<noteq> 0 \<Longrightarrow> present (pde (mem t) pgdir (PDX va)) \<and> r = ptab (mem t) pgdir (PDX va) + 4 * PTX va"
proof (cases "present (pde (mem s) pgdir (PDX va))")
  case True
  then have "walkpgdir pgdir va True s = Ok (ptab (mem s) pgdir (PDX va) + 4 * PTX va) s"
    by (simp add: walkpgdir_def Let_def krun present_def pde_def ptab_def)
  moreover have "ptab (mem s) pgdir (PDX va) + 4 * PTX va \<noteq> 0"
    using inv True entry_nonzero by (auto simp: vm_inv_def kmem_inv_def)
  ultimately show ?thesis using True vm_step_refl [OF inv] that by blast
next
  case False
  show ?thesis
  proof (cases ps)
    case Nil
    then have "walkpgdir pgdir va True s = Ok 0 s"
      using False kalloc_Nil [of s] inv lk by (simp add: walkpgdir_def Let_def krun present_def pde_def vm_inv_def)
    then show ?thesis using vm_step_refl [OF inv] Nil by (intro that [of 0 s "[]"]) simp_all
  next
    case (Cons p qs)
    define t where "t = s\<lparr>freelist := load32 (mem s) p, mem := store32 (memset (mem s) p 0 PGSIZE) (pgdir + 4 * PDX va)
                  (V2P p OR PTE_P OR PTE_W OR PTE_U)\<rparr>"
    have km: "kmem_inv s (p # qs)" using inv Cons by (simp add: vm_inv_def)
    then have "p \<noteq> 0" using page_ok_nonzero by (auto simp: kmem_inv_def)
    then have "walkpgdir pgdir va True s = Ok (p + 4 * PTX va) t"
      using False kalloc_Cons(1) [OF km lk] by (simp add: walkpgdir_def Let_def krun present_def pde_def t_def)
    moreover note new = vm_new_table [OF inv [unfolded Cons] False t_def]
    moreover have "p + 4 * PTX va \<noteq> 0"
      using new entry_nonzero [of "sym_end (syms t)" "mem t" pgdir va] by (auto simp: vm_step_def vm_inv_def kmem_inv_def)
    ultimately show ?thesis by (intro that [of "p + 4 * PTX va" t qs]) (simp_all add: Cons)
  qed
qed

text \<open>The pages of the range \<open>a\<close>, \<open>a\<close> + 4096, ... (\<open>n\<close> pages after the first) mapped to \<open>pa\<close>, \<open>pa\<close> + 4096, ....\<close>

definition map_range :: "(uint \<Rightarrow> uint option) \<Rightarrow> uint \<Rightarrow> nat \<Rightarrow> uint \<Rightarrow> uint \<Rightarrow> uint \<Rightarrow> uint option" where
  "map_range f a n pa perm va =
     (if unat (va - a) < 4096 * n then Some ((pa + (PTE_ADDR va - a)) OR perm OR PTE_P) else f va)"

lemma present_pte: "present (x OR perm OR PTE_P)"
proof -
  have "(x OR perm OR 1) AND 1 = 1" by (rule bit_word_eqI) (auto simp: bit_simps)
  then show ?thesis by (simp add: present_def PTE_P_def)
qed

lemma map_page:
  assumes inv: "vm_inv s pgdir ps" and lk: "KmemLock \<notin> set (held s)" and free: "mmu_pte (mem s) pgdir a = None"
    and al: "page_aligned a"
    and M_def: "M = kbind (walkpgdir pgdir a True) (\<lambda>pte.
     if pte = 0 then kret (- 1)
     else
       kbind (kget (\<lambda>s. load32 (mem s) pte)) (\<lambda>e.
       if e AND PTE_P \<noteq> 0 then kpanic ''remap''
       else
         kseq (kmod (\<lambda>s. s\<lparr>mem := store32 (mem s) pte (pa OR perm OR PTE_P)\<rparr>)) k))"
  obtains (no_mem) t where "M s = Ok (- 1) t" "vm_step pgdir s ps t []" "mmu_pte (mem t) pgdir = mmu_pte (mem s) pgdir"
  | (mapped) t ps' where "M s = k t" "vm_step pgdir s ps t ps'"
      "mmu_pte (mem t) pgdir = map_range (mmu_pte (mem s) pgdir) a 1 pa perm"
proof -
  obtain r t ps' where w: "walkpgdir pgdir a True s = Ok r t" "vm_step pgdir s ps t ps'"
    "mmu_pte (mem t) pgdir = mmu_pte (mem s) pgdir" "r = 0 \<Longrightarrow> ps' = []"
    "r \<noteq> 0 \<Longrightarrow> present (pde (mem t) pgdir (PDX a)) \<and> r = ptab (mem t) pgdir (PDX a) + 4 * PTX a"
    using walkpgdir_alloc [OF inv lk] by metis
  show ?thesis
  proof (cases "r = 0")
    case True
    then show ?thesis using w by (intro no_mem [of t]) (simp_all add: M_def krun)
  next
    case False
    note r = w(5) [OF False]
    let ?u = "t\<lparr>mem := store32 (mem t) r (pa OR perm OR PTE_P)\<rparr>"
    have np: "\<not> present (load32 (mem t) r)"
      using free r unfolding w(3) [symmetric] by (auto simp: mmu_pte_eq Let_def split: if_splits)
    have "vm_inv t pgdir ps'" using w(2) by (simp add: vm_step_def)
    note st = vm_store_pte [OF this, of a ?u "pa OR perm OR PTE_P"]
    have in_a: "unat (va - a) < 4096 \<longleftrightarrow> PTE_ADDR va = a" for va
      using in_page_iff [OF al, of va] by (simp add: in_page_def word_less_nat_alt)
    have "mmu_pte (mem ?u) pgdir = map_range (mmu_pte (mem s) pgdir) a 1 pa perm"
      using st(2) r w(3) al by (auto simp: map_range_def in_a present_pte PTE_ADDR_id fun_eq_iff)
    moreover have "M s = k ?u" using w(1) False np by (simp add: M_def krun present_def)
    ultimately show ?thesis using st(1) r vm_step_trans [OF w(2)] by (intro mapped [of ?u ps']) simp_all
  qed
qed

lemma map_range_0 [simp]: "map_range f a 0 pa perm = f"
  by (simp add: map_range_def fun_eq_iff)

lemma unat_minus_next: "unat (va - (a + PGSIZE)) = (if 4096 \<le> unat (va - a) then unat (va - a) - 4096 else unat (va - a) + 4294963200)"
  using unat_sub_uint [of "va - a" PGSIZE] by (simp add: diff_diff_eq)

lemma map_range_Suc:
  assumes "unat a + 4096 * Suc n \<le> 4294967296"
  shows "map_range (map_range f a 1 pa perm) (a + PGSIZE) n (pa + PGSIZE) perm = map_range f a (Suc n) pa perm"
proof
  fix va
  have "pa + PGSIZE + (PTE_ADDR va - (a + PGSIZE)) = pa + (PTE_ADDR va - a)" by simp
  then show "map_range (map_range f a 1 pa perm) (a + PGSIZE) n (pa + PGSIZE) perm va = map_range f a (Suc n) pa perm va"
    using assms by (auto simp: map_range_def unat_minus_next)
qed

text \<open>A directory without entries for a range.\<close>

definition unmapped :: "memory \<Rightarrow> uint \<Rightarrow> uint \<Rightarrow> nat \<Rightarrow> bool" where
  "unmapped m pgdir a n \<longleftrightarrow> (\<forall>va. unat (va - a) < 4096 * n \<longrightarrow> mmu_pte m pgdir va = None)"

lemma vm_step_inv: "vm_step pgdir s ps t ps' \<Longrightarrow> vm_inv t pgdir ps' \<and> held t = held s \<and> syms t = syms s \<and> use_lock t = use_lock s"
  by (auto simp: vm_step_def)

lemma aligned_next_page: "page_aligned a \<Longrightarrow> page_aligned (a + PGSIZE)"
proof -
  assume al: "page_aligned a"
  show ?thesis
  proof (cases "unat a + 4096 < 4294967296")
    case True
    then show ?thesis using al unat_add_lt [of a PGSIZE] by (simp add: page_aligned_unat)
  next
    case False
    then have "unat a = 4294963200" using page_aligned_bound [OF al] by simp
    then have "a = 4294963200" by (simp add: word_unat_eq_iff)
    then show ?thesis by (simp add: page_aligned_def PGSIZE_def)
  qed
qed

lemma unmapped_next:
  assumes "unmapped m pgdir a (Suc (Suc n))" "mmu_pte m' pgdir = map_range (mmu_pte m pgdir) a 1 pa perm"
    "unat a + 4096 * Suc (Suc n) \<le> 4294967296"
  shows "unmapped m' pgdir (a + PGSIZE) (Suc n)"
  using assms by (auto simp: unmapped_def map_range_def unat_minus_next split: if_splits)

text \<open>Mapping \<open>n\<close> pages: all of them, or fewer when the free pages run out.\<close>

definition maps :: "(int, 'z kmem_scheme) M \<Rightarrow> uint \<Rightarrow> uint \<Rightarrow> nat \<Rightarrow> uint \<Rightarrow> uint \<Rightarrow> 'z kmem_scheme \<Rightarrow> uint list \<Rightarrow> bool" where
  "maps M pgdir a n pa perm s ps \<longleftrightarrow> (\<exists>r t qs k. M s = Ok r t \<and> vm_step pgdir s ps t qs
     \<and> mmu_pte (mem t) pgdir = map_range (mmu_pte (mem s) pgdir) a k pa perm
     \<and> (r = 0 \<and> k = n \<or> r = - 1 \<and> k < n \<and> qs = []))"

lemma maps_Suc:
  assumes M: "M s = k t" and t: "vm_step pgdir s ps t qs" "mmu_pte (mem t) pgdir = map_range (mmu_pte (mem s) pgdir) a 1 pa perm"
    and k: "maps k pgdir (a + PGSIZE) n (pa + PGSIZE) perm t qs" and n: "unat a + 4096 * Suc n \<le> 4294967296"
  shows "maps M pgdir a (Suc n) pa perm s ps"
proof -
  obtain r u rs i where u: "k t = Ok r u" "vm_step pgdir t qs u rs"
    "mmu_pte (mem u) pgdir = map_range (mmu_pte (mem t) pgdir) (a + PGSIZE) i (pa + PGSIZE) perm"
    "r = 0 \<and> i = n \<or> r = - 1 \<and> i < n \<and> rs = []"
    using k by (auto simp: maps_def)
  then have "mmu_pte (mem u) pgdir = map_range (mmu_pte (mem s) pgdir) a (Suc i) pa perm"
    using map_range_Suc [of a i] n t(2) by auto
  then show ?thesis
    unfolding maps_def M u(1) using vm_step_trans [OF t(1) u(2)] u(4) by (intro exI [of _ r] exI [of _ u] exI [of _ rs] exI [of _ "Suc i"]) auto
qed

lemma mappages_loop_ok:
  "vm_inv s pgdir ps \<Longrightarrow> KmemLock \<notin> set (held s) \<Longrightarrow> page_aligned a \<Longrightarrow> unat a + 4096 * Suc n \<le> 4294967296
    \<Longrightarrow> unmapped (mem s) pgdir a (Suc n) \<Longrightarrow> maps (mappages_loop n pgdir a pa perm) pgdir a (Suc n) pa perm s ps"
proof (induction n arbitrary: s ps a pa)
  case (0 s ps a pa)
  have free: "mmu_pte (mem s) pgdir a = None" using "0.prems"(5) by (simp add: unmapped_def)
  show ?case
  proof (rule map_page [OF "0.prems"(1,2) free "0.prems"(3) mappages_loop.simps(1)])
    fix t assume "mappages_loop 0 pgdir a pa perm s = Ok (- 1) t" "vm_step pgdir s ps t []"
      "mmu_pte (mem t) pgdir = mmu_pte (mem s) pgdir"
    then show ?thesis unfolding maps_def by (intro exI [of _ "- 1"] exI [of _ t] exI [of _ "[]"] exI [of _ 0]) simp
  next
    fix t qs assume "mappages_loop 0 pgdir a pa perm s = kret 0 t" "vm_step pgdir s ps t qs"
      "mmu_pte (mem t) pgdir = map_range (mmu_pte (mem s) pgdir) a 1 pa perm"
    then show ?thesis unfolding maps_def by (intro exI [of _ 0] exI [of _ t] exI [of _ qs] exI [of _ 1]) (simp add: krun)
  qed
next
  case (Suc n s ps a pa)
  have free: "mmu_pte (mem s) pgdir a = None" using Suc.prems(5) by (simp add: unmapped_def)
  show ?case
  proof (rule map_page [OF Suc.prems(1,2) free Suc.prems(3) mappages_loop.simps(2)])
    fix t assume "mappages_loop (Suc n) pgdir a pa perm s = Ok (- 1) t" "vm_step pgdir s ps t []"
      "mmu_pte (mem t) pgdir = mmu_pte (mem s) pgdir"
    then show ?thesis unfolding maps_def by (intro exI [of _ "- 1"] exI [of _ t] exI [of _ "[]"] exI [of _ 0]) simp
  next
    fix t qs assume t: "mappages_loop (Suc n) pgdir a pa perm s = mappages_loop n pgdir (a + PGSIZE) (pa + PGSIZE) perm t"
      "vm_step pgdir s ps t qs" "mmu_pte (mem t) pgdir = map_range (mmu_pte (mem s) pgdir) a 1 pa perm"
    note inv = vm_step_inv [OF t(2)]
    have "unat (a + PGSIZE) = unat a + 4096" using Suc.prems(4) unat_add_lt [of a PGSIZE] by simp
    moreover have "unmapped (mem t) pgdir (a + PGSIZE) (Suc n)" by (rule unmapped_next [OF Suc.prems(5) t(3) Suc.prems(4)])
    ultimately have "maps (mappages_loop n pgdir (a + PGSIZE) (pa + PGSIZE) perm) pgdir (a + PGSIZE) (Suc n) (pa + PGSIZE) perm t qs"
      using inv Suc.prems(2,3,4) by (intro Suc.IH aligned_next_page) simp_all
    with t show ?thesis
      by (rule maps_Suc [where k = "mappages_loop n pgdir (a + PGSIZE) (pa + PGSIZE) perm"]) (rule Suc.prems(4))
  qed
qed

lemma unat_PTE_ADDR: "unat (PTE_ADDR x) = 4096 * (unat x div 4096)"
proof -
  have "unat (x - PTE_ADDR x) < 4096" using in_own_page [of x] by (simp add: in_page_def word_less_nat_alt)
  then have "unat x div 4096 = unat (PTE_ADDR x) div 4096"
    using in_page_div [OF PTE_ADDR_aligned in_own_page, of x] by simp
  then show ?thesis using PTE_ADDR_aligned [of x] by (simp add: page_aligned_unat mod_eq_0_iff_dvd)
qed

text \<open>The number of pages that the bytes from \<open>va\<close> on lie in.\<close>

definition npages :: "uint \<Rightarrow> uint \<Rightarrow> nat" where
  "npages va sz = Suc ((unat va + unat sz - 1) div 4096 - unat va div 4096)"

lemma mappages_ok:
  assumes "vm_inv s pgdir ps" "KmemLock \<notin> set (held s)" "sz \<noteq> 0" "unat va + unat sz \<le> 4294967296"
    and "unmapped (mem s) pgdir (PTE_ADDR va) (npages va sz)"
  shows "maps (mappages pgdir va sz pa perm) pgdir (PTE_ADDR va) (npages va sz) pa perm s ps"
proof -
  let ?l = "va + sz - 1"
  have sz: "0 < unat sz" using assms(3) by (simp add: unat_gt_0)
  have "unat (va + (sz - 1)) = unat va + unat sz - 1"
    using unat_minus_one [OF assms(3)] sz assms(4) unat_add_lt [of va "sz - 1"] by simp
  then have l: "unat ?l = unat va + unat sz - 1" by (simp only: add_diff_eq)
  have le: "unat va div 4096 \<le> unat ?l div 4096" using l sz by (simp add: div_le_mono)
  then have "unat (PTE_ADDR ?l - PTE_ADDR va) = 4096 * (unat ?l div 4096 - unat va div 4096)"
    by (simp add: unat_sub_uint unat_PTE_ADDR diff_mult_distrib2)
  then have n: "unat ((PTE_ADDR ?l - PTE_ADDR va) div PGSIZE) = unat ?l div 4096 - unat va div 4096"
    by (simp add: unat_div_distrib)
  have "4096 * Suc (unat ?l div 4096) \<le> 4294967296" using unat_less_32 [of ?l] by simp
  then have "unat (PTE_ADDR va) + 4096 * npages va sz \<le> 4294967296"
    using le l by (simp add: unat_PTE_ADDR npages_def diff_mult_distrib2)
  then show ?thesis
    using mappages_loop_ok [OF assms(1,2) PTE_ADDR_aligned] assms(5) l n
    by (simp add: mappages_def Let_def PGROUNDDOWN_PTE_ADDR npages_def)
qed

section \<open>Free pages are enough\<close>

text \<open>A directory has at most 1024 tables, so that mapping succeeds when that many pages are at hand.\<close>

lemma card_index: "finite {i :: uint. unat i < n}" "card {i :: uint. unat i < n} \<le> n"
proof -
  have sub: "{i :: uint. unat i < n} \<subseteq> of_nat ` {..< n}"
  proof
    fix i :: uint
    assume "i \<in> {i. unat i < n}"
    then show "i \<in> of_nat ` {..< n}" by (intro image_eqI [of _ _ "unat i"]) simp_all
  qed
  have fin: "finite (of_nat ` {..< n} :: uint set)" by simp
  show "finite {i :: uint. unat i < n}" by (rule finite_subset [OF sub fin])
  have "card {i :: uint. unat i < n} \<le> card (of_nat ` {..< n} :: uint set)" by (rule card_mono [OF fin sub])
  also have "\<dots> \<le> n" by (rule order_trans [OF card_image_le]) simp_all
  finally show "card {i :: uint. unat i < n} \<le> n" .
qed

lemma own_finite: "finite (own m pgdir)" and own_card: "card (own m pgdir) \<le> 1025"
proof -
  let ?I = "{i :: uint. unat i < 1024}"
  note I = card_index [of 1024]
  let ?J = "insert pgdir (ptab m pgdir ` ?I)"
  have sub: "own m pgdir \<subseteq> ?J" by (auto simp: own_def)
  have J: "finite ?J" "card ?J \<le> 1025"
    using I card_image_le [OF I(1), of "ptab m pgdir"] by (simp_all add: card_insert_if)
  show "finite (own m pgdir)" using sub J(1) by (rule finite_subset)
  show "card (own m pgdir) \<le> 1025" using card_mono [OF J(1) sub] J(2) by simp
qed

definition budget :: "'z kmem_scheme \<Rightarrow> uint \<Rightarrow> uint list \<Rightarrow> nat" where
  "budget s pgdir ps = card (own (mem s) pgdir) + length ps"

lemma budget_eq: "vm_inv s pgdir ps \<Longrightarrow> budget s pgdir ps = card (own (mem s) pgdir \<union> set ps)"
  using own_finite [of "mem s" pgdir]
  by (simp add: budget_def card_Un_disjoint vm_inv_def kmem_inv_def distinct_card)

lemma vm_step_budget: "vm_inv s pgdir ps \<Longrightarrow> vm_step pgdir s ps t qs \<Longrightarrow> budget t pgdir qs = budget s pgdir ps"
  by (simp add: budget_eq vm_step_def)

lemma maps_all:
  assumes "maps M pgdir a n pa perm s ps" "vm_inv s pgdir ps" "budget s pgdir ps > 1025"
  obtains t qs where "M s = Ok 0 t" "vm_step pgdir s ps t qs" "mmu_pte (mem t) pgdir = map_range (mmu_pte (mem s) pgdir) a n pa perm"
proof -
  obtain r t qs k where t: "M s = Ok r t" "vm_step pgdir s ps t qs"
    "mmu_pte (mem t) pgdir = map_range (mmu_pte (mem s) pgdir) a k pa perm" "r = 0 \<and> k = n \<or> r = - 1 \<and> k < n \<and> qs = []"
    using assms(1) by (auto simp: maps_def)
  have "qs \<noteq> []"
    using vm_step_budget [OF assms(2) t(2)] assms(3) own_card [of "mem t" pgdir] by (auto simp: budget_def)
  then show ?thesis using t that by auto
qed

section \<open>A fresh page\<close>

text \<open>Taking a free page and filling it changes no directory.\<close>

lemma vm_fresh:
  assumes inv: "vm_inv s pgdir (p # ps)" and out: "\<And>a. \<not> in_page p a \<Longrightarrow> m a = mem s a"
    and t_def: "t = s\<lparr>freelist := load32 (mem s) p, mem := m\<rparr>"
  shows "vm_inv t pgdir ps" "mmu_pte m pgdir = mmu_pte (mem s) pgdir" "own m pgdir = own (mem s) pgdir"
    "budget t pgdir ps + 1 = budget s pgdir (p # ps)"
proof -
  have ok: "dir_ok (sym_end (syms s)) (mem s) pgdir" and km: "kmem_inv s (p # ps)"
    and p: "page_aligned p" "p \<notin> own (mem s) pgdir" "p \<notin> set ps"
    using inv by (auto simp: vm_inv_def kmem_inv_def page_ok_def)
  have eq: "m a = mem s a" if "q \<in> own (mem s) pgdir \<union> set ps" "in_page q a" for q a
  proof (rule out)
    have "page_aligned q" using that(1) dir_okD(4) [OF ok] km by (auto simp: kmem_inv_def page_ok_def)
    then show "\<not> in_page p a" using that p in_page_other [of p q a] by auto
  qed
  have d: "mmu_pte m pgdir = mmu_pte (mem s) pgdir" "own m pgdir = own (mem s) pgdir"
    and d3: "dir_ok (sym_end (syms s)) m pgdir"
    using dir_cong [OF ok, of m] eq by blast+
  have "kmem_inv ((s\<lparr>freelist := load32 (mem s) p\<rparr>)\<lparr>mem := m\<rparr>) ps"
    by (rule kmem_inv_mem) (use km eq in \<open>auto simp: kmem_inv_def\<close>)
  then show "vm_inv t pgdir ps"
    using inv d(2) d3 by (simp add: vm_inv_def t_def)
  show "mmu_pte m pgdir = mmu_pte (mem s) pgdir" "own m pgdir = own (mem s) pgdir" by (rule d)+
  show "budget t pgdir ps + 1 = budget s pgdir (p # ps)" using d by (simp add: budget_def t_def)
qed

section \<open>The kernel part of a page table\<close>

lemma vm_new_dir:
  assumes km: "kmem_inv s (p # ps)" and t_def: "t = s\<lparr>freelist := load32 (mem s) p, mem := memset (mem s) p 0 PGSIZE\<rparr>"
  shows "vm_inv t p ps" "mmu_pte (mem t) p = (\<lambda>_. None)" "own (mem t) p = {p}"
proof -
  have p: "page_ok (sym_end (syms s)) p" "page_aligned p" "p \<notin> set ps" using km by (auto simp: kmem_inv_def page_ok_def)
  have m: "mem t a = (if in_page p a then 0 else mem s a)" for a by (simp add: t_def memset_apply in_page_def)
  have z: "\<not> present (pde (mem t) p i)" if "unat i < 1024" for i
    using load32_zero [OF p(2) that, of "mem t"] m by (simp add: pde_def present_def)
  then show own: "own (mem t) p = {p}" by (auto simp: own_def)
  show "mmu_pte (mem t) p = (\<lambda>_. None)" using z PDX_less by (simp add: mmu_pte_eq fun_eq_iff)
  have "dir_ok (sym_end (syms s)) (mem t) p" using z p(1) unfolding dir_ok_def own by blast
  moreover have "kmem_inv ((s\<lparr>freelist := load32 (mem s) p\<rparr>)\<lparr>mem := mem t\<rparr>) ps"
  proof (rule kmem_inv_mem)
    fix x a assume "x \<in> set ps" "in_page x a"
    then have "\<not> in_page p a" using p km in_page_other [of p x a] by (auto simp: kmem_inv_def page_ok_def)
    then show "mem t a = mem (s\<lparr>freelist := load32 (mem s) p\<rparr>) a" by (simp add: m)
  qed (use km in \<open>auto simp: kmem_inv_def\<close>)
  ultimately show "vm_inv t p ps" using own p(3) by (simp add: vm_inv_def t_def)
qed

abbreviation km_size :: "kmap_entry \<Rightarrow> uint" where
  "km_size k \<equiv> km_phys_end k - km_phys_start k"

definition km_ok :: "kmap_entry \<Rightarrow> bool" where
  "km_ok k \<longleftrightarrow> page_aligned (km_virt k) \<and> page_aligned (km_size k) \<and> km_size k \<noteq> 0 \<and> unat (km_virt k) + unat (km_size k) \<le> 4294967296"

definition km_covers :: "kmap_entry \<Rightarrow> uint \<Rightarrow> bool" where
  "km_covers k va \<longleftrightarrow> unat (km_virt k) \<le> unat va \<and> unat va < unat (km_virt k) + unat (km_size k)"

definition km_map :: "(uint \<Rightarrow> uint option) \<Rightarrow> kmap_entry \<Rightarrow> uint \<Rightarrow> uint option" where
  "km_map f k va = (if km_covers k va then Some ((km_phys_start k + (PTE_ADDR va - km_virt k)) OR km_perm k OR PTE_P) else f va)"

lemma npages_aligned:
  assumes "page_aligned va" "page_aligned sz" "sz \<noteq> 0"
  shows "4096 * npages va sz = unat sz"
proof -
  obtain a b where ab: "unat va = 4096 * a" "unat sz = 4096 * b"
    using assms(1,2) by (auto simp: page_aligned_unat mod_eq_0_iff_dvd dvd_def)
  moreover have "0 < b" using ab assms(3) by (cases b) (auto simp: unat_eq_0)
  then obtain c where "b = Suc c" by (cases b) auto
  moreover have "(4096 * a + 4096 * Suc c - 1) div 4096 = a + c" by simp
  ultimately show ?thesis by (simp add: npages_def)
qed

lemma km_range:
  assumes "km_ok k"
  shows "unat (va - km_virt k) < 4096 * npages (km_virt k) (km_size k) \<longleftrightarrow> km_covers k va"
  using assms npages_aligned [of "km_virt k" "km_size k"] unat_less_32 [of va]
  by (auto simp: km_ok_def km_covers_def unat_sub_uint)

lemma setupkvm_loop_ok:
  "vm_inv s d ps \<Longrightarrow> KmemLock \<notin> set (held s) \<Longrightarrow> budget s d ps > 1025 \<Longrightarrow> (\<And>k. k \<in> set ks \<Longrightarrow> km_ok k) \<Longrightarrow>
   sorted_wrt (\<lambda>k k'. \<forall>va. \<not> (km_covers k va \<and> km_covers k' va)) ks \<Longrightarrow>
   (\<And>k va. k \<in> set ks \<Longrightarrow> km_covers k va \<Longrightarrow> mmu_pte (mem s) d va = None) \<Longrightarrow>
   \<exists>t qs. setupkvm_loop ks d s = Ok d t \<and> vm_step d s ps t qs \<and> mmu_pte (mem t) d = foldl km_map (mmu_pte (mem s) d) ks"
proof (induction ks arbitrary: s ps)
  case Nil
  then show ?case using vm_step_refl [of s d ps] by (auto simp: krun)
next
  case (Cons k ks)
  have k: "km_ok k" by (rule Cons.prems(4)) simp
  then have v: "PTE_ADDR (km_virt k) = km_virt k" by (simp add: km_ok_def PTE_ADDR_id)
  have "unmapped (mem s) d (km_virt k) (npages (km_virt k) (km_size k))"
    using Cons.prems(6) [of k] by (simp add: unmapped_def km_range [OF k])
  then have "maps (mappages d (km_virt k) (km_size k) (km_phys_start k) (km_perm k)) d (km_virt k)
      (npages (km_virt k) (km_size k)) (km_phys_start k) (km_perm k) s ps"
    using mappages_ok [OF Cons.prems(1,2), of "km_size k" "km_virt k"] k by (simp add: v km_ok_def)
  then obtain t qs where t: "mappages d (km_virt k) (km_size k) (km_phys_start k) (km_perm k) s = Ok 0 t" "vm_step d s ps t qs"
    "mmu_pte (mem t) d = map_range (mmu_pte (mem s) d) (km_virt k) (npages (km_virt k) (km_size k)) (km_phys_start k) (km_perm k)"
    using maps_all Cons.prems(1,3) by blast
  have m: "mmu_pte (mem t) d = km_map (mmu_pte (mem s) d) k"
    using t(3) by (simp add: map_range_def km_map_def km_range [OF k] fun_eq_iff)
  note inv = vm_step_inv [OF t(2)]
  have "\<exists>u rs. setupkvm_loop ks d t = Ok d u \<and> vm_step d t qs u rs \<and> mmu_pte (mem u) d = foldl km_map (mmu_pte (mem t) d) ks"
  proof (rule Cons.IH)
    show "mmu_pte (mem t) d va = None" if "k' \<in> set ks" "km_covers k' va" for k' va
      using that Cons.prems(5) Cons.prems(6) [of k' va] by (auto simp: m km_map_def)
  qed (use inv Cons.prems vm_step_budget [OF Cons.prems(1) t(2)] in auto)
  then show ?case using t(1,2) m vm_step_trans [OF t(2)] by (auto simp: krun)
qed

text \<open>The entries that every page table has for the kernel; the kernel text up to \<open>data\<close> is read-only.\<close>

definition kernel_pte :: "uint \<Rightarrow> uint \<Rightarrow> uint option" where
  "kernel_pte data va =
     (if va < KERNBASE then None
      else if V2P va < PHYSTOP then
        Some (V2P (PTE_ADDR va) OR (if KERNLINK \<le> va \<and> va < data then 0 else PTE_W) OR PTE_P)
      else if va < DEVSPACE then None
      else Some (PTE_ADDR va OR PTE_W OR PTE_P))"

lemma layout_unat: "unat KERNBASE = 0x80000000" "unat KERNLINK = 0x80100000" "unat DEVSPACE = 0xFE000000"
  "unat (- DEVSPACE) = 0x2000000" "unat EXTMEM = 0x100000"
  by (simp_all add: KERNLINK_def KERNBASE_def EXTMEM_def DEVSPACE_def)

lemma kdata_unat:
  assumes "KERNLINK < data" "V2P data < PHYSTOP"
  shows "0x80100000 < unat data" "unat data < 0x8E000000"
    "unat (V2P data - V2P KERNLINK) = unat data - 0x80100000" "unat (PHYSTOP - V2P data) = 0x8E000000 - unat data"
proof -
  show d: "0x80100000 < unat data" using assms(1) layout_unat(2) by (simp add: word_less_nat_alt)
  then have v: "unat (V2P data) = unat data - 0x80000000" by (simp add: V2P_def KERNBASE_def unat_sub_uint)
  have ps: "unat PHYSTOP = 0xE000000" by (simp add: PHYSTOP_def)
  then show "unat data < 0x8E000000" using assms(2) v by (simp add: word_less_nat_alt)
  then show "unat (PHYSTOP - V2P data) = 0x8E000000 - unat data" using d v ps by (simp add: unat_sub_uint)
  have "V2P data - V2P KERNLINK = data - KERNLINK" by (simp add: V2P_def)
  then show "unat (V2P data - V2P KERNLINK) = unat data - 0x80100000" using d layout_unat(2) by (simp add: unat_sub_uint)
qed

lemma kmap_covers:
  assumes "KERNLINK < data" "V2P data < PHYSTOP"
  shows "map (\<lambda>k. km_covers k va) (kmap data) =
    [0x80000000 \<le> unat va \<and> unat va < 0x80100000, 0x80100000 \<le> unat va \<and> unat va < unat data,
     unat data \<le> unat va \<and> unat va < 0x8E000000, 0xFE000000 \<le> unat va]"
  using kdata_unat [OF assms] unat_less_32 [of va] by (simp add: kmap_def km_covers_def layout_unat)

lemma kmap_ok:
  assumes "page_aligned data" "KERNLINK < data" "V2P data < PHYSTOP" "k \<in> set (kmap data)"
  shows "km_ok k"
proof -
  note d = kdata_unat [OF assms(2,3)]
  obtain n where n: "unat data = 4096 * n" using assms(1) by (auto simp: page_aligned_unat mod_eq_0_iff_dvd dvd_def)
  have "unat data - 0x80100000 = 4096 * (n - 524544)" "0x8E000000 - unat data = 4096 * (581632 - n)" by (simp_all add: n)
  then have "unat (V2P data - V2P KERNLINK) mod 4096 = 0" "unat (PHYSTOP - V2P data) mod 4096 = 0" unfolding d(3,4) by simp_all
  moreover have "V2P data - V2P KERNLINK \<noteq> 0" "PHYSTOP - V2P data \<noteq> 0"
    using d by (simp_all add: unat_eq_0 [symmetric])
  moreover have "- DEVSPACE \<noteq> 0" "EXTMEM \<noteq> 0" by (simp_all add: DEVSPACE_def EXTMEM_def)
  ultimately show ?thesis
    using assms(1,4) d by (auto simp: kmap_def km_ok_def page_aligned_unat layout_unat)
qed

lemma kmap_disjoint:
  assumes "KERNLINK < data" "V2P data < PHYSTOP"
  shows "sorted_wrt (\<lambda>k k'. \<forall>va. \<not> (km_covers k va \<and> km_covers k' va)) (kmap data)"
  using kmap_covers [OF assms] kdata_unat(1,2) [OF assms] unfolding kmap_def by auto

lemma kmap_kernel_pte:
  assumes "KERNLINK < data" "V2P data < PHYSTOP"
  shows "foldl km_map (\<lambda>_. None) (kmap data) = kernel_pte data"
proof
  fix va
  note d = kdata_unat(1,2) [OF assms]
  have c: "va < KERNBASE \<longleftrightarrow> unat va < 0x80000000" "va < DEVSPACE \<longleftrightarrow> unat va < 0xFE000000"
    "KERNLINK \<le> va \<longleftrightarrow> 0x80100000 \<le> unat va" "va < data \<longleftrightarrow> unat va < unat data"
    by (simp_all add: layout_unat word_less_nat_alt word_le_nat_alt)
  have p: "V2P va < PHYSTOP \<longleftrightarrow> unat va < 0x8E000000" if "0x80000000 \<le> unat va"
  proof -
    have "unat (V2P va) = unat va - 0x80000000" using that by (simp add: V2P_def KERNBASE_def unat_sub_uint)
    moreover have "unat PHYSTOP = 0xE000000" by (simp add: PHYSTOP_def)
    ultimately show ?thesis using that by (simp add: word_less_nat_alt) arith
  qed
  have e: "PTE_ADDR va - KERNBASE = V2P (PTE_ADDR va)" "V2P KERNLINK + (PTE_ADDR va - KERNLINK) = V2P (PTE_ADDR va)"
    "V2P data + (PTE_ADDR va - data) = V2P (PTE_ADDR va)" "DEVSPACE + (PTE_ADDR va - DEVSPACE) = PTE_ADDR va"
    by (simp_all add: V2P_def)
  have k: "kmap data = [\<lparr>km_virt = KERNBASE, km_phys_start = 0, km_phys_end = EXTMEM, km_perm = PTE_W\<rparr>,
      \<lparr>km_virt = KERNLINK, km_phys_start = V2P KERNLINK, km_phys_end = V2P data, km_perm = 0\<rparr>,
      \<lparr>km_virt = data, km_phys_start = V2P data, km_phys_end = PHYSTOP, km_perm = PTE_W\<rparr>,
      \<lparr>km_virt = DEVSPACE, km_phys_start = DEVSPACE, km_phys_end = 0, km_perm = PTE_W\<rparr>]" by (simp add: kmap_def)
  note cov = kmap_covers [OF assms, of va, unfolded k list.map list.inject]
  consider "unat va < 0x80000000" | "0x80000000 \<le> unat va" "unat va < 0x80100000"
    | "0x80100000 \<le> unat va" "unat va < unat data" | "unat data \<le> unat va" "unat va < 0x8E000000"
    | "0x8E000000 \<le> unat va" "unat va < 0xFE000000" | "0xFE000000 \<le> unat va" by linarith
  then show "foldl km_map (\<lambda>_. None) (kmap data) va = kernel_pte data va"
    by cases (use d cov p in \<open>simp_all add: k km_map_def kernel_pte_def c e\<close>)
qed

lemma setupkvm_ok:
  assumes km: "kmem_inv s ps" and lk: "KmemLock \<notin> set (held s)" and len: "length ps > 1025"
    and data: "page_aligned (sym_data (syms s))" "KERNLINK < sym_data (syms s)" "V2P (sym_data (syms s)) < PHYSTOP"
  obtains d t qs where "setupkvm s = Ok d t" "\<exists>m f. t = s\<lparr>mem := m, freelist := f\<rparr>" "vm_inv t d qs"
    "own (mem t) d \<union> set qs = set ps" "mmu_pte (mem t) d = kernel_pte (sym_data (syms s))"
    "\<And>a. \<forall>p \<in> set ps. \<not> in_page p a \<Longrightarrow> mem t a = mem s a"
proof -
  obtain d rs where ps: "ps = d # rs" using len by (cases ps) auto
  define t where "t = s\<lparr>freelist := load32 (mem s) d, mem := memset (mem s) d 0 PGSIZE\<rparr>"
  note new = vm_new_dir [OF km [unfolded ps] t_def]
  have d0: "d \<noteq> 0" using km ps page_ok_nonzero by (auto simp: kmem_inv_def)
  have "budget t d rs > 1025" using len new(3) by (simp add: budget_def ps)
  moreover have "KmemLock \<notin> set (held t)" "syms t = syms s" using lk by (simp_all add: t_def)
  ultimately obtain u qs where u: "setupkvm_loop (kmap (sym_data (syms s))) d t = Ok d u" "vm_step d t rs u qs"
    "mmu_pte (mem u) d = foldl km_map (mmu_pte (mem t) d) (kmap (sym_data (syms s)))"
    using setupkvm_loop_ok [OF new(1), of "kmap (sym_data (syms s))"] kmap_ok [OF data] kmap_disjoint [OF data(2,3)] new(2) by auto
  have "\<not> P2V PHYSTOP > DEVSPACE" by (simp add: P2V_def PHYSTOP_def DEVSPACE_def KERNBASE_def)
  then have "setupkvm s = Ok d u"
    using u(1) d0 kalloc_Cons(1) [OF km [unfolded ps] lk] by (simp add: setupkvm_def krun t_def)
  moreover have "\<exists>m f. u = s\<lparr>mem := m, freelist := f\<rparr>" "vm_inv u d qs" "own (mem u) d \<union> set qs = set ps"
    using u(2) new(3) by (auto simp: vm_step_def t_def ps)
  moreover have "mmu_pte (mem u) d = kernel_pte (sym_data (syms s))" using u(3) new(2) kmap_kernel_pte [OF data(2,3)] by simp
  moreover have "mem u a = mem s a" if "\<forall>p \<in> set ps. \<not> in_page p a" for a
  proof -
    have "mem u a = mem t a" using that u(2) new(3) by (auto simp: vm_step_def ps)
    then show ?thesis using that by (simp add: t_def memset_apply in_page_def ps)
  qed
  ultimately show ?thesis using that by blast
qed

section \<open>Copying the memory of a process\<close>

text \<open>As \<^const>\<open>vm_step\<close>, but pages may also leave: for user data.\<close>

abbreviation pool :: "'z kmem_scheme \<Rightarrow> uint \<Rightarrow> uint list \<Rightarrow> uint set" where
  "pool s d ps \<equiv> own (mem s) d \<union> set ps"

definition vm_run :: "uint \<Rightarrow> 'z kmem_scheme \<Rightarrow> uint list \<Rightarrow> 'z kmem_scheme \<Rightarrow> uint list \<Rightarrow> bool" where
  "vm_run d s ps t qs \<longleftrightarrow> (\<exists>m f. t = s\<lparr>mem := m, freelist := f\<rparr>) \<and> vm_inv t d qs \<and> pool t d qs \<subseteq> pool s d ps
     \<and> (\<forall>a. (\<forall>p \<in> pool s d ps. \<not> in_page p a) \<longrightarrow> mem t a = mem s a)"

lemma vm_run_trans:
  assumes "vm_run d s ps t qs" "vm_run d t qs u rs"
  shows "vm_run d s ps u rs"
proof -
  obtain m f where "t = s\<lparr>mem := m, freelist := f\<rparr>" using assms(1) by (auto simp: vm_run_def)
  moreover obtain m' f' where "u = t\<lparr>mem := m', freelist := f'\<rparr>" using assms(2) by (auto simp: vm_run_def)
  ultimately have "\<exists>m f. u = s\<lparr>mem := m, freelist := f\<rparr>" by auto
  moreover have "pool u d rs \<subseteq> pool s d ps" using assms unfolding vm_run_def by blast
  moreover have "mem u a = mem s a" if "\<forall>p \<in> pool s d ps. \<not> in_page p a" for a
    using assms that unfolding vm_run_def by (metis subsetD)
  ultimately show ?thesis using assms(2) unfolding vm_run_def by blast
qed

lemma vm_step_run: "vm_step d s ps t qs \<Longrightarrow> vm_run d s ps t qs"
  unfolding vm_step_def vm_run_def by blast

lemma vm_fresh_run:
  assumes "vm_inv s d (p # ps)" "\<And>a. \<not> in_page p a \<Longrightarrow> m a = mem s a" "t = s\<lparr>freelist := load32 (mem s) p, mem := m\<rparr>"
  shows "vm_run d s (p # ps) t ps" "p \<notin> pool t d ps"
proof -
  note f = vm_fresh [OF assms]
  have "t = s\<lparr>mem := m, freelist := load32 (mem s) p\<rparr>" using assms(3) by simp
  then show "vm_run d s (p # ps) t ps" using f assms(2) unfolding vm_run_def by auto
  show "p \<notin> pool t d ps" using f(3) assms(1,3) by (auto simp: vm_inv_def kmem_inv_def)
qed

text \<open>
  Filling a range of pages: page \<open>i\<close>, \<open>i\<close> + 4096, ... up to \<open>sz\<close> are mapped with the flags \<open>fl\<close> to different pages that
  were in the pool and have left it, with the bytes \<open>c\<close>.
\<close>

abbreviation fill_range :: "uint \<Rightarrow> uint \<Rightarrow> uint \<Rightarrow> bool" where
  "fill_range i sz va \<equiv> i \<le> PTE_ADDR va \<and> PTE_ADDR va < sz"

definition page_filled :: "(uint \<Rightarrow> uint) \<Rightarrow> (uint \<Rightarrow> uint \<Rightarrow> uchar) \<Rightarrow> memory \<Rightarrow> uint \<Rightarrow> uint \<Rightarrow> bool" where
  "page_filled fl c m va e \<longleftrightarrow> PTE_FLAGS e = fl (PTE_ADDR va) \<and> (\<forall>k < PGSIZE. m (P2V (PTE_ADDR e) + k) = c (PTE_ADDR va) k)"

definition filled :: "(uint \<Rightarrow> uint) \<Rightarrow> (uint \<Rightarrow> uint \<Rightarrow> uchar) \<Rightarrow> uint \<Rightarrow> uint \<Rightarrow> uint \<Rightarrow> 'z kmem_scheme \<Rightarrow> uint list \<Rightarrow> 'z kmem_scheme \<Rightarrow> uint list \<Rightarrow> bool" where
  "filled fl c d i sz s ps t qs \<longleftrightarrow>
     (\<forall>va. \<not> fill_range i sz va \<longrightarrow> mmu_pte (mem t) d va = mmu_pte (mem s) d va)
   \<and> (\<forall>va. fill_range i sz va \<longrightarrow> (\<exists>e. mmu_pte (mem t) d va = Some e \<and> page_filled fl c (mem t) va e
        \<and> P2V (PTE_ADDR e) \<in> pool s d ps - pool t d qs))
   \<and> (\<forall>va va' e e'. fill_range i sz va \<longrightarrow> fill_range i sz va' \<longrightarrow> mmu_pte (mem t) d va = Some e \<longrightarrow> mmu_pte (mem t) d va' = Some e'
        \<longrightarrow> PTE_ADDR e = PTE_ADDR e' \<longrightarrow> PTE_ADDR va = PTE_ADDR va')"

text \<open>What the parent needs: its directory and its user pages lie in \<open>K\<close>, which the copying leaves alone.\<close>

definition parent_ok :: "uint \<Rightarrow> memory \<Rightarrow> uint \<Rightarrow> uint \<Rightarrow> uint set \<Rightarrow> bool" where
  "parent_ok en m pgdir sz K \<longleftrightarrow> dir_ok en m pgdir \<and> own m pgdir \<subseteq> K \<and> (\<forall>p \<in> K. page_ok en p)
     \<and> (\<forall>va < sz. \<exists>e. mmu_pte m pgdir va = Some e \<and> P2V (PTE_ADDR e) \<in> K)"

definition agree :: "uint set \<Rightarrow> memory \<Rightarrow> memory \<Rightarrow> bool" where
  "agree K m m' \<longleftrightarrow> (\<forall>p \<in> K. \<forall>a. in_page p a \<longrightarrow> m' a = m a)"

lemma parent_walk:
  assumes K: "parent_ok en m pgdir sz K" "agree K m (mem s)" "KERNBASE \<le> en" and i: "i < sz"
  obtains pte e where "walkpgdir pgdir i False s = Ok pte s" "pte \<noteq> 0" "load32 (mem s) pte = e" "present e"
    "mmu_pte m pgdir i = Some e" "P2V (PTE_ADDR e) \<in> K"
proof -
  have ok: "dir_ok en m pgdir" using K(1) by (simp add: parent_ok_def)
  have eq: "mem s a = m a" if "p \<in> own m pgdir" "in_page p a" for p a
    using that K(1,2) by (auto simp: parent_ok_def agree_def)
  note c = dir_cong [OF ok eq]
  obtain e where e: "mmu_pte m pgdir i = Some e" "P2V (PTE_ADDR e) \<in> K" using K(1) i by (auto simp: parent_ok_def)
  then have "mmu_pte (mem s) pgdir i = Some e" using c(3) by simp
  then have p: "present (pde (mem s) pgdir (PDX i))" "load32 (mem s) (ptab (mem s) pgdir (PDX i) + 4 * PTX i) = e" "present e"
    by (auto simp: mmu_pte_eq Let_def split: if_splits)
  show ?thesis
    using that [OF _ entry_nonzero [OF c(1) K(3) p(1)] p(2,3) e] p(1) by (simp add: walkpgdir_run)
qed

lemma flags_present: "present e \<Longrightarrow> PTE_FLAGS e OR PTE_P = PTE_FLAGS e"
proof (rule bit_word_eqI)
  fix n assume p: "present e"
  have "e AND 1 = of_bool (bit e 0)" by (rule bit_word_eqI) (auto simp: bit_simps)
  then have "bit e 0" using p by (auto simp: present_def PTE_P_def)
  then show "bit (PTE_FLAGS e OR PTE_P) n = bit (PTE_FLAGS e) n"
    by (auto simp: PTE_FLAGS_def low_bits PTE_P_def bit_simps)
qed

lemma page_ok_unat: "KERNBASE \<le> en \<Longrightarrow> page_ok en p \<Longrightarrow> 0x80000000 \<le> unat p \<and> unat p < 0x8E000000"
proof -
  assume a: "KERNBASE \<le> en" "page_ok en p"
  then have "KERNBASE \<le> p" by (auto simp: page_ok_def)
  then have p: "0x80000000 \<le> unat p" by (simp add: word_le_nat_alt layout_unat)
  then have "unat (V2P p) = unat p - 0x80000000" by (simp add: V2P_def KERNBASE_def unat_sub_uint)
  moreover have "unat (V2P p) < 0xE000000" using a(2) by (simp add: page_ok_def PHYSTOP_def word_less_nat_alt)
  ultimately show ?thesis using p by simp
qed

lemma npages_one: "page_aligned i \<Longrightarrow> npages i PGSIZE = 1"
  using npages_aligned [of i PGSIZE] by (simp add: page_aligned_def PGSIZE_def)

lemma mmu_pte_page: "PTE_ADDR va = PTE_ADDR vb \<Longrightarrow> mmu_pte m d va = mmu_pte m d vb"
  using same_page [of va vb] by (simp add: mmu_pte_eq)

text \<open>A fresh page with some bytes, mapped at \<open>i\<close>.\<close>

lemma map_fresh_ok:
  assumes inv: "vm_inv s d (q # rs)" and lk: "KmemLock \<notin> set (held s)" and b: "budget s d (q # rs) > 1026"
    and out: "\<And>a. \<not> in_page q a \<Longrightarrow> m a = mem s a" and perm: "PTE_ADDR perm = 0"
    and i: "page_aligned i" "unat i + 4096 \<le> 4294967296" "mmu_pte (mem s) d i = None"
    and u_def: "u = s\<lparr>freelist := load32 (mem s) q, mem := m\<rparr>"
  obtains t qs where "mappages d i PGSIZE (V2P q) perm u = Ok 0 t" "vm_run d s (q # rs) t qs"
    "q \<in> pool s d (q # rs) - pool t d qs" "page_aligned q" "budget t d qs + 1 = budget s d (q # rs)"
    "mmu_pte (mem t) d = (\<lambda>va. if PTE_ADDR va = i then Some (V2P q OR perm OR PTE_P) else mmu_pte (mem s) d va)"
    "\<forall>k < PGSIZE. mem t (q + k) = m (q + k)"
proof -
  note f = vm_fresh [OF inv out u_def] and fr = vm_fresh_run [OF inv out u_def]
  have qal: "page_aligned q" using inv by (simp add: vm_inv_def kmem_inv_def page_ok_def)
  have in_i: "unat (va - i) < 4096 \<longleftrightarrow> PTE_ADDR va = i" for va
    using in_page_iff [OF i(1), of va] by (simp add: in_page_def word_less_nat_alt)
  have "mmu_pte (mem u) d va = None" if "PTE_ADDR va = i" for va
    using mmu_pte_page [of va i] that i(1,3) f(2) by (simp add: PTE_ADDR_id u_def)
  then have "unmapped (mem u) d i 1" by (simp add: unmapped_def in_i)
  moreover have "KmemLock \<notin> set (held u)" using lk by (simp add: u_def)
  moreover have "PGSIZE \<noteq> 0" by (simp add: PGSIZE_def)
  ultimately have "maps (mappages d i PGSIZE (V2P q) perm) d i 1 (V2P q) perm u rs"
    using mappages_ok [OF f(1), of PGSIZE i] i by (simp add: PTE_ADDR_id npages_one)
  moreover have "budget u d rs > 1025" using f(4) b by simp
  ultimately obtain t qs where t: "mappages d i PGSIZE (V2P q) perm u = Ok 0 t" "vm_step d u rs t qs"
    "mmu_pte (mem t) d = map_range (mmu_pte (mem u) d) i 1 (V2P q) perm"
    using maps_all f(1) by blast
  have "pool t d qs = pool u d rs" using t(2) by (simp add: vm_step_def)
  then have "q \<in> pool s d (q # rs) - pool t d qs" using fr(2) by simp
  moreover have "vm_run d s (q # rs) t qs" by (rule vm_run_trans [OF fr(1) vm_step_run [OF t(2)]])
  moreover have "budget t d qs + 1 = budget s d (q # rs)" using f(4) vm_step_budget [OF f(1) t(2)] by simp
  moreover have "mmu_pte (mem t) d = (\<lambda>va. if PTE_ADDR va = i then Some (V2P q OR perm OR PTE_P) else mmu_pte (mem s) d va)"
    using t(3) f(2) by (auto simp: map_range_def in_i u_def fun_eq_iff)
  moreover have "\<forall>k < PGSIZE. mem t (q + k) = m (q + k)"
  proof (intro allI impI)
    fix k :: uint assume "k < PGSIZE"
    then have k: "in_page q (q + k)" by (rule in_page_add)
    have "\<not> in_page p (q + k)" if "p \<in> pool u d rs" for p
    proof -
      have "page_aligned p" using that dir_okD(4) f(1) by (auto simp: vm_inv_def kmem_inv_def page_ok_def)
      then show ?thesis using that fr(2) k in_page_other [of p q] qal by auto
    qed
    then show "mem t (q + k) = m (q + k)" using t(2) by (auto simp: vm_step_def u_def)
  qed
  ultimately show ?thesis using that t(1) qal by blast
qed

text \<open>Putting one page before the rest.\<close>

lemma fill_range_step:
  assumes "page_aligned i" "i < sz" "unat sz \<le> 0x80000000"
  shows "fill_range i sz va \<longleftrightarrow> PTE_ADDR va = i \<or> fill_range (i + PGSIZE) sz va" "PTE_ADDR va = i \<Longrightarrow> \<not> fill_range (i + PGSIZE) sz va"
    "unat (i + PGSIZE) = unat i + 4096"
proof -
  show i1: "unat (i + PGSIZE) = unat i + 4096"
    using assms(2,3) unat_add_lt [of i PGSIZE] by (simp add: word_less_nat_alt)
  have "PTE_ADDR va = i \<or> unat (PTE_ADDR va) < unat i \<or> unat i < unat (PTE_ADDR va)" by (auto simp: word_unat_eq_iff)
  then have "PTE_ADDR va = i \<or> unat (PTE_ADDR va) < unat i \<or> unat i + 4096 \<le> unat (PTE_ADDR va)"
    using PTE_ADDR_aligned [of va] assms(1) aligned_next [of "unat (PTE_ADDR va)" "unat i"] unfolding page_aligned_unat
    by (elim disjE) simp_all
  then show "fill_range i sz va \<longleftrightarrow> PTE_ADDR va = i \<or> fill_range (i + PGSIZE) sz va"
    using assms i1 by (auto simp: word_le_nat_alt word_less_nat_alt)
  show "PTE_ADDR va = i \<Longrightarrow> \<not> fill_range (i + PGSIZE) sz va" using i1 by (simp add: word_le_nat_alt)
qed

lemma run_keeps_page:
  assumes "vm_run d t qs u rs" "vm_inv t d qs" "q \<notin> pool t d qs" "page_aligned q" "in_page q a"
  shows "mem u a = mem t a"
proof -
  have "\<not> in_page p a" if p: "p \<in> pool t d qs" for p
  proof -
    have "page_aligned p" using p assms(2) dir_okD(4) by (auto simp: vm_inv_def kmem_inv_def page_ok_def)
    then show ?thesis using p assms(3-5) in_page_other [of p q a] by auto
  qed
  then show ?thesis using assms(1) by (auto simp: vm_run_def)
qed

lemma filled_step:
  assumes q: "q \<in> pool s d ps - pool t d qs" "page_aligned q" and fl: "PTE_ADDR (fl i) = 0"
    and t: "mmu_pte (mem t) d = (\<lambda>va. if PTE_ADDR va = i then Some (V2P q OR fl i) else mmu_pte (mem s) d va)"
      "\<And>k. k < PGSIZE \<Longrightarrow> mem t (q + k) = c i k"
    and run: "vm_run d s ps t qs" "vm_run d t qs u rs" and u: "filled fl c d (i + PGSIZE) sz t qs u rs"
    and i: "page_aligned i" "i < sz" "unat sz \<le> 0x80000000"
  shows "filled fl c d i sz s ps u rs"
proof -
  note cr = fill_range_step(1) [OF i] and ne = fill_range_step(2) [OF i]
  have f: "PTE_ADDR (V2P q OR fl i) = V2P q" "PTE_FLAGS (V2P q OR fl i) = fl i"
    using PTE_ADDR_or [OF _ fl, of "V2P q"] q(2) by simp_all
  have q': "q \<notin> pool u d rs" using q(1) run(2) by (auto simp: vm_run_def)
  have "mem u (q + k) = c i k" if "k < PGSIZE" for k
    using run_keeps_page [OF run(2) _ _ q(2) in_page_add [OF that]] run(1) q(1) t(2) [OF that] by (auto simp: vm_run_def)
  then have cp: "page_filled fl c (mem u) va (V2P q OR fl i)" if "PTE_ADDR va = i" for va
    using that by (simp add: page_filled_def f)
  have at_i: "mmu_pte (mem u) d va = Some (V2P q OR fl i)" if "PTE_ADDR va = i" for va
    using u ne [OF that] that t(1) by (simp add: filled_def)
  have sub: "pool t d qs \<subseteq> pool s d ps" using run(1) by (simp add: vm_run_def)
  have rest: "\<exists>e. mmu_pte (mem u) d va = Some e \<and> page_filled fl c (mem u) va e \<and> P2V (PTE_ADDR e) \<in> pool t d qs - pool u d rs"
    if "fill_range (i + PGSIZE) sz va" for va
    using u that unfolding filled_def by blast
  have diff: "PTE_ADDR e \<noteq> V2P q" if "fill_range (i + PGSIZE) sz va" "mmu_pte (mem u) d va = Some e" for va e
    using rest [OF that(1)] that(2) q(1) by auto
  show ?thesis
    unfolding filled_def
  proof (intro conjI allI impI)
    fix va assume "\<not> fill_range i sz va"
    then show "mmu_pte (mem u) d va = mmu_pte (mem s) d va" using u t(1) cr [of va] by (auto simp: filled_def)
  next
    fix va assume "fill_range i sz va"
    then consider (this_page) "PTE_ADDR va = i" | (later) "fill_range (i + PGSIZE) sz va" using cr by blast
    then show "\<exists>e. mmu_pte (mem u) d va = Some e \<and> page_filled fl c (mem u) va e \<and> P2V (PTE_ADDR e) \<in> pool s d ps - pool u d rs"
    proof cases
      case this_page
      then show ?thesis using at_i [OF this_page] cp [OF this_page] q(1) q' by (simp add: f)
    next
      case later
      from rest [OF later] show ?thesis using sub by blast
    qed
  next
    fix va va' x x'
    assume r: "fill_range i sz va" "fill_range i sz va'" and x: "mmu_pte (mem u) d va = Some x" "mmu_pte (mem u) d va' = Some x'"
      "PTE_ADDR x = PTE_ADDR x'"
    have inj: "PTE_ADDR va = PTE_ADDR va'" if "fill_range (i + PGSIZE) sz va" "fill_range (i + PGSIZE) sz va'"
      using u that x unfolding filled_def by blast
    have "PTE_ADDR va = i \<longleftrightarrow> PTE_ADDR va' = i"
      using at_i [of va] at_i [of va'] x f(1) diff [of va x] diff [of va' x'] r cr [of va] cr [of va'] by auto
    then show "PTE_ADDR va = PTE_ADDR va'" using r cr [of va] cr [of va'] inj by auto
  qed
qed

lemma filled_empty: "\<not> i < sz \<Longrightarrow> filled fl c d i sz s ps s ps"
  by (auto simp: filled_def)

lemma agree_run:
  assumes "vm_run d s ps t qs" "K \<inter> pool s d ps = {}" "\<And>p. p \<in> K \<Longrightarrow> page_aligned p" "vm_inv s d ps" "agree K m (mem s)"
  shows "agree K m (mem t)" "K \<inter> pool t d qs = {}"
proof -
  have "mem t a = mem s a" if p: "p \<in> K" "in_page p a" for p a
  proof -
    have "\<not> in_page q a" if q: "q \<in> pool s d ps" for q
    proof -
      have "page_aligned q" using q assms(4) dir_okD(4) by (auto simp: vm_inv_def kmem_inv_def page_ok_def)
      then show ?thesis using p q assms(2,3) in_page_other [of q p a] by auto
    qed
    then show ?thesis using assms(1) by (auto simp: vm_run_def)
  qed
  then show "agree K m (mem t)" using assms(5) by (simp add: agree_def)
  show "K \<inter> pool t d qs = {}" using assms(1,2) by (auto simp: vm_run_def)
qed

definition pages_from :: "uint \<Rightarrow> uint \<Rightarrow> nat" where
  "pages_from i sz = (unat sz - unat i + 4095) div 4096"

lemma round_up_step: "0 < (n :: nat) \<Longrightarrow> (n + 4095) div 4096 = Suc ((n - 4096 + 4095) div 4096)"
proof (cases "4096 \<le> n")
  case True
  then have "n + 4095 = (n - 4096 + 4095) + 4096" by simp
  then show ?thesis by (metis Suc_eq_plus1 div_add_self2 zero_neq_numeral)
next
  case False
  assume "0 < n"
  with False have "(n + 4095) div 4096 = 1" by (intro div_nat_eqI) simp_all
  then show ?thesis using False by simp
qed

text \<open>What the copy of a directory has in its pages: the flags and the bytes of the original.\<close>

definition copy_flags :: "memory \<Rightarrow> uint \<Rightarrow> uint \<Rightarrow> uint" where
  "copy_flags m pgdir va = PTE_FLAGS (the (mmu_pte m pgdir va))"

definition copy_bytes :: "memory \<Rightarrow> uint \<Rightarrow> uint \<Rightarrow> uint \<Rightarrow> uchar" where
  "copy_bytes m pgdir va k = m (P2V (PTE_ADDR (the (mmu_pte m pgdir va))) + k)"

lemma memmove_page:
  assumes "KERNBASE \<le> en" "page_ok en q" "page_ok en p"
  shows "memmove m q p PGSIZE a = (if in_page q a then m (p + (a - q)) else m a)"
  using page_ok_unat [OF assms(1,2)] page_ok_unat [OF assms(1,3)] by (simp add: memmove_apply in_page_def)

text \<open>One round of the loop.\<close>

lemma copyuvm_round:
  assumes inv: "vm_inv s d ps" and lk: "KmemLock \<notin> set (held s)" and b: "budget s d ps > 1026"
    and K: "parent_ok (sym_end (syms s)) m0 pgdir sz K" "agree K m0 (mem s)"
    and i: "page_aligned i" "i < sz" "unat sz \<le> 0x80000000" "mmu_pte (mem s) d i = None"
  obtains q t qs where "copyuvm_loop pgdir d i sz s = copyuvm_loop pgdir d (i + PGSIZE) sz t" "vm_run d s ps t qs"
    "q \<in> pool s d ps - pool t d qs" "page_aligned q" "budget t d qs + 1 = budget s d ps" "PTE_ADDR (copy_flags m0 pgdir i) = 0"
    "mmu_pte (mem t) d = (\<lambda>va. if PTE_ADDR va = i then Some (V2P q OR copy_flags m0 pgdir i) else mmu_pte (mem s) d va)"
    "\<forall>k < PGSIZE. mem t (q + k) = copy_bytes m0 pgdir i k"
proof -
  have en: "KERNBASE \<le> sym_end (syms s)" using inv by (simp add: vm_inv_def kmem_inv_def)
  obtain pte e where w: "walkpgdir pgdir i False s = Ok pte s" "pte \<noteq> 0" "load32 (mem s) pte = e" "present e"
    "mmu_pte m0 pgdir i = Some e" "P2V (PTE_ADDR e) \<in> K"
    by (rule parent_walk [OF K en i(2)])
  obtain q rs where ps: "ps = q # rs" using b own_card [of "mem s" d] by (cases ps) (auto simp: budget_def)
  have km: "kmem_inv s (q # rs)" using inv ps by (simp add: vm_inv_def)
  let ?src = "P2V (PTE_ADDR e)"
  let ?u = "s\<lparr>freelist := load32 (mem s) q, mem := memmove (mem s) q ?src PGSIZE\<rparr>"
  have pq: "page_ok (sym_end (syms s)) ?src" "page_ok (sym_end (syms s)) q"
    using w(6) K(1) km by (auto simp: parent_ok_def kmem_inv_def)
  note mv = memmove_page [OF en pq(2,1), of "mem s"]
  have out: "memmove (mem s) q ?src PGSIZE a = mem s a" if "\<not> in_page q a" for a using that by (simp add: mv)
  have lim: "unat i + 4096 \<le> 4294967296" using i by (simp add: word_less_nat_alt)
  have fl: "copy_flags m0 pgdir i = PTE_FLAGS e" "PTE_FLAGS e OR PTE_P = PTE_FLAGS e"
    using w(5) flags_present [OF w(4)] by (simp_all add: copy_flags_def)
  obtain t qs where c: "mappages d i PGSIZE (V2P q) (PTE_FLAGS e) ?u = Ok 0 t" "vm_run d s (q # rs) t qs"
    "q \<in> pool s d (q # rs) - pool t d qs" "page_aligned q" "budget t d qs + 1 = budget s d (q # rs)"
    "mmu_pte (mem t) d = (\<lambda>va. if PTE_ADDR va = i then Some (V2P q OR PTE_FLAGS e OR PTE_P) else mmu_pte (mem s) d va)"
    "\<forall>k < PGSIZE. mem t (q + k) = memmove (mem s) q ?src PGSIZE (q + k)"
    by (rule map_fresh_ok [OF inv [unfolded ps] lk b [unfolded ps] out PTE_ADDR_flags i(1) lim i(4) refl])
  have "q \<noteq> 0" using km page_ok_nonzero by (auto simp: kmem_inv_def)
  then have "copyuvm_loop pgdir d i sz s = copyuvm_loop pgdir d (i + PGSIZE) sz t"
    using w c(1) i fill_range_step(3) [OF i(1-3)] kalloc_Cons(1) [OF km lk]
    by (subst copyuvm_loop.simps) (simp add: krun present_def word_less_nat_alt)
  moreover have "\<forall>k < PGSIZE. mem t (q + k) = copy_bytes m0 pgdir i k"
    using c(7) mv in_page_add [of _ q] in_page_add [of _ ?src] K(2) w(5,6) by (simp add: copy_bytes_def agree_def)
  ultimately show ?thesis using that [of t qs q] c(2-6) unfolding ps fl by (simp only: fl PTE_ADDR_flags)
qed

lemma copyuvm_loop_ok:
  assumes "vm_inv s d ps" "KmemLock \<notin> set (held s)" "budget s d ps > 1025 + pages_from i sz"
    and "parent_ok (sym_end (syms s)) m0 pgdir sz K" "agree K m0 (mem s)" "K \<inter> pool s d ps = {}"
    and "page_aligned i" "unat sz \<le> 0x80000000" "\<And>va. fill_range i sz va \<Longrightarrow> mmu_pte (mem s) d va = None"
  shows "\<exists>t qs. copyuvm_loop pgdir d i sz s = Ok d t \<and> vm_run d s ps t qs
    \<and> filled (copy_flags m0 pgdir) (copy_bytes m0 pgdir) d i sz s ps t qs"
  using assms
proof (induction "unat sz - unat i" arbitrary: i s ps rule: less_induct)
  case less
  show ?case
  proof (cases "i < sz")
    case False
    then show ?thesis
      using filled_empty [OF False] vm_step_run [OF vm_step_refl [OF less.prems(1)]]
      by (intro exI [of _ s] exI [of _ ps]) (simp add: copyuvm_loop.simps [of pgdir d i sz] krun)
  next
    case True
    note i1 = fill_range_step(3) [OF less.prems(7) True less.prems(8)]
    have pf: "pages_from i sz = Suc (pages_from (i + PGSIZE) sz)"
      using True i1 round_up_step [of "unat sz - unat i"] by (simp add: pages_from_def word_less_nat_alt diff_diff_eq)
    have pre: "budget s d ps > 1026" "mmu_pte (mem s) d i = None"
      using less.prems(3,7) less.prems(9) [of i] pf True by (simp_all add: PTE_ADDR_id)
    obtain q t qs where c: "copyuvm_loop pgdir d i sz s = copyuvm_loop pgdir d (i + PGSIZE) sz t" "vm_run d s ps t qs"
      "q \<in> pool s d ps - pool t d qs" "page_aligned q" "budget t d qs + 1 = budget s d ps" "PTE_ADDR (copy_flags m0 pgdir i) = 0"
      "mmu_pte (mem t) d = (\<lambda>va. if PTE_ADDR va = i then Some (V2P q OR copy_flags m0 pgdir i) else mmu_pte (mem s) d va)"
      "\<forall>k < PGSIZE. mem t (q + k) = copy_bytes m0 pgdir i k"
      by (rule copyuvm_round [OF less.prems(1,2) pre(1) less.prems(4,5,7) True less.prems(8) pre(2)])
    have al: "page_aligned p" if "p \<in> K" for p using that less.prems(4) by (auto simp: parent_ok_def page_ok_def)
    note ag = agree_run [OF c(2) less.prems(6) al less.prems(1,5)]
    have same: "vm_inv t d qs" "held t = held s" "syms t = syms s" using c(2) by (auto simp: vm_run_def)
    have "mmu_pte (mem t) d va = None" if "fill_range (i + PGSIZE) sz va" for va
      using that less.prems(9) [of va] i1 c(7) by (auto simp: word_le_nat_alt)
    moreover have "unat sz - unat (i + PGSIZE) < unat sz - unat i" using True i1 by (simp add: word_less_nat_alt)
    ultimately have "\<exists>v rs. copyuvm_loop pgdir d (i + PGSIZE) sz t = Ok d v \<and> vm_run d t qs v rs
        \<and> filled (copy_flags m0 pgdir) (copy_bytes m0 pgdir) d (i + PGSIZE) sz t qs v rs"
      using less.prems(2,3,4,7,8) pf c(5) same ag by (intro less.hyps aligned_next_page) simp_all
    then obtain v rs where v: "copyuvm_loop pgdir d (i + PGSIZE) sz t = Ok d v" "vm_run d t qs v rs"
      "filled (copy_flags m0 pgdir) (copy_bytes m0 pgdir) d (i + PGSIZE) sz t qs v rs" by blast
    have "filled (copy_flags m0 pgdir) (copy_bytes m0 pgdir) d i sz s ps v rs"
      using c(8) by (intro filled_step [OF c(3,4,6,7) _ c(2) v(2,3) less.prems(7) True less.prems(8)]) blast
    then show ?thesis using c(1) v(1) vm_run_trans [OF c(2) v(2)] by auto
  qed
qed

section \<open>Growing a process\<close>

lemma user_flags: "PTE_ADDR (PTE_W OR PTE_U) = 0" "(PTE_W OR PTE_U) OR PTE_P = 7" "PTE_ADDR 7 = 0"
  by (simp_all add: PTE_ADDR_def PTE_W_def PTE_U_def PTE_P_def)

lemma allocuvm_round:
  assumes inv: "vm_inv s d ps" and lk: "KmemLock \<notin> set (held s)" and b: "budget s d ps > 1026"
    and i: "page_aligned i" "i < newsz" "unat newsz \<le> 0x80000000" "mmu_pte (mem s) d i = None"
  obtains q t qs where "allocuvm_loop d i oldsz newsz s = allocuvm_loop d (i + PGSIZE) oldsz newsz t" "vm_run d s ps t qs"
    "q \<in> pool s d ps - pool t d qs" "page_aligned q" "budget t d qs + 1 = budget s d ps"
    "mmu_pte (mem t) d = (\<lambda>va. if PTE_ADDR va = i then Some (V2P q OR 7) else mmu_pte (mem s) d va)"
    "\<forall>k < PGSIZE. mem t (q + k) = 0"
proof -
  obtain q rs where ps: "ps = q # rs" using b own_card [of "mem s" d] by (cases ps) (auto simp: budget_def)
  have km: "kmem_inv s (q # rs)" using inv ps by (simp add: vm_inv_def)
  let ?m = "memset (mem s) q 0 PGSIZE"
  let ?u = "s\<lparr>freelist := load32 (mem s) q, mem := ?m\<rparr>"
  have ms: "?m a = (if in_page q a then 0 else mem s a)" for a by (simp add: memset_apply in_page_def)
  then have out: "?m a = mem s a" if "\<not> in_page q a" for a using that by simp
  have lim: "unat i + 4096 \<le> 4294967296" using i by (simp add: word_less_nat_alt)
  obtain t qs where c: "mappages d i PGSIZE (V2P q) (PTE_W OR PTE_U) ?u = Ok 0 t" "vm_run d s (q # rs) t qs"
    "q \<in> pool s d (q # rs) - pool t d qs" "page_aligned q" "budget t d qs + 1 = budget s d (q # rs)"
    "mmu_pte (mem t) d = (\<lambda>va. if PTE_ADDR va = i then Some (V2P q OR (PTE_W OR PTE_U) OR PTE_P) else mmu_pte (mem s) d va)"
    "\<forall>k < PGSIZE. mem t (q + k) = ?m (q + k)"
    by (rule map_fresh_ok [OF inv [unfolded ps] lk b [unfolded ps] out user_flags(1) i(1) lim i(4) refl])
  have "q \<noteq> 0" using km page_ok_nonzero by (auto simp: kmem_inv_def)
  then have "allocuvm_loop d i oldsz newsz s = allocuvm_loop d (i + PGSIZE) oldsz newsz t"
    using c(1) i fill_range_step(3) [OF i(1-3)] kalloc_Cons(1) [OF km lk]
    by (subst allocuvm_loop.simps) (simp add: krun word_less_nat_alt)
  moreover have "\<forall>k < PGSIZE. mem t (q + k) = 0" using c(7) ms in_page_add [of _ q] by simp
  ultimately show ?thesis using that [of t qs q] c(2-6) unfolding ps by (simp only: user_flags)
qed

lemma allocuvm_loop_ok:
  assumes "vm_inv s d ps" "KmemLock \<notin> set (held s)" "budget s d ps > 1025 + pages_from i newsz"
    and "page_aligned i" "unat newsz \<le> 0x80000000" "\<And>va. fill_range i newsz va \<Longrightarrow> mmu_pte (mem s) d va = None"
  shows "\<exists>t qs. allocuvm_loop d i oldsz newsz s = Ok newsz t \<and> vm_run d s ps t qs
    \<and> filled (\<lambda>_. 7) (\<lambda>_ _. 0) d i newsz s ps t qs"
  using assms
proof (induction "unat newsz - unat i" arbitrary: i s ps rule: less_induct)
  case less
  show ?case
  proof (cases "i < newsz")
    case False
    then show ?thesis
      using filled_empty [OF False] vm_step_run [OF vm_step_refl [OF less.prems(1)]]
      by (intro exI [of _ s] exI [of _ ps]) (simp add: allocuvm_loop.simps [of d i] krun)
  next
    case True
    note i1 = fill_range_step(3) [OF less.prems(4) True less.prems(5)]
    have pf: "pages_from i newsz = Suc (pages_from (i + PGSIZE) newsz)"
      using True i1 round_up_step [of "unat newsz - unat i"] by (simp add: pages_from_def word_less_nat_alt diff_diff_eq)
    have pre: "budget s d ps > 1026" "mmu_pte (mem s) d i = None"
      using less.prems(3,4) less.prems(6) [of i] pf True by (simp_all add: PTE_ADDR_id)
    obtain q t qs where c: "allocuvm_loop d i oldsz newsz s = allocuvm_loop d (i + PGSIZE) oldsz newsz t" "vm_run d s ps t qs"
      "q \<in> pool s d ps - pool t d qs" "page_aligned q" "budget t d qs + 1 = budget s d ps"
      "mmu_pte (mem t) d = (\<lambda>va. if PTE_ADDR va = i then Some (V2P q OR 7) else mmu_pte (mem s) d va)"
      "\<forall>k < PGSIZE. mem t (q + k) = 0"
      by (rule allocuvm_round [OF less.prems(1,2) pre(1) less.prems(4) True less.prems(5) pre(2)])
    have same: "vm_inv t d qs" "held t = held s" using c(2) by (auto simp: vm_run_def)
    have "mmu_pte (mem t) d va = None" if "fill_range (i + PGSIZE) newsz va" for va
      using that less.prems(6) [of va] i1 c(6) by (auto simp: word_le_nat_alt)
    moreover have "unat newsz - unat (i + PGSIZE) < unat newsz - unat i" using True i1 by (simp add: word_less_nat_alt)
    ultimately have "\<exists>v rs. allocuvm_loop d (i + PGSIZE) oldsz newsz t = Ok newsz v \<and> vm_run d t qs v rs
        \<and> filled (\<lambda>_. 7) (\<lambda>_ _. 0) d (i + PGSIZE) newsz t qs v rs"
      using less.prems(2,3,4,5) pf c(5) same by (intro less.hyps aligned_next_page) simp_all
    then obtain v rs where v: "allocuvm_loop d (i + PGSIZE) oldsz newsz t = Ok newsz v" "vm_run d t qs v rs"
      "filled (\<lambda>_. 7) (\<lambda>_ _. 0) d (i + PGSIZE) newsz t qs v rs" by blast
    have "filled (\<lambda>_. 7) (\<lambda>_ _. 0) d i newsz s ps v rs"
      using c(7) user_flags(3) by (intro filled_step [OF c(3,4) _ c(6) _ c(2) v(2,3) less.prems(4) True less.prems(5)]) simp_all
    then show ?thesis using c(1) v(1) vm_run_trans [OF c(2) v(2)] by auto
  qed
qed

lemma PTE_FLAGS_less: "PTE_FLAGS va < PGSIZE"
proof -
  have "PTE_FLAGS va = take_bit 12 va" by (simp add: PTE_FLAGS_def low_bits take_bit_eq_mask)
  then show ?thesis using take_bit_nat_less_exp [of 12 "unat va"] by (simp add: word_less_nat_alt unsigned_take_bit_eq)
qed

lemma PTE_ADDR_le: "PTE_ADDR va \<le> va"
  using unat_PTE_ADDR [of va] by (simp add: word_le_nat_alt)

lemma PTE_ADDR_idem [simp]: "PTE_ADDR (PTE_ADDR va) = PTE_ADDR va"
  by (rule PTE_ADDR_id [OF PTE_ADDR_aligned])

text \<open>A page of the copy through the translation of the hardware.\<close>

lemma copied_address:
  assumes "mmu_pte m0 pgdir va = Some e" "mmu_pte m d va = Some e'" "page_filled (copy_flags m0 pgdir) (copy_bytes m0 pgdir) m va e'"
  shows "PTE_FLAGS e' = PTE_FLAGS e" "\<exists>a a'. mmu_translate m0 pgdir va = Some a \<and> mmu_translate m d va = Some a' \<and> m a' = m0 a"
proof -
  have "mmu_pte m0 pgdir (PTE_ADDR va) = Some e" using assms(1) mmu_pte_page [of "PTE_ADDR va" va] by simp
  then have f: "PTE_FLAGS e' = PTE_FLAGS e" "\<And>k. k < PGSIZE \<Longrightarrow> m (P2V (PTE_ADDR e') + k) = m0 (P2V (PTE_ADDR e) + k)"
    using assms(3) by (simp_all add: page_filled_def copy_flags_def copy_bytes_def)
  show "PTE_FLAGS e' = PTE_FLAGS e" by (rule f)
  show "\<exists>a a'. mmu_translate m0 pgdir va = Some a \<and> mmu_translate m d va = Some a' \<and> m a' = m0 a"
    using f(2) [OF PTE_FLAGS_less, of va] assms(1,2) by (simp add: mmu_translate_def PTE_FLAGS_def)
qed

lemma below_kernbase:
  assumes "PTE_ADDR va < sz" "sz \<le> KERNBASE"
  shows "va < KERNBASE"
proof -
  have "4096 * (unat va div 4096) < 4096 * 524288"
    using assms unat_PTE_ADDR [of va] by (simp add: word_less_nat_alt word_le_nat_alt layout_unat)
  then have "unat va div 4096 < 524288" by simp
  then have "unat va < 0x80000000" by (simp add: div_less_iff_less_mult)
  then show ?thesis by (simp add: word_less_nat_alt layout_unat)
qed

lemma agree_outside:
  assumes "kmem_inv s ps" "K \<inter> set ps = {}" "\<And>p. p \<in> K \<Longrightarrow> page_aligned p"
    and "\<And>a. \<forall>p \<in> set ps. \<not> in_page p a \<Longrightarrow> m a = mem s a"
  shows "agree K (mem s) m"
  unfolding agree_def
proof (intro ballI allI impI)
  fix p a assume p: "p \<in> K" "in_page p a"
  have "\<not> in_page q a" if "q \<in> set ps" for q
    using that p assms(1,2) pages_disjoint [OF _ assms(3) [OF p(1)], of q a] by (auto simp: kmem_inv_def page_ok_def)
  then show "m a = mem s a" using assms(4) by blast
qed

text \<open>The whole of \<^verbatim>\<open>copyuvm\<close>: the kernel part, then the user part.\<close>

lemma copyuvm_ok:
  assumes km: "kmem_inv s ps" and lk: "KmemLock \<notin> set (held s)" and len: "length ps > 1025 + pages_from 0 sz"
    and data: "page_aligned (sym_data (syms s))" "KERNLINK < sym_data (syms s)" "V2P (sym_data (syms s)) < PHYSTOP"
    and par: "parent_ok (sym_end (syms s)) (mem s) pgdir sz K" "K \<inter> set ps = {}" and sz: "sz \<le> KERNBASE"
  obtains d u rs t qs where "copyuvm pgdir sz s = Ok d t" "d \<noteq> 0" "vm_inv t d qs" "pool u d rs = set ps"
    "mmu_pte (mem u) d = kernel_pte (sym_data (syms s))" "agree K (mem s) (mem t)"
    "filled (copy_flags (mem s) pgdir) (copy_bytes (mem s) pgdir) d 0 sz u rs t qs"
proof -
  have l: "length ps > 1025" using len by simp
  obtain d u rs where u: "setupkvm s = Ok d u" "\<exists>m f. u = s\<lparr>mem := m, freelist := f\<rparr>" "vm_inv u d rs"
    "pool u d rs = set ps" "mmu_pte (mem u) d = kernel_pte (sym_data (syms s))"
    "\<And>a. \<forall>p \<in> set ps. \<not> in_page p a \<Longrightarrow> mem u a = mem s a"
    using setupkvm_ok [OF km lk l data] by metis
  have same: "syms u = syms s" "held u = held s" using u(2) by auto
  have d0: "d \<noteq> 0" using u(3) page_ok_nonzero by (auto simp: vm_inv_def kmem_inv_def dir_ok_def own_def)
  have al: "page_aligned p" if "p \<in> K" for p using that par(1) by (auto simp: parent_ok_def page_ok_def)
  have ag: "agree K (mem s) (mem u)" using km par(2) al u(6) by (rule agree_outside)
  have b: "budget u d rs > 1025 + pages_from 0 sz"
    using budget_eq [OF u(3)] u(4) km len by (simp add: kmem_inv_def distinct_card)
  have none: "mmu_pte (mem u) d va = None" if "fill_range 0 sz va" for va
    using that below_kernbase [OF _ sz, of va] u(5) by (simp add: kernel_pte_def)
  have dj: "K \<inter> pool u d rs = {}" using par(2) u(4) by simp
  have "\<exists>t qs. copyuvm_loop pgdir d 0 sz u = Ok d t \<and> vm_run d u rs t qs
    \<and> filled (copy_flags (mem s) pgdir) (copy_bytes (mem s) pgdir) d 0 sz u rs t qs"
  proof (rule copyuvm_loop_ok [OF u(3) _ b _ ag dj])
    show "KmemLock \<notin> set (held u)" using lk same by simp
    show "parent_ok (sym_end (syms u)) (mem s) pgdir sz K" using par(1) same by simp
    show "page_aligned 0" by (simp add: page_aligned_def)
    show "unat sz \<le> 0x80000000" using sz by (simp add: word_le_nat_alt layout_unat)
  qed (rule none)
  then obtain t qs where t: "copyuvm_loop pgdir d 0 sz u = Ok d t" "vm_run d u rs t qs"
    "filled (copy_flags (mem s) pgdir) (copy_bytes (mem s) pgdir) d 0 sz u rs t qs" by blast
  have "copyuvm pgdir sz s = Ok d t" "vm_inv t d qs" using u(1) d0 t(1,2) by (simp_all add: copyuvm_def krun vm_run_def)
  moreover have "agree K (mem s) (mem t)" using t(2) dj al u(3) ag by (rule agree_run(1))
  ultimately show ?thesis using that d0 u(4,5) t(3) by blast
qed

section \<open>Examples\<close>

text \<open>A state with many free pages.\<close>

lemma range_pages_card: "n \<le> 4096 \<Longrightarrow> n \<le> card (range_pages 0x80400000 0x81400000)"
proof -
  assume n: "n \<le> 4096"
  let ?f = "\<lambda>i. 0x80400000 + 4096 * of_nat i :: uint"
  have u: "unat (?f i) = 0x80400000 + 4096 * i" if "i < n" for i
    using that n unat_of_nat32 [of i] by (simp add: unat_word_ariths)
  have "inj_on ?f {..< n}"
  proof (rule inj_onI)
    fix i j assume ij: "i \<in> {..< n}" "j \<in> {..< n}" and eq: "?f i = ?f j"
    have "unat (?f i) = unat (?f j)" by (rule arg_cong [OF eq])
    then have "0x80400000 + 4096 * i = 0x80400000 + 4096 * j" using u [of i] u [of j] ij by (simp only: lessThan_iff)
    then show "i = j" by simp
  qed
  moreover have "?f ` {..< n} \<subseteq> range_pages 0x80400000 0x81400000"
  proof
    fix x assume "x \<in> ?f ` {..< n}"
    then obtain i where i: "i < n" "x = ?f i" by auto
    then have "unat x = 0x80400000 + 4096 * i" using u by simp
    moreover have "(0x80400000 + 4096 * i) mod 4096 = 0" using mod_mult_self2 [of "0x80400000" 4096 i] by simp
    ultimately show "x \<in> range_pages 0x80400000 0x81400000"
      using i(1) n by (simp add: range_pages_def page_aligned_unat word_le_nat_alt)
  qed
  ultimately have "card {..< n} \<le> card (range_pages 0x80400000 0x81400000)"
    by (rule card_inj_on_le) (rule finite)
  then show ?thesis by simp
qed

lemma many_free:
  obtains s :: kmem and ps where "kmem_inv s ps" "length ps \<ge> 4000" "held s = []" "syms s = syms boot_state"
proof -
  have "kmem_inv boot_state []" by (simp add: kmem_inv_def boot_state_def KERNBASE_def)
  moreover have "page_aligned 0x80400000" by (simp add: page_aligned_def PGSIZE_def)
  moreover have "sym_end (syms boot_state) \<le> 0x80400000" "KmemLock \<notin> set (held boot_state)" by (simp_all add: boot_state_def)
  moreover have "unat (0x80400000 :: uint) \<le> 0x8E000000" "unat (0x81400000 :: uint) \<le> 0x8E000000" by simp_all
  moreover have "\<forall>x \<in> set ([] :: uint list). x < 0x80400000" by simp
  ultimately obtain m f xs where "kmem_inv (boot_state\<lparr>mem := m, freelist := f\<rparr>) xs"
    "set xs = set [] \<union> range_pages 0x80400000 0x81400000"
    using freerange_loop_ok [of boot_state "[]" "0x80400000" "0x81400000"] by blast
  then have x: "kmem_inv (boot_state\<lparr>mem := m, freelist := f\<rparr>) xs" "set xs = range_pages 0x80400000 0x81400000" by simp_all
  then have "length xs \<ge> 4000" using range_pages_card [of 4000] distinct_card [of xs] by (simp add: kmem_inv_def)
  with x(1) show ?thesis by (rule that) (simp_all add: boot_state_def)
qed

lemma free_data:
  assumes "syms s = syms boot_state"
  shows "page_aligned (sym_data (syms s))" "KERNLINK < sym_data (syms s)" "V2P (sym_data (syms s)) < PHYSTOP"
  unfolding assms
  by (simp_all add: boot_state_def page_aligned_def PGSIZE_def KERNLINK_def KERNBASE_def EXTMEM_def V2P_def PHYSTOP_def)

text \<open>A process with one page of memory, and many free pages.\<close>

lemma first_page: "va < 0x1000 \<Longrightarrow> PTE_ADDR va = 0"
  using unat_PTE_ADDR [of va] by (simp add: word_less_nat_alt unat_eq_0 [symmetric])

lemma one_page_process:
  obtains s :: kmem and d K ps where "vm_inv s d ps" "length ps \<ge> 2000" "held s = []" "syms s = syms boot_state"
    "parent_ok (sym_end (syms s)) (mem s) d 0x1000 K" "K \<inter> set ps = {}"
    "\<forall>va. PTE_ADDR va \<noteq> 0 \<longrightarrow> mmu_pte (mem s) d va = kernel_pte (sym_data (syms s)) va"
proof -
  obtain r :: kmem and rs where r: "kmem_inv r rs" "length rs \<ge> 4000" "held r = []" "syms r = syms boot_state" by (rule many_free)
  have lk: "KmemLock \<notin> set (held r)" and len: "length rs > 1025" using r by simp_all
  obtain d u us where u: "\<exists>m f. u = r\<lparr>mem := m, freelist := f\<rparr>" "vm_inv u d us" "pool u d us = set rs"
    "mmu_pte (mem u) d = kernel_pte (sym_data (syms r))"
    using setupkvm_ok [OF r(1) lk len free_data [OF r(4)]] by metis
  have same: "held u = []" "syms u = syms boot_state" using u(1) r by auto
  have b: "budget u d us \<ge> 4000" using budget_eq [OF u(2)] u(3) r(1,2) by (simp add: kmem_inv_def distinct_card)
  have pre: "KmemLock \<notin> set (held u)" "budget u d us > 1026" "page_aligned 0" "(0 :: uint) < 0x1000"
    "unat (0x1000 :: uint) \<le> 0x80000000" "mmu_pte (mem u) d 0 = None"
    using same b u(4) by (simp_all add: page_aligned_def kernel_pte_def KERNBASE_def)
  obtain q t ps where t: "vm_run d u us t ps" "q \<in> pool u d us - pool t d ps" "page_aligned q" "budget t d ps + 1 = budget u d us"
    "mmu_pte (mem t) d = (\<lambda>va. if PTE_ADDR va = 0 then Some (V2P q OR 7) else mmu_pte (mem u) d va)"
    by (rule allocuvm_round [OF u(2) pre])
  let ?K = "insert q (own (mem t) d)"
  have inv: "vm_inv t d ps" and same': "held t = []" "syms t = syms boot_state" using t(1) same by (auto simp: vm_run_def)
  have "page_ok (sym_end (syms t)) q" using t(2) u(3) r(1,4) same' by (auto simp: kmem_inv_def)
  moreover have "mmu_pte (mem t) d va = Some (V2P q OR 7)" if "va < 0x1000" for va
    using t(5) first_page [OF that] by simp
  moreover have "P2V (PTE_ADDR (V2P q OR 7)) = q" using PTE_ADDR_or(1) [of "V2P q" 7] t(3) user_flags(3) by simp
  ultimately have "parent_ok (sym_end (syms t)) (mem t) d 0x1000 ?K"
    using inv by (auto simp: parent_ok_def vm_inv_def dir_ok_def)
  moreover have "?K \<inter> set ps = {}" using inv t(2) by (auto simp: vm_inv_def)
  moreover have "length ps \<ge> 2000" using b t(4) own_card [of "mem t" d] by (simp add: budget_def)
  moreover have "\<forall>va. PTE_ADDR va \<noteq> 0 \<longrightarrow> mmu_pte (mem t) d va = kernel_pte (sym_data (syms t)) va"
    using t(5) u(4) same' r(4) by simp
  ultimately show ?thesis using that inv same' by blast
qed

lemma not_first_page: "0x1000 \<le> va \<Longrightarrow> PTE_ADDR va \<noteq> 0"
proof
  assume "0x1000 \<le> va" "PTE_ADDR va = 0"
  then have "4096 \<le> unat va" "unat va div 4096 = 0" using unat_PTE_ADDR [of va] by (simp_all add: word_le_nat_alt)
  then show False by simp
qed

section \<open>Properties\<close>

text \<open>
  C4: \<^verbatim>\<open>copyuvm\<close>, with enough free pages, gives the child a copy of the memory of its parent: every address below \<open>sz\<close> that the
  parent can use the child can use with the same permissions, finds the same byte there, and finds it in a page that belongs neither
  to the parent (\<open>K\<close>) nor to a page table nor to the free list; above \<open>sz\<close> the child has the kernel mappings only, and no byte of the
  parent has changed.  Different pages of the child lie in different pages of memory.
\<close>

theorem copyuvm_copies:
  assumes "kmem_inv s ps" and "KmemLock \<notin> set (held s)" and "length ps > 1025 + pages_from 0 sz"
    and "page_aligned (sym_data (syms s))" and "KERNLINK < sym_data (syms s)" and "V2P (sym_data (syms s)) < PHYSTOP"
    and par: "parent_ok (sym_end (syms s)) (mem s) pgdir sz K" "K \<inter> set ps = {}" and "sz \<le> KERNBASE"
  shows "\<exists>d t qs. copyuvm pgdir sz s = Ok d t \<and> d \<noteq> 0 \<and> vm_inv t d qs
    \<and> (\<forall>va < sz. \<exists>e e' a a'. mmu_pte (mem s) pgdir va = Some e \<and> mmu_pte (mem t) d va = Some e' \<and> PTE_FLAGS e' = PTE_FLAGS e
         \<and> P2V (PTE_ADDR e') \<notin> K \<union> own (mem t) d \<union> set qs
         \<and> mmu_translate (mem s) pgdir va = Some a \<and> mmu_translate (mem t) d va = Some a' \<and> mem t a' = mem s a)
    \<and> (\<forall>va va' e e'. va < sz \<longrightarrow> va' < sz \<longrightarrow> mmu_pte (mem t) d va = Some e \<longrightarrow> mmu_pte (mem t) d va' = Some e'
         \<longrightarrow> PTE_ADDR e = PTE_ADDR e' \<longrightarrow> PTE_ADDR va = PTE_ADDR va')
    \<and> (\<forall>va. sz \<le> PTE_ADDR va \<longrightarrow> mmu_pte (mem t) d va = kernel_pte (sym_data (syms s)) va)
    \<and> (\<forall>p \<in> K. \<forall>a. in_page p a \<longrightarrow> mem t a = mem s a)"
proof -
  obtain d u rs t qs where c: "copyuvm pgdir sz s = Ok d t" "d \<noteq> 0" "vm_inv t d qs" "pool u d rs = set ps"
    "mmu_pte (mem u) d = kernel_pte (sym_data (syms s))" "agree K (mem s) (mem t)"
    "filled (copy_flags (mem s) pgdir) (copy_bytes (mem s) pgdir) d 0 sz u rs t qs"
    by (rule copyuvm_ok [OF assms])
  have user: "fill_range 0 sz va" if "va < sz" for va using that PTE_ADDR_le [of va] by auto
  have page: "\<exists>e e' a a'. mmu_pte (mem s) pgdir va = Some e \<and> mmu_pte (mem t) d va = Some e' \<and> PTE_FLAGS e' = PTE_FLAGS e
         \<and> P2V (PTE_ADDR e') \<notin> K \<union> own (mem t) d \<union> set qs
         \<and> mmu_translate (mem s) pgdir va = Some a \<and> mmu_translate (mem t) d va = Some a' \<and> mem t a' = mem s a" if va: "va < sz" for va
  proof -
    obtain e where e: "mmu_pte (mem s) pgdir va = Some e" using par(1) va by (auto simp: parent_ok_def)
    obtain e' where e': "mmu_pte (mem t) d va = Some e'" "page_filled (copy_flags (mem s) pgdir) (copy_bytes (mem s) pgdir) (mem t) va e'"
      "P2V (PTE_ADDR e') \<in> set ps - pool t d qs" using c(7) user [OF va] unfolding filled_def c(4) by blast
    show ?thesis using copied_address [OF e e'(1,2)] e e'(1,3) par(2) by blast
  qed
  have inj: "PTE_ADDR va = PTE_ADDR va'" if "va < sz" "va' < sz" "mmu_pte (mem t) d va = Some e" "mmu_pte (mem t) d va' = Some e'"
    "PTE_ADDR e = PTE_ADDR e'" for va va' e e'
    using c(7) user that unfolding filled_def by blast
  have above: "mmu_pte (mem t) d va = kernel_pte (sym_data (syms s)) va" if "sz \<le> PTE_ADDR va" for va
    using c(7) that unfolding filled_def c(5) by auto
  show ?thesis using c(1-3,6) page inj above unfolding agree_def by (intro exI conjI) blast+
qed

theorem copyuvm_copies_witness:
  "\<exists>(s :: kmem) pgdir d t. copyuvm pgdir 0x1000 s = Ok d t \<and> d \<noteq> 0
     \<and> (\<forall>va < 0x1000. \<exists>a a'. mmu_translate (mem s) pgdir va = Some a \<and> mmu_translate (mem t) d va = Some a' \<and> mem t a' = mem s a)"
proof -
  obtain s :: kmem and pgdir K ps where s: "vm_inv s pgdir ps" "length ps \<ge> 2000" "held s = []" "syms s = syms boot_state"
    "parent_ok (sym_end (syms s)) (mem s) pgdir 0x1000 K" "K \<inter> set ps = {}"
    by (rule one_page_process)
  have "kmem_inv s ps" "KmemLock \<notin> set (held s)" "length ps > 1025 + pages_from 0 0x1000" "0x1000 \<le> KERNBASE"
    using s(1-3) by (simp_all add: vm_inv_def pages_from_def KERNBASE_def)
  from copyuvm_copies [OF this(1-3) free_data [OF s(4)] s(5,6) this(4)]
  obtain d t where d: "copyuvm pgdir 0x1000 s = Ok d t" "d \<noteq> 0"
    and c: "\<forall>va < 0x1000. \<exists>e e' a a'. mmu_translate (mem s) pgdir va = Some a \<and> mmu_translate (mem t) d va = Some a' \<and> mem t a' = mem s a"
    by (elim exE conjE) meson
  have "\<exists>a a'. mmu_translate (mem s) pgdir va = Some a \<and> mmu_translate (mem t) d va = Some a' \<and> mem t a' = mem s a" if "va < 0x1000" for va
    using c that by blast
  with d show ?thesis by blast
qed

text \<open>
  C17: \<^verbatim>\<open>mappages\<close> maps a range of unmapped pages: either it returns 0, and then the hardware translates exactly the
  addresses of the pages of the range to the consecutive physical pages from \<open>pa\<close> on, with the given
  permissions, and all other addresses as before; or it returns -1, and then there were at most 1024 free pages and none is left.  It keeps the
  invariant of the directory and changes no byte outside of the directory, its tables and the pages that were free.
\<close>

theorem mappages_maps:
  assumes "vm_inv s pgdir ps" and "KmemLock \<notin> set (held s)" and "sz \<noteq> 0" and "unat va + unat sz \<le> 2 ^ 32"
    and "\<forall>x. unat (x - PTE_ADDR va) < 4096 * npages va sz \<longrightarrow> mmu_pte (mem s) pgdir x = None"
  shows "\<exists>r t qs. mappages pgdir va sz pa perm s = Ok r t \<and> vm_inv t pgdir qs
    \<and> (r = 0 \<and> mmu_pte (mem t) pgdir = (\<lambda>x. if unat (x - PTE_ADDR va) < 4096 * npages va sz
          then Some ((pa + (PTE_ADDR x - PTE_ADDR va)) OR perm OR PTE_P) else mmu_pte (mem s) pgdir x)
       \<or> r = - 1 \<and> length ps \<le> 1024 \<and> qs = [])
    \<and> (\<forall>a. (\<forall>p \<in> own (mem s) pgdir \<union> set ps. \<not> in_page p a) \<longrightarrow> mem t a = mem s a)"
proof -
  have "maps (mappages pgdir va sz pa perm) pgdir (PTE_ADDR va) (npages va sz) pa perm s ps"
    using assms by (intro mappages_ok) (simp_all add: unmapped_def)
  then obtain r t qs k where t: "mappages pgdir va sz pa perm s = Ok r t" "vm_step pgdir s ps t qs"
    "mmu_pte (mem t) pgdir = map_range (mmu_pte (mem s) pgdir) (PTE_ADDR va) k pa perm"
    "r = 0 \<and> k = npages va sz \<or> r = - 1 \<and> k < npages va sz \<and> qs = []"
    unfolding maps_def by blast
  have "0 < card (own (mem s) pgdir)" using own_finite by (auto simp: card_gt_0_iff own_def)
  then have "qs = [] \<Longrightarrow> length ps \<le> 1024"
    using vm_step_budget [OF assms(1) t(2)] own_card [of "mem t" pgdir] by (simp add: budget_def)
  then show ?thesis using t by (auto simp: vm_step_def map_range_def fun_eq_iff)
qed

theorem mappages_maps_witness:
  "\<exists>(s :: kmem) d t. mappages d 0x1000 0x2000 0x5000 PTE_W s = Ok 0 t
     \<and> mmu_pte (mem s) d 0x2000 = None \<and> mmu_pte (mem t) d 0x2000 = Some 0x6003 \<and> mmu_pte (mem t) d 0x3000 = None"
proof -
  obtain s :: kmem and d K ps where s: "vm_inv s d ps" "length ps \<ge> 2000" "held s = []"
    "\<forall>va. PTE_ADDR va \<noteq> 0 \<longrightarrow> mmu_pte (mem s) d va = kernel_pte (sym_data (syms s)) va"
    by (rule one_page_process)
  have none: "mmu_pte (mem s) d x = None" if "0x1000 \<le> x" "x < KERNBASE" for x
    using s(4) not_first_page [OF that(1)] that(2) by (simp add: kernel_pte_def)
  have n: "npages 0x1000 0x2000 = 2" "PTE_ADDR 0x1000 = 0x1000" by (simp_all add: npages_def PTE_ADDR_def)
  have "mmu_pte (mem s) d x = None" if "unat (x - 0x1000) < 4096 * 2" for x
    using that none [of x] unat_less_32 [of x] by (auto simp: unat_sub_uint word_le_nat_alt word_less_nat_alt layout_unat split: if_splits)
  then have "\<exists>r t qs. mappages d 0x1000 0x2000 0x5000 PTE_W s = Ok r t \<and> vm_inv t d qs
    \<and> (r = 0 \<and> mmu_pte (mem t) d = (\<lambda>x. if unat (x - PTE_ADDR 0x1000) < 4096 * npages 0x1000 0x2000
          then Some ((0x5000 + (PTE_ADDR x - PTE_ADDR 0x1000)) OR PTE_W OR PTE_P) else mmu_pte (mem s) d x)
       \<or> r = - 1 \<and> length ps \<le> 1024 \<and> qs = [])
    \<and> (\<forall>a. (\<forall>p \<in> own (mem s) d \<union> set ps. \<not> in_page p a) \<longrightarrow> mem t a = mem s a)"
    using s(1,3) by (intro mappages_maps) (simp_all add: n)
  then show ?thesis using s(2) none [of "0x2000"] none [of "0x3000"]
    by (force simp: n PTE_ADDR_def PTE_W_def PTE_P_def KERNBASE_def)
qed

text \<open>
  \<^verbatim>\<open>setupkvm\<close> with enough free pages returns a new page directory in which exactly the kernel addresses are mapped: those of physical
  memory to themselves minus \<^verbatim>\<open>KERNBASE\<close>, writable except for the kernel text, the device addresses directly, and no user
  address at all.
\<close>

theorem setupkvm_maps_kernel:
  assumes "kmem_inv s ps" and "KmemLock \<notin> set (held s)" and "length ps > 1025"
    and "page_aligned (sym_data (syms s))" and "KERNLINK < sym_data (syms s)" and "V2P (sym_data (syms s)) < PHYSTOP"
  shows "\<exists>d t qs. setupkvm s = Ok d t \<and> d \<noteq> 0 \<and> vm_inv t d qs \<and> own (mem t) d \<union> set qs = set ps
    \<and> (\<forall>va. mmu_pte (mem t) d va =
         (if va < KERNBASE then None
          else if V2P va < PHYSTOP then
            Some (V2P (PTE_ADDR va) OR (if KERNLINK \<le> va \<and> va < sym_data (syms s) then 0 else PTE_W) OR PTE_P)
          else if va < DEVSPACE then None
          else Some (PTE_ADDR va OR PTE_W OR PTE_P)))"
proof -
  obtain d t qs where d: "setupkvm s = Ok d t" "\<exists>m f. t = s\<lparr>mem := m, freelist := f\<rparr>" "vm_inv t d qs"
    "own (mem t) d \<union> set qs = set ps" "mmu_pte (mem t) d = kernel_pte (sym_data (syms s))"
    using setupkvm_ok [OF assms] by metis
  have "d \<noteq> 0" using d(3) page_ok_nonzero by (auto simp: vm_inv_def kmem_inv_def dir_ok_def own_def)
  then show ?thesis using d by (auto simp: kernel_pte_def)
qed

theorem setupkvm_maps_kernel_witness:
  "\<exists>(s :: kmem) d t. setupkvm s = Ok d t \<and> mmu_pte (mem t) d 0x80100123 = Some 0x100001
     \<and> mmu_pte (mem t) d 0x80108000 = Some 0x108003 \<and> mmu_pte (mem t) d 0x7FFFF000 = None"
proof -
  obtain s :: kmem and ps where s: "kmem_inv s ps" "length ps \<ge> 4000" "held s = []" "syms s = syms boot_state" by (rule many_free)
  have lk: "KmemLock \<notin> set (held s)" "length ps > 1025" using s by simp_all
  have d: "sym_data (syms s) = 0x80108000" unfolding s(4) by (simp add: boot_state_def)
  show ?thesis using setupkvm_maps_kernel [OF s(1) lk free_data [OF s(4)]]
    by (force simp: d V2P_def KERNBASE_def PHYSTOP_def KERNLINK_def EXTMEM_def DEVSPACE_def PTE_ADDR_def PTE_W_def PTE_P_def)
qed

text \<open>
  C18: \<^verbatim>\<open>allocuvm\<close>, with enough free pages, returns the new size and gives the process its new pages: each address from the
  first page after \<open>oldsz\<close> up to \<open>newsz\<close> is mapped for the user, readable and writable, to a page of its own
  that is neither free nor part of a page table and holds zeros only.  No other address is mapped differently, and no page that was
  neither free nor part of the page table is changed.
\<close>

theorem allocuvm_gives_zeroed_pages:
  assumes inv: "vm_inv s d ps" and lk: "KmemLock \<notin> set (held s)" and sz: "oldsz \<le> newsz" "newsz < KERNBASE"
    and b: "length ps > 1025 + pages_from (PGROUNDUP oldsz) newsz"
    and none: "\<forall>va. fill_range (PGROUNDUP oldsz) newsz va \<longrightarrow> mmu_pte (mem s) d va = None"
  shows "\<exists>t qs. allocuvm d oldsz newsz s = Ok newsz t \<and> vm_inv t d qs
    \<and> (\<forall>va. fill_range (PGROUNDUP oldsz) newsz va \<longrightarrow> (\<exists>e. mmu_pte (mem t) d va = Some e \<and> PTE_FLAGS e = PTE_P OR PTE_W OR PTE_U
         \<and> P2V (PTE_ADDR e) \<notin> own (mem t) d \<union> set qs \<and> (\<forall>k < PGSIZE. mem t (P2V (PTE_ADDR e) + k) = 0)))
    \<and> (\<forall>va va' e e'. fill_range (PGROUNDUP oldsz) newsz va \<longrightarrow> fill_range (PGROUNDUP oldsz) newsz va' \<longrightarrow>
         mmu_pte (mem t) d va = Some e \<longrightarrow> mmu_pte (mem t) d va' = Some e' \<longrightarrow> PTE_ADDR e = PTE_ADDR e' \<longrightarrow> PTE_ADDR va = PTE_ADDR va')
    \<and> (\<forall>va. \<not> fill_range (PGROUNDUP oldsz) newsz va \<longrightarrow> mmu_pte (mem t) d va = mmu_pte (mem s) d va)
    \<and> (\<forall>a. (\<forall>p \<in> own (mem s) d \<union> set ps. \<not> in_page p a) \<longrightarrow> mem t a = mem s a)"
proof -
  have "unat newsz \<le> 0x80000000" using sz(2) by (simp add: word_less_nat_alt layout_unat)
  moreover have "budget s d ps > 1025 + pages_from (PGROUNDUP oldsz) newsz" using b by (simp add: budget_def)
  ultimately obtain t qs where t: "allocuvm_loop d (PGROUNDUP oldsz) oldsz newsz s = Ok newsz t" "vm_run d s ps t qs"
    "filled (\<lambda>_. 7) (\<lambda>_ _. 0) d (PGROUNDUP oldsz) newsz s ps t qs"
    using allocuvm_loop_ok [OF inv lk _ PGROUNDUP_aligned] none by blast
  have "\<not> newsz < oldsz" "\<not> KERNBASE \<le> newsz" using sz by auto
  then have "allocuvm d oldsz newsz s = Ok newsz t" using t(1) by (simp add: allocuvm_def)
  moreover have "PTE_P OR PTE_W OR PTE_U = 7" by (simp add: PTE_P_def PTE_W_def PTE_U_def)
  ultimately show ?thesis using t(2,3) unfolding vm_run_def filled_def page_filled_def by (intro exI [of _ t] exI [of _ qs]) auto
qed

theorem allocuvm_gives_zeroed_pages_witness:
  "\<exists>(s :: kmem) d t. allocuvm d 0x1000 0x2800 s = Ok 0x2800 t
     \<and> (\<forall>va. 0x1000 \<le> PTE_ADDR va \<and> PTE_ADDR va < 0x2800 \<longrightarrow> (\<exists>a. mmu_translate (mem t) d va = Some a \<and> mem t a = 0))"
proof -
  obtain s :: kmem and d K ps where s: "vm_inv s d ps" "length ps \<ge> 2000" "held s = []"
    "\<forall>va. PTE_ADDR va \<noteq> 0 \<longrightarrow> mmu_pte (mem s) d va = kernel_pte (sym_data (syms s)) va"
    by (rule one_page_process)
  have r: "PGROUNDUP 0x1000 = 0x1000" by (simp add: PGROUNDUP_def PGSIZE_def)
  have "mmu_pte (mem s) d va = None" if "fill_range 0x1000 0x2800 va" for va
  proof -
    have "PTE_ADDR va \<noteq> 0" "va < KERNBASE" using that below_kernbase [of va "0x2800"] by (auto simp: KERNBASE_def)
    then show ?thesis using s(4) by (simp add: kernel_pte_def)
  qed
  then obtain t where t: "allocuvm d 0x1000 0x2800 s = Ok 0x2800 t"
    "\<forall>va. fill_range 0x1000 0x2800 va \<longrightarrow> (\<exists>e. mmu_pte (mem t) d va = Some e \<and> (\<forall>k < PGSIZE. mem t (P2V (PTE_ADDR e) + k) = 0))"
    using allocuvm_gives_zeroed_pages [OF s(1), of "0x1000" "0x2800"] s(2,3) unfolding r
    by (auto simp: pages_from_def KERNBASE_def) blast
  have "\<exists>a. mmu_translate (mem t) d va = Some a \<and> mem t a = 0" if "fill_range 0x1000 0x2800 va" for va
    using t(2) that PTE_FLAGS_less [of va] by (auto simp: mmu_translate_def PTE_FLAGS_def)
  with t(1) show ?thesis by blast
qed

end
