(* ===== verification/Syscall.thy ===== *)
theory Syscall
  imports Proc_Inv
begin

text \<open>
  The arguments of system calls (\<^verbatim>\<open>syscall.c\<close>) and the system calls on processes (\<^verbatim>\<open>sysproc.c\<close>,
  \<^verbatim>\<open>wolfie.c\<close>), with the clock tick of \<^verbatim>\<open>trap.c\<close>.  The kernel reads and writes user memory through the
  page table of the running process; an address that is not mapped traps in the kernel, which panics.
  A result of -1 of the argument routines is \<open>None\<close>.
\<close>

section \<open>User memory\<close>

definition uaddr :: "uint \<Rightarrow> (uint, 'z kproc_scheme) M" where
  "uaddr a = (\<lambda>s. case mmu_translate (mem s) (P2V (cr3 s)) a of None \<Rightarrow> Panic ''trap'' | Some k \<Rightarrow> Ok k s)"

definition uload :: "uint \<Rightarrow> (uchar, 'z kproc_scheme) M" where
  "uload a = kbind (uaddr a) (\<lambda>k. kget (\<lambda>s. mem s k))"

definition uload32 :: "uint \<Rightarrow> (uint, 'z kproc_scheme) M" where
  "uload32 a =
     kbind (uload a) (\<lambda>b0. kbind (uload (a + 1)) (\<lambda>b1. kbind (uload (a + 2)) (\<lambda>b2. kbind (uload (a + 3)) (\<lambda>b3.
     kret ((ucast b0 :: uint) OR push_bit 8 (ucast b1) OR push_bit 16 (ucast b2) OR push_bit 24 (ucast b3))))))"

primrec uload_bytes :: "nat \<Rightarrow> uint \<Rightarrow> (uchar list, 'z kproc_scheme) M" where
  "uload_bytes 0 a = kret []"
| "uload_bytes (Suc n) a = kbind (uload a) (\<lambda>b. kbind (uload_bytes n (a + 1)) (\<lambda>bs. kret (b # bs)))"

text \<open>A write also needs the page to be writable (the kernel runs with CR0_WP).\<close>

definition ustore :: "uint \<Rightarrow> uchar \<Rightarrow> (unit, 'z kproc_scheme) M" where
  "ustore a v = (\<lambda>s. case mmu_pte (mem s) (P2V (cr3 s)) a of
     None \<Rightarrow> Panic ''trap''
   | Some e \<Rightarrow> if e AND PTE_W = 0 then Panic ''trap''
              else Ok () (s\<lparr>mem := (mem s)(P2V (PTE_ADDR e) + (a AND 0xFFF) := v)\<rparr>))"

primrec ustore_bytes :: "uint \<Rightarrow> uchar list \<Rightarrow> (unit, 'z kproc_scheme) M" where
  "ustore_bytes a [] = kret ()"
| "ustore_bytes a (x # xs) = kseq (ustore a x) (ustore_bytes (a + 1) xs)"

section \<open>Arguments\<close>

definition mysz :: "(uint, 'z kproc_scheme) M" where
  "mysz = kbind myproc (\<lambda>c. kbind (getp c) (\<lambda>p. kret (p_sz p)))"

definition fetchint :: "uint \<Rightarrow> (uint option, 'z kproc_scheme) M" where
  "fetchint addr =
     kbind mysz (\<lambda>sz.
     if addr \<ge> sz \<or> addr + 4 > sz then kret None
     else kbind (uload32 addr) (\<lambda>v. kret (Some v)))"

text \<open>The loop of \<^verbatim>\<open>fetchstr\<close>: the bytes from \<open>s\<close> up to the NUL, if there is one before \<open>ep\<close>.\<close>

function fetchstr_loop :: "uint \<Rightarrow> uint \<Rightarrow> (uchar list option, 'z kproc_scheme) M" where
  "fetchstr_loop s ep =
     (if s < ep then
        kbind (uload s) (\<lambda>c.
        if c = 0 then kret (Some [])
        else kbind (fetchstr_loop (s + 1) ep) (\<lambda>r. kret (map_option (Cons c) r)))
      else kret None)"
  by pat_completeness auto
termination
proof (relation "measure (\<lambda>(s, ep). unat ep - unat s)", simp, clarsimp)
  fix s ep :: uint
  assume lt: "s < ep"
  then have "unat s + 1 < 4294967296" using unat_less_32 [of ep] by (simp add: word_less_nat_alt)
  then have "unat (s + 1) = unat s + 1" using unat_add_lt [of s 1] by simp
  with lt show "unat ep - unat (s + 1) < unat ep - unat s" by (simp add: word_less_nat_alt)
qed

declare fetchstr_loop.simps [simp del]

definition fetchstr :: "uint \<Rightarrow> (uchar list option, 'z kproc_scheme) M" where
  "fetchstr addr =
     kbind mysz (\<lambda>sz. if addr \<ge> sz then kret None else fetchstr_loop addr sz)"

definition TF_EAX :: uint where "TF_EAX = 28"
definition TF_TRAPNO :: uint where "TF_TRAPNO = 48"
definition TF_ERR :: uint where "TF_ERR = 52"
definition TF_EIP :: uint where "TF_EIP = 56"
definition TF_CS :: uint where "TF_CS = 60"
definition TF_ESP :: uint where "TF_ESP = 68"

definition mytf :: "uint \<Rightarrow> (uint, 'z kproc_scheme) M" where
  "mytf off = kbind myproc (\<lambda>c. kbind (getp c) (\<lambda>p. kget (\<lambda>s. load32 (mem s) (p_tf p + off))))"

definition argint :: "uint \<Rightarrow> (uint option, 'z kproc_scheme) M" where
  "argint n = kbind (mytf TF_ESP) (\<lambda>esp. fetchint (esp + 4 + 4 * n))"

text \<open>\<open>sz\<close> is an int.\<close>

definition argptr :: "uint \<Rightarrow> uint \<Rightarrow> (uint option, 'z kproc_scheme) M" where
  "argptr n size_arg =
     kbind (argint n) (\<lambda>r. case r of
       None \<Rightarrow> kret None
     | Some i \<Rightarrow>
         kbind mysz (\<lambda>sz.
         if size_arg <s 0 \<or> i \<ge> sz \<or> i + size_arg > sz then kret None else kret (Some i)))"

definition argstr :: "uint \<Rightarrow> (uchar list option, 'z kproc_scheme) M" where
  "argstr n = kbind (argint n) (\<lambda>r. case r of None \<Rightarrow> kret None | Some addr \<Rightarrow> fetchstr addr)"

section \<open>System calls on processes\<close>

text \<open>The value of a system call is the int that goes to \<open>%eax\<close>.\<close>

definition sys_wait :: "(int, 'z kproc_scheme) M" where
  "sys_wait = wait"

definition sys_kill :: "(int, 'z kproc_scheme) M" where
  "sys_kill = kbind (argint 0) (\<lambda>r. case r of None \<Rightarrow> kret (- 1) | Some pid \<Rightarrow> kill (sint pid))"

definition sys_getpid :: "(int, 'z kproc_scheme) M" where
  "sys_getpid = kbind myproc (\<lambda>c. kbind (getp c) (\<lambda>p. kret (p_pid p)))"

definition sys_sbrk :: "(int, 'z kproc_scheme) M" where
  "sys_sbrk =
     kbind (argint 0) (\<lambda>r. case r of
       None \<Rightarrow> kret (- 1)
     | Some n \<Rightarrow>
         kbind mysz (\<lambda>addr.
         kbind (growproc n) (\<lambda>g. if g < 0 then kret (- 1) else kret (sint addr))))"

text \<open>
  The loop of \<^verbatim>\<open>sys_sleep\<close>, with \<^verbatim>\<open>tickslock\<close> held; it is run again, from \<open>sys_sleep_return\<close>, each time
  the process is woken up.
\<close>

definition sys_sleep_loop :: "uint \<Rightarrow> uint \<Rightarrow> (int, 'z kproc_scheme) M" where
  "sys_sleep_loop n ticks0 =
     kbind (kget ticks) (\<lambda>now.
     if now - ticks0 < n then
       kbind myproc (\<lambda>c. kbind (getp c) (\<lambda>p.
       if p_killed p then kseq (release TicksLock) (kret (- 1))
       else sleep ChTicks TicksLock))
     else kseq (release TicksLock) (kret 0))"

definition sys_sleep :: "(int, 'z kproc_scheme) M" where
  "sys_sleep =
     kbind (argint 0) (\<lambda>r. case r of
       None \<Rightarrow> kret (- 1)
     | Some n \<Rightarrow>
         kseq (acquire TicksLock)
        (kbind (kget ticks) (\<lambda>ticks0. sys_sleep_loop n ticks0)))"

definition sys_sleep_return :: "nat \<Rightarrow> uint \<Rightarrow> uint \<Rightarrow> (int, 'z kproc_scheme) M" where
  "sys_sleep_return c n ticks0 = kseq (sleep_return c TicksLock) (sys_sleep_loop n ticks0)"

definition sys_uptime :: "(int, 'z kproc_scheme) M" where
  "sys_uptime =
     kseq (acquire TicksLock)
    (kbind (kget ticks) (\<lambda>xticks.
     kseq (release TicksLock) (kret (sint xticks))))"

text \<open>
  \<^verbatim>\<open>struct uproc\<close>: pid, name[16], state.  The variable \<open>tmp\<close> of \<^verbatim>\<open>sys_getprocs\<close> is not initialised, and
  \<^verbatim>\<open>safestrcpy\<close> leaves the bytes of its name after the NUL as they are; \<open>tmp\<close> is their value.
\<close>

definition UPROC_SIZE :: uint where "UPROC_SIZE = 24"

fun state_num :: "procstate \<Rightarrow> uint" where
  "state_num UNUSED = 0"
| "state_num EMBRYO = 1"
| "state_num SLEEPING = 2"
| "state_num RUNNABLE = 3"
| "state_num RUNNING = 4"
| "state_num ZOMBIE = 5"

definition uproc_bytes :: "proc \<Rightarrow> uchar list \<Rightarrow> uchar list" where
  "uproc_bytes p nm = word_bytes (of_int (p_pid p)) @ nm @ word_bytes (state_num (p_state p))"

primrec getprocs_loop :: "nat list \<Rightarrow> uint \<Rightarrow> int \<Rightarrow> int \<Rightarrow> uchar list \<Rightarrow> (int, 'z kproc_scheme) M" where
  "getprocs_loop [] ubuf mx i tmp = kret i"
| "getprocs_loop (j # js) ubuf mx i tmp =
     (if i < mx then
        kbind (getp j) (\<lambda>p.
        if p_state p = UNUSED then getprocs_loop js ubuf mx i tmp
        else
          kbind (kopt (safestrcpy tmp (p_name p) 16)) (\<lambda>nm.
          kseq (ustore_bytes (ubuf + UPROC_SIZE * of_int i) (uproc_bytes p nm))
               (getprocs_loop js ubuf mx (i + 1) nm)))
      else kret i)"

definition sys_getprocs :: "uchar list \<Rightarrow> (int, 'z kproc_scheme) M" where
  "sys_getprocs tmp =
     kbind (argint 1) (\<lambda>r. case r of
       None \<Rightarrow> kret (- 1)
     | Some mx \<Rightarrow>
         if sint mx \<le> 0 then kret (- 1)
         else
           kbind (argptr 0 (mx * UPROC_SIZE)) (\<lambda>r. case r of
             None \<Rightarrow> kret (- 1)
           | Some ubuf \<Rightarrow>
               kseq (acquire PtableLock)
              (kbind (getprocs_loop [0..<NPROC] ubuf (sint mx) 0 tmp) (\<lambda>i.
               kseq (release PtableLock) (kret i)))))"

definition sys_getstats :: "(int, 'z kproc_scheme) M" where
  "sys_getstats =
     kbind (argint 0) (\<lambda>r. case r of
       None \<Rightarrow> kret (- 1)
     | Some pid \<Rightarrow>
         kbind (argptr 1 20) (\<lambda>r. case r of
           None \<Rightarrow> kret (- 1)
         | Some a \<Rightarrow> getstats (sint pid) a))"

definition sys_setpriority :: "(int, 'z kproc_scheme) M" where
  "sys_setpriority =
     kbind (argint 0) (\<lambda>r. case r of
       None \<Rightarrow> kret (- 1)
     | Some pid \<Rightarrow>
         kbind (argint 1) (\<lambda>r. case r of
           None \<Rightarrow> kret (- 1)
         | Some n \<Rightarrow> setpriority (sint pid) (sint n)))"

definition wolfie :: "uchar list" where
  "wolfie = lit (
     ''          .     .  .      .'' @ [CHR 0x0A] @
     ''     _     )'' @ [CHR 0x5C] @ ''.-.  )'' @ [CHR 0x5C] @ ''.-.  )'' @ [CHR 0x5C] @ ''.-.'' @ [CHR 0x0A] @
     ''    ( '' @ [CHR 0x60] @ ''-._/  '' @ [CHR 0x60] @ ''-'' @ [CHR 0x27] @ ''_/  '' @ [CHR 0x60] @ ''-''
       @ [CHR 0x27] @ ''_/  '' @ [CHR 0x60] @ ''-'' @ [CHR 0x27, CHR 0x0A] @
     ''     '' @ [CHR 0x60] @ ''--.__.-.__.-.__.-.__.-'' @ [CHR 0x27, CHR 0x0A] @
     ''          /     _     _     '' @ [CHR 0x5C, CHR 0x0A] @
     ''         /      (o)   (o)    '' @ [CHR 0x5C, CHR 0x0A] @
     ''        (     .--.     .--.   )'' @ [CHR 0x0A] @
     ''         '' @ [CHR 0x5C] @ ''   (    '' @ [CHR 0x5C] @ ''___/    ) /'' @ [CHR 0x0A] @
     ''          '' @ [CHR 0x27] @ ''.  '' @ [CHR 0x27] @ ''._       _.'' @ [CHR 0x27] @ '' .'' @ [CHR 0x27, CHR 0x0A] @
     ''            '' @ [CHR 0x27] @ ''-.__'' @ [CHR 0x22] @ ''-----'' @ [CHR 0x22] @ ''__.-'' @ [CHR 0x27, CHR 0x0A] @
     ''                 ~  WOLFIE  ~'' @ [CHR 0x0A])"

definition sys_wolfie :: "(int, 'z kproc_scheme) M" where
  "sys_wolfie =
     kbind (argptr 0 4) (\<lambda>r. case r of
       None \<Rightarrow> kret (- 1)
     | Some buf \<Rightarrow>
         kbind (argint 1) (\<lambda>r. case r of
           None \<Rightarrow> kret (- 1)
         | Some sz \<Rightarrow>
             (let n = of_nat (length wolfie) in
              if buf = 0 \<or> sz < n then kret (- 1)
              else
                kbind mysz (\<lambda>psz.
                if buf \<ge> psz \<or> buf + n > psz then kret (- 1)
                else kseq (ustore_bytes buf wolfie) (kret (int (length wolfie)))))))"

section \<open>The clock\<close>

text \<open>The timer interrupt on the first CPU, up to the decision to yield.\<close>

definition timer_tick :: "(unit, 'z kproc_scheme) M" where
  "timer_tick =
     kseq (acquire TicksLock)
    (kseq (kmod (\<lambda>s. s\<lparr>ticks := ticks s + 1\<rparr>))
    (kseq (wakeup ChTicks)
    (kbind (kget curproc) (\<lambda>c.
     kseq (case c of
             None \<Rightarrow> kret ()
           | Some i \<Rightarrow> updp i (\<lambda>p. if p_state p = RUNNING then p\<lparr>p_run_time := p_run_time p + 1\<rparr> else p))
          (release TicksLock)))))"

section \<open>Reading user memory changes nothing\<close>

interpretation ro: state_frame "(=)"
  by standard auto

lemma uaddr_ro: "kframe (=) (uaddr a)"
  by (auto simp: kframe_def uaddr_def split: option.splits)

lemma uload_ro: "kframe (=) (uload a)"
  unfolding uload_def by (intro ro.frame uaddr_ro)

lemma uload32_ro: "kframe (=) (uload32 a)"
  unfolding uload32_def by (intro ro.frame uload_ro)

lemma getp_ro: "kframe (=) (getp i)"
  by (auto simp: kframe_def krun)

lemma myproc_ro: "kframe (=) myproc"
  unfolding myproc_def by (intro ro.frame)

lemmas ro_frames = ro.frame uload_ro uload32_ro getp_ro myproc_ro

lemma mysz_ro: "kframe (=) mysz"
  unfolding mysz_def by (intro ro_frames)

lemma argint_ro: "kframe (=) (argint n)"
  unfolding argint_def fetchint_def mytf_def by (intro ro_frames mysz_ro)

lemma fetchstr_loop_ro: "kframe (=) (fetchstr_loop a ep)"
proof (induction a ep rule: fetchstr_loop.induct)
  case (1 a ep)
  show ?case unfolding fetchstr_loop.simps [of a ep] by (intro ro_frames 1)
qed

lemma argstr_ro: "kframe (=) (argstr n)"
  unfolding argstr_def fetchstr_def
  by (intro ro_frames argint_ro) (auto split: option.split intro!: ro_frames mysz_ro fetchstr_loop_ro)

lemma mysz_run:
  "curproc s = Some c \<Longrightarrow> c < length (procs (ptable s)) \<Longrightarrow> mysz s = Ok (p_sz (procs (ptable s) ! c)) s"
  by (simp add: mysz_def krun)

lemma argptr_run:
  assumes "curproc s = Some c" and "c < length (procs (ptable s))" and "argint n s = Ok (Some i) s"
  shows "argptr n k s = Ok (if k <s 0 \<or> i \<ge> p_sz (procs (ptable s) ! c) \<or> i + k > p_sz (procs (ptable s) ! c)
           then None else Some i) s"
  using assms by (simp add: argptr_def krun mysz_run)

lemma timer_ticks_run:
  fixes s :: "'z kproc_scheme" and "is" :: "nat list"
  assumes "curproc s = Some c" "c < length (procs (ptable s))" "p_state (procs (ptable s) ! c) = RUNNING"
    "held s = []"
  shows "\<exists>t. kfor is (\<lambda>_. timer_tick) s = Ok () t \<and> ticks t = ticks s + of_nat (length is)
      \<and> length (procs (ptable t)) = length (procs (ptable s)) \<and> held t = [] \<and> curproc t = Some c
      \<and> (procs (ptable t) ! c) =
          (procs (ptable s) ! c)\<lparr>p_run_time := p_run_time (procs (ptable s) ! c) + of_nat (length is)\<rparr>"
  using assms
proof (induction "is" arbitrary: s)
  case Nil
  then show ?case by (simp add: krun)
next
  case (Cons i "is")
  let ?pt = "(ptable s)\<lparr>procs := map (wakeup_proc ChTicks) (procs (ptable s))\<rparr>"
  let ?s = "s\<lparr>ticks := ticks s + 1, ptable :=
    ptable_upd c (\<lambda>p. if p_state p = RUNNING then p\<lparr>p_run_time := p_run_time p + 1\<rparr> else p) ?pt\<rparr>"
  have tick: "timer_tick s = Ok () ?s"
    using Cons.prems by (simp add: timer_tick_def wakeup_def wakeup1_def krun)
  have "procs (ptable ?s) ! c = (procs (ptable s) ! c)\<lparr>p_run_time := p_run_time (procs (ptable s) ! c) + 1\<rparr>"
    using Cons.prems by (simp add: ptable_upd_nth wakeup_proc_def)
  with Cons.IH [of ?s] Cons.prems tick show ?case by (fastforce simp: krun)
qed

section \<open>Properties\<close>

text \<open>
  C28: A pointer argument that \<^verbatim>\<open>argptr\<close> accepts for \<open>k\<close> bytes lies with all of them inside the memory of the
  process, below its size; the sum in the check does not wrap around, because a process ends below the
  kernel.  The call changes nothing.
\<close>

theorem argptr_in_bounds:
  assumes run: "argptr n k s = Ok (Some i) t" and c: "curproc s = Some c" "c < length (procs (ptable s))"
    and sz: "p_sz (procs (ptable s) ! c) \<le> KERNBASE"
  shows "t = s \<and> 0 \<le> sint k \<and> uint i + sint k \<le> uint (p_sz (procs (ptable s) ! c))"
proof -
  obtain r where arg: "argint n s = Ok r s"
    using run kframe_no_swtch [OF argint_ro [of n], of s] kframeD [OF argint_ro [of n], of s]
    by (cases "argint n s") (auto simp: argptr_def krun)
  with run obtain j where r: "r = Some j" by (cases r) (auto simp: argptr_def krun)
  let ?sz = "p_sz (procs (ptable s) ! c)"
  have ok: "\<not> k <s 0" "i < ?sz" "i + k \<le> ?sz" "t = s"
    using run argptr_run [OF c, of n j k] arg r by (auto split: if_splits simp: not_le not_less)
  have k: "0 \<le> sint k" using ok(1) by (simp add: word_sless_alt)
  then have "uint k = sint k" by (simp add: uint_sint take_bit_int_eq_self_iff sint_less [of k, simplified] order.strict_trans [OF sint_less [of k, simplified]])
  moreover have "uint i + uint k < 2 ^ 32"
    using ok(2) sz k sint_less [of k] calculation by (simp add: word_less_def word_le_def KERNBASE_def)
  ultimately have "uint (i + k) = uint i + sint k" using k
    by (simp add: uint_word_ariths mod_pos_pos_trivial)
  then show ?thesis using ok k by (simp add: word_le_def)
qed

text \<open>A process of \<open>sz\<close> bytes with the page at its address 4096, where its stack holds the argument 4100.\<close>

definition user_state :: "uint \<Rightarrow> kproc" where
  "user_state sz = kproc0\<lparr>ptable := ptable0\<lparr>procs := [proc0\<lparr>p_state := RUNNING, p_pid := 1, p_priority := 16,
       p_sz := sz, p_pgdir := 0x80201000, p_tf := 0x80205000\<rparr>]\<rparr>,
     curproc := Some 0, cr3 := 0x201000,
     mem := store32 (store32 (store32 (store32 (\<lambda>_. 0) 0x80201000 0x00202007) 0x80202004 0x00203007)
       0x80205044 4096) 0x80203004 4100\<rparr>"

lemma user_state_argint:
  assumes "sz = 8192 \<or> sz = 4108"
  shows "argint 0 (user_state sz) = Ok (Some 4100) (user_state sz)"
proof -
  have "case argint 0 (user_state 8192) of Ok r t \<Rightarrow> r = Some 4100 | _ \<Rightarrow> False"
    "case argint 0 (user_state 4108) of Ok r t \<Rightarrow> r = Some 4100 | _ \<Rightarrow> False"
    by code_simp+
  with assms obtain t where "argint 0 (user_state sz) = Ok (Some 4100) t" by (auto split: outcome.splits)
  then show ?thesis using kframeD [OF argint_ro] by blast
qed

lemma user_state_fields:
  "curproc (user_state sz) = Some 0" "0 < length (procs (ptable (user_state sz)))"
  "p_sz (procs (ptable (user_state sz)) ! 0) = sz"
  by (simp_all add: user_state_def)

theorem argptr_in_bounds_witness:
  "argptr 0 4092 (user_state 8192) = Ok (Some 4100) (user_state 8192)
   \<and> uint (4100 :: uint) + sint (4092 :: uint) \<le> 8192"
proof -
  note c = user_state_fields(1,2) [of 8192]
  have run: "argptr 0 4092 (user_state 8192) = Ok (Some 4100) (user_state 8192)"
    using argptr_run [OF c user_state_argint, of 4092] by (simp add: user_state_fields word_sless_alt)
  show ?thesis using argptr_in_bounds [OF run c] run by (simp add: user_state_fields KERNBASE_def)
qed



text \<open>
  C29: The running time of a process counts every tick twice: while the process runs, \<^verbatim>\<open>trap\<close> adds one for
  each timer interrupt, and when it gives up the CPU the scheduler adds the whole time since it was
  scheduled.  After \<open>k\<close> ticks since it was scheduled its \<^verbatim>\<open>run_time\<close> has grown by \<open>2 * k\<close>.
\<close>

theorem run_time_counted_twice:
  fixes s :: "'z kproc_scheme"
  assumes c: "curproc s = Some c" "c < length (procs (ptable s))" "p_state (procs (ptable s) ! c) = RUNNING"
    and sch: "p_last_scheduled (procs (ptable s) ! c) = ticks s" "ticks s \<noteq> 0"
    and lk: "held s = []"
  shows "\<exists>t u. kfor [0..<k] (\<lambda>_. timer_tick) s = Ok () t \<and> ticks t = ticks s + of_nat k
     \<and> scheduler_return c (t\<lparr>held := [PtableLock]\<rparr>) = Ok () u
     \<and> p_run_time (procs (ptable u) ! c) = p_run_time (procs (ptable s) ! c) + 2 * of_nat k"
proof -
  from timer_ticks_run [OF c lk, of "[0..<k]"] obtain t where t: "kfor [0..<k] (\<lambda>_. timer_tick) s = Ok () t"
    "ticks t = ticks s + of_nat k" "length (procs (ptable t)) = length (procs (ptable s))"
    "procs (ptable t) ! c = (procs (ptable s) ! c)\<lparr>p_run_time := p_run_time (procs (ptable s) ! c) + of_nat k\<rparr>"
    by auto
  have "\<exists>u. scheduler_return c (t\<lparr>held := [PtableLock]\<rparr>) = Ok () u
     \<and> p_run_time (procs (ptable u) ! c) = p_run_time (procs (ptable s) ! c) + 2 * of_nat k"
    using c sch t by (simp add: scheduler_return_def switchkvm_def krun ptable_upd_nth)
  with t show ?thesis by blast
qed

theorem run_time_counted_twice_witness:
  "\<exists>t u. kfor [0..<10] (\<lambda>_. timer_tick) (kproc3\<lparr>curproc := Some 0, ticks := 7,
        ptable := ptable_upd 0 (\<lambda>p. p\<lparr>p_state := RUNNING, p_last_scheduled := 7\<rparr>) (ptable kproc3)\<rparr>) = Ok () t
     \<and> scheduler_return 0 (t\<lparr>held := [PtableLock]\<rparr>) = Ok () u \<and> p_run_time (procs (ptable u) ! 0) = 20"
proof -
  let ?s = "kproc3\<lparr>curproc := Some 0, ticks := 7,
        ptable := ptable_upd 0 (\<lambda>p. p\<lparr>p_state := RUNNING, p_last_scheduled := 7\<rparr>) (ptable kproc3)\<rparr>"
  have s: "length (procs (ptable kproc3)) = 3" "held kproc3 = []" "p_run_time (procs (ptable kproc3) ! 0) = 0"
    by (simp_all add: kproc3_def kproc0_def proc0_def)
  have p: "curproc ?s = Some 0" "0 < length (procs (ptable ?s))" "p_state (procs (ptable ?s) ! 0) = RUNNING"
    "p_last_scheduled (procs (ptable ?s) ! 0) = ticks ?s" "ticks ?s \<noteq> 0" "held ?s = []"
    using s by (simp_all add: ptable_upd_nth)
  obtain t u where "kfor [0..<10] (\<lambda>_. timer_tick) ?s = Ok () t" "scheduler_return 0 (t\<lparr>held := [PtableLock]\<rparr>) = Ok () u"
    "p_run_time (procs (ptable u) ! 0) = p_run_time (procs (ptable ?s) ! 0) + 2 * of_nat 10"
    using run_time_counted_twice [OF p, of 10] by blast
  moreover have "p_run_time (procs (ptable ?s) ! 0) + 2 * of_nat 10 = 20"
    using s by (simp add: ptable_upd_nth)
  ultimately show ?thesis by metis
qed

end
