(* ===== verification/Pipe.thy ===== *)
theory Pipe
  imports Syscall
begin

text \<open>
  Pipes (\<^verbatim>\<open>pipe.c\<close>).  A pipe is known by the address of its page; its fields are kept in a map from these
  addresses instead of in the bytes of the page.  The bytes to write are given as a list and the bytes
  read are returned, in place of the user buffers that hold them.  A writer or reader that has to wait
  gives up the CPU; what it does next is a routine of its own, which starts with the rest of \<^verbatim>\<open>sleep\<close>.
\<close>

section \<open>The ring buffer\<close>

definition PIPESIZE :: nat where "PIPESIZE = 512"

record pipe =
  pi_data :: "uchar list"
  pi_nread :: uint
  pi_nwrite :: uint
  pi_readopen :: bool
  pi_writeopen :: bool

record kpipe = kproc +
  pipes :: "uint \<Rightarrow> pipe option"

definition pipe_full :: "pipe \<Rightarrow> bool" where
  "pipe_full pi \<longleftrightarrow> pi_nwrite pi = pi_nread pi + of_nat PIPESIZE"

definition pipe_empty :: "pipe \<Rightarrow> bool" where
  "pipe_empty pi \<longleftrightarrow> pi_nread pi = pi_nwrite pi"

definition pipe_put :: "uchar \<Rightarrow> pipe \<Rightarrow> pipe" where
  "pipe_put b pi = pi\<lparr>pi_data := (pi_data pi)[unat (pi_nwrite pi) mod PIPESIZE := b],
                      pi_nwrite := pi_nwrite pi + 1\<rparr>"

definition pipe_get :: "pipe \<Rightarrow> uchar \<times> pipe" where
  "pipe_get pi = (pi_data pi ! (unat (pi_nread pi) mod PIPESIZE), pi\<lparr>pi_nread := pi_nread pi + 1\<rparr>)"

section \<open>Operations\<close>

definition getpipe :: "uint \<Rightarrow> (pipe, 'z kpipe_scheme) M" where
  "getpipe p = kbind (kget (\<lambda>s. pipes s p)) kopt"

definition setpipe :: "uint \<Rightarrow> pipe \<Rightarrow> (unit, 'z kpipe_scheme) M" where
  "setpipe p pi = kmod (\<lambda>s. s\<lparr>pipes := (pipes s)(p \<mapsto> pi)\<rparr>)"

text \<open>The page of the pipe is given back, and with it the pipe is gone.\<close>

definition pipe_kfree :: "uint \<Rightarrow> (unit, 'z kpipe_scheme) M" where
  "pipe_kfree p = kseq (kmod (\<lambda>s. s\<lparr>pipes := (pipes s)(p := None)\<rparr>)) (kfree p)"

definition pipeclose :: "uint \<Rightarrow> bool \<Rightarrow> (unit, 'z kpipe_scheme) M" where
  "pipeclose p writable =
     kseq (acquire (PipeLock p))
    (kbind (getpipe p) (\<lambda>pi.
     kseq (if writable then kseq (setpipe p (pi\<lparr>pi_writeopen := False\<rparr>)) (wakeup (ChNread p))
           else kseq (setpipe p (pi\<lparr>pi_readopen := False\<rparr>)) (wakeup (ChNwrite p)))
    (kbind (getpipe p) (\<lambda>pi.
     if \<not> pi_readopen pi \<and> \<not> pi_writeopen pi then
       kseq (release (PipeLock p)) (pipe_kfree p)
     else release (PipeLock p)))))"

definition mykilled :: "(bool, 'z kproc_scheme) M" where
  "mykilled = kbind myproc (\<lambda>c. kbind (getp c) (\<lambda>p. kret (p_killed p)))"

text \<open>The loops of \<^verbatim>\<open>pipewrite\<close>, with the lock held: \<open>bs\<close> are the bytes that are left of the \<open>n\<close>.\<close>

primrec pipewrite_loop :: "uint \<Rightarrow> int \<Rightarrow> uchar list \<Rightarrow> (int, 'z kpipe_scheme) M" where
  "pipewrite_loop p n [] =
     kseq (wakeup (ChNread p)) (kseq (release (PipeLock p)) (kret n))"
| "pipewrite_loop p n (b # bs) =
     kbind (getpipe p) (\<lambda>pi.
     if pipe_full pi then
       kbind (if pi_readopen pi then mykilled else kret True) (\<lambda>stop.
       if stop then kseq (release (PipeLock p)) (kret (- 1))
       else kseq (wakeup (ChNread p)) (sleep (ChNwrite p) (PipeLock p)))
     else kseq (setpipe p (pipe_put b pi)) (pipewrite_loop p n bs))"

definition pipewrite :: "uint \<Rightarrow> uchar list \<Rightarrow> (int, 'z kpipe_scheme) M" where
  "pipewrite p bs = kseq (acquire (PipeLock p)) (pipewrite_loop p (int (length bs)) bs)"

definition pipewrite_return :: "nat \<Rightarrow> uint \<Rightarrow> int \<Rightarrow> uchar list \<Rightarrow> (int, 'z kpipe_scheme) M" where
  "pipewrite_return c p n bs = kseq (sleep_return c (PipeLock p)) (pipewrite_loop p n bs)"

text \<open>The loop that copies at most \<open>n\<close> bytes out of the pipe.\<close>

primrec piperead_copy :: "nat \<Rightarrow> pipe \<Rightarrow> uchar list \<times> pipe" where
  "piperead_copy 0 pi = ([], pi)"
| "piperead_copy (Suc n) pi =
     (if pipe_empty pi then ([], pi)
      else let (b, pi') = pipe_get pi; (bs, pi'') = piperead_copy n pi' in (b # bs, pi''))"

text \<open>\<open>None\<close> is the result -1.\<close>

definition piperead_loop :: "uint \<Rightarrow> nat \<Rightarrow> (uchar list option, 'z kpipe_scheme) M" where
  "piperead_loop p n =
     kbind (getpipe p) (\<lambda>pi.
     if pipe_empty pi \<and> pi_writeopen pi then
       kbind mykilled (\<lambda>k.
       if k then kseq (release (PipeLock p)) (kret None)
       else sleep (ChNread p) (PipeLock p))
     else
       (let (bs, pi') = piperead_copy n pi in
        kseq (setpipe p pi')
       (kseq (wakeup (ChNwrite p))
       (kseq (release (PipeLock p))
             (kret (Some bs))))))"

definition piperead :: "uint \<Rightarrow> nat \<Rightarrow> (uchar list option, 'z kpipe_scheme) M" where
  "piperead p n = kseq (acquire (PipeLock p)) (piperead_loop p n)"

definition piperead_return :: "nat \<Rightarrow> uint \<Rightarrow> nat \<Rightarrow> (uchar list option, 'z kpipe_scheme) M" where
  "piperead_return c p n = kseq (sleep_return c (PipeLock p)) (piperead_loop p n)"

section \<open>The pipe is a queue\<close>

definition pipe_ok :: "pipe \<Rightarrow> bool" where
  "pipe_ok pi \<longleftrightarrow> length (pi_data pi) = PIPESIZE \<and> unat (pi_nwrite pi - pi_nread pi) \<le> PIPESIZE"

definition pipe_contents :: "pipe \<Rightarrow> uchar list" where
  "pipe_contents pi = map (\<lambda>k. pi_data pi ! (unat (pi_nread pi + of_nat k) mod PIPESIZE))
     [0..<unat (pi_nwrite pi - pi_nread pi)]"

text \<open>The interface of a bounded queue: \<open>contents\<close> is the queue a representation stands for.\<close>

locale bounded_queue =
  fixes cap :: nat and put :: "'b \<Rightarrow> 'q \<Rightarrow> 'q" and get :: "'q \<Rightarrow> 'b \<times> 'q"
    and isfull :: "'q \<Rightarrow> bool" and isempty :: "'q \<Rightarrow> bool"
    and contents :: "'q \<Rightarrow> 'b list" and ok :: "'q \<Rightarrow> bool"
  assumes cap_bound: "ok q \<Longrightarrow> length (contents q) \<le> cap"
    and full_iff: "ok q \<Longrightarrow> isfull q \<longleftrightarrow> length (contents q) = cap"
    and empty_iff: "ok q \<Longrightarrow> isempty q \<longleftrightarrow> contents q = []"
    and put_ok: "ok q \<Longrightarrow> \<not> isfull q \<Longrightarrow> ok (put b q) \<and> contents (put b q) = contents q @ [b]"
    and get_ok: "ok q \<Longrightarrow> \<not> isempty q \<Longrightarrow>
          ok (snd (get q)) \<and> contents q = fst (get q) # contents (snd (get q))"
begin

lemma puts_ok:
  assumes "ok q" and "length (contents q) + length bs \<le> cap"
  shows "ok (fold put bs q) \<and> contents (fold put bs q) = contents q @ bs"
  using assms
proof (induction bs arbitrary: q)
  case (Cons b bs)
  then have "\<not> isfull q" using full_iff by auto
  with Cons show ?case using put_ok [of q b] by simp
qed simp

text \<open>
  Any interleaving of a writer and a reader: an operation on a full or an empty queue does nothing and
  will be tried again.  The state carries what has been written and what has been read.
\<close>

definition turn :: "'b option \<Rightarrow> 'q \<times> 'b list \<times> 'b list \<Rightarrow> 'q \<times> 'b list \<times> 'b list" where
  "turn op = (\<lambda>(q, w, r). case op of
     Some b \<Rightarrow> if isfull q then (q, w, r) else (put b q, w @ [b], r)
   | None \<Rightarrow> if isempty q then (q, w, r) else (snd (get q), w, r @ [fst (get q)]))"

lemma turns_fifo:
  assumes "ok q" and "w = r @ contents q"
  shows "case fold turn ops (q, w, r) of (q', w', r') \<Rightarrow> ok q' \<and> w' = r' @ contents q'"
  using assms
proof (induction ops arbitrary: q w r)
  case (Cons op ops)
  obtain q' w' r' where turn: "turn op (q, w, r) = (q', w', r')" by (cases "turn op (q, w, r)")
  then have "ok q' \<and> w' = r' @ contents q'"
    using Cons.prems put_ok [of q] get_ok [of q]
    by (auto simp: turn_def split: option.splits if_splits)
  with Cons.IH [of q' w' r'] turn show ?case by simp
qed simp

end

lemma pipe_contents_length: "length (pipe_contents pi) = unat (pi_nwrite pi - pi_nread pi)"
  by (simp add: pipe_contents_def)

text \<open>The counters wrap around at \<open>2 ^ 32\<close>, a multiple of the size of the ring, so indices stay right.\<close>

lemma ring_index: "unat (a + of_nat k :: uint) mod PIPESIZE = (unat a + k) mod PIPESIZE"
proof -
  have "unat (a + of_nat k) = (unat a + k) mod 4294967296"
    by (simp add: unat_word_ariths unat_of_nat mod_simps)
  then show ?thesis by (simp add: PIPESIZE_def mod_mod_cancel)
qed

lemma ring_index_nwrite:
  "unat (pi_nwrite pi) mod PIPESIZE = (unat (pi_nread pi) + unat (pi_nwrite pi - pi_nread pi)) mod PIPESIZE"
  using ring_index [of "pi_nread pi" "unat (pi_nwrite pi - pi_nread pi)"] by simp

lemma pipe_contents_alt:
  "pipe_contents pi = map (\<lambda>k. pi_data pi ! ((unat (pi_nread pi) + k) mod PIPESIZE))
     [0..<unat (pi_nwrite pi - pi_nread pi)]"
  by (simp add: pipe_contents_def ring_index)

lemma ring_index_neq:
  assumes "k < n" and "n < (PIPESIZE :: nat)"
  shows "(r + k) mod PIPESIZE \<noteq> (r + n) mod PIPESIZE"
proof
  assume "(r + k) mod PIPESIZE = (r + n) mod PIPESIZE"
  then have "PIPESIZE dvd (r + n) - (r + k)" by (metis mod_eq_dvd_iff_nat add_le_cancel_left assms(1) less_imp_le)
  then have "PIPESIZE dvd n - k" by simp
  with assms show False by (auto dest: dvd_imp_le)
qed

lemma pipe_full_iff: "pipe_ok pi \<Longrightarrow> pipe_full pi \<longleftrightarrow> length (pipe_contents pi) = PIPESIZE"
proof -
  have "pi_nwrite pi = pi_nread pi + of_nat PIPESIZE \<longleftrightarrow> pi_nwrite pi - pi_nread pi = of_nat PIPESIZE"
    by (auto simp: algebra_simps)
  also have "\<dots> \<longleftrightarrow> unat (pi_nwrite pi - pi_nread pi) = PIPESIZE"
    by (simp add: word_unat_eq_iff PIPESIZE_def)
  finally show "pipe_full pi \<longleftrightarrow> length (pipe_contents pi) = PIPESIZE"
    by (simp add: pipe_full_def pipe_contents_length)
qed

lemma pipe_empty_iff: "pipe_empty pi \<longleftrightarrow> pipe_contents pi = []"
proof -
  have "pi_nread pi = pi_nwrite pi \<longleftrightarrow> unat (pi_nwrite pi - pi_nread pi) = 0"
    by (auto simp: unat_eq_0)
  then show ?thesis by (simp add: pipe_empty_def pipe_contents_def)
qed

lemma pipe_put_ok:
  assumes ok: "pipe_ok pi" and room: "\<not> pipe_full pi"
  shows "pipe_ok (pipe_put b pi) \<and> pipe_contents (pipe_put b pi) = pipe_contents pi @ [b]"
proof -
  let ?n = "unat (pi_nwrite pi - pi_nread pi)"
  have n: "?n < PIPESIZE" using ok room by (simp add: pipe_full_iff pipe_contents_length pipe_ok_def)
  have "unat (pi_nwrite pi - pi_nread pi + 1) = ?n + 1"
    using n unat_add_lt [of "pi_nwrite pi - pi_nread pi" 1] by (simp add: PIPESIZE_def)
  then have n1: "unat (pi_nwrite (pipe_put b pi) - pi_nread (pipe_put b pi)) = Suc ?n"
    by (simp add: pipe_put_def algebra_simps)
  have len: "length (pi_data pi) = PIPESIZE" using ok by (simp add: pipe_ok_def)
  have idx: "(r + k) mod PIPESIZE < PIPESIZE" for r k by (simp add: PIPESIZE_def)
  have data: "pi_data (pipe_put b pi) = (pi_data pi)[(unat (pi_nread pi) + ?n) mod PIPESIZE := b]"
    by (simp add: pipe_put_def ring_index_nwrite [of pi])
  have old: "pi_data (pipe_put b pi) ! ((unat (pi_nread pi) + k) mod PIPESIZE) =
      pi_data pi ! ((unat (pi_nread pi) + k) mod PIPESIZE)" if "k < ?n" for k
    unfolding data by (rule nth_list_update_neq) (rule ring_index_neq [OF that n, symmetric])
  have new: "pi_data (pipe_put b pi) ! ((unat (pi_nread pi) + ?n) mod PIPESIZE) = b"
    unfolding data using len idx by simp
  have nr: "pi_nread (pipe_put b pi) = pi_nread pi" by (simp add: pipe_put_def)
  have n1': "unat (pi_nwrite (pipe_put b pi) - pi_nread pi) = Suc ?n" using n1 nr by simp
  have "pipe_contents (pipe_put b pi) = pipe_contents pi @ [b]"
    unfolding pipe_contents_alt [of "pipe_put b pi"] nr n1'
    using old new by (simp add: pipe_contents_alt)
  then show ?thesis using n1 n len by (simp add: pipe_ok_def pipe_put_def)
qed

lemma pipe_get_ok:
  assumes ok: "pipe_ok pi" and ne: "\<not> pipe_empty pi"
  shows "pipe_ok (snd (pipe_get pi)) \<and> pipe_contents pi = fst (pipe_get pi) # pipe_contents (snd (pipe_get pi))"
proof -
  let ?d = "pi_nwrite pi - pi_nread pi"
  have d: "?d \<noteq> 0" using ne by (auto simp: pipe_empty_def)
  then obtain n where n: "unat ?d = Suc n" by (metis not0_implies_Suc unat_eq_0)
  have "unat (?d - 1) = n" using unat_minus_one [OF d] n by simp
  then have n1: "unat (pi_nwrite pi - (pi_nread pi + 1)) = n" by (simp add: diff_diff_eq)
  have upt0: "[0..<Suc n] = 0 # map Suc [0..<n]" by (simp add: upt_conv_Cons map_Suc_upt del: upt_Suc)
  have "(unat (pi_nread pi + 1) + k) mod PIPESIZE = (unat (pi_nread pi) + Suc k) mod PIPESIZE" for k
    using ring_index [of "pi_nread pi + 1" k] ring_index [of "pi_nread pi" "Suc k"]
    by (simp add: add.assoc)
  then have "pipe_contents pi = fst (pipe_get pi) # pipe_contents (snd (pipe_get pi))"
    unfolding pipe_contents_alt n upt0 by (simp add: n1 pipe_get_def del: upt_Suc)
  then show ?thesis using ok n n1 by (simp add: pipe_ok_def pipe_get_def)
qed

interpretation pipe: bounded_queue PIPESIZE pipe_put pipe_get pipe_full pipe_empty pipe_contents pipe_ok
proof (unfold_locales, goal_cases)
  case (1 q)
  then show ?case by (simp add: pipe_contents_length pipe_ok_def)
next
  case (5 q)
  then show ?case by (rule pipe_get_ok)
qed (simp_all add: pipe_full_iff pipe_empty_iff pipe_put_ok)

lemma piperead_copy_ok:
  "pipe_ok pi \<Longrightarrow> piperead_copy n pi = (bs, pi') \<Longrightarrow>
     pipe_ok pi' \<and> bs = take n (pipe_contents pi) \<and> pipe_contents pi' = drop n (pipe_contents pi)"
proof (induction n arbitrary: pi bs)
  case 0
  then show ?case by simp
next
  case (Suc n)
  show ?case
  proof (cases "pipe_empty pi")
    case True
    with Suc.prems show ?thesis by (simp add: pipe_empty_iff)
  next
    case False
    obtain cs where cs: "piperead_copy n (snd (pipe_get pi)) = (cs, pi')" "bs = fst (pipe_get pi) # cs"
      using Suc.prems(2) False by (cases "piperead_copy n (snd (pipe_get pi))") (auto simp: split_def Let_def)
    note get = pipe_get_ok [OF Suc.prems(1) False]
    from Suc.IH [OF _ cs(1)] get show ?thesis by (metis cs(2) drop_Suc_Cons take_Suc_Cons)
  qed
qed

lemma wakeup_run:
  "PtableLock \<notin> set (held s) \<Longrightarrow>
    wakeup ch s = Ok () (s\<lparr>ptable := (ptable s)\<lparr>procs := map (wakeup_proc ch) (procs (ptable s))\<rparr>\<rparr>)"
  by (simp add: wakeup_def wakeup1_def krun)

lemma getpipe_run: "pipes s p = Some pi \<Longrightarrow> getpipe p s = Ok pi s"
  by (simp add: getpipe_def krun)

lemma pipewrite_loop_room:
  assumes "pipe_ok pi" and "length (pipe_contents pi) + length bs \<le> PIPESIZE"
    and "pipes s p = Some pi" and "PipeLock p \<in> set (held s)" and "PtableLock \<notin> set (held s)"
  shows "pipewrite_loop p n bs s = Ok n (s\<lparr>held := remove1 (PipeLock p) (held s),
     ptable := (ptable s)\<lparr>procs := map (wakeup_proc (ChNread p)) (procs (ptable s))\<rparr>,
     pipes := (pipes s)(p \<mapsto> fold pipe_put bs pi)\<rparr>)"
  using assms
proof (induction bs arbitrary: s pi)
  case Nil
  then have "(pipes s)(p \<mapsto> pi) = pipes s" by auto
  with Nil show ?case by (simp add: krun wakeup_run)
next
  case (Cons b bs)
  then have room: "\<not> pipe_full pi" by (simp add: pipe_full_iff)
  note put = pipe_put_ok [OF Cons.prems(1) room, of b]
  define m where "m = (pipes s)(p \<mapsto> pipe_put b pi)"
  have m: "m(p \<mapsto> x) = (pipes s)(p \<mapsto> x)" "m p = Some (pipe_put b pi)" for x by (simp_all add: m_def)
  have "pipewrite_loop p n bs (s\<lparr>pipes := m\<rparr>) = Ok n (s\<lparr>held := remove1 (PipeLock p) (held s),
     ptable := (ptable s)\<lparr>procs := map (wakeup_proc (ChNread p)) (procs (ptable s))\<rparr>,
     pipes := (pipes s)(p \<mapsto> fold pipe_put bs (pipe_put b pi))\<rparr>)"
    using Cons.IH [of "pipe_put b pi" "s\<lparr>pipes := m\<rparr>"] put Cons.prems m by (simp del: fun_upd_apply)
  then show ?case
    using Cons.prems room by (simp add: krun getpipe_run setpipe_def m_def [symmetric] del: fun_upd_apply)
qed

lemma pipewrite_loop_full:
  assumes "pipe_full pi" and "pipes s p = Some pi" and "pi_readopen pi" and "mykilled s = Ok False s"
    and "held s = [PipeLock p]" and "curproc s = Some c" and "c < length (procs (ptable s))"
  shows "\<exists>t. pipewrite_loop p n (b # bs) s = Swtch t \<and> pipes t = pipes s
     \<and> p_state (procs (ptable t) ! c) = SLEEPING \<and> p_chan (procs (ptable t) ! c) = Some (ChNwrite p)"
  using assms
  by (simp add: krun getpipe_run wakeup_run sleep_def sched_cases ptable_upd_nth)

lemma piperead_run:
  assumes "pipes s p = Some pi" and "pipe_ok pi" and "pipe_contents pi \<noteq> []" and "held s = []"
  shows "\<exists>pi'. piperead p n s = Ok (Some (take n (pipe_contents pi)))
      (s\<lparr>ptable := (ptable s)\<lparr>procs := map (wakeup_proc (ChNwrite p)) (procs (ptable s))\<rparr>, pipes := (pipes s)(p \<mapsto> pi')\<rparr>)
    \<and> pipe_ok pi' \<and> pipe_contents pi' = drop n (pipe_contents pi)"
proof -
  obtain out pi' where copy: "piperead_copy n pi = (out, pi')" by (cases "piperead_copy n pi")
  have "\<not> pipe_empty pi" using assms(3) by (simp add: pipe_empty_iff)
  then show ?thesis
    using assms(1,4) copy piperead_copy_ok [OF assms(2) copy]
    by (intro exI [of _ pi']) (simp add: piperead_def piperead_loop_def krun getpipe_run setpipe_def wakeup_run Let_def)
qed

section \<open>Properties\<close>

text \<open>
  C15: A pipe is a queue.  Start from an empty pipe, wherever its two 32-bit counters stand, and let a writer
  and a reader take turns in any order (a write to a full pipe and a read from an empty one wait).  Then at
  every moment the bytes written are the bytes read followed by those in the pipe: none is lost,
  duplicated or reordered, also when the counters wrap around.
\<close>

theorem pipe_fifo:
  assumes "pipe_ok pi" and "pipe_empty pi" and "fold pipe.turn ops (pi, [], []) = (pi', written, read)"
  shows "written = read @ pipe_contents pi' \<and> length (pipe_contents pi') \<le> PIPESIZE"
proof -
  have "[] = [] @ pipe_contents pi" using assms(2) by (simp add: pipe_empty_iff)
  from pipe.turns_fifo [OF assms(1) this, of ops] assms(3)
  have "pipe_ok pi'" "written = read @ pipe_contents pi'" by simp_all
  then show ?thesis using pipe.cap_bound by blast
qed

definition wrapping_pipe :: pipe where
  "wrapping_pipe = \<lparr>pi_data = replicate PIPESIZE 0, pi_nread = 0xFFFFFFFF, pi_nwrite = 0xFFFFFFFF,
     pi_readopen = True, pi_writeopen = True\<rparr>"

theorem pipe_fifo_witness:
  "\<exists>pi'. fold pipe.turn [Some 7, Some 8, None, Some 9, None] (wrapping_pipe, [], []) = (pi', [7, 8, 9], [7, 8])
     \<and> [7, 8, 9] = [7, 8] @ pipe_contents pi' \<and> pi_nwrite pi' = 2"
proof -
  have ok: "pipe_ok wrapping_pipe" "pipe_empty wrapping_pipe"
    by (simp_all add: wrapping_pipe_def pipe_ok_def pipe_empty_def)
  obtain pi' where run: "fold pipe.turn [Some 7, Some 8, None, Some 9, None] (wrapping_pipe, [], []) =
      (pi', [7, 8, 9], [7, 8])" "pi_nwrite pi' = 2"
    by (simp add: pipe.turn_def wrapping_pipe_def pipe_full_def pipe_empty_def pipe_put_def pipe_get_def PIPESIZE_def)
  show ?thesis using pipe_fifo [OF ok run(1)] run by blast
qed

text \<open>A state in which the process 0 runs and the pipe at the address \<open>0x80300000\<close> is \<open>pi\<close>.\<close>

definition pipe_state :: "pipe \<Rightarrow> kpipe" where
  "pipe_state pi = kproc.extend (kproc3\<lparr>curproc := Some 0\<rparr>) (kpipe.fields [0x80300000 \<mapsto> pi])"

lemma pipe_state_fields:
  "pipes (pipe_state pi) 0x80300000 = Some pi" "held (pipe_state pi) = []" "curproc (pipe_state pi) = Some 0"
  "0 < length (procs (ptable (pipe_state pi)))" "\<not> p_killed (procs (ptable (pipe_state pi)) ! 0)"
  by (simp_all add: pipe_state_def kproc.defs kpipe.defs kproc3_def kproc0_def proc0_def)

text \<open>
  C16: \<^verbatim>\<open>pipewrite\<close> of bytes for which the pipe has room, followed by \<^verbatim>\<open>piperead\<close> of at most \<open>n\<close> bytes, returns
  without waiting: the write reports its length, and the read returns the first \<open>n\<close> bytes of what was in
  the pipe followed by what was written, and leaves the rest.
\<close>

theorem pipe_write_read:
  fixes s :: "'z kpipe_scheme"
  assumes pi: "pipes s p = Some pi" "pipe_ok pi" and room: "length (pipe_contents pi) + length bs \<le> PIPESIZE"
    and data: "pipe_contents pi @ bs \<noteq> []" and lk: "held s = []"
  shows "\<exists>t u pi'. pipewrite p bs s = Ok (int (length bs)) t
     \<and> piperead p n t = Ok (Some (take n (pipe_contents pi @ bs))) u
     \<and> pipes u p = Some pi' \<and> pipe_contents pi' = drop n (pipe_contents pi @ bs)"
proof -
  let ?pi = "fold pipe_put bs pi"
  let ?t = "s\<lparr>ptable := (ptable s)\<lparr>procs := map (wakeup_proc (ChNread p)) (procs (ptable s))\<rparr>,
     pipes := (pipes s)(p \<mapsto> ?pi)\<rparr>"
  have w: "pipewrite p bs s = Ok (int (length bs)) ?t"
    using pipewrite_loop_room [OF pi(2) room, of "s\<lparr>held := [PipeLock p]\<rparr>" p "int (length bs)"] pi lk
    by (simp add: pipewrite_def krun)
  have q: "pipe_ok ?pi" "pipe_contents ?pi = pipe_contents pi @ bs"
    using pipe.puts_ok [OF pi(2) room] by auto
  have "pipe_contents ?pi \<noteq> []" using data q(2) by simp
  then have "\<exists>u pi'. piperead p n ?t = Ok (Some (take n (pipe_contents ?pi))) u \<and> pipes u p = Some pi'
      \<and> pipe_contents pi' = drop n (pipe_contents ?pi)"
    using piperead_run [of ?t p ?pi n] q(1) lk by fastforce
  with w show ?thesis unfolding q(2) by blast
qed

theorem pipe_write_read_witness:
  "\<exists>t u. pipewrite 0x80300000 [1, 2, 3] (pipe_state wrapping_pipe) = Ok 3 t
     \<and> piperead 0x80300000 2 t = Ok (Some [1, 2]) u"
proof -
  have "pipe_ok wrapping_pipe" "pipe_contents wrapping_pipe = []"
    by (simp_all add: wrapping_pipe_def pipe_ok_def pipe_contents_def)
  then show ?thesis
    using pipe_write_read [of "pipe_state wrapping_pipe" "0x80300000" wrapping_pipe "[1, 2, 3]" 2]
    by (fastforce simp: pipe_state_fields PIPESIZE_def)
qed

text \<open>
  A writer that finds the pipe full waits instead of overwriting: it wakes the readers, gives up the
  lock and the CPU and sleeps on the counter of bytes read, with the pipe unchanged.
\<close>

theorem pipewrite_full_waits:
  fixes s :: "'z kpipe_scheme"
  assumes pi: "pipes s p = Some pi" "pipe_full pi" "pi_readopen pi" and lk: "held s = []"
    and c: "curproc s = Some c" "c < length (procs (ptable s))" "\<not> p_killed (procs (ptable s) ! c)"
  shows "\<exists>t. pipewrite p (b # bs) s = Swtch t \<and> pipes t = pipes s \<and> held t = [PtableLock]
     \<and> p_state (procs (ptable t) ! c) = SLEEPING \<and> p_chan (procs (ptable t) ! c) = Some (ChNwrite p)"
  using assms
  by (simp add: pipewrite_def krun getpipe_run mykilled_def wakeup_run sleep_def sched_cases ptable_upd_nth)

theorem pipewrite_full_waits_witness:
  "\<exists>t. pipewrite 0x80300000 [1] (pipe_state (wrapping_pipe\<lparr>pi_nwrite := 511\<rparr>)) = Swtch t
     \<and> held t = [PtableLock] \<and> p_state (procs (ptable t) ! 0) = SLEEPING"
proof -
  let ?pi = "wrapping_pipe\<lparr>pi_nwrite := 511\<rparr>"
  have "pipe_full ?pi" "pi_readopen ?pi" by (simp_all add: pipe_full_def wrapping_pipe_def PIPESIZE_def)
  from pipewrite_full_waits [OF pipe_state_fields(1) this pipe_state_fields(2-5), of 1 "[]"]
  show ?thesis by blast
qed



end
