(* ===== verification/Sleeplock.thy ===== *)
theory Sleeplock
  imports Pipe
begin

text \<open>
  Sleep locks (\<^verbatim>\<open>sleeplock.c\<close>).  A sleep lock is a field of a buffer or of an inode, so the routines take
  how to read and change it in the state, with the spin lock inside it and the channel its waiters sleep
  on.  \<open>None\<close> is a lock of an object that does not exist.
\<close>

record sleeplock =
  sl_locked :: bool
  sl_pid :: int

record 's lens =
  ln_spin :: lockid
  ln_chan :: chan
  ln_get :: "'s \<Rightarrow> sleeplock option"
  ln_set :: "sleeplock \<Rightarrow> 's \<Rightarrow> 's"

definition initsleeplock :: sleeplock where
  "initsleeplock = \<lparr>sl_locked = False, sl_pid = 0\<rparr>"

definition mypid :: "(int, 'z kproc_scheme) M" where
  "mypid = kbind myproc (\<lambda>c. kbind (getp c) (\<lambda>p. kret (p_pid p)))"

text \<open>The loop of \<^verbatim>\<open>acquiresleep\<close>, with the spin lock held.\<close>

definition acquiresleep_loop :: "'z kproc_scheme lens \<Rightarrow> (unit, 'z kproc_scheme) M" where
  "acquiresleep_loop l =
     kbind (kget (ln_get l)) (\<lambda>r. kbind (kopt r) (\<lambda>lk.
     if sl_locked lk then sleep (ln_chan l) (ln_spin l)
     else
       kbind mypid (\<lambda>pid.
       kseq (kmod (ln_set l \<lparr>sl_locked = True, sl_pid = pid\<rparr>))
            (release (ln_spin l)))))"

definition acquiresleep :: "'z kproc_scheme lens \<Rightarrow> (unit, 'z kproc_scheme) M" where
  "acquiresleep l = kseq (acquire (ln_spin l)) (acquiresleep_loop l)"

definition acquiresleep_return :: "nat \<Rightarrow> 'z kproc_scheme lens \<Rightarrow> (unit, 'z kproc_scheme) M" where
  "acquiresleep_return c l = kseq (sleep_return c (ln_spin l)) (acquiresleep_loop l)"

definition releasesleep :: "'z kproc_scheme lens \<Rightarrow> (unit, 'z kproc_scheme) M" where
  "releasesleep l =
     kseq (acquire (ln_spin l))
    (kseq (kmod (ln_set l \<lparr>sl_locked = False, sl_pid = 0\<rparr>))
    (kseq (wakeup (ln_chan l))
          (release (ln_spin l))))"

definition holdingsleep :: "'z kproc_scheme lens \<Rightarrow> (bool, 'z kproc_scheme) M" where
  "holdingsleep l =
     kseq (acquire (ln_spin l))
    (kbind (kget (ln_get l)) (\<lambda>r. kbind (kopt r) (\<lambda>lk.
     kbind (if sl_locked lk then kbind mypid (\<lambda>pid. kret (sl_pid lk = pid)) else kret False) (\<lambda>r.
     kseq (release (ln_spin l)) (kret r)))))"

end
