(* ===== verification/Bio.thy ===== *)
theory Bio
  imports Sleeplock
begin

text \<open>
  The buffer cache (\<^verbatim>\<open>bio.c\<close>, \<^verbatim>\<open>buf.h\<close>) over the disk in memory of \<^verbatim>\<open>memide.c\<close>.  A buffer is its index in
  \<^verbatim>\<open>bcache.buf\<close>; the index NBUF is \<^verbatim>\<open>bcache.head\<close>, the head of the list in the order of last use, which is
  linked through the buffers as in the code.  \<open>b_valid\<close> and \<open>b_dirty\<close> are the two bits of \<^verbatim>\<open>flags\<close>.

  The disk also keeps the writes made to it, in order, since its making: after a crash the disk is what
  some prefix of them left.
\<close>

section \<open>State\<close>

definition BSIZE :: nat where "BSIZE = 512"

type_synonym block = "uchar list"

record buf =
  b_valid :: bool
  b_dirty :: bool
  b_dev :: uint
  b_blockno :: uint
  b_lock :: sleeplock
  b_refcnt :: uint
  b_prev :: nat
  b_next :: nat
  b_data :: block

record kbuf = kpipe +
  bufs :: "buf list"
  disk :: "block list"
  dwrites :: "(nat \<times> block) list"

definition getb :: "nat \<Rightarrow> (buf, 'z kbuf_scheme) M" where
  "getb i = (\<lambda>s. if i < length (bufs s) then Ok (bufs s ! i) s else Undef)"

definition updb :: "nat \<Rightarrow> (buf \<Rightarrow> buf) \<Rightarrow> (unit, 'z kbuf_scheme) M" where
  "updb i f = (\<lambda>s. if i < length (bufs s) then Ok () (s\<lparr>bufs := (bufs s)[i := f (bufs s ! i)]\<rparr>) else Undef)"

definition buf_lens :: "nat \<Rightarrow> 'z kbuf_scheme lens" where
  "buf_lens i = \<lparr>ln_spin = BufLk i, ln_chan = ChBufLock i,
     ln_get = (\<lambda>s. if i < length (bufs s) then Some (b_lock (bufs s ! i)) else None),
     ln_set = (\<lambda>l s. s\<lparr>bufs := (bufs s)[i := (bufs s ! i)\<lparr>b_lock := l\<rparr>]\<rparr>)\<rparr>"

section \<open>The disk (memide.c)\<close>

definition disk_write :: "nat \<Rightarrow> block \<Rightarrow> 'z kbuf_scheme \<Rightarrow> 'z kbuf_scheme" where
  "disk_write n d s = s\<lparr>disk := (disk s)[n := d], dwrites := dwrites s @ [(n, d)]\<rparr>"

definition iderw :: "nat \<Rightarrow> (unit, 'z kbuf_scheme) M" where
  "iderw i =
     kbind (holdingsleep (buf_lens i)) (\<lambda>h.
     if \<not> h then kpanic ''iderw: buf not locked''
     else
       kbind (getb i) (\<lambda>b.
       if b_valid b \<and> \<not> b_dirty b then kpanic ''iderw: nothing to do''
       else if b_dev b \<noteq> 1 then kpanic ''iderw: request not for disk 1''
       else
         kbind (kget (\<lambda>s. length (disk s))) (\<lambda>disksize.
         if unat (b_blockno b) \<ge> disksize then kpanic ''iderw: block out of range''
         else
           kseq (if b_dirty b then
                   kseq (updb i (\<lambda>b. b\<lparr>b_dirty := False\<rparr>))
                        (kmod (disk_write (unat (b_blockno b)) (b_data b)))
                 else
                   kbind (kget (\<lambda>s. disk s ! unat (b_blockno b))) (\<lambda>d.
                   updb i (\<lambda>b. b\<lparr>b_data := d\<rparr>)))
                (updb i (\<lambda>b. b\<lparr>b_valid := True\<rparr>)))))"

section \<open>The list of buffers\<close>

text \<open>Inserting the buffer \<open>i\<close> after the head, and taking it out of the list.\<close>

definition blink_head :: "nat \<Rightarrow> (unit, 'z kbuf_scheme) M" where
  "blink_head i =
     kbind (getb NBUF) (\<lambda>hd.
     kseq (updb i (\<lambda>b. b\<lparr>b_next := b_next hd\<rparr>))
    (kseq (updb i (\<lambda>b. b\<lparr>b_prev := NBUF\<rparr>))
    (kseq (updb (b_next hd) (\<lambda>b. b\<lparr>b_prev := i\<rparr>))
          (updb NBUF (\<lambda>b. b\<lparr>b_next := i\<rparr>)))))"

definition bunlink :: "nat \<Rightarrow> (unit, 'z kbuf_scheme) M" where
  "bunlink i =
     kbind (getb i) (\<lambda>b.
     kseq (updb (b_next b) (\<lambda>x. x\<lparr>b_prev := b_prev b\<rparr>))
    (kbind (getb i) (\<lambda>b.
     updb (b_prev b) (\<lambda>x. x\<lparr>b_next := b_next b\<rparr>))))"

definition binit :: "(unit, 'z kbuf_scheme) M" where
  "binit =
     kseq (updb NBUF (\<lambda>b. b\<lparr>b_prev := NBUF\<rparr>))
    (kseq (updb NBUF (\<lambda>b. b\<lparr>b_next := NBUF\<rparr>))
          (kfor [0..<NBUF] (\<lambda>i.
             kseq (updb i (\<lambda>b. b\<lparr>b_lock := initsleeplock\<rparr>)) (blink_head i))))"

text \<open>
  The two loops of \<^verbatim>\<open>bget\<close>: from the buffer \<open>i\<close> along \<open>b_next\<close> or \<open>b_prev\<close> to the head.  The list has NBUF
  buffers; a longer walk would be a list that does not come back to the head.
\<close>

primrec bscan :: "(buf \<Rightarrow> nat) \<Rightarrow> (buf \<Rightarrow> bool) \<Rightarrow> nat \<Rightarrow> nat \<Rightarrow> (nat option, 'z kbuf_scheme) M" where
  "bscan dir P 0 i = kundef"
| "bscan dir P (Suc n) i =
     (if i = NBUF then kret None
      else kbind (getb i) (\<lambda>b. if P b then kret (Some i) else bscan dir P n (dir b)))"

section \<open>Operations\<close>

definition bget :: "uint \<Rightarrow> uint \<Rightarrow> (nat, 'z kbuf_scheme) M" where
  "bget dev blockno =
     kseq (acquire BcacheLock)
    (kbind (getb NBUF) (\<lambda>hd.
     kbind (bscan b_next (\<lambda>b. b_dev b = dev \<and> b_blockno b = blockno) (Suc NBUF) (b_next hd)) (\<lambda>r. case r of
       Some i \<Rightarrow>
         kseq (updb i (\<lambda>b. b\<lparr>b_refcnt := b_refcnt b + 1\<rparr>))
        (kseq (release BcacheLock)
        (kseq (acquiresleep (buf_lens i))
              (kret i)))
     | None \<Rightarrow>
         kbind (bscan b_prev (\<lambda>b. b_refcnt b = 0 \<and> \<not> b_dirty b) (Suc NBUF) (b_prev hd)) (\<lambda>r. case r of
           Some i \<Rightarrow>
             kseq (updb i (\<lambda>b. b\<lparr>b_dev := dev, b_blockno := blockno, b_valid := False, b_dirty := False,
                                 b_refcnt := 1\<rparr>))
            (kseq (release BcacheLock)
            (kseq (acquiresleep (buf_lens i))
                  (kret i)))
         | None \<Rightarrow> kpanic ''bget: no buffers''))))"

definition bread :: "uint \<Rightarrow> uint \<Rightarrow> (nat, 'z kbuf_scheme) M" where
  "bread dev blockno =
     kbind (bget dev blockno) (\<lambda>i.
     kbind (getb i) (\<lambda>b.
     kseq (kwhen (\<not> b_valid b) (iderw i)) (kret i)))"

definition bwrite :: "nat \<Rightarrow> (unit, 'z kbuf_scheme) M" where
  "bwrite i =
     kbind (holdingsleep (buf_lens i)) (\<lambda>h.
     if \<not> h then kpanic ''bwrite''
     else kseq (updb i (\<lambda>b. b\<lparr>b_dirty := True\<rparr>)) (iderw i))"

definition brelse :: "nat \<Rightarrow> (unit, 'z kbuf_scheme) M" where
  "brelse i =
     kbind (holdingsleep (buf_lens i)) (\<lambda>h.
     if \<not> h then kpanic ''brelse''
     else
       kseq (releasesleep (buf_lens i))
      (kseq (acquire BcacheLock)
      (kseq (updb i (\<lambda>b. b\<lparr>b_refcnt := b_refcnt b - 1\<rparr>))
      (kbind (getb i) (\<lambda>b.
       kseq (kwhen (b_refcnt b = 0) (kseq (bunlink i) (blink_head i)))
            (release BcacheLock))))))"

end
