(* ===== verification/Log.thy ===== *)
theory Log
  imports Bio
begin

text \<open>
  The write-ahead log (\<^verbatim>\<open>log.c\<close>), with the reading of the super block that it needs (\<^verbatim>\<open>readsb\<close> of
  \<^verbatim>\<open>fs.c\<close>).  The on-disk structures are bytes of blocks; 32-bit fields are read and written there.
\<close>

section \<open>Fields of blocks\<close>

definition rd32 :: "block \<Rightarrow> nat \<Rightarrow> uint" where
  "rd32 d off = (ucast (d ! off) :: uint) OR push_bit 8 (ucast (d ! (off + 1)))
     OR push_bit 16 (ucast (d ! (off + 2))) OR push_bit 24 (ucast (d ! (off + 3)))"

definition wr32 :: "block \<Rightarrow> nat \<Rightarrow> uint \<Rightarrow> block" where
  "wr32 d off v = splice d off (word_bytes v)"

text \<open>Changing the data of a buffer.\<close>

definition bdata :: "nat \<Rightarrow> (block \<Rightarrow> block) \<Rightarrow> (unit, 'z kbuf_scheme) M" where
  "bdata i f = updb i (\<lambda>b. b\<lparr>b_data := f (b_data b)\<rparr>)"

section \<open>The super block (fs.h, fs.c)\<close>

record superblock =
  sb_size :: uint
  sb_nblocks :: uint
  sb_ninodes :: uint
  sb_nlog :: uint
  sb_logstart :: uint
  sb_inodestart :: uint
  sb_bmapstart :: uint

definition superblock_of :: "block \<Rightarrow> superblock" where
  "superblock_of d = \<lparr>sb_size = rd32 d 0, sb_nblocks = rd32 d 4, sb_ninodes = rd32 d 8, sb_nlog = rd32 d 12,
     sb_logstart = rd32 d 16, sb_inodestart = rd32 d 20, sb_bmapstart = rd32 d 24\<rparr>"

definition readsb :: "uint \<Rightarrow> (superblock, 'z kbuf_scheme) M" where
  "readsb dev =
     kbind (bread dev 1) (\<lambda>i.
     kbind (getb i) (\<lambda>b.
     kseq (brelse i) (kret (superblock_of (b_data b)))))"

section \<open>State\<close>

record log =
  l_start :: int
  l_size :: int
  l_outstanding :: int
  l_committing :: bool
  l_dev :: uint
  lh_n :: int
  lh_block :: "uint list"

record klog = kbuf +
  log :: log

definition logupd :: "(log \<Rightarrow> log) \<Rightarrow> (unit, 'z klog_scheme) M" where
  "logupd f = kmod (\<lambda>s. s\<lparr>log := f (log s)\<rparr>)"

definition logget :: "(log \<Rightarrow> 'a) \<Rightarrow> ('a, 'z klog_scheme) M" where
  "logget f = kget (\<lambda>s. f (log s))"

section \<open>Commit and recovery\<close>

definition install_trans :: "(unit, 'z klog_scheme) M" where
  "install_trans =
     kbind (logget (\<lambda>l. l)) (\<lambda>l.
     kfor [0..<nat (lh_n l)] (\<lambda>tail.
       kbind (bread (l_dev l) (of_int (l_start l + int tail + 1))) (\<lambda>lbuf.
       kbind (bread (l_dev l) (lh_block l ! tail)) (\<lambda>dbuf.
       kbind (getb lbuf) (\<lambda>lb.
       kseq (bdata dbuf (\<lambda>_. b_data lb))
      (kseq (bwrite dbuf)
      (kseq (brelse lbuf)
            (brelse dbuf))))))))"

definition read_head :: "(unit, 'z klog_scheme) M" where
  "read_head =
     kbind (logget (\<lambda>l. l)) (\<lambda>l.
     kbind (bread (l_dev l) (of_int (l_start l))) (\<lambda>i.
     kbind (getb i) (\<lambda>b.
     kseq (logupd (\<lambda>l. l\<lparr>lh_n := sint (rd32 (b_data b) 0)\<rparr>))
    (kseq (kfor [0..<nat (sint (rd32 (b_data b) 0))] (\<lambda>k.
             if k \<ge> LOGSIZE then kundef
             else logupd (\<lambda>l. l\<lparr>lh_block := (lh_block l)[k := rd32 (b_data b) (4 + 4 * k)]\<rparr>)))
          (brelse i)))))"

definition write_head :: "(unit, 'z klog_scheme) M" where
  "write_head =
     kbind (logget (\<lambda>l. l)) (\<lambda>l.
     kbind (bread (l_dev l) (of_int (l_start l))) (\<lambda>i.
     kseq (bdata i (\<lambda>d. wr32 d 0 (of_int (lh_n l))))
    (kseq (kfor [0..<nat (lh_n l)] (\<lambda>k.
             if k \<ge> LOGSIZE then kundef
             else bdata i (\<lambda>d. wr32 d (4 + 4 * k) (lh_block l ! k))))
    (kseq (bwrite i)
          (brelse i)))))"

definition recover_from_log :: "(unit, 'z klog_scheme) M" where
  "recover_from_log =
     kseq read_head
    (kseq install_trans
    (kseq (logupd (\<lambda>l. l\<lparr>lh_n := 0\<rparr>))
          write_head))"

text \<open>The size of the header is checked when the log is set up: 4 bytes and 4 for each block.\<close>

definition initlog :: "uint \<Rightarrow> (unit, 'z klog_scheme) M" where
  "initlog dev =
     (if 4 + 4 * LOGSIZE \<ge> BSIZE then kpanic ''initlog: too big logheader''
      else
        kbind (readsb dev) (\<lambda>sb.
        kseq (logupd (\<lambda>l. l\<lparr>l_start := sint (sb_logstart sb), l_size := sint (sb_nlog sb), l_dev := dev\<rparr>))
             recover_from_log))"

definition write_log :: "(unit, 'z klog_scheme) M" where
  "write_log =
     kbind (logget (\<lambda>l. l)) (\<lambda>l.
     kfor [0..<nat (lh_n l)] (\<lambda>tail.
       kbind (bread (l_dev l) (of_int (l_start l + int tail + 1))) (\<lambda>to.
       kbind (bread (l_dev l) (lh_block l ! tail)) (\<lambda>from.
       kbind (getb from) (\<lambda>fb.
       kseq (bdata to (\<lambda>_. b_data fb))
      (kseq (bwrite to)
      (kseq (brelse from)
            (brelse to))))))))"

definition commit :: "(unit, 'z klog_scheme) M" where
  "commit =
     kbind (logget lh_n) (\<lambda>n.
     kwhen (n > 0)
       (kseq write_log
       (kseq write_head
       (kseq install_trans
       (kseq (logupd (\<lambda>l. l\<lparr>lh_n := 0\<rparr>))
             write_head)))))"

section \<open>Transactions\<close>

text \<open>The loop of \<^verbatim>\<open>begin_op\<close>, with the lock held.\<close>

definition begin_op_loop :: "(unit, 'z klog_scheme) M" where
  "begin_op_loop =
     kbind (logget (\<lambda>l. l)) (\<lambda>l.
     if l_committing l then sleep ChLog LogLock
     else if lh_n l + (l_outstanding l + 1) * int MAXOPBLOCKS > int LOGSIZE then sleep ChLog LogLock
     else
       kseq (logupd (\<lambda>l. l\<lparr>l_outstanding := l_outstanding l + 1\<rparr>))
            (release LogLock))"

definition begin_op :: "(unit, 'z klog_scheme) M" where
  "begin_op = kseq (acquire LogLock) begin_op_loop"

definition begin_op_return :: "nat \<Rightarrow> (unit, 'z klog_scheme) M" where
  "begin_op_return c = kseq (sleep_return c LogLock) begin_op_loop"

definition end_op :: "(unit, 'z klog_scheme) M" where
  "end_op =
     kseq (acquire LogLock)
    (kseq (logupd (\<lambda>l. l\<lparr>l_outstanding := l_outstanding l - 1\<rparr>))
    (kbind (logget (\<lambda>l. l)) (\<lambda>l.
     if l_committing l then kpanic ''log.committing''
     else if l_outstanding l = 0 then
       kseq (logupd (\<lambda>l. l\<lparr>l_committing := True\<rparr>))
      (kseq (release LogLock)
      (kseq commit
      (kseq (acquire LogLock)
      (kseq (logupd (\<lambda>l. l\<lparr>l_committing := False\<rparr>))
      (kseq (wakeup ChLog)
            (release LogLock))))))
     else
       kseq (wakeup ChLog)
            (release LogLock))))"

text \<open>The first index below \<open>n\<close> at which the block is logged already, or \<open>n\<close>.\<close>

definition log_index :: "uint list \<Rightarrow> nat \<Rightarrow> uint \<Rightarrow> nat" where
  "log_index blocks n b =
     (case find (\<lambda>i. blocks ! i = b) [0..<n] of Some i \<Rightarrow> i | None \<Rightarrow> n)"

definition log_write :: "nat \<Rightarrow> (unit, 'z klog_scheme) M" where
  "log_write i =
     kbind (logget (\<lambda>l. l)) (\<lambda>l.
     if lh_n l \<ge> int LOGSIZE \<or> lh_n l \<ge> l_size l - 1 then kpanic ''too big a transaction''
     else if l_outstanding l < 1 then kpanic ''log_write outside of trans''
     else
       kseq (acquire LogLock)
      (kbind (getb i) (\<lambda>b.
       (let k = log_index (lh_block l) (nat (lh_n l)) (b_blockno b) in
        kseq (logupd (\<lambda>l. l\<lparr>lh_block := (lh_block l)[k := b_blockno b],
                            lh_n := (if int k = lh_n l then lh_n l + 1 else lh_n l)\<rparr>))
       (kseq (updb i (\<lambda>b. b\<lparr>b_dirty := True\<rparr>))
             (release LogLock))))))"

end
