(* ===== verification/Inode.thy ===== *)
theory Inode
  imports Log
begin

text \<open>
  The lower layers of the file system (\<^verbatim>\<open>fs.c\<close>, \<^verbatim>\<open>fs.h\<close>, \<^verbatim>\<open>file.h\<close>): the block allocator, the inode cache and
  the mapping of the blocks of a file.  An inode is its index in \<^verbatim>\<open>icache.inode\<close>.
\<close>

section \<open>On-disk structures (fs.h)\<close>

definition ROOTINO :: uint where "ROOTINO = 1"
definition NDIRECT :: nat where "NDIRECT = 12"
definition NINDIRECT :: nat where "NINDIRECT = BSIZE div 4"
definition MAXFILE :: nat where "MAXFILE = NDIRECT + NINDIRECT"
definition DINODE_SIZE :: nat where "DINODE_SIZE = 64"
definition IPB :: nat where "IPB = BSIZE div DINODE_SIZE"
definition BPB :: nat where "BPB = BSIZE * 8"
definition T_DIR :: ushort where "T_DIR = 1"
definition T_FILE :: ushort where "T_FILE = 2"
definition T_DEV :: ushort where "T_DEV = 3"

lemmas fs_params = NDIRECT_def NINDIRECT_def MAXFILE_def DINODE_SIZE_def IPB_def BPB_def BSIZE_def

definition IBLOCK :: "uint \<Rightarrow> superblock \<Rightarrow> uint" where
  "IBLOCK i sb = i div of_nat IPB + sb_inodestart sb"

definition BBLOCK :: "uint \<Rightarrow> superblock \<Rightarrow> uint" where
  "BBLOCK b sb = b div of_nat BPB + sb_bmapstart sb"

definition rd16 :: "block \<Rightarrow> nat \<Rightarrow> ushort" where
  "rd16 d off = (ucast (d ! off) :: ushort) OR push_bit 8 (ucast (d ! (off + 1)))"

definition half_bytes :: "ushort \<Rightarrow> uchar list" where
  "half_bytes w = [ucast w, ucast (drop_bit 8 w)]"

record dinode =
  d_type :: ushort
  d_major :: ushort
  d_minor :: ushort
  d_nlink :: ushort
  d_size :: uint
  d_addrs :: "uint list"

definition dinode_of :: "block \<Rightarrow> nat \<Rightarrow> dinode" where
  "dinode_of d off = \<lparr>d_type = rd16 d off, d_major = rd16 d (off + 2), d_minor = rd16 d (off + 4),
     d_nlink = rd16 d (off + 6), d_size = rd32 d (off + 8),
     d_addrs = map (\<lambda>k. rd32 d (off + 12 + 4 * k)) [0..<NDIRECT + 1]\<rparr>"

definition dinode_bytes :: "dinode \<Rightarrow> uchar list" where
  "dinode_bytes di = half_bytes (d_type di) @ half_bytes (d_major di) @ half_bytes (d_minor di)
     @ half_bytes (d_nlink di) @ word_bytes (d_size di) @ concat (map word_bytes (d_addrs di))"

section \<open>State\<close>

record inode =
  ip_dev :: uint
  ip_inum :: uint
  ip_ref :: int
  ip_lock :: sleeplock
  ip_valid :: bool
  ip_type :: ushort
  ip_major :: ushort
  ip_minor :: ushort
  ip_nlink :: ushort
  ip_size :: uint
  ip_addrs :: "uint list"

record kinode = klog +
  sb :: superblock
  inodes :: "inode list"

definition geti :: "nat \<Rightarrow> (inode, 'z kinode_scheme) M" where
  "geti i = (\<lambda>s. if i < length (inodes s) then Ok (inodes s ! i) s else Undef)"

definition updi :: "nat \<Rightarrow> (inode \<Rightarrow> inode) \<Rightarrow> (unit, 'z kinode_scheme) M" where
  "updi i f = (\<lambda>s.
     if i < length (inodes s) then Ok () (s\<lparr>inodes := (inodes s)[i := f (inodes s ! i)]\<rparr>) else Undef)"

definition inode_lens :: "nat \<Rightarrow> 'z kinode_scheme lens" where
  "inode_lens i = \<lparr>ln_spin = InodeLk i, ln_chan = ChInodeLock i,
     ln_get = (\<lambda>s. if i < length (inodes s) then Some (ip_lock (inodes s ! i)) else None),
     ln_set = (\<lambda>l s. s\<lparr>inodes := (inodes s)[i := (inodes s ! i)\<lparr>ip_lock := l\<rparr>]\<rparr>)\<rparr>"

section \<open>Blocks\<close>

definition bzero :: "uint \<Rightarrow> uint \<Rightarrow> (unit, 'z kinode_scheme) M" where
  "bzero dev bno =
     kbind (bread dev bno) (\<lambda>i.
     kseq (bdata i (\<lambda>_. replicate BSIZE 0))
    (kseq (log_write i)
          (brelse i)))"

definition bit_free :: "block \<Rightarrow> nat \<Rightarrow> bool" where
  "bit_free d bi \<longleftrightarrow> d ! (bi div 8) AND push_bit (bi mod 8) 1 = 0"

definition mark_used :: "nat \<Rightarrow> block \<Rightarrow> block" where
  "mark_used bi d = d[bi div 8 := d ! (bi div 8) OR push_bit (bi mod 8) 1]"

definition mark_free :: "nat \<Rightarrow> block \<Rightarrow> block" where
  "mark_free bi d = d[bi div 8 := d ! (bi div 8) AND NOT (push_bit (bi mod 8) 1)]"

text \<open>The two loops of \<^verbatim>\<open>balloc\<close>; \<open>bs\<close> are the multiples of BPB that are left.\<close>

primrec balloc_loop :: "uint \<Rightarrow> nat list \<Rightarrow> (uint, 'z kinode_scheme) M" where
  "balloc_loop dev [] = kpanic ''balloc: out of blocks''"
| "balloc_loop dev (b # bs) =
     kbind (kget sb) (\<lambda>sb.
     kbind (bread dev (BBLOCK (of_nat b) sb)) (\<lambda>i.
     kbind (getb i) (\<lambda>buf.
     case find (\<lambda>bi. b + bi < unat (sb_size sb) \<and> bit_free (b_data buf) bi) [0..<BPB] of
       Some bi \<Rightarrow>
         kseq (bdata i (mark_used bi))
        (kseq (log_write i)
        (kseq (brelse i)
        (kseq (bzero dev (of_nat (b + bi)))
              (kret (of_nat (b + bi))))))
     | None \<Rightarrow> kseq (brelse i) (balloc_loop dev bs))))"

definition balloc :: "uint \<Rightarrow> (uint, 'z kinode_scheme) M" where
  "balloc dev =
     kbind (kget (\<lambda>s. unat (sb_size (sb s)))) (\<lambda>n.
     balloc_loop dev (map (\<lambda>k. k * BPB) [0..<(n + BPB - 1) div BPB]))"

definition bfree :: "uint \<Rightarrow> uint \<Rightarrow> (unit, 'z kinode_scheme) M" where
  "bfree dev b =
     kbind (kget sb) (\<lambda>sb.
     kbind (bread dev (BBLOCK b sb)) (\<lambda>i.
     kbind (getb i) (\<lambda>buf.
     (let bi = unat b mod BPB in
      if bit_free (b_data buf) bi then kpanic ''freeing free block''
      else
        kseq (bdata i (mark_free bi))
       (kseq (log_write i)
             (brelse i))))))"

section \<open>The inode cache\<close>

definition iinit :: "uint \<Rightarrow> (unit, 'z kinode_scheme) M" where
  "iinit dev =
     kseq (kfor [0..<NINODE] (\<lambda>i. updi i (\<lambda>ip. ip\<lparr>ip_lock := initsleeplock\<rparr>)))
    (kbind (readsb dev) (\<lambda>r.
     kseq (kmod (\<lambda>s. s\<lparr>sb := r\<rparr>))
          (cprintf (''sb: size %d nblocks %d ninodes %d nlog %d logstart %d inodestart %d bmap start %d'' @ [CHR 0x0A])
             [ArgU (sb_size r), ArgU (sb_nblocks r), ArgU (sb_ninodes r), ArgU (sb_nlog r),
              ArgU (sb_logstart r), ArgU (sb_inodestart r), ArgU (sb_bmapstart r)])))"

text \<open>The scan of \<^verbatim>\<open>iget\<close>: the entry of the inode, or else the first free one.\<close>

definition iget :: "uint \<Rightarrow> uint \<Rightarrow> (nat, 'z kinode_scheme) M" where
  "iget dev inum =
     kseq (acquire IcacheLock)
    (kbind (kget inodes) (\<lambda>ips.
     case find (\<lambda>i. ip_ref (ips ! i) > 0 \<and> ip_dev (ips ! i) = dev \<and> ip_inum (ips ! i) = inum) [0..<length ips] of
       Some i \<Rightarrow>
         kseq (updi i (\<lambda>ip. ip\<lparr>ip_ref := ip_ref ip + 1\<rparr>))
        (kseq (release IcacheLock)
              (kret i))
     | None \<Rightarrow>
         (case find (\<lambda>i. ip_ref (ips ! i) = 0) [0..<length ips] of
            None \<Rightarrow> kpanic ''iget: no inodes''
          | Some i \<Rightarrow>
              kseq (updi i (\<lambda>ip. ip\<lparr>ip_dev := dev, ip_inum := inum, ip_ref := 1, ip_valid := False\<rparr>))
             (kseq (release IcacheLock)
                   (kret i)))))"

primrec ialloc_loop :: "uint \<Rightarrow> ushort \<Rightarrow> nat list \<Rightarrow> (nat, 'z kinode_scheme) M" where
  "ialloc_loop dev ty [] = kpanic ''ialloc: no inodes''"
| "ialloc_loop dev ty (inum # inums) =
     kbind (kget sb) (\<lambda>sb.
     kbind (bread dev (IBLOCK (of_nat inum) sb)) (\<lambda>i.
     kbind (getb i) (\<lambda>b.
     (let off = (inum mod IPB) * DINODE_SIZE in
      if rd16 (b_data b) off = 0 then
        kseq (bdata i (\<lambda>d. splice (splice d off (replicate DINODE_SIZE 0)) off (half_bytes ty)))
       (kseq (log_write i)
       (kseq (brelse i)
             (iget dev (of_nat inum))))
      else kseq (brelse i) (ialloc_loop dev ty inums)))))"

definition ialloc :: "uint \<Rightarrow> ushort \<Rightarrow> (nat, 'z kinode_scheme) M" where
  "ialloc dev ty =
     kbind (kget (\<lambda>s. unat (sb_ninodes (sb s)))) (\<lambda>n. ialloc_loop dev ty [1..<n])"

definition iupdate :: "nat \<Rightarrow> (unit, 'z kinode_scheme) M" where
  "iupdate i =
     kbind (geti i) (\<lambda>ip.
     kbind (kget sb) (\<lambda>sb.
     kbind (bread (ip_dev ip) (IBLOCK (ip_inum ip) sb)) (\<lambda>b.
     kseq (bdata b (\<lambda>d. splice d ((unat (ip_inum ip) mod IPB) * DINODE_SIZE)
             (dinode_bytes \<lparr>d_type = ip_type ip, d_major = ip_major ip, d_minor = ip_minor ip,
                d_nlink = ip_nlink ip, d_size = ip_size ip, d_addrs = ip_addrs ip\<rparr>)))
    (kseq (log_write b)
          (brelse b)))))"

definition idup :: "nat \<Rightarrow> (nat, 'z kinode_scheme) M" where
  "idup i =
     kseq (acquire IcacheLock)
    (kseq (updi i (\<lambda>ip. ip\<lparr>ip_ref := ip_ref ip + 1\<rparr>))
    (kseq (release IcacheLock)
          (kret i)))"

text \<open>The null pointer is \<open>None\<close>.\<close>

definition ilock :: "nat option \<Rightarrow> (unit, 'z kinode_scheme) M" where
  "ilock r = (case r of
     None \<Rightarrow> kpanic ''ilock''
   | Some i \<Rightarrow>
       kbind (geti i) (\<lambda>ip.
       if ip_ref ip < 1 then kpanic ''ilock''
       else
         kseq (acquiresleep (inode_lens i))
        (kbind (geti i) (\<lambda>ip.
         if ip_valid ip then kret ()
         else
           kbind (kget sb) (\<lambda>sb.
           kbind (bread (ip_dev ip) (IBLOCK (ip_inum ip) sb)) (\<lambda>b.
           kbind (getb b) (\<lambda>buf.
           (let di = dinode_of (b_data buf) ((unat (ip_inum ip) mod IPB) * DINODE_SIZE) in
            kseq (updi i (\<lambda>ip. ip\<lparr>ip_type := d_type di, ip_major := d_major di, ip_minor := d_minor di,
                                 ip_nlink := d_nlink di, ip_size := d_size di, ip_addrs := d_addrs di\<rparr>))
           (kseq (brelse b)
           (kseq (updi i (\<lambda>ip. ip\<lparr>ip_valid := True\<rparr>))
                 (if d_type di = 0 then kpanic ''ilock: no type'' else kret ())))))))))))"

definition iunlock :: "nat option \<Rightarrow> (unit, 'z kinode_scheme) M" where
  "iunlock r = (case r of
     None \<Rightarrow> kpanic ''iunlock''
   | Some i \<Rightarrow>
       kbind (holdingsleep (inode_lens i)) (\<lambda>h.
       kbind (geti i) (\<lambda>ip.
       if \<not> h \<or> ip_ref ip < 1 then kpanic ''iunlock''
       else releasesleep (inode_lens i))))"

section \<open>The blocks of a file\<close>

definition bmap :: "nat \<Rightarrow> uint \<Rightarrow> (uint, 'z kinode_scheme) M" where
  "bmap i bn =
     kbind (geti i) (\<lambda>ip.
     if unat bn < NDIRECT then
       (if ip_addrs ip ! unat bn = 0 then
          kbind (balloc (ip_dev ip)) (\<lambda>addr.
          kseq (updi i (\<lambda>ip. ip\<lparr>ip_addrs := (ip_addrs ip)[unat bn := addr]\<rparr>))
               (kret addr))
        else kret (ip_addrs ip ! unat bn))
     else if unat bn - NDIRECT < NINDIRECT then
       kbind (if ip_addrs ip ! NDIRECT = 0 then
                kbind (balloc (ip_dev ip)) (\<lambda>addr.
                kseq (updi i (\<lambda>ip. ip\<lparr>ip_addrs := (ip_addrs ip)[NDIRECT := addr]\<rparr>))
                     (kret addr))
              else kret (ip_addrs ip ! NDIRECT)) (\<lambda>iaddr.
       kbind (bread (ip_dev ip) iaddr) (\<lambda>b.
       kbind (getb b) (\<lambda>buf.
       (let k = 4 * (unat bn - NDIRECT) in
        if rd32 (b_data buf) k = 0 then
          kbind (balloc (ip_dev ip)) (\<lambda>addr.
          kseq (bdata b (\<lambda>d. wr32 d k addr))
         (kseq (log_write b)
         (kseq (brelse b)
               (kret addr))))
        else
          kseq (brelse b) (kret (rd32 (b_data buf) k))))))
     else kpanic ''bmap: out of range'')"

definition itrunc :: "nat \<Rightarrow> (unit, 'z kinode_scheme) M" where
  "itrunc i =
     kseq (kfor [0..<NDIRECT] (\<lambda>k.
             kbind (geti i) (\<lambda>ip.
             kwhen (ip_addrs ip ! k \<noteq> 0)
               (kseq (bfree (ip_dev ip) (ip_addrs ip ! k))
                     (updi i (\<lambda>ip. ip\<lparr>ip_addrs := (ip_addrs ip)[k := 0]\<rparr>))))))
    (kseq (kbind (geti i) (\<lambda>ip.
           kwhen (ip_addrs ip ! NDIRECT \<noteq> 0)
             (kbind (bread (ip_dev ip) (ip_addrs ip ! NDIRECT)) (\<lambda>b.
              kseq (kfor [0..<NINDIRECT] (\<lambda>j.
                      kbind (getb b) (\<lambda>buf.
                      kwhen (rd32 (b_data buf) (4 * j) \<noteq> 0)
                        (bfree (ip_dev ip) (rd32 (b_data buf) (4 * j))))))
             (kseq (brelse b)
             (kseq (bfree (ip_dev ip) (ip_addrs ip ! NDIRECT))
                   (updi i (\<lambda>ip. ip\<lparr>ip_addrs := (ip_addrs ip)[NDIRECT := 0]\<rparr>))))))))
    (kseq (updi i (\<lambda>ip. ip\<lparr>ip_size := 0\<rparr>))
          (iupdate i)))"

definition iput :: "nat \<Rightarrow> (unit, 'z kinode_scheme) M" where
  "iput i =
     kseq (acquiresleep (inode_lens i))
    (kbind (geti i) (\<lambda>ip.
     kseq (kwhen (ip_valid ip \<and> ip_nlink ip = 0)
             (kseq (acquire IcacheLock)
             (kbind (geti i) (\<lambda>ip.
              kseq (release IcacheLock)
                   (kwhen (ip_ref ip = 1)
                     (kseq (itrunc i)
                     (kseq (updi i (\<lambda>ip. ip\<lparr>ip_type := 0\<rparr>))
                     (kseq (iupdate i)
                           (updi i (\<lambda>ip. ip\<lparr>ip_valid := False\<rparr>))))))))))
    (kseq (releasesleep (inode_lens i))
    (kseq (acquire IcacheLock)
    (kseq (updi i (\<lambda>ip. ip\<lparr>ip_ref := ip_ref ip - 1\<rparr>))
          (release IcacheLock))))))"

definition iunlockput :: "nat \<Rightarrow> (unit, 'z kinode_scheme) M" where
  "iunlockput i = kseq (iunlock (Some i)) (iput i)"

record stat =
  st_type :: ushort
  st_dev :: uint
  st_ino :: uint
  st_nlink :: ushort
  st_size :: uint

definition stati :: "nat \<Rightarrow> (stat, 'z kinode_scheme) M" where
  "stati i =
     kbind (geti i) (\<lambda>ip.
     kret \<lparr>st_type = ip_type ip, st_dev = ip_dev ip, st_ino = ip_inum ip, st_nlink = ip_nlink ip,
           st_size = ip_size ip\<rparr>)"

end
