(* ===== verification/Console.thy ===== *)
theory Console
  imports Inode
begin

text \<open>
  Console input (\<^verbatim>\<open>console.c\<close>): the line discipline with history and completion, and reading and writing the
  console device.  The function \<^verbatim>\<open>getc\<close> that the keyboard and the serial port pass to \<^verbatim>\<open>consoleintr\<close> is the
  list of the values it returns; when the list is used up it returns -1.
\<close>

section \<open>State\<close>

definition INPUT_BUF :: nat where "INPUT_BUF = 128"
definition HIST_MAX :: nat where "HIST_MAX = 16"

record input =
  in_buf :: "uchar list"
  in_r :: uint
  in_w :: uint
  in_e :: uint

record chist =
  history :: "uchar list list"
  hist_count :: int
  hist_head :: int
  hist_pos :: int

record kcin = kinode +
  input :: input
  hist :: chist

definition inget :: "(input \<Rightarrow> 'a) \<Rightarrow> ('a, 'z kcin_scheme) M" where
  "inget f = kget (\<lambda>s. f (input s))"

definition inupd :: "(input \<Rightarrow> input) \<Rightarrow> (unit, 'z kcin_scheme) M" where
  "inupd f = kmod (\<lambda>s. s\<lparr>input := f (input s)\<rparr>)"

definition histupd :: "(chist \<Rightarrow> chist) \<Rightarrow> (unit, 'z kcin_scheme) M" where
  "histupd f = kmod (\<lambda>s. s\<lparr>hist := f (hist s)\<rparr>)"

text \<open>The character at a counter, and storing one at the edit counter.\<close>

definition in_at :: "input \<Rightarrow> uint \<Rightarrow> uchar" where
  "in_at inp k = in_buf inp ! (unat k mod INPUT_BUF)"

definition in_put :: "uchar \<Rightarrow> input \<Rightarrow> input" where
  "in_put c inp = inp\<lparr>in_buf := (in_buf inp)[unat (in_e inp) mod INPUT_BUF := c], in_e := in_e inp + 1\<rparr>"

section \<open>History\<close>

text \<open>The start of the line that ends at \<open>e\<close>; the counters are used as ints.\<close>

function hist_start :: "input \<Rightarrow> int \<Rightarrow> int" where
  "hist_start inp start =
     (if start > 0 \<and> start > sint (in_r inp) \<and> in_buf inp ! nat ((start - 1) mod int INPUT_BUF) \<noteq> 10
      then hist_start inp (start - 1) else start)"
  by pat_completeness auto
termination
  by (relation "measure (\<lambda>(inp, start). nat start)") auto

declare hist_start.simps [simp del]

text \<open>C's remainder of a negative int is negative; an index that is negative is outside of the buffer.\<close>

definition history_add :: "(unit, 'z kcin_scheme) M" where
  "history_add =
     kbind (inget (\<lambda>i. i)) (\<lambda>inp.
     (let start = hist_start inp (sint (in_e inp - 1));
          len = sint (in_e inp - of_int start) in
      if len \<le> 1 then kret ()
      else
        (let copylen = (if len - 1 \<ge> int INPUT_BUF then int INPUT_BUF - 1 else len - 1) in
         if start < 0 then kundef
         else
           kseq (histupd (\<lambda>h. h\<lparr>history := (history h)[nat (hist_head h) :=
                   splice (history h ! nat (hist_head h)) 0
                     (map (\<lambda>i. in_buf inp ! nat ((start + int i) mod int INPUT_BUF)) [0..<nat copylen] @ [0])]\<rparr>))
                (histupd (\<lambda>h. h\<lparr>hist_head := (hist_head h + 1) mod int HIST_MAX,
                   hist_count := (if hist_count h < int HIST_MAX then hist_count h + 1 else hist_count h),
                   hist_pos := - 1\<rparr>)))))"

text \<open>The string that \<^verbatim>\<open>history_get\<close> copies; it leaves \<^verbatim>\<open>out\<close> as it is when the index is not valid.\<close>

definition history_get :: "chist \<Rightarrow> int \<Rightarrow> uchar list option" where
  "history_get h logical_index =
     (if logical_index < 0 \<or> logical_index \<ge> hist_count h then None
      else
        (let base = (hist_head h - hist_count h + int HIST_MAX) mod int HIST_MAX;
             real = (base + logical_index) mod int HIST_MAX
         in Some (take (INPUT_BUF - 1) (cstr (history h ! nat real)))))"

text \<open>Erasing \<open>n\<close> characters of the edit line.\<close>

primrec erase :: "nat \<Rightarrow> (unit, 'z kcin_scheme) M" where
  "erase 0 = kret ()"
| "erase (Suc n) =
     kseq (inupd (\<lambda>i. i\<lparr>in_e := in_e i - 1\<rparr>))
    (kseq (consputc BACKSPACE)
          (erase n))"

primrec insert_line :: "uchar list \<Rightarrow> (unit, 'z kcin_scheme) M" where
  "insert_line [] = kret ()"
| "insert_line (c # cs) =
     kbind (inget (\<lambda>i. i)) (\<lambda>inp.
     if unat (in_e inp - in_r inp) < INPUT_BUF then
       kseq (inupd (in_put c))
      (kseq (consputc (uint c))
            (insert_line cs))
     else kret ())"

text \<open>
  The loop of \<^verbatim>\<open>history_restore\<close> erases until \<^verbatim>\<open>e\<close> is \<^verbatim>\<open>w\<close>, which takes \<open>e - w\<close> steps.  A local buffer that
  was not filled has no defined contents.
\<close>

definition history_restore :: "int \<Rightarrow> (unit, 'z kcin_scheme) M" where
  "history_restore logical_index =
     kbind (if logical_index < 0 then kret []
            else kbind (kget (\<lambda>s. history_get (hist s) logical_index)) kopt) (\<lambda>tmp.
     kbind (inget (\<lambda>i. i)) (\<lambda>inp.
     kseq (erase (unat (in_e inp - in_w inp)))
          (insert_line tmp)))"

section \<open>Completion\<close>

definition commands :: "string list" where
  "commands = [''ls'', ''cat'', ''echo'', ''forktest'', ''grep'', ''kill'', ''mkdir'', ''rm'', ''pwd'', ''cd'',
     ''stressfs'', ''wolfietest'', ''clear'', ''history'', ''pwd'', ''ps'', ''setprioritytest'',
     ''getstatstest'', ''cpuhog'']"

text \<open>
  The comparison of a command with the line.  The line is read from \<open>buf[r % INPUT_BUF]\<close> on without going
  back to the start of the buffer; a comparison that gets past its end reads outside of it.
\<close>

definition cmd_match :: "input \<Rightarrow> string \<Rightarrow> bool option" where
  "cmd_match inp c =
     map_option (\<lambda>r. r = 0)
       (strncmp (lit c @ [0]) (drop (unat (in_r inp) mod INPUT_BUF) (in_buf inp)) (unat (in_e inp - in_r inp)))"

primrec cmd_matches :: "input \<Rightarrow> string list \<Rightarrow> (string list, 'z kcin_scheme) M" where
  "cmd_matches inp [] = kret []"
| "cmd_matches inp (c # cs) =
     kbind (kopt (cmd_match inp c)) (\<lambda>m.
     kbind (cmd_matches inp cs) (\<lambda>ms. kret (if m then c # ms else ms)))"

text \<open>Typing the rest of a command: here nothing checks that the buffer has room.\<close>

primrec complete :: "uchar list \<Rightarrow> (unit, 'z kcin_scheme) M" where
  "complete [] = kret ()"
| "complete (c # cs) =
     kseq (inupd (in_put c))
    (kseq (consputc (uint c))
          (complete cs))"

text \<open>
  The characters from \<^verbatim>\<open>r\<close> to \<^verbatim>\<open>e\<close>, if \<^verbatim>\<open>e\<close> has not wrapped around past \<^verbatim>\<open>r\<close>.  \<^verbatim>\<open>autocomplete\<close> prints them
  with an int as index, whose remainder is negative past the largest int.
\<close>

definition edit_line :: "input \<Rightarrow> uchar list" where
  "edit_line inp = map (\<lambda>k. in_buf inp ! (k mod INPUT_BUF)) [unat (in_r inp)..<unat (in_e inp)]"

definition autocomplete :: "(unit, 'z kcin_scheme) M" where
  "autocomplete =
     kbind (inget (\<lambda>i. i)) (\<lambda>inp.
     kbind (cmd_matches inp commands) (\<lambda>ms.
     (let len = unat (in_e inp - in_r inp) in
      if length ms = 1 then
        (if len \<le> length (hd ms) then complete (lit (drop len (hd ms))) else kundef)
      else if length ms > 1 then
        kseq (consputc 10)
       (kseq (kfor ms (\<lambda>c. kseq (consputs (lit c)) (consputc 32)))
       (kseq (consputc 10)
       (kseq (consputc 36)
       (kseq (consputc 32)
             (if in_r inp < in_e inp \<and> int (unat (in_e inp)) > INT_MAX then kundef
              else consputs (edit_line inp))))))
      else kret ())))"

section \<open>The interrupt handler\<close>

text \<open>The number of characters that Control-U erases.\<close>

primrec kill_count :: "nat \<Rightarrow> input \<Rightarrow> nat" where
  "kill_count 0 inp = 0"
| "kill_count (Suc n) inp =
     (if in_at inp (in_e inp - 1) \<noteq> 10 then Suc (kill_count n (inp\<lparr>in_e := in_e inp - 1\<rparr>)) else 0)"

definition cons_up :: "(unit, 'z kcin_scheme) M" where
  "cons_up =
     kbind (kget hist) (\<lambda>h.
     if hist_count h > 0 then
       kseq (histupd (\<lambda>h. h\<lparr>hist_pos := (if hist_pos h = - 1 then hist_count h - 1
                                        else if hist_pos h > 0 then hist_pos h - 1 else hist_pos h)\<rparr>))
            (kbind (kget (\<lambda>s. hist_pos (hist s))) history_restore)
     else kret ())"

definition cons_down :: "(unit, 'z kcin_scheme) M" where
  "cons_down =
     kbind (kget hist) (\<lambda>h.
     if hist_pos h \<noteq> - 1 then
       (if hist_pos h < hist_count h - 1 then
          kseq (histupd (\<lambda>h. h\<lparr>hist_pos := hist_pos h + 1\<rparr>)) (history_restore (hist_pos h + 1))
        else
          kseq (histupd (\<lambda>h. h\<lparr>hist_pos := - 1\<rparr>)) (history_restore (- 1)))
     else kret ())"

text \<open>A character that is not a control character.\<close>

definition cons_default :: "int \<Rightarrow> (unit, 'z kcin_scheme) M" where
  "cons_default c0 =
     kbind (inget (\<lambda>i. i)) (\<lambda>inp.
     if c0 \<noteq> 0 \<and> unat (in_e inp - in_r inp) < INPUT_BUF then
       (let c = (if c0 = 13 then 10 else c0) in
        kseq (histupd (\<lambda>h. h\<lparr>hist_pos := - 1\<rparr>))
       (kseq (inupd (in_put (of_int c)))
       (kseq (consputc c)
       (kbind (inget (\<lambda>i. i)) (\<lambda>inp.
        kwhen (c = 10 \<or> c = 4 \<or> in_e inp = in_r inp + of_nat INPUT_BUF)
          (kseq (kwhen (c = 10) history_add)
          (kseq (inupd (\<lambda>i. i\<lparr>in_w := in_e i\<rparr>))
                (wakeup ChInput))))))))
     else kret ())"

definition cons_char :: "int \<Rightarrow> (unit, 'z kcin_scheme) M" where
  "cons_char c =
     (if c = 21 then
        kbind (inget (\<lambda>i. i)) (\<lambda>inp. erase (kill_count (unat (in_e inp - in_w inp)) inp))
      else if c = 8 \<or> c = 127 then
        kbind (inget (\<lambda>i. i)) (\<lambda>inp. kwhen (in_e inp \<noteq> in_w inp) (erase 1))
      else if c = 12 then
        kbind (inget (\<lambda>i. i)) (\<lambda>inp.
        kfor ([27, 91, 50, 74, 27, 91, 72, 36, 32] @ map uint (edit_line inp)) consputc)
      else if c = 9 then autocomplete
      else cons_default c)"

text \<open>The loop of \<^verbatim>\<open>consoleintr\<close>: \<open>dump\<close> is \<^verbatim>\<open>doprocdump\<close>.\<close>

fun consoleintr_loop :: "int list \<Rightarrow> bool \<Rightarrow> (bool, 'z kcin_scheme) M" where
  "consoleintr_loop [] dump = kret dump"
| "consoleintr_loop (c # cs) dump =
     (if c < 0 then kret dump
      else if c = 27 then
        (case cs of
           [] \<Rightarrow> kret dump
         | c1 # cs1 \<Rightarrow>
             if c1 = 91 then
               (case cs1 of
                  [] \<Rightarrow> kret dump
                | c2 # cs2 \<Rightarrow>
                    kseq (if c2 = 65 then cons_up else if c2 = 66 then cons_down else kret ())
                         (consoleintr_loop cs2 dump))
             else consoleintr_loop cs1 dump)
      else if c = 16 then consoleintr_loop cs True
      else kseq (cons_char c) (consoleintr_loop cs dump))"

definition consoleintr :: "int list \<Rightarrow> (unit, 'z kcin_scheme) M" where
  "consoleintr cs =
     kseq (acquire ConsLock)
    (kbind (consoleintr_loop cs False) (\<lambda>dump.
     kseq (release ConsLock)
          (kwhen dump procdump)))"

section \<open>The console device\<close>

text \<open>
  The loops of \<^verbatim>\<open>consoleread\<close>, with the lock held: \<open>n\<close> bytes of \<open>target\<close> are still wanted, and \<open>got\<close> has been
  read.  \<open>None\<close> is the result -1.
\<close>

primrec consoleread_loop :: "nat \<Rightarrow> nat \<Rightarrow> nat \<Rightarrow> uchar list \<Rightarrow> (uchar list option, 'z kcin_scheme) M" where
  "consoleread_loop ip target 0 got =
     kseq (release ConsLock) (kseq (ilock (Some ip)) (kret (Some got)))"
| "consoleread_loop ip target (Suc n) got =
     kbind (inget (\<lambda>i. i)) (\<lambda>inp.
     if in_r inp = in_w inp then
       kbind mykilled (\<lambda>k.
       if k then kseq (release ConsLock) (kseq (ilock (Some ip)) (kret None))
       else sleep ChInput ConsLock)
     else
       (let c = in_at inp (in_r inp) in
        if c = 4 then
          kseq (kwhen (Suc n \<ge> target) (inupd (\<lambda>i. i\<lparr>in_r := in_r i + 1\<rparr>)))
         (kseq (release ConsLock) (kseq (ilock (Some ip)) (kret (Some got))))
        else
          kseq (inupd (\<lambda>i. i\<lparr>in_r := in_r i + 1\<rparr>))
         (if c = 10 then
            kseq (release ConsLock) (kseq (ilock (Some ip)) (kret (Some (got @ [c]))))
          else consoleread_loop ip target n (got @ [c]))))"

definition consoleread :: "nat \<Rightarrow> nat \<Rightarrow> (uchar list option, 'z kcin_scheme) M" where
  "consoleread ip n =
     kseq (iunlock (Some ip))
    (kseq (acquire ConsLock)
          (consoleread_loop ip n n []))"

definition consoleread_return ::
  "nat \<Rightarrow> nat \<Rightarrow> nat \<Rightarrow> nat \<Rightarrow> uchar list \<Rightarrow> (uchar list option, 'z kcin_scheme) M" where
  "consoleread_return c ip target n got =
     kseq (sleep_return c ConsLock) (consoleread_loop ip target n got)"

definition consolewrite :: "nat \<Rightarrow> uchar list \<Rightarrow> (int, 'z kcin_scheme) M" where
  "consolewrite ip bs =
     kseq (iunlock (Some ip))
    (kseq (acquire ConsLock)
    (kseq (consputs bs)
    (kseq (release ConsLock)
    (kseq (ilock (Some ip))
          (kret (int (length bs)))))))"

end
