(* ===== verification/Bio_Inv.thy ===== *)
theory Bio_Inv
  imports Bio
begin

text \<open>
  The buffer cache is correct.  The links of the buffers form a ring, which \<^verbatim>\<open>brelse\<close> keeps in the order of
  last use.  For one thread, the cache stands for the data of every block of the disk, for the set of
  dirty blocks and for the blocks in use (\<open>cache_view\<close>); the operations are described on this view, and
  the locale \<open>block_cache\<close> is what the log relies on.
\<close>

section \<open>The ring of buffers\<close>

text \<open>\<open>path nx pv a xs b\<close>: from \<open>a\<close> along \<open>nx\<close> over \<open>xs\<close> to \<open>b\<close>, with \<open>pv\<close> leading back.\<close>

fun path :: "(nat \<Rightarrow> nat) \<Rightarrow> (nat \<Rightarrow> nat) \<Rightarrow> nat \<Rightarrow> nat list \<Rightarrow> nat \<Rightarrow> bool" where
  "path nx pv a [] b \<longleftrightarrow> nx a = b \<and> pv b = a"
| "path nx pv a (x # xs) b \<longleftrightarrow> nx a = x \<and> pv x = a \<and> path nx pv x xs b"

lemma path_append: "path nx pv a (ys @ i # zs) b \<longleftrightarrow> path nx pv a ys i \<and> path nx pv i zs b"
  by (induction ys arbitrary: a) auto

lemma path_hd: "path nx pv a xs b \<Longrightarrow> nx a = hd (xs @ [b])"
  by (cases xs) auto

lemma path_last: "path nx pv a xs b \<Longrightarrow> pv b = last (a # xs)"
  by (induction xs arbitrary: a) auto

lemma path_new_end:
  "path nx pv a ys i \<Longrightarrow> distinct (a # ys) \<Longrightarrow> n \<notin> set ys \<Longrightarrow>
   path (nx(last (a # ys) := n)) (pv(n := last (a # ys))) a ys n"
  by (induction ys arbitrary: a) auto

lemma path_cong:
  "(\<And>k. k \<in> set (a # xs) \<Longrightarrow> nx' k = nx k) \<Longrightarrow> (\<And>k. k \<in> set (xs @ [b]) \<Longrightarrow> pv' k = pv k) \<Longrightarrow>
   path nx' pv' a xs b = path nx pv a xs b"
  by (induction xs arbitrary: a) auto

lemma path_new_start:
  assumes "path nx pv i zs b" and "distinct (zs @ [b])" and "p \<notin> set zs"
  shows "path (nx(p := hd (zs @ [b]))) (pv(hd (zs @ [b]) := p)) p zs b"
proof (cases zs)
  case (Cons z zs')
  have "path (nx(p := z)) (pv(z := p)) z zs' b = path nx pv z zs' b"
    using assms Cons by (intro path_cong) auto
  then show ?thesis using assms(1) Cons by simp
qed simp

lemma path_remove:
  assumes p: "path nx pv h (ys @ i # zs) h" and d: "distinct (h # ys @ i # zs)"
  shows "path (nx(pv i := nx i)) (pv(nx i := pv i)) h (ys @ zs) h"
proof -
  have ps: "path nx pv h ys i" "path nx pv i zs h" using p by (auto simp: path_append)
  then have e: "pv i = last (h # ys)" "nx i = hd (zs @ [h])" by (auto dest: path_last path_hd)
  show ?thesis
  proof (cases zs)
    case Nil
    then show ?thesis using path_new_end [OF ps(1), of h] d e by auto
  next
    case (Cons z zs')
    have l: "last (h # ys) \<in> set (h # ys)" by (rule last_in_set) simp
    have "path (nx(last (h # ys) := z)) (pv(z := last (h # ys))) h ys z"
      using path_new_end [OF ps(1), of z] d Cons by auto
    moreover have "path (nx(last (h # ys) := z)) (pv(z := last (h # ys))) z zs' h = path nx pv z zs' h"
    proof (rule path_cong)
      fix k assume "k \<in> set (z # zs')"
      then have "k \<notin> set (h # ys)" using d Cons by auto
      then show "(nx(last (h # ys) := z)) k = nx k" using l by auto
    next
      fix k assume "k \<in> set (zs' @ [h])"
      then show "(pv(z := last (h # ys))) k = pv k" using d Cons by auto
    qed
    ultimately show ?thesis using ps(2) e Cons by (simp add: path_append)
  qed
qed

lemma path_push:
  assumes "path nx pv h xs h" and "distinct (i # h # xs)"
  shows "path (nx(i := nx h, h := i)) (pv(i := h, nx h := i)) h (i # xs) h"
proof (cases xs)
  case Nil
  then show ?thesis using assms by auto
next
  case (Cons x xs')
  have "path (nx(i := x, h := i)) (pv(i := h, x := i)) x xs' h = path nx pv x xs' h"
    using assms Cons by (intro path_cong) auto
  then show ?thesis using assms Cons by auto
qed

definition ring :: "buf list \<Rightarrow> nat list \<Rightarrow> bool" where
  "ring bs xs \<longleftrightarrow> length bs = Suc NBUF \<and> distinct xs \<and> set xs = {0..<NBUF} \<and>
     path (\<lambda>k. b_next (bs ! k)) (\<lambda>k. b_prev (bs ! k)) NBUF xs NBUF"

lemma ring_length: "ring bs xs \<Longrightarrow> length bs = Suc NBUF"
  by (simp add: ring_def)

lemma ring_cong:
  assumes "length bs' = length bs"
    and "\<And>k. k < length bs \<Longrightarrow> b_next (bs' ! k) = b_next (bs ! k)"
    and "\<And>k. k < length bs \<Longrightarrow> b_prev (bs' ! k) = b_prev (bs ! k)"
  shows "ring bs' xs = ring bs xs"
proof -
  have "length bs = Suc NBUF \<Longrightarrow> set xs = {0..<NBUF} \<Longrightarrow>
      path (\<lambda>k. b_next (bs' ! k)) (\<lambda>k. b_prev (bs' ! k)) NBUF xs NBUF =
      path (\<lambda>k. b_next (bs ! k)) (\<lambda>k. b_prev (bs ! k)) NBUF xs NBUF"
    using assms by (intro path_cong) auto
  then show ?thesis using assms by (auto simp: ring_def)
qed

text \<open>An update of one buffer, and what it does to the links.\<close>

lemma nth_upd_next: "k < length bs \<Longrightarrow>
  (\<lambda>j. b_next (bs[k := f (bs ! k)] ! j)) = (\<lambda>j. b_next (bs ! j))(k := b_next (f (bs ! k)))"
  by (auto simp: nth_list_update)

lemma nth_upd_prev: "k < length bs \<Longrightarrow>
  (\<lambda>j. b_prev (bs[k := f (bs ! k)] ! j)) = (\<lambda>j. b_prev (bs ! j))(k := b_prev (f (bs ! k)))"
  by (auto simp: nth_list_update)

lemma ring_upd:
  assumes "b_next (f (bs ! i)) = b_next (bs ! i)" and "b_prev (f (bs ! i)) = b_prev (bs ! i)"
  shows "ring (bs[i := f (bs ! i)]) xs = ring bs xs"
proof (cases "i < length bs")
  case True
  then show ?thesis using assms by (intro ring_cong) (auto simp: nth_list_update)
next
  case False
  then show ?thesis by (simp add: list_update_beyond)
qed

text \<open>A buffer without its links.\<close>

definition nolinks :: "buf \<Rightarrow> buf" where
  "nolinks b = b\<lparr>b_prev := 0, b_next := 0\<rparr>"

lemma nolinks_upd [simp]:
  "nolinks (b\<lparr>b_prev := x\<rparr>) = nolinks b" "nolinks (b\<lparr>b_next := x\<rparr>) = nolinks b"
  by (simp_all add: nolinks_def)

lemma nolinks_fields:
  assumes "nolinks b = nolinks c"
  shows "b_valid b = b_valid c" "b_dirty b = b_dirty c" "b_dev b = b_dev c" "b_blockno b = b_blockno c"
    "b_lock b = b_lock c" "b_refcnt b = b_refcnt c" "b_data b = b_data c"
  using assms by (cases b; cases c; simp add: nolinks_def)+

lemma map_nolinks_upd: "nolinks (f (bs ! i)) = nolinks (bs ! i) \<Longrightarrow> map nolinks (bs[i := f (bs ! i)]) = map nolinks bs"
  by (cases "i < length bs") (auto simp: list_eq_iff_nth_eq nth_list_update)

lemma map_nolinks_nth: "map nolinks bs' = map nolinks bs \<Longrightarrow> i < length bs \<Longrightarrow> nolinks (bs' ! i) = nolinks (bs ! i)"
  by (metis length_map nth_map)

abbreviation nexts :: "buf list \<Rightarrow> nat \<Rightarrow> nat" where
  "nexts bs \<equiv> (\<lambda>k. b_next (bs ! k))"

abbreviation prevs :: "buf list \<Rightarrow> nat \<Rightarrow> nat" where
  "prevs bs \<equiv> (\<lambda>k. b_prev (bs ! k))"

lemma path_less:
  "path nx pv a xs b \<Longrightarrow> k \<in> set (a # xs) \<Longrightarrow> nx k \<in> set (xs @ [b])"
  by (induction xs arbitrary: a) auto

lemma path_less_prev:
  "path nx pv a xs b \<Longrightarrow> k \<in> set (xs @ [b]) \<Longrightarrow> pv k \<in> set (a # xs)"
  by (induction xs arbitrary: a) auto

lemma ring_links:
  assumes "ring bs xs" and "i \<le> NBUF"
  shows "b_next (bs ! i) < length bs" "b_prev (bs ! i) < length bs"
proof -
  have "i \<in> set (NBUF # xs)" "i \<in> set (xs @ [NBUF])" using assms by (auto simp: ring_def)
  then show "b_next (bs ! i) < length bs" "b_prev (bs ! i) < length bs"
    using assms path_less [of "nexts bs" "prevs bs" NBUF xs NBUF i]
      path_less_prev [of "nexts bs" "prevs bs" NBUF xs NBUF i]
    by (auto simp: ring_def less_Suc_eq)
qed

text \<open>
  Moving a buffer to the front: \<open>bunlink\<close> leaves the path without it, and \<open>blink_head\<close> puts it first.
\<close>

lemma bunlink_path:
  assumes r: "path (nexts (bufs s)) (prevs (bufs s)) NBUF (ys @ i # zs) NBUF"
    and d: "distinct (NBUF # ys @ i # zs)" and len: "length (bufs s) = Suc NBUF"
    and sub: "set (ys @ i # zs) \<subseteq> {0..<NBUF}"
  obtains bs' where "bunlink i s = Ok () (s\<lparr>bufs := bs'\<rparr>)" "map nolinks bs' = map nolinks (bufs s)"
    "path (nexts bs') (prevs bs') NBUF (ys @ zs) NBUF"
proof -
  let ?bs = "bufs s"
  let ?n = "b_next (?bs ! i)" and ?p = "b_prev (?bs ! i)"
  have ni: "?n \<in> set (zs @ [NBUF])" and pi: "?p \<in> set (NBUF # ys)"
    using r path_hd [of "nexts ?bs" "prevs ?bs" i zs NBUF] path_last [of "nexts ?bs" "prevs ?bs" NBUF ys i]
    by (auto simp: path_append hd_append split: if_splits intro: list.set_sel)
  have lt: "i < length ?bs" "?n < length ?bs" "?p < length ?bs" and ne: "?n \<noteq> i" "?p \<noteq> i"
    using ni pi sub d len by auto
  define b1 where "b1 = ?bs[?n := (?bs ! ?n)\<lparr>b_prev := ?p\<rparr>]"
  define b2 where "b2 = b1[?p := (b1 ! ?p)\<lparr>b_next := ?n\<rparr>]"
  have "bunlink i s = Ok () (s\<lparr>bufs := b2\<rparr>)"
    using lt ne by (simp add: bunlink_def getb_def updb_def krun b2_def b1_def)
  moreover have "map nolinks b2 = map nolinks ?bs"
    unfolding b2_def b1_def by (simp add: map_nolinks_upd)
  moreover have "nexts b2 = (nexts ?bs)(?p := ?n)" "prevs b2 = (prevs ?bs)(?n := ?p)"
    using lt by (auto simp: b2_def b1_def nth_list_update)
  then have "path (nexts b2) (prevs b2) NBUF (ys @ zs) NBUF"
    using path_remove [OF r d] by simp
  ultimately show ?thesis using that by blast
qed

lemma blink_head_path:
  assumes r: "path (nexts (bufs s)) (prevs (bufs s)) NBUF xs NBUF"
    and d: "distinct (i # NBUF # xs)" and len: "length (bufs s) = Suc NBUF"
    and sub: "set (i # xs) \<subseteq> {0..<NBUF}"
  obtains bs' where "blink_head i s = Ok () (s\<lparr>bufs := bs'\<rparr>)" "map nolinks bs' = map nolinks (bufs s)"
    "path (nexts bs') (prevs bs') NBUF (i # xs) NBUF"
proof -
  let ?bs = "bufs s"
  let ?n = "b_next (?bs ! NBUF)"
  have ni: "?n \<in> set (xs @ [NBUF])"
    using r path_hd [of "nexts ?bs" "prevs ?bs" NBUF xs NBUF]
    by (auto simp: hd_append split: if_splits intro: list.set_sel)
  have lt: "i < length ?bs" "?n < length ?bs" "NBUF < length ?bs" and ne: "?n \<noteq> i" "i \<noteq> NBUF"
    using ni sub d len by auto
  define b1 where "b1 = ?bs[i := (?bs ! i)\<lparr>b_next := ?n\<rparr>]"
  define b2 where "b2 = b1[i := (b1 ! i)\<lparr>b_prev := NBUF\<rparr>]"
  define b3 where "b3 = b2[?n := (b2 ! ?n)\<lparr>b_prev := i\<rparr>]"
  define b4 where "b4 = b3[NBUF := (b3 ! NBUF)\<lparr>b_next := i\<rparr>]"
  have "blink_head i s = Ok () (s\<lparr>bufs := b4\<rparr>)"
    using lt ne by (simp add: blink_head_def getb_def updb_def krun b4_def b3_def b2_def b1_def)
  moreover have "map nolinks b4 = map nolinks ?bs"
    unfolding b4_def b3_def b2_def b1_def by (simp add: map_nolinks_upd del: list_update_overwrite)
  moreover have "nexts b4 = (nexts ?bs)(i := ?n, NBUF := i)" "prevs b4 = (prevs ?bs)(i := NBUF, ?n := i)"
    using lt ne by (auto simp: b4_def b3_def b2_def b1_def nth_list_update)
  then have "path (nexts b4) (prevs b4) NBUF (i # xs) NBUF"
    using path_push [OF r d] by simp
  ultimately show ?thesis using that by blast
qed

lemma relink_ring:
  assumes r: "ring (bufs s) (ys @ i # zs)"
  obtains bs' where "kseq (bunlink i) (blink_head i) s = Ok () (s\<lparr>bufs := bs'\<rparr>)"
    "map nolinks bs' = map nolinks (bufs s)" "ring bs' (i # ys @ zs)"
proof -
  have p: "path (nexts (bufs s)) (prevs (bufs s)) NBUF (ys @ i # zs) NBUF" and len: "length (bufs s) = Suc NBUF"
    and d: "distinct (NBUF # ys @ i # zs)" and sub: "set (ys @ i # zs) = {0..<NBUF}"
    using r by (auto simp: ring_def)
  obtain b1 where b1: "bunlink i s = Ok () (s\<lparr>bufs := b1\<rparr>)" "map nolinks b1 = map nolinks (bufs s)"
    "path (nexts b1) (prevs b1) NBUF (ys @ zs) NBUF"
    using bunlink_path [OF p d len] sub by blast
  have len1: "length b1 = Suc NBUF" using b1(2) len by (metis length_map)
  have "path (nexts (bufs (s\<lparr>bufs := b1\<rparr>))) (prevs (bufs (s\<lparr>bufs := b1\<rparr>))) NBUF (ys @ zs) NBUF"
    "distinct (i # NBUF # ys @ zs)" "length (bufs (s\<lparr>bufs := b1\<rparr>)) = Suc NBUF"
    "set (i # ys @ zs) \<subseteq> {0..<NBUF}"
    using b1(3) d len1 sub by auto
  from blink_head_path [OF this]
  obtain b2 where b2: "blink_head i (s\<lparr>bufs := b1\<rparr>) = Ok () ((s\<lparr>bufs := b1\<rparr>)\<lparr>bufs := b2\<rparr>)"
    "map nolinks b2 = map nolinks (bufs (s\<lparr>bufs := b1\<rparr>))" "path (nexts b2) (prevs b2) NBUF (i # ys @ zs) NBUF"
    by blast
  have "ring b2 (i # ys @ zs)"
    using b2 b1 len sub d by (auto simp: ring_def dest: map_eq_imp_length_eq)
  then show ?thesis using that [of b2] b1 b2 by (simp add: krun)
qed

text \<open>The scans of \<^verbatim>\<open>bget\<close> find the first buffer in the order of the list, forwards or backwards.\<close>

lemma bscan_next:
  assumes "path (nexts (bufs s)) pv a xs NBUF" and "set xs \<subseteq> {0..<NBUF}" and "length (bufs s) = Suc NBUF"
    and "length xs < n"
  shows "bscan b_next P n (b_next (bufs s ! a)) s = Ok (find (\<lambda>i. P (bufs s ! i)) xs) s"
  using assms
proof (induction xs arbitrary: a n)
  case Nil
  then show ?case by (cases n) (auto simp: krun)
next
  case (Cons x xs)
  then obtain m where n: "n = Suc m" by (cases n) auto
  have "x \<noteq> NBUF" "x < length (bufs s)" using Cons.prems by auto
  then show ?case using Cons.IH [of x m] Cons.prems n by (auto simp: krun getb_def)
qed

lemma bscan_prev:
  assumes "path nx (prevs (bufs s)) NBUF xs b" and "set xs \<subseteq> {0..<NBUF}" and "length (bufs s) = Suc NBUF"
    and "length xs < n"
  shows "bscan b_prev P n (b_prev (bufs s ! b)) s = Ok (find (\<lambda>i. P (bufs s ! i)) (rev xs)) s"
  using assms
proof (induction xs arbitrary: b n rule: rev_induct)
  case Nil
  then show ?case by (cases n) (auto simp: krun)
next
  case (snoc x xs)
  then obtain m where n: "n = Suc m" by (cases n) auto
  have "x \<noteq> NBUF" "x < length (bufs s)" using snoc.prems by auto
  moreover have "path nx (prevs (bufs s)) NBUF xs x" "prevs (bufs s) b = x"
    using snoc.prems(1) by (simp_all add: path_append)
  ultimately show ?case using snoc.IH [of x m] snoc.prems n by (auto simp: krun getb_def)
qed

lemma ring_card: "ring bs xs \<Longrightarrow> length xs = NBUF"
  by (auto simp: ring_def dest: distinct_card)

lemma bscan_ring:
  assumes "ring (bufs s) xs"
  shows "bscan b_next P (Suc NBUF) (b_next (bufs s ! NBUF)) s = Ok (find (\<lambda>i. P (bufs s ! i)) xs) s"
    and "bscan b_prev P (Suc NBUF) (b_prev (bufs s ! NBUF)) s = Ok (find (\<lambda>i. P (bufs s ! i)) (rev xs)) s"
  using assms ring_card [OF assms]
  by (auto simp: ring_def simp del: bscan.simps intro!: bscan_next bscan_prev)

section \<open>One thread in the cache\<close>

text \<open>A process runs and holds no spin lock.\<close>

definition cur_ok :: "'z kproc_scheme \<Rightarrow> bool" where
  "cur_ok s \<longleftrightarrow> held s = [] \<and> (case curproc s of None \<Rightarrow> False | Some c \<Rightarrow> c < length (procs (ptable s)))"

definition cur_pid :: "'z kproc_scheme \<Rightarrow> int" where
  "cur_pid s = p_pid (procs (ptable s) ! the (curproc s))"

definition woken :: "chan \<Rightarrow> proctable \<Rightarrow> proctable" where
  "woken ch pt = pt\<lparr>procs := map (wakeup_proc ch) (procs pt)\<rparr>"

lemma cur_okD: "cur_ok s \<Longrightarrow> held s = []"
  by (simp add: cur_ok_def)

lemma mypid_run: "cur_ok s \<Longrightarrow> mypid s = Ok (cur_pid s) s"
  by (auto simp: cur_ok_def cur_pid_def mypid_def myproc_def getp_def krun split: option.splits)

lemma mypid_held: "cur_ok s \<Longrightarrow> mypid (s\<lparr>held := h\<rparr>) = Ok (cur_pid s) (s\<lparr>held := h\<rparr>)"
  by (auto simp: cur_ok_def cur_pid_def mypid_def myproc_def getp_def krun split: option.splits)

lemma kbase_restore: "held s = [] \<Longrightarrow> s\<lparr>held := []\<rparr> = s"
  by (cases s) simp

lemma wakeup_proc_pid [simp]: "p_pid (wakeup_proc ch p) = p_pid p"
  by (simp add: wakeup_proc_def)

lemma woken_length [simp]: "length (procs (woken ch pt)) = length (procs pt)"
  by (simp add: woken_def)

lemma wakeup_woken:
  "PtableLock \<notin> set (held s) \<Longrightarrow> wakeup ch s = Ok () (s\<lparr>ptable := woken ch (ptable s)\<rparr>)"
  by (cases s) (simp add: wakeup_def wakeup1_def krun woken_def)

lemma kbuf_restore: "held s = [] \<Longrightarrow> s\<lparr>held := [], bufs := bs\<rparr> = s\<lparr>bufs := bs\<rparr>"
  by (cases s) simp

lemma kbuf_restore2: "held s = [] \<Longrightarrow> s\<lparr>held := [], ptable := pt, bufs := bs\<rparr> = s\<lparr>ptable := pt, bufs := bs\<rparr>"
  by (cases s) simp

lemma acquiresleep_buf:
  assumes "cur_ok s" and "i < length (bufs s)" and "\<not> sl_locked (b_lock (bufs s ! i))"
  shows "acquiresleep (buf_lens i) s =
    Ok () (s\<lparr>bufs := (bufs s)[i := (bufs s ! i)\<lparr>b_lock := \<lparr>sl_locked = True, sl_pid = cur_pid s\<rparr>\<rparr>]\<rparr>)"
  using assms cur_okD [OF assms(1)]
  by (simp add: acquiresleep_def acquiresleep_loop_def buf_lens_def krun mypid_held kbuf_restore)

lemma holdingsleep_buf:
  assumes "cur_ok s" and "i < length (bufs s)"
  shows "holdingsleep (buf_lens i) s =
    Ok (sl_locked (b_lock (bufs s ! i)) \<and> sl_pid (b_lock (bufs s ! i)) = cur_pid s) s"
  using assms cur_okD [OF assms(1)]
  by (simp add: holdingsleep_def buf_lens_def krun mypid_held kbase_restore)

lemma releasesleep_buf:
  assumes "cur_ok s" and "i < length (bufs s)"
  shows "releasesleep (buf_lens i) s =
    Ok () (s\<lparr>ptable := woken (ChBufLock i) (ptable s),
             bufs := (bufs s)[i := (bufs s ! i)\<lparr>b_lock := \<lparr>sl_locked = False, sl_pid = 0\<rparr>\<rparr>]\<rparr>)"
  using assms cur_okD [OF assms(1)]
  by (simp add: releasesleep_def buf_lens_def krun wakeup_woken kbuf_restore2)

section \<open>What the cache means\<close>

text \<open>
  The invariant between operations: the buffers form a ring, every buffer is free and unlocked or in use
  by the running process, a free buffer that is valid and not dirty has the data of the disk, a dirty
  one is valid, and no block of the disk has two buffers.
\<close>

definition buf_ok :: "block list \<Rightarrow> int \<Rightarrow> buf \<Rightarrow> bool" where
  "buf_ok d pid b \<longleftrightarrow>
     length (b_data b) = BSIZE \<and>
     (b_valid b \<longrightarrow> b_dev b = 1) \<and>
     (b_dev b = 1 \<longrightarrow> unat (b_blockno b) < length d) \<and>
     (b_dirty b \<longrightarrow> b_valid b) \<and>
     (if b_refcnt b = 0 then \<not> sl_locked (b_lock b)
      else b_refcnt b = 1 \<and> b_lock b = \<lparr>sl_locked = True, sl_pid = pid\<rparr> \<and> b_valid b) \<and>
     (b_refcnt b = 0 \<and> b_valid b \<and> \<not> b_dirty b \<longrightarrow> b_data b = d ! unat (b_blockno b))"

definition holds_block :: "buf \<Rightarrow> nat \<Rightarrow> bool" where
  "holds_block b n \<longleftrightarrow> b_dev b = 1 \<and> unat (b_blockno b) = n"

definition one_buffer :: "buf list \<Rightarrow> bool" where
  "one_buffer bs \<longleftrightarrow> (\<forall>i < NBUF. \<forall>j < NBUF. \<forall>n. holds_block (bs ! i) n \<longrightarrow> holds_block (bs ! j) n \<longrightarrow> i = j)"

definition cache_inv :: "'z kbuf_scheme \<Rightarrow> bool" where
  "cache_inv s \<longleftrightarrow>
     cur_ok s \<and> (\<exists>xs. ring (bufs s) xs) \<and>
     (\<forall>i < NBUF. buf_ok (disk s) (cur_pid s) (bufs s ! i)) \<and> one_buffer (bufs s) \<and>
     (\<forall>d \<in> set (disk s). length d = BSIZE)"

text \<open>
  What the cache stands for: the data of every block, the disk with the writes made to it, the blocks
  that are dirty, and the blocks in use with their buffers.
\<close>

record cview =
  cv_data :: "nat \<Rightarrow> block"
  cv_disk :: "block list"
  cv_writes :: "(nat \<times> block) list"
  cv_dirty :: "nat set"
  cv_open :: "nat \<Rightarrow> nat option"

definition block_buf :: "buf list \<Rightarrow> nat \<Rightarrow> nat option" where
  "block_buf bs n = find (\<lambda>i. holds_block (bs ! i) n) [0..<NBUF]"

definition block_data :: "buf list \<Rightarrow> block list \<Rightarrow> nat \<Rightarrow> block" where
  "block_data bs d n = (case block_buf bs n of
     Some i \<Rightarrow> if b_valid (bs ! i) then b_data (bs ! i) else d ! n | None \<Rightarrow> d ! n)"

definition dirty_block :: "buf list \<Rightarrow> nat \<Rightarrow> bool" where
  "dirty_block bs n = (case block_buf bs n of None \<Rightarrow> False | Some i \<Rightarrow> b_dirty (bs ! i))"

definition open_block :: "buf list \<Rightarrow> nat \<Rightarrow> nat option" where
  "open_block bs n = (case block_buf bs n of
     None \<Rightarrow> None | Some i \<Rightarrow> if b_refcnt (bs ! i) = 0 then None else Some i)"

definition cache_view :: "'z kbuf_scheme \<Rightarrow> cview" where
  "cache_view s = \<lparr>
     cv_data = block_data (bufs s) (disk s),
     cv_disk = disk s,
     cv_writes = dwrites s,
     cv_dirty = {n. dirty_block (bufs s) n},
     cv_open = open_block (bufs s)\<rparr>"

lemmas block_defs = block_data_def dirty_block_def open_block_def

lemma block_buf_Some:
  assumes "one_buffer bs"
  shows "block_buf bs n = Some i \<longleftrightarrow> i < NBUF \<and> holds_block (bs ! i) n"
proof
  assume "block_buf bs n = Some i"
  then show "i < NBUF \<and> holds_block (bs ! i) n"
    by (auto simp: block_buf_def find_Some_iff)
next
  assume i: "i < NBUF \<and> holds_block (bs ! i) n"
  then have "block_buf bs n \<noteq> None" by (auto simp: block_buf_def find_None_iff)
  then obtain j where j: "block_buf bs n = Some j" by blast
  then have "j < NBUF \<and> holds_block (bs ! j) n" by (auto simp: block_buf_def find_Some_iff)
  then show "block_buf bs n = Some i" using assms i j by (auto simp: one_buffer_def)
qed

lemma block_buf_None: "block_buf bs n = None \<longleftrightarrow> (\<forall>i < NBUF. \<not> holds_block (bs ! i) n)"
  by (auto simp: block_buf_def find_None_iff)

lemma block_buf_cong:
  assumes "\<And>i. i < NBUF \<Longrightarrow> b_dev (bs' ! i) = b_dev (bs ! i)"
    and "\<And>i. i < NBUF \<Longrightarrow> b_blockno (bs' ! i) = b_blockno (bs ! i)"
  shows "block_buf bs' = block_buf bs"
proof
  fix n
  show "block_buf bs' n = block_buf bs n"
    unfolding block_buf_def by (rule find_cong) (auto simp: holds_block_def assms)
qed

lemma one_buffer_cong:
  assumes "\<And>i. i < NBUF \<Longrightarrow> b_dev (bs' ! i) = b_dev (bs ! i)"
    and "\<And>i. i < NBUF \<Longrightarrow> b_blockno (bs' ! i) = b_blockno (bs ! i)"
  shows "one_buffer bs' = one_buffer bs"
  by (simp add: one_buffer_def holds_block_def assms)

lemma cache_view_open:
  assumes "cache_inv s" and "cv_open (cache_view s) n = Some i"
  shows "i < NBUF" "holds_block (bufs s ! i) n" "b_refcnt (bufs s ! i) = 1" "b_valid (bufs s ! i)"
    "b_lock (bufs s ! i) = \<lparr>sl_locked = True, sl_pid = cur_pid s\<rparr>" "b_data (bufs s ! i) = cv_data (cache_view s) n"
    "n < length (disk s)" "length (bufs s) = Suc NBUF" "b_dirty (bufs s ! i) = (n \<in> cv_dirty (cache_view s))"
    "block_buf (bufs s) n = Some i"
proof -
  have o: "one_buffer (bufs s)" using assms by (simp add: cache_inv_def)
  have b: "block_buf (bufs s) n = Some i" "b_refcnt (bufs s ! i) \<noteq> 0"
    using assms(2) by (auto simp: cache_view_def open_block_def split: option.splits if_splits)
  then show "i < NBUF" "holds_block (bufs s ! i) n" by (simp_all add: block_buf_Some [OF o])
  moreover have "buf_ok (disk s) (cur_pid s) (bufs s ! i)"
    using assms(1) \<open>i < NBUF\<close> by (simp add: cache_inv_def)
  ultimately show "b_refcnt (bufs s ! i) = 1" "b_valid (bufs s ! i)"
    "b_lock (bufs s ! i) = \<lparr>sl_locked = True, sl_pid = cur_pid s\<rparr>" "b_data (bufs s ! i) = cv_data (cache_view s) n"
    "n < length (disk s)" "length (bufs s) = Suc NBUF" "b_dirty (bufs s ! i) = (n \<in> cv_dirty (cache_view s))"
    "block_buf (bufs s) n = Some i"
    using b assms(1) by (auto simp: buf_ok_def cache_view_def block_defs holds_block_def cache_inv_def ring_def)
qed

section \<open>Changing one buffer\<close>

lemma one_bufferD:
  "one_buffer bs \<Longrightarrow> i < NBUF \<Longrightarrow> j < NBUF \<Longrightarrow> holds_block (bs ! i) n \<Longrightarrow> holds_block (bs ! j) n \<Longrightarrow> i = j"
  by (simp add: one_buffer_def)

lemma holds_block_upd:
  "i < length bs \<Longrightarrow> holds_block (bs[i := b'] ! j) m = (if j = i then holds_block b' m else holds_block (bs ! j) m)"
  by (simp add: nth_list_update)

lemma cur_ok_upd [simp]:
  "cur_ok (s\<lparr>bufs := bs, disk := d, dwrites := w\<rparr>) = cur_ok s" "cur_ok (s\<lparr>bufs := bs\<rparr>) = cur_ok s"
  "cur_pid (s\<lparr>bufs := bs, disk := d, dwrites := w\<rparr>) = cur_pid s" "cur_pid (s\<lparr>bufs := bs\<rparr>) = cur_pid s"
  by (simp_all add: cur_ok_def cur_pid_def split: option.split)

lemma cur_ok_woken [simp]:
  "cur_ok (s\<lparr>ptable := woken ch (ptable s), bufs := bs\<rparr>) = cur_ok s"
  "cur_ok s \<Longrightarrow> cur_pid (s\<lparr>ptable := woken ch (ptable s), bufs := bs\<rparr>) = cur_pid s"
  by (auto simp: cur_ok_def cur_pid_def woken_def split: option.splits)

text \<open>
  The buffer of a block is replaced by another for the same block, and the block on the disk may change.
\<close>

lemma cache_upd:
  fixes s :: "'z kbuf_scheme"
  assumes inv: "cache_inv s" and bb: "block_buf (bufs s) n = Some i"
    and same: "b_dev b' = b_dev (bufs s ! i)" "b_blockno b' = b_blockno (bufs s ! i)"
      "b_next b' = b_next (bufs s ! i)" "b_prev b' = b_prev (bufs s ! i)" "b_valid b'"
    and bok: "buf_ok ((disk s)[n := x]) (cur_pid s) b'" and len: "length x = BSIZE"
  shows "cache_inv (s\<lparr>bufs := (bufs s)[i := b'], disk := (disk s)[n := x], dwrites := w\<rparr>)"
    and "cache_view (s\<lparr>bufs := (bufs s)[i := b'], disk := (disk s)[n := x], dwrites := w\<rparr>) =
      \<lparr>cv_data = (cv_data (cache_view s))(n := b_data b'), cv_disk = (disk s)[n := x], cv_writes = w,
       cv_dirty = (if b_dirty b' then insert n (cv_dirty (cache_view s)) else cv_dirty (cache_view s) - {n}),
       cv_open = (cv_open (cache_view s))(n := (if b_refcnt b' = 0 then None else Some i))\<rparr>"
proof -
  let ?bs = "bufs s" and ?bs' = "(bufs s)[i := b']"
  have one: "one_buffer ?bs" and L: "length ?bs = Suc NBUF" using inv by (auto simp: cache_inv_def ring_def)
  have i: "i < NBUF" "holds_block (?bs ! i) n" using bb by (auto simp: block_buf_Some [OF one])
  have il: "i < length ?bs" using i L by simp
  have bb': "block_buf ?bs' = block_buf ?bs" and one': "one_buffer ?bs'"
    using same one by (auto intro!: block_buf_cong simp: one_buffer_cong [of ?bs' ?bs] nth_list_update il)
  have other: "j < NBUF \<Longrightarrow> j \<noteq> i \<Longrightarrow> b_dev (?bs ! j) = 1 \<Longrightarrow> unat (b_blockno (?bs ! j)) \<noteq> n" for j
    using one_bufferD [OF one, of j i n] i by (auto simp: holds_block_def)
  have "ring ?bs' xs = ring ?bs xs" for xs
    using same ring_upd [of "\<lambda>_. b'" ?bs i xs] by simp
  moreover have "buf_ok ((disk s)[n := x]) (cur_pid s) (?bs' ! j)" if "j < NBUF" for j
  proof (cases "j = i")
    case True
    then show ?thesis using bok il by simp
  next
    case False
    then have "buf_ok (disk s) (cur_pid s) (?bs ! j)" using inv that by (simp add: cache_inv_def)
    then show ?thesis using other [OF that False] False by (auto simp: buf_ok_def)
  qed
  moreover have "\<forall>d \<in> set ((disk s)[n := x]). length d = BSIZE"
    using inv len set_update_subset_insert [of "disk s" n x] by (auto simp: cache_inv_def)
  ultimately show "cache_inv (s\<lparr>bufs := ?bs', disk := (disk s)[n := x], dwrites := w\<rparr>)"
    using inv one' by (simp add: cache_inv_def)
  have ne: "block_buf ?bs m \<noteq> Some i" if "m \<noteq> n" for m
    using that i by (auto simp: block_buf_Some [OF one] holds_block_def)
  have "block_data ?bs' ((disk s)[n := x]) m = (if m = n then b_data b' else block_data ?bs (disk s) m)"
    "dirty_block ?bs' m = (if m = n then b_dirty b' else dirty_block ?bs m)"
    "open_block ?bs' m = (if m = n then if b_refcnt b' = 0 then None else Some i else open_block ?bs m)" for m
    using bb same(5) il ne [of m] by (auto simp: block_defs bb' nth_list_update split: option.split)
  then show "cache_view (s\<lparr>bufs := ?bs', disk := (disk s)[n := x], dwrites := w\<rparr>) =
      \<lparr>cv_data = (cv_data (cache_view s))(n := b_data b'), cv_disk = (disk s)[n := x], cv_writes = w,
       cv_dirty = (if b_dirty b' then insert n (cv_dirty (cache_view s)) else cv_dirty (cache_view s) - {n}),
       cv_open = (cv_open (cache_view s))(n := (if b_refcnt b' = 0 then None else Some i))\<rparr>"
    by (auto simp: cache_view_def fun_eq_iff)
qed

text \<open>A free buffer that is not dirty is given to a block that has none.\<close>

lemma cache_assign:
  fixes s :: "'z kbuf_scheme"
  assumes inv: "cache_inv s" and i: "i < NBUF" and free: "b_refcnt (bufs s ! i) = 0" "\<not> b_dirty (bufs s ! i)"
    and none: "block_buf (bufs s) n = None" and n: "n < length (disk s)"
    and b': "holds_block b' n" "b_valid b'" "\<not> b_dirty b'" "b_data b' = disk s ! n" "b_refcnt b' = 1"
      "b_next b' = b_next (bufs s ! i)" "b_prev b' = b_prev (bufs s ! i)"
      "b_lock b' = \<lparr>sl_locked = True, sl_pid = cur_pid s\<rparr>"
  shows "cache_inv (s\<lparr>bufs := (bufs s)[i := b']\<rparr>)"
    and "cache_view (s\<lparr>bufs := (bufs s)[i := b']\<rparr>) =
      (cache_view s)\<lparr>cv_open := (cv_open (cache_view s))(n \<mapsto> i)\<rparr>"
proof -
  let ?bs = "bufs s" and ?bs' = "(bufs s)[i := b']"
  have one: "one_buffer ?bs" and L: "length ?bs = Suc NBUF" using inv by (auto simp: cache_inv_def ring_def)
  have il: "i < length ?bs" using i L by simp
  have bad: "\<And>j. j < NBUF \<Longrightarrow> \<not> holds_block (?bs ! j) n" using none by (simp add: block_buf_None)
  have h': "holds_block b' m \<longleftrightarrow> m = n" for m using b'(1) by (auto simp: holds_block_def)
  have uni: "j = i" if "j < NBUF" "holds_block (?bs ! i) m" "holds_block (?bs ! j) m" for j m
    using one_bufferD [OF one, of j i m] i that by simp
  have one': "one_buffer ?bs'"
    unfolding one_buffer_def holds_block_upd [OF il] h'
  proof (intro allI impI)
    fix j k m
    assume "j < NBUF" "k < NBUF" "if j = i then m = n else holds_block (?bs ! j) m"
      "if k = i then m = n else holds_block (?bs ! k) m"
    then show "j = k" using one_bufferD [OF one, of j k m] bad by (auto split: if_splits)
  qed
  have "ring ?bs' xs = ring ?bs xs" for xs
    using b' ring_upd [of "\<lambda>_. b'" ?bs i xs] by simp
  moreover have "length (disk s ! n) = BSIZE" using inv n by (simp add: cache_inv_def)
  then have "buf_ok (disk s) (cur_pid s) b'" using b' n by (simp add: buf_ok_def holds_block_def)
  then have "buf_ok (disk s) (cur_pid s) (?bs' ! j)" if "j < NBUF" for j
    using inv that il by (simp add: cache_inv_def nth_list_update)
  ultimately show "cache_inv (s\<lparr>bufs := ?bs'\<rparr>)"
    using inv one' by (simp add: cache_inv_def)
  have bb: "block_buf ?bs' m = (if m = n then Some i else if block_buf ?bs m = Some i then None else block_buf ?bs m)" for m
  proof -
    show ?thesis
      using i bad h' uni
      by (intro option_eqI) (auto simp: block_buf_Some [OF one'] block_buf_Some [OF one] holds_block_upd [OF il])
  qed
  have iok: "buf_ok (disk s) (cur_pid s) (?bs ! i)" using inv i by (simp add: cache_inv_def)
  have old: "b_valid (?bs ! i) \<Longrightarrow> block_buf ?bs m = Some i \<Longrightarrow> b_data (?bs ! i) = disk s ! m" for m
    using iok free by (auto simp: buf_ok_def block_buf_Some [OF one] holds_block_def)
  have "block_data ?bs' (disk s) m = block_data ?bs (disk s) m"
    "dirty_block ?bs' m = dirty_block ?bs m"
    "open_block ?bs' m = (if m = n then Some i else open_block ?bs m)" for m
    using none b' il free old [of m] by (auto simp: block_defs bb nth_list_update split: option.split)
  then show "cache_view (s\<lparr>bufs := ?bs'\<rparr>) = (cache_view s)\<lparr>cv_open := (cv_open (cache_view s))(n \<mapsto> i)\<rparr>"
    by (simp add: cache_view_def fun_eq_iff)
qed

text \<open>Changing only the links.\<close>

lemma cache_relink:
  assumes m: "map nolinks bs' = map nolinks (bufs s)" and r: "ring bs' xs"
    and inv: "cache_inv s"
  shows "cache_inv (s\<lparr>bufs := bs'\<rparr>)" and "cache_view (s\<lparr>bufs := bs'\<rparr>) = cache_view s"
proof -
  have L: "length (bufs s) = Suc NBUF" using inv by (auto simp: cache_inv_def ring_def)
  have f: "nolinks (bs' ! i) = nolinks (bufs s ! i)" if "i < NBUF" for i
    using map_nolinks_nth [OF m, of i] that L by simp
  note fs = nolinks_fields [OF f]
  have bb: "block_buf bs' = block_buf (bufs s)"
    by (rule block_buf_cong) (rule fs, assumption)+
  have one: "one_buffer bs' = one_buffer (bufs s)"
    by (rule one_buffer_cong) (rule fs, assumption)+
  have ok: "\<And>i d p. i < NBUF \<Longrightarrow> buf_ok d p (bs' ! i) = buf_ok d p (bufs s ! i)"
    by (simp add: buf_ok_def fs)
  show "cache_inv (s\<lparr>bufs := bs'\<rparr>)"
    using inv r ok one unfolding cache_inv_def by auto
  have o: "one_buffer (bufs s)" using inv by (simp add: cache_inv_def)
  have lt: "i < NBUF" if "block_buf (bufs s) n = Some i" for n i
    using that by (simp add: block_buf_Some [OF o])
  have "block_data bs' (disk s) n = block_data (bufs s) (disk s) n" "dirty_block bs' n = dirty_block (bufs s) n"
    "open_block bs' n = open_block (bufs s) n" for n
    by (simp_all add: bb block_defs fs lt split: option.split)
  then show "cache_view (s\<lparr>bufs := bs'\<rparr>) = cache_view s"
    by (simp add: cache_view_def fun_eq_iff)
qed

lemma cache_woken:
  assumes "cache_inv s"
  shows "cache_inv (s\<lparr>ptable := woken ch (ptable s)\<rparr>)"
    "cache_view (s\<lparr>ptable := woken ch (ptable s)\<rparr>) = cache_view s"
proof -
  have "cur_ok s" using assms by (simp add: cache_inv_def)
  then have "cur_ok (s\<lparr>ptable := woken ch (ptable s)\<rparr>)" "cur_pid (s\<lparr>ptable := woken ch (ptable s)\<rparr>) = cur_pid s"
    by (auto simp: cur_ok_def cur_pid_def woken_def split: option.splits)
  then show "cache_inv (s\<lparr>ptable := woken ch (ptable s)\<rparr>)" using assms by (simp add: cache_inv_def)
  show "cache_view (s\<lparr>ptable := woken ch (ptable s)\<rparr>) = cache_view s"
    by (simp add: cache_view_def)
qed

section \<open>The operations\<close>

text \<open>What an operation of the cache may change.\<close>

definition cache_frame :: "'z kbuf_scheme \<Rightarrow> 'z kbuf_scheme \<Rightarrow> bool" where
  "cache_frame s t \<longleftrightarrow> t = s\<lparr>ptable := ptable t, bufs := bufs t, disk := disk t, dwrites := dwrites t\<rparr>"

lemma cache_frame_refl: "cache_frame s s"
  by (simp add: cache_frame_def)

lemma cache_frame_trans: "cache_frame s t \<Longrightarrow> cache_frame t u \<Longrightarrow> cache_frame s u"
  by (cases s; cases t; cases u) (simp add: cache_frame_def)

lemma cache_frame_bufs: "cache_frame s (s\<lparr>bufs := b, disk := d, dwrites := w\<rparr>)" "cache_frame s (s\<lparr>bufs := b\<rparr>)"
  "cache_frame s (s\<lparr>ptable := pt, bufs := b\<rparr>)"
  by (cases s; simp add: cache_frame_def)+

lemma cache_frame_more: "cache_frame s t \<Longrightarrow> kbuf.more t = kbuf.more s"
  by (cases s; cases t) (simp add: cache_frame_def)

text \<open>A thread that has the sleep lock of a buffer.\<close>

abbreviation mine :: "'z kproc_scheme \<Rightarrow> sleeplock" where
  "mine s \<equiv> \<lparr>sl_locked = True, sl_pid = cur_pid s\<rparr>"

lemma iderw_read:
  assumes "cur_ok s" "i < length (bufs s)" "b_lock (bufs s ! i) = mine s"
    "\<not> b_valid (bufs s ! i)" "\<not> b_dirty (bufs s ! i)" "b_dev (bufs s ! i) = 1"
    "unat (b_blockno (bufs s ! i)) < length (disk s)"
  shows "iderw i s =
    Ok () (s\<lparr>bufs := (bufs s)[i := (bufs s ! i)\<lparr>b_data := disk s ! unat (b_blockno (bufs s ! i)), b_valid := True\<rparr>]\<rparr>)"
  using assms by (simp add: iderw_def holdingsleep_buf getb_def updb_def krun)

lemma iderw_write:
  assumes "cur_ok s" "i < length (bufs s)" "b_lock (bufs s ! i) = mine s"
    "b_dirty (bufs s ! i)" "b_dev (bufs s ! i) = 1" "unat (b_blockno (bufs s ! i)) < length (disk s)"
  shows "iderw i s =
    Ok () (s\<lparr>bufs := (bufs s)[i := (bufs s ! i)\<lparr>b_dirty := False, b_valid := True\<rparr>],
             disk := (disk s)[unat (b_blockno (bufs s ! i)) := b_data (bufs s ! i)],
             dwrites := dwrites s @ [(unat (b_blockno (bufs s ! i)), b_data (bufs s ! i))]\<rparr>)"
  using assms by (cases s) (simp add: iderw_def holdingsleep_buf getb_def updb_def krun disk_write_def)

lemma bwrite_run:
  assumes "cur_ok s" "i < length (bufs s)" "b_lock (bufs s ! i) = mine s"
    "b_dev (bufs s ! i) = 1" "unat (b_blockno (bufs s ! i)) < length (disk s)"
  shows "bwrite i s =
    Ok () (s\<lparr>bufs := (bufs s)[i := (bufs s ! i)\<lparr>b_dirty := False, b_valid := True\<rparr>],
             disk := (disk s)[unat (b_blockno (bufs s ! i)) := b_data (bufs s ! i)],
             dwrites := dwrites s @ [(unat (b_blockno (bufs s ! i)), b_data (bufs s ! i))]\<rparr>)"
  using assms by (simp add: bwrite_def holdingsleep_buf updb_def krun iderw_write)

lemma cache_view_simps [simp]:
  "cv_disk (cache_view s) = disk s" "cv_writes (cache_view s) = dwrites s"
  by (simp_all add: cache_view_def)

lemma cache_upd_buf:
  assumes inv: "cache_inv s" and bb: "block_buf (bufs s) n = Some i"
    and same: "b_dev b' = b_dev (bufs s ! i)" "b_blockno b' = b_blockno (bufs s ! i)"
      "b_next b' = b_next (bufs s ! i)" "b_prev b' = b_prev (bufs s ! i)" "b_valid b'"
    and bok: "buf_ok (disk s) (cur_pid s) b'"
  shows "cache_inv (s\<lparr>bufs := (bufs s)[i := b']\<rparr>)"
    and "cache_view (s\<lparr>bufs := (bufs s)[i := b']\<rparr>) = (cache_view s)\<lparr>
       cv_data := (cv_data (cache_view s))(n := b_data b'),
       cv_dirty := (if b_dirty b' then insert n (cv_dirty (cache_view s)) else cv_dirty (cache_view s) - {n}),
       cv_open := (cv_open (cache_view s))(n := (if b_refcnt b' = 0 then None else Some i))\<rparr>"
proof -
  have e: "s\<lparr>bufs := bs, disk := disk s, dwrites := dwrites s\<rparr> = s\<lparr>bufs := bs\<rparr>" for bs
    by (cases s) simp
  have "one_buffer (bufs s)" "i < NBUF \<Longrightarrow> buf_ok (disk s) (cur_pid s) (bufs s ! i)" using inv by (simp_all add: cache_inv_def)
  then have "n < length (disk s)" "length (disk s ! n) = BSIZE"
    using bok same inv bb by (auto simp: buf_ok_def block_buf_Some holds_block_def cache_inv_def)
  then show "cache_inv (s\<lparr>bufs := (bufs s)[i := b']\<rparr>)"
    and "cache_view (s\<lparr>bufs := (bufs s)[i := b']\<rparr>) = (cache_view s)\<lparr>
       cv_data := (cv_data (cache_view s))(n := b_data b'),
       cv_dirty := (if b_dirty b' then insert n (cv_dirty (cache_view s)) else cv_dirty (cache_view s) - {n}),
       cv_open := (cv_open (cache_view s))(n := (if b_refcnt b' = 0 then None else Some i))\<rparr>"
    using cache_upd [OF inv bb same, of "disk s ! n" "dwrites s"] bok by (simp_all add: e)
qed

lemma bwrite_view:
  assumes inv: "cache_inv s" and op: "cv_open (cache_view s) n = Some i"
  shows "kok (bwrite i) (\<lambda>_ t. cache_inv t \<and> cache_frame s t \<and>
    cache_view t = (cache_view s)\<lparr>cv_disk := (cv_disk (cache_view s))[n := cv_data (cache_view s) n],
      cv_writes := cv_writes (cache_view s) @ [(n, cv_data (cache_view s) n)],
      cv_dirty := cv_dirty (cache_view s) - {n}\<rparr>) s"
proof -
  note o = cache_view_open [OF inv op]
  let ?b = "bufs s ! i" and ?b' = "(bufs s ! i)\<lparr>b_dirty := False, b_valid := True\<rparr>"
  let ?d = "b_data ?b" and ?w = "dwrites s @ [(n, b_data (bufs s ! i))]"
  have c: "cur_ok s" and bok: "buf_ok (disk s) (cur_pid s) ?b" using inv o by (simp_all add: cache_inv_def)
  have n: "b_dev ?b = 1" "unat (b_blockno ?b) = n" using o by (simp_all add: holds_block_def)
  have run: "bwrite i s = Ok () (s\<lparr>bufs := (bufs s)[i := ?b'], disk := (disk s)[n := ?d], dwrites := ?w\<rparr>)"
    using bwrite_run [of s i] c n o by simp
  have "buf_ok ((disk s)[n := ?d]) (cur_pid s) ?b'" "length ?d = BSIZE"
    using bok n o by (auto simp: buf_ok_def)
  note u = cache_upd [OF inv o(10), of ?b' ?d ?w, simplified, OF this]
  have "(cv_open (cache_view s))(n := Some i) = cv_open (cache_view s)" using op by auto
  then show ?thesis
    using u o by (simp add: kok_def run cache_frame_bufs)
qed

lemma bdata_view:
  assumes inv: "cache_inv s" and op: "cv_open (cache_view s) n = Some i"
    and len: "length (f (cv_data (cache_view s) n)) = BSIZE"
  shows "kok (updb i (\<lambda>b. b\<lparr>b_data := f (b_data b)\<rparr>)) (\<lambda>_ t. cache_inv t \<and> cache_frame s t \<and>
    cache_view t = (cache_view s)\<lparr>cv_data := (cv_data (cache_view s))(n := f (cv_data (cache_view s) n))\<rparr>) s"
proof -
  note o = cache_view_open [OF inv op]
  let ?b = "bufs s ! i"
  let ?b' = "?b\<lparr>b_data := f (b_data ?b)\<rparr>"
  have bok: "buf_ok (disk s) (cur_pid s) ?b" using inv o by (simp_all add: cache_inv_def)
  have run: "updb i (\<lambda>b. b\<lparr>b_data := f (b_data b)\<rparr>) s = Ok () (s\<lparr>bufs := (bufs s)[i := ?b']\<rparr>)"
    using o by (simp add: updb_def)
  have "buf_ok (disk s) (cur_pid s) ?b'"
    using bok o len by (simp add: buf_ok_def)
  note u = cache_upd_buf [OF inv o(10), of ?b', simplified, OF _ this]
  have v: "(cv_open (cache_view s))(n := Some i) = cv_open (cache_view s)"
    "n \<in> cv_dirty (cache_view s) \<Longrightarrow> insert n (cv_dirty (cache_view s)) = cv_dirty (cache_view s)"
    "n \<notin> cv_dirty (cache_view s) \<Longrightarrow> cv_dirty (cache_view s) - {n} = cv_dirty (cache_view s)"
    using op by auto
  show ?thesis
    using u o by (simp add: kok_def run cache_frame_bufs v)
qed

text \<open>Marking a buffer dirty, as \<^verbatim>\<open>log_write\<close> does to keep it in the cache.\<close>

lemma bdirty_view:
  assumes inv: "cache_inv s" and op: "cv_open (cache_view s) n = Some i"
  shows "kok (updb i (\<lambda>b. b\<lparr>b_dirty := True\<rparr>)) (\<lambda>_ t. cache_inv t \<and> cache_frame s t \<and>
    cache_view t = (cache_view s)\<lparr>cv_dirty := insert n (cv_dirty (cache_view s))\<rparr>) s"
proof -
  note o = cache_view_open [OF inv op]
  let ?b = "bufs s ! i"
  let ?b' = "?b\<lparr>b_dirty := True\<rparr>"
  have bok: "buf_ok (disk s) (cur_pid s) ?b" using inv o by (simp_all add: cache_inv_def)
  have run: "updb i (\<lambda>b. b\<lparr>b_dirty := True\<rparr>) s = Ok () (s\<lparr>bufs := (bufs s)[i := ?b']\<rparr>)"
    using o by (simp add: updb_def)
  have "buf_ok (disk s) (cur_pid s) ?b'"
    using bok o by (simp add: buf_ok_def)
  note u = cache_upd_buf [OF inv o(10), of ?b', simplified, OF _ this]
  have "(cv_open (cache_view s))(n := Some i) = cv_open (cache_view s)" using op by auto
  then show ?thesis
    using u o by (simp add: kok_def run cache_frame_bufs)
qed

lemma brelse_view:
  assumes inv: "cache_inv s" and op: "cv_open (cache_view s) n = Some i"
    and clean: "n \<in> cv_dirty (cache_view s) \<or> cv_data (cache_view s) n = cv_disk (cache_view s) ! n"
  shows "kok (brelse i) (\<lambda>_ t. cache_inv t \<and> cache_frame s t \<and>
    cache_view t = (cache_view s)\<lparr>cv_open := (cv_open (cache_view s))(n := None)\<rparr> \<and>
    (\<exists>xs. ring (bufs t) (i # xs))) s"
proof -
  note o = cache_view_open [OF inv op]
  let ?b = "bufs s ! i" and ?b' = "(bufs s ! i)\<lparr>b_lock := \<lparr>sl_locked = False, sl_pid = 0\<rparr>, b_refcnt := 0\<rparr>"
  let ?pt = "woken (ChBufLock i) (ptable s)" and ?bs = "(bufs s)[i := ?b']"
  have c: "cur_ok s" and bok: "buf_ok (disk s) (cur_pid s) ?b" using inv o by (simp_all add: cache_inv_def)
  have "buf_ok (disk s) (cur_pid s) ?b'" using bok o clean by (auto simp: buf_ok_def holds_block_def)
  note u = cache_upd_buf [OF inv o(10), of ?b', simplified, OF _ this]
  have v: "cache_inv (s\<lparr>bufs := ?bs\<rparr>)"
    "cache_view (s\<lparr>bufs := ?bs\<rparr>) = (cache_view s)\<lparr>cv_open := (cv_open (cache_view s))(n := None)\<rparr>"
    using u o by (auto simp: insert_absorb)
  obtain xs where "ring ?bs xs" using v(1) by (auto simp: cache_inv_def)
  moreover have "i \<in> set xs" using \<open>ring ?bs xs\<close> o by (simp add: ring_def)
  ultimately obtain ys zs where r: "ring ?bs (ys @ i # zs)" by (auto simp: in_set_conv_decomp)
  let ?s = "s\<lparr>ptable := ?pt, held := [BcacheLock], bufs := ?bs\<rparr>"
  obtain bs' where bs': "kseq (bunlink i) (blink_head i) ?s = Ok () (?s\<lparr>bufs := bs'\<rparr>)"
    "map nolinks bs' = map nolinks ?bs" "ring bs' (i # ys @ zs)"
    using relink_ring [of ?s ys i zs] r by auto
  have run: "brelse i s = Ok () (s\<lparr>ptable := ?pt, bufs := bs'\<rparr>)"
    using c o cur_okD [OF c] bs'(1)
    by (simp add: brelse_def holdingsleep_buf releasesleep_buf updb_def getb_def krun)
  have "cache_inv ((s\<lparr>bufs := ?bs\<rparr>)\<lparr>bufs := bs'\<rparr>)" "cache_view ((s\<lparr>bufs := ?bs\<rparr>)\<lparr>bufs := bs'\<rparr>) = cache_view (s\<lparr>bufs := ?bs\<rparr>)"
    using cache_relink [of bs' "s\<lparr>bufs := ?bs\<rparr>"] bs' v(1) by simp_all
  then have "cache_inv (s\<lparr>bufs := bs'\<rparr>)" "cache_view (s\<lparr>bufs := bs'\<rparr>) = cache_view (s\<lparr>bufs := ?bs\<rparr>)" by simp_all
  then have "cache_inv ((s\<lparr>bufs := bs'\<rparr>)\<lparr>ptable := ?pt\<rparr>)"
    "cache_view ((s\<lparr>bufs := bs'\<rparr>)\<lparr>ptable := ?pt\<rparr>) = cache_view (s\<lparr>bufs := ?bs\<rparr>)"
    using cache_woken [of "s\<lparr>bufs := bs'\<rparr>" "ChBufLock i"] by simp_all
  moreover have "(s\<lparr>bufs := bs'\<rparr>)\<lparr>ptable := ?pt\<rparr> = s\<lparr>ptable := ?pt, bufs := bs'\<rparr>" by (cases s) simp
  ultimately show ?thesis
    using v(2) bs'(3) by (auto simp: kok_def run cache_frame_bufs)
qed

lemma holds_block_of_nat:
  "n < 2 ^ 32 \<Longrightarrow> (b_dev b = 1 \<and> b_blockno b = of_nat n) = holds_block b n"
  using unat_of_nat32 [of n] by (auto simp: holds_block_def)

lemma cv_dirty_iff:
  assumes one: "one_buffer (bufs s)"
  shows "n \<in> cv_dirty (cache_view s) \<longleftrightarrow> (\<exists>i < NBUF. holds_block (bufs s ! i) n \<and> b_dirty (bufs s ! i))"
proof (cases "block_buf (bufs s) n")
  case None
  moreover have "\<forall>i < NBUF. \<not> holds_block (bufs s ! i) n" using None by (simp add: block_buf_None)
  ultimately show ?thesis by (auto simp: cache_view_def dirty_block_def)
next
  case (Some j)
  then have j: "j < NBUF" "holds_block (bufs s ! j) n" by (simp_all add: block_buf_Some [OF one])
  have "n \<in> cv_dirty (cache_view s) \<longleftrightarrow> b_dirty (bufs s ! j)" using Some by (simp add: cache_view_def dirty_block_def)
  then show ?thesis using j one_bufferD [OF one _ j(1) _ j(2)] by blast
qed

lemma cv_open_iff:
  assumes one: "one_buffer (bufs s)"
  shows "cv_open (cache_view s) n = Some i \<longleftrightarrow> i < NBUF \<and> holds_block (bufs s ! i) n \<and> b_refcnt (bufs s ! i) \<noteq> 0"
proof (cases "block_buf (bufs s) n")
  case None
  moreover have "\<forall>i < NBUF. \<not> holds_block (bufs s ! i) n" using None by (simp add: block_buf_None)
  ultimately show ?thesis by (auto simp: cache_view_def open_block_def)
next
  case (Some j)
  then have j: "j < NBUF" "holds_block (bufs s ! j) n" by (simp_all add: block_buf_Some [OF one])
  have "cv_open (cache_view s) n = Some i \<longleftrightarrow> b_refcnt (bufs s ! j) \<noteq> 0 \<and> i = j"
    using Some by (auto simp: cache_view_def open_block_def)
  then show ?thesis using j one_bufferD [OF one _ j(1) _ j(2)] by blast
qed

text \<open>The buffer that \<^verbatim>\<open>bget\<close> recycles: from the end of the ring, the first that is free and not dirty.\<close>

definition recycled :: "buf list \<Rightarrow> nat list \<Rightarrow> nat option" where
  "recycled bs xs = find (\<lambda>i. b_refcnt (bs ! i) = 0 \<and> \<not> b_dirty (bs ! i)) (rev xs)"

lemma recycled_exists:
  assumes inv: "cache_inv s" and r: "ring (bufs s) xs"
    and room: "card (cv_dirty (cache_view s) \<union> dom (cv_open (cache_view s))) < NBUF"
  obtains i where "recycled (bufs s) xs = Some i" "i < NBUF" "b_refcnt (bufs s ! i) = 0" "\<not> b_dirty (bufs s ! i)"
proof -
  let ?D = "cv_dirty (cache_view s) \<union> dom (cv_open (cache_view s))"
  have one: "one_buffer (bufs s)" using inv by (simp add: cache_inv_def)
  have "\<exists>i < NBUF. b_refcnt (bufs s ! i) = 0 \<and> \<not> b_dirty (bufs s ! i)"
  proof (rule ccontr)
    assume no: "\<not> ?thesis"
    let ?f = "\<lambda>i. unat (b_blockno (bufs s ! i))"
    have h: "holds_block (bufs s ! i) (?f i)" if "i < NBUF" for i
    proof -
      have "buf_ok (disk s) (cur_pid s) (bufs s ! i)" using inv that by (simp add: cache_inv_def)
      then show ?thesis using no that by (auto simp: buf_ok_def holds_block_def split: if_splits)
    qed
    have inj: "inj_on ?f {0..<NBUF}"
    proof (rule inj_onI)
      fix i j assume "i \<in> {0..<NBUF}" "j \<in> {0..<NBUF}" "?f i = ?f j"
      then show "i = j" using h [of i] h [of j] one_bufferD [OF one, of i j "?f i"] by simp
    qed
    have "?f i \<in> ?D" if i: "i < NBUF" for i
    proof (cases "b_dirty (bufs s ! i)")
      case True
      then show ?thesis using h [OF i] i cv_dirty_iff [OF one, of "?f i"] by blast
    next
      case False
      then have "cv_open (cache_view s) (?f i) = Some i"
        using h [OF i] i no cv_open_iff [OF one, of "?f i" i] by blast
      then show ?thesis by blast
    qed
    then have "?f ` {0..<NBUF} \<subseteq> ?D" by (intro image_subsetI) (simp only: atLeastLessThan_iff)
    moreover have "?D \<subseteq> ?f ` {0..<NBUF}"
      by (auto simp: cv_dirty_iff [OF one] cv_open_iff [OF one] holds_block_def dom_def)
    ultimately have "?f ` {0..<NBUF} = ?D" by (rule subset_antisym)
    then have "card ?D = NBUF" using card_image [OF inj] by simp
    then show False using room by simp
  qed
  then obtain j where "j < NBUF" "b_refcnt (bufs s ! j) = 0 \<and> \<not> b_dirty (bufs s ! j)" by blast
  moreover have "set (rev xs) = {0..<NBUF}" using r by (simp add: ring_def)
  ultimately have "recycled (bufs s) xs \<noteq> None" by (auto simp: recycled_def find_None_iff)
  then obtain i where i: "recycled (bufs s) xs = Some i" by blast
  then have "i \<in> set xs" "b_refcnt (bufs s ! i) = 0 \<and> \<not> b_dirty (bufs s ! i)"
    using find_SomeD [OF i [unfolded recycled_def]] by simp_all
  then show ?thesis using that [OF i] r by (auto simp: ring_def)
qed

text \<open>\<^verbatim>\<open>bget\<close>: the block is cached, or a free buffer is recycled.\<close>

lemma kbuf_restore3: "held s = [] \<Longrightarrow> s\<lparr>bufs := bs, held := []\<rparr> = s\<lparr>bufs := bs\<rparr>"
  by (cases s) simp

lemma bget_cached:
  assumes inv: "cache_inv s" and n: "n < 2 ^ 32" and bb: "block_buf (bufs s) n = Some i"
    and free: "b_refcnt (bufs s ! i) = 0"
  shows "bget 1 (of_nat n) s = Ok i (s\<lparr>bufs := (bufs s)[i := (bufs s ! i)\<lparr>b_refcnt := 1, b_lock := mine s\<rparr>]\<rparr>)"
proof -
  obtain xs where r: "ring (bufs s) xs" using inv by (auto simp: cache_inv_def)
  have c: "cur_ok s" and one: "one_buffer (bufs s)" using inv by (simp_all add: cache_inv_def)
  have i: "i < NBUF" "holds_block (bufs s ! i) n" using bb by (simp_all add: block_buf_Some [OF one])
  have un: "\<not> sl_locked (b_lock (bufs s ! i))"
    using inv i free by (simp add: cache_inv_def buf_ok_def)
  have "find (\<lambda>j. b_dev (bufs s ! j) = 1 \<and> b_blockno (bufs s ! j) = of_nat n) xs = Some i"
    unfolding holds_block_of_nat [OF n]
  proof (rule find_unique)
    show "i \<in> set xs" using i r by (simp add: ring_def)
    show "holds_block (bufs s ! i) n" by (rule i)
    fix j assume "j \<in> set xs" "holds_block (bufs s ! j) n"
    then show "j = i" using i r one_bufferD [OF one, of j i n] by (simp add: ring_def)
  qed
  moreover have "ring (bufs (s\<lparr>held := [BcacheLock]\<rparr>)) xs" using r by simp
  note bscan_ring(1) [OF this]
  ultimately have "bscan b_next (\<lambda>b. b_dev b = 1 \<and> b_blockno b = of_nat n) (Suc NBUF) (b_next (bufs s ! NBUF))
      (s\<lparr>held := [BcacheLock]\<rparr>) = Ok (Some i) (s\<lparr>held := [BcacheLock]\<rparr>)" by (simp del: bscan.simps)
  then show ?thesis
    using c cur_okD [OF c] i un free ring_length [OF r]
    by (simp add: bget_def getb_def updb_def krun kbuf_restore3 acquiresleep_buf del: bscan.simps)
qed

lemma bget_recycle:
  assumes inv: "cache_inv s" and n: "n < 2 ^ 32" and bb: "block_buf (bufs s) n = None"
    and r: "ring (bufs s) xs" and i: "recycled (bufs s) xs = Some i"
  shows "bget 1 (of_nat n) s = Ok i (s\<lparr>bufs := (bufs s)[i := (bufs s ! i)\<lparr>b_dev := 1, b_blockno := of_nat n,
    b_valid := False, b_dirty := False, b_refcnt := 1, b_lock := mine s\<rparr>]\<rparr>)"
proof -
  have c: "cur_ok s" and one: "one_buffer (bufs s)" using inv by (simp_all add: cache_inv_def)
  have j: "i \<in> set xs" "b_refcnt (bufs s ! i) = 0 \<and> \<not> b_dirty (bufs s ! i)"
    using find_SomeD [OF i [unfolded recycled_def]] by simp_all
  then have il: "i < NBUF" using r by (auto simp: ring_def)
  have un: "\<not> sl_locked (b_lock (bufs s ! i))"
    using inv il j by (simp add: cache_inv_def buf_ok_def)
  have f: "find (\<lambda>j. b_dev (bufs s ! j) = 1 \<and> b_blockno (bufs s ! j) = of_nat n) xs = None"
    unfolding holds_block_of_nat [OF n] using bb r by (auto simp: find_None_iff block_buf_None ring_def)
  have "ring (bufs (s\<lparr>held := [BcacheLock]\<rparr>)) xs" using r by simp
  have "bscan b_next (\<lambda>b. b_dev b = 1 \<and> b_blockno b = of_nat n) (Suc NBUF) (b_next (bufs s ! NBUF))
      (s\<lparr>held := [BcacheLock]\<rparr>) = Ok None (s\<lparr>held := [BcacheLock]\<rparr>)"
    using bscan_ring(1) [OF \<open>ring (bufs (s\<lparr>held := [BcacheLock]\<rparr>)) xs\<close>] f by (simp del: bscan.simps)
  moreover have "bscan b_prev (\<lambda>b. b_refcnt b = 0 \<and> \<not> b_dirty b) (Suc NBUF) (b_prev (bufs s ! NBUF))
      (s\<lparr>held := [BcacheLock]\<rparr>) = Ok (Some i) (s\<lparr>held := [BcacheLock]\<rparr>)"
    using bscan_ring(2) [OF \<open>ring (bufs (s\<lparr>held := [BcacheLock]\<rparr>)) xs\<close>] i
    by (simp add: recycled_def del: bscan.simps)
  ultimately show ?thesis
    using c cur_okD [OF c] il un ring_length [OF r]
    by (simp add: bget_def getb_def updb_def krun kbuf_restore3 acquiresleep_buf del: bscan.simps)
qed

lemma bread_view:
  assumes inv: "cache_inv s" and n: "n < 2 ^ 32" "n < length (disk s)"
    and no: "cv_open (cache_view s) n = None"
    and room: "n \<in> cv_dirty (cache_view s) \<or> card (cv_dirty (cache_view s) \<union> dom (cv_open (cache_view s))) < NBUF"
  shows "kok (bread 1 (of_nat n)) (\<lambda>i t. cache_inv t \<and> cache_frame s t \<and>
    cache_view t = (cache_view s)\<lparr>cv_open := (cv_open (cache_view s))(n \<mapsto> i)\<rparr>) s"
proof (cases "block_buf (bufs s) n")
  case (Some i)
  have c: "cur_ok s" and one: "one_buffer (bufs s)" using inv by (simp_all add: cache_inv_def)
  have i: "i < NBUF" "holds_block (bufs s ! i) n" using Some by (simp_all add: block_buf_Some [OF one])
  have bok: "buf_ok (disk s) (cur_pid s) (bufs s ! i)" and L: "length (bufs s) = Suc NBUF"
    using inv i by (auto simp: cache_inv_def ring_def)
  have free: "b_refcnt (bufs s ! i) = 0" using no i cv_open_iff [OF one, of n i] by auto
  let ?b = "(bufs s ! i)\<lparr>b_refcnt := 1, b_lock := mine s\<rparr>"
  let ?d = "if b_valid (bufs s ! i) then b_data (bufs s ! i) else disk s ! n"
  define b' where "b' = (bufs s ! i)\<lparr>b_refcnt := 1, b_lock := mine s, b_data := ?d, b_valid := True\<rparr>"
  have f: "b_dev b' = b_dev (bufs s ! i)" "b_blockno b' = b_blockno (bufs s ! i)" "b_next b' = b_next (bufs s ! i)"
    "b_prev b' = b_prev (bufs s ! i)" "b_valid b'" "b_dirty b' = b_dirty (bufs s ! i)" "b_data b' = ?d" "b_refcnt b' = 1"
    "b_lock b' = mine s"
    by (simp_all add: b'_def)
  have run: "bread 1 (of_nat n) s = Ok i (s\<lparr>bufs := (bufs s)[i := b']\<rparr>)"
  proof (cases "b_valid (bufs s ! i)")
    case True
    then have "b' = ?b" unfolding b'_def by (cases "bufs s ! i") simp
    then show ?thesis using True i L bget_cached [OF inv n(1) Some free] by (simp add: bread_def getb_def krun)
  next
    case False
    then have "\<not> b_dirty (bufs s ! i)" using bok by (auto simp: buf_ok_def)
    moreover have "iderw i (s\<lparr>bufs := (bufs s)[i := ?b]\<rparr>) = Ok () (s\<lparr>bufs := (bufs s)[i := b']\<rparr>)"
      using iderw_read [of "s\<lparr>bufs := (bufs s)[i := ?b]\<rparr>" i] c i L n False calculation
      by (simp add: holds_block_def b'_def)
    ultimately show ?thesis
      using False i L bget_cached [OF inv n(1) Some free] by (simp add: bread_def getb_def krun)
  qed
  have "length (disk s ! n) = BSIZE" using inv n by (simp add: cache_inv_def)
  then have "buf_ok (disk s) (cur_pid s) b'" using bok i n by (auto simp: buf_ok_def holds_block_def f)
  note u = cache_upd_buf [OF inv Some f(1-5) this, unfolded f]
  have "cv_data (cache_view s) n = ?d" using Some by (simp add: cache_view_def block_data_def)
  moreover have "b_dirty (bufs s ! i) = (n \<in> cv_dirty (cache_view s))"
    using Some by (simp add: cache_view_def dirty_block_def)
  ultimately have v: "(cv_data (cache_view s))(n := ?d) = cv_data (cache_view s)"
    "(if b_dirty (bufs s ! i) then insert n (cv_dirty (cache_view s)) else cv_dirty (cache_view s) - {n}) = cv_dirty (cache_view s)"
    by auto
  show ?thesis
    unfolding kok_def run using u cache_frame_bufs(2) [of s] by (simp add: v del: fun_upd_apply)
next
  case None
  have c: "cur_ok s" and one: "one_buffer (bufs s)" using inv by (simp_all add: cache_inv_def)
  obtain xs where r: "ring (bufs s) xs" using inv by (auto simp: cache_inv_def)
  have "n \<notin> cv_dirty (cache_view s)" using None by (simp add: cache_view_def dirty_block_def)
  then have "card (cv_dirty (cache_view s) \<union> dom (cv_open (cache_view s))) < NBUF" using room by simp
  from recycled_exists [OF inv r this]
  obtain i where i: "recycled (bufs s) xs = Some i" "i < NBUF" "b_refcnt (bufs s ! i) = 0" "\<not> b_dirty (bufs s ! i)" .
  have L: "length (bufs s) = Suc NBUF" using r by (simp add: ring_def)
  let ?b = "(bufs s ! i)\<lparr>b_dev := 1, b_blockno := of_nat n, b_valid := False, b_dirty := False, b_refcnt := 1, b_lock := mine s\<rparr>"
  let ?b' = "?b\<lparr>b_data := disk s ! n, b_valid := True\<rparr>"
  have "iderw i (s\<lparr>bufs := (bufs s)[i := ?b]\<rparr>) = Ok () (s\<lparr>bufs := (bufs s)[i := ?b']\<rparr>)"
    using iderw_read [of "s\<lparr>bufs := (bufs s)[i := ?b]\<rparr>" i] c i L n by (simp add: unat_of_nat32)
  then have run: "bread 1 (of_nat n) s = Ok i (s\<lparr>bufs := (bufs s)[i := ?b']\<rparr>)"
    using i L bget_recycle [OF inv n(1) None r i(1)] by (simp add: bread_def getb_def krun)
  have "holds_block ?b' n" using n by (simp add: holds_block_def unat_of_nat32)
  then show ?thesis
    using cache_assign [OF inv i(2-4) None n(2), of ?b'] by (simp add: kok_def run cache_frame_bufs)
qed

section \<open>The interface of the cache\<close>

text \<open>
  What the layers above rely on: reading a block gives a buffer for it, data is changed and written
  through the buffer, and the buffer is given back when its block is clean or kept dirty.  A read needs a
  free buffer: dirty blocks and blocks in use cannot be recycled.
\<close>

text \<open>Writing a block: its new data, and the disk and the writes that follow.\<close>

definition written :: "nat \<Rightarrow> block \<Rightarrow> cview \<Rightarrow> cview" where
  "written n d v = v\<lparr>cv_data := (cv_data v)(n := d), cv_disk := (cv_disk v)[n := d],
     cv_writes := cv_writes v @ [(n, d)], cv_dirty := cv_dirty v - {n}\<rparr>"

locale block_cache =
  fixes inv :: "'s \<Rightarrow> bool" and view :: "'s \<Rightarrow> cview" and frame :: "'s \<Rightarrow> 's \<Rightarrow> bool"
    and rd :: "nat \<Rightarrow> (nat, 's) M" and cont :: "nat \<Rightarrow> (buf, 's) M"
    and dat :: "nat \<Rightarrow> (block \<Rightarrow> block) \<Rightarrow> (unit, 's) M" and wr :: "nat \<Rightarrow> (unit, 's) M" and rel :: "nat \<Rightarrow> (unit, 's) M"
  assumes fr_refl: "frame s s" and fr_trans: "frame s t \<Longrightarrow> frame t u \<Longrightarrow> frame s u"
    and rd_ok: "inv s \<Longrightarrow> n < 2 ^ 32 \<Longrightarrow> n < length (cv_disk (view s)) \<Longrightarrow> cv_open (view s) n = None \<Longrightarrow>
      n \<in> cv_dirty (view s) \<or> card (cv_dirty (view s) \<union> dom (cv_open (view s))) < NBUF \<Longrightarrow>
      kok (rd n) (\<lambda>i t. inv t \<and> frame s t \<and> view t = (view s)\<lparr>cv_open := (cv_open (view s))(n \<mapsto> i)\<rparr>) s"
    and cont_ok: "inv s \<Longrightarrow> cv_open (view s) n = Some i \<Longrightarrow>
      kok (cont i) (\<lambda>b t. t = s \<and> b_data b = cv_data (view s) n) s"
    and dat_ok: "inv s \<Longrightarrow> cv_open (view s) n = Some i \<Longrightarrow> length (f (cv_data (view s) n)) = BSIZE \<Longrightarrow>
      kok (dat i f) (\<lambda>_ t. inv t \<and> frame s t \<and>
        view t = (view s)\<lparr>cv_data := (cv_data (view s))(n := f (cv_data (view s) n))\<rparr>) s"
    and wr_ok: "inv s \<Longrightarrow> cv_open (view s) n = Some i \<Longrightarrow>
      kok (wr i) (\<lambda>_ t. inv t \<and> frame s t \<and>
        view t = (view s)\<lparr>cv_disk := (cv_disk (view s))[n := cv_data (view s) n],
          cv_writes := cv_writes (view s) @ [(n, cv_data (view s) n)], cv_dirty := cv_dirty (view s) - {n}\<rparr>) s"
    and rel_ok: "inv s \<Longrightarrow> cv_open (view s) n = Some i \<Longrightarrow>
      n \<in> cv_dirty (view s) \<or> cv_data (view s) n = cv_disk (view s) ! n \<Longrightarrow>
      kok (rel i) (\<lambda>_ t. inv t \<and> frame s t \<and> view t = (view s)\<lparr>cv_open := (cv_open (view s))(n := None)\<rparr>) s"
    and blk_size: "inv s \<Longrightarrow> n < length (cv_disk (view s)) \<Longrightarrow> length (cv_data (view s) n) = BSIZE"
    and blk_clean: "inv s \<Longrightarrow> cv_open (view s) n = None \<Longrightarrow> n \<notin> cv_dirty (view s) \<Longrightarrow>
      cv_data (view s) n = cv_disk (view s) ! n"
begin

text \<open>Steps of a routine, one law at a time.\<close>

lemma kok_step:
  assumes "kok m (\<lambda>x t. inv t \<and> frame s t \<and> P x (view t)) s"
    and "\<And>x t. inv t \<Longrightarrow> frame s t \<Longrightarrow> P x (view t) \<Longrightarrow> kok (f x) (\<lambda>y u. inv u \<and> frame t u \<and> Q y (view u)) t"
  shows "kok (kbind m f) (\<lambda>y u. inv u \<and> frame s u \<and> Q y (view u)) s"
  unfolding kok_bind
  by (rule kok_mono [OF assms(1)], rule kok_mono [OF assms(2)]) (auto intro: fr_trans)

lemma kok_step_seq:
  assumes "kok m (\<lambda>_ t. inv t \<and> frame s t \<and> P (view t)) s"
    and "\<And>t. inv t \<Longrightarrow> frame s t \<Longrightarrow> P (view t) \<Longrightarrow> kok m' (\<lambda>y u. inv u \<and> frame t u \<and> Q y (view u)) t"
  shows "kok (kseq m m') (\<lambda>y u. inv u \<and> frame s u \<and> Q y (view u)) s"
  unfolding kseq_def by (rule kok_step [OF assms(1)]) (rule assms(2))

text \<open>Reading a block, changing its data, writing it and giving it back.\<close>

lemma rewrite_block:
  assumes inv: "inv s" and n: "n < 2 ^ 32" "n < length (cv_disk (view s))"
    and op: "cv_open (view s) = Map.empty" and room: "card (cv_dirty (view s)) < NBUF"
    and upd: "\<And>t i. inv t \<Longrightarrow> frame s t \<Longrightarrow> view t = (view s)\<lparr>cv_open := [n \<mapsto> i]\<rparr> \<Longrightarrow>
      kok (upd i) (\<lambda>_ u. inv u \<and> frame t u \<and> view u = (view t)\<lparr>cv_data := (cv_data (view t))(n := d)\<rparr>) t"
  shows "kok (kbind (rd n) (\<lambda>i. kseq (upd i) (kseq (wr i) (rel i))))
    (\<lambda>_ t. inv t \<and> frame s t \<and> view t = written n d (view s)) s"
proof (rule kok_step [where P = "\<lambda>i v. v = (view s)\<lparr>cv_open := [n \<mapsto> i]\<rparr>"])
  show "kok (rd n) (\<lambda>i t. inv t \<and> frame s t \<and> view t = (view s)\<lparr>cv_open := [n \<mapsto> i]\<rparr>) s"
    using rd_ok [OF inv n] op room by simp
next
  fix i t1 assume t1: "inv t1" "frame s t1" "view t1 = (view s)\<lparr>cv_open := [n \<mapsto> i]\<rparr>"
  show "kok (kseq (upd i) (kseq (wr i) (rel i))) (\<lambda>_ t. inv t \<and> frame t1 t \<and> view t = written n d (view s)) t1"
  proof (rule kok_step_seq [OF upd [OF t1]])
    fix t2 assume t2: "inv t2" "view t2 = (view t1)\<lparr>cv_data := (cv_data (view t1))(n := d)\<rparr>"
    then have "cv_open (view t2) n = Some i" using t1(3) by simp
    from wr_ok [OF t2(1) this]
    show "kok (kseq (wr i) (rel i)) (\<lambda>_ t. inv t \<and> frame t2 t \<and> view t = written n d (view s)) t2"
    proof (rule kok_step_seq)
      fix t3 assume t3: "inv t3" "view t3 = (view t2)\<lparr>cv_disk := (cv_disk (view t2))[n := cv_data (view t2) n],
        cv_writes := cv_writes (view t2) @ [(n, cv_data (view t2) n)], cv_dirty := cv_dirty (view t2) - {n}\<rparr>"
      then have v3: "view t3 = (written n d (view s))\<lparr>cv_open := [n \<mapsto> i]\<rparr>"
        using t1(3) t2(2) by (simp add: written_def)
      have "kok (rel i) (\<lambda>_ t. inv t \<and> frame t3 t \<and> view t = (view t3)\<lparr>cv_open := (cv_open (view t3))(n := None)\<rparr>) t3"
        using n by (intro rel_ok [OF t3(1)]) (simp_all add: v3 written_def)
      moreover have "(view t3)\<lparr>cv_open := (cv_open (view t3))(n := None)\<rparr> = written n d (view s)"
        using op by (simp add: v3 written_def)
      ultimately show "kok (rel i) (\<lambda>_ t. inv t \<and> frame t3 t \<and> view t = written n d (view s)) t3" by simp
    qed
  qed
qed

text \<open>Copying the data of the block \<open>b\<close> to the block \<open>a\<close>, through the buffers \<open>j\<close> and \<open>i\<close>.\<close>

definition copied :: "nat \<Rightarrow> nat \<Rightarrow> (unit, 's) M" where
  "copied j i = kbind (cont j) (\<lambda>x. kseq (dat i (\<lambda>_. b_data x)) (kseq (wr i) (kseq (rel j) (rel i))))"

lemma copy_tail:
  assumes inv: "inv s" and ab: "a \<noteq> b" "a < length (cv_disk v)" "b < length (cv_disk v)"
    and vw: "view s = v\<lparr>cv_open := [a \<mapsto> i, b \<mapsto> j]\<rparr>" "cv_open v = Map.empty"
    and src: "b \<in> cv_dirty v \<or> cv_data v b = cv_disk v ! b"
  shows "kok (copied j i) (\<lambda>_ t. inv t \<and> frame s t \<and> view t = written a (cv_data v b) v) s"
proof -
  let ?d = "cv_data v b"
  have no_open: "(written a ?d v)\<lparr>cv_open := \<lambda>_. None\<rparr> = written a ?d v"
    using vw(2) by (cases v) (simp add: written_def)
  have c: "kok (cont j) (\<lambda>x t. inv t \<and> frame s t \<and> (b_data x = ?d \<and> view t = view s)) s"
    using cont_ok [OF inv, of b j] ab vw by (auto intro: kok_mono simp: inv fr_refl)
  show ?thesis
    unfolding copied_def
  proof (rule kok_step [OF c])
    fix x t1 assume t1: "inv t1" "b_data x = ?d \<and> view t1 = view s"
    have "kok (dat i (\<lambda>_. b_data x)) (\<lambda>_ t. inv t \<and> frame t1 t \<and>
        view t = (view t1)\<lparr>cv_data := (cv_data (view t1))(a := b_data x)\<rparr>) t1"
      using dat_ok [OF t1(1), of a i "\<lambda>_. b_data x"] blk_size [OF inv, of b] ab vw t1 by simp
    then show "kok (kseq (dat i (\<lambda>_. b_data x)) (kseq (wr i) (kseq (rel j) (rel i))))
        (\<lambda>_ t. inv t \<and> frame t1 t \<and> view t = written a ?d v) t1"
    proof (rule kok_step_seq)
      fix t2 assume "inv t2" "view t2 = (view t1)\<lparr>cv_data := (cv_data (view t1))(a := b_data x)\<rparr>"
      then have t2: "inv t2" "view t2 = v\<lparr>cv_data := (cv_data v)(a := ?d), cv_open := [a \<mapsto> i, b \<mapsto> j]\<rparr>"
        using t1 vw by simp_all
      have "cv_open (view t2) a = Some i" using t2 ab by simp
      from wr_ok [OF t2(1) this]
      show "kok (kseq (wr i) (kseq (rel j) (rel i))) (\<lambda>_ t. inv t \<and> frame t2 t \<and> view t = written a ?d v) t2"
      proof (rule kok_step_seq)
        fix t3 assume "inv t3" "view t3 = (view t2)\<lparr>cv_disk := (cv_disk (view t2))[a := cv_data (view t2) a],
          cv_writes := cv_writes (view t2) @ [(a, cv_data (view t2) a)], cv_dirty := cv_dirty (view t2) - {a}\<rparr>"
        then have t3: "inv t3" "view t3 = (written a ?d v)\<lparr>cv_open := [a \<mapsto> i, b \<mapsto> j]\<rparr>"
          using t2 by (simp_all add: written_def)
        have "kok (rel j) (\<lambda>_ t. inv t \<and> frame t3 t \<and> view t = (view t3)\<lparr>cv_open := (cv_open (view t3))(b := None)\<rparr>) t3"
          using ab src by (intro rel_ok [OF t3(1)]) (auto simp: t3(2) written_def)
        then show "kok (kseq (rel j) (rel i)) (\<lambda>_ t. inv t \<and> frame t3 t \<and> view t = written a ?d v) t3"
        proof (rule kok_step_seq)
          fix t4 assume "inv t4" "view t4 = (view t3)\<lparr>cv_open := (cv_open (view t3))(b := None)\<rparr>"
          moreover have "[a \<mapsto> i, b \<mapsto> j](b := None) = [a \<mapsto> i]" using ab by auto
          ultimately have t4: "inv t4" "view t4 = (written a ?d v)\<lparr>cv_open := [a \<mapsto> i]\<rparr>"
            using t3 by simp_all
          have "kok (rel i) (\<lambda>_ t. inv t \<and> frame t4 t \<and> view t = (view t4)\<lparr>cv_open := (cv_open (view t4))(a := None)\<rparr>) t4"
            using ab by (intro rel_ok [OF t4(1)]) (auto simp: t4(2) written_def)
          then show "kok (rel i) (\<lambda>_ t. inv t \<and> frame t4 t \<and> view t = written a ?d v) t4"
            by (simp add: t4(2) no_open)
        qed
      qed
    qed
  qed
qed

lemma card_insert_less: "Suc (card A) < n \<Longrightarrow> card (insert x A) < n"
  by (cases "finite A") (auto simp: card_insert_if)

lemma read_two:
  assumes inv: "inv s" and a: "a < 2 ^ 32" "a < length (cv_disk (view s))"
    and b: "b < 2 ^ 32" "b < length (cv_disk (view s))" "a \<noteq> b"
    and op: "cv_open (view s) = Map.empty" and ra: "a \<in> cv_dirty (view s) \<or> card (cv_dirty (view s)) < NBUF"
    and rb: "b \<in> cv_dirty (view s) \<or> Suc (card (cv_dirty (view s))) < NBUF"
    and m: "\<And>i j t. inv t \<Longrightarrow> frame s t \<Longrightarrow> view t = (view s)\<lparr>cv_open := [a \<mapsto> i, b \<mapsto> j]\<rparr> \<Longrightarrow>
      kok (m i j) (\<lambda>_ u. inv u \<and> frame t u \<and> view u = v) t"
  shows "kok (kbind (rd a) (\<lambda>i. kbind (rd b) (\<lambda>j. m i j))) (\<lambda>_ t. inv t \<and> frame s t \<and> view t = v) s"
proof (rule kok_step [where P = "\<lambda>i v. v = (view s)\<lparr>cv_open := [a \<mapsto> i]\<rparr>"])
  show "kok (rd a) (\<lambda>i t. inv t \<and> frame s t \<and> view t = (view s)\<lparr>cv_open := [a \<mapsto> i]\<rparr>) s"
    using rd_ok [OF inv a] op ra by simp
next
  fix i t1 assume t1: "inv t1" "frame s t1" "view t1 = (view s)\<lparr>cv_open := [a \<mapsto> i]\<rparr>"
  show "kok (kbind (rd b) (\<lambda>j. m i j)) (\<lambda>_ t. inv t \<and> frame t1 t \<and> view t = v) t1"
  proof (rule kok_step [where P = "\<lambda>j v. v = (view s)\<lparr>cv_open := [a \<mapsto> i, b \<mapsto> j]\<rparr>"])
    show "kok (rd b) (\<lambda>j t. inv t \<and> frame t1 t \<and> view t = (view s)\<lparr>cv_open := [a \<mapsto> i, b \<mapsto> j]\<rparr>) t1"
      using rd_ok [OF t1(1), of b] t1(3) a b rb by (auto intro: card_insert_less)
  next
    fix j t2 assume "inv t2" "frame t1 t2" "view t2 = (view s)\<lparr>cv_open := [a \<mapsto> i, b \<mapsto> j]\<rparr>"
    then show "kok (m i j) (\<lambda>_ u. inv u \<and> frame t2 u \<and> view u = v) t2"
      using m [of t2 i j] t1(2) fr_trans by blast
  qed
qed

text \<open>The two orders in which the log copies blocks.\<close>

lemma copy_to_first:
  assumes inv: "inv s" and a: "a < 2 ^ 32" "a < length (cv_disk (view s))"
    and b: "b < 2 ^ 32" "b < length (cv_disk (view s))" "a \<noteq> b"
    and op: "cv_open (view s) = Map.empty" and dirty: "b \<in> cv_dirty (view s)" "card (cv_dirty (view s)) < NBUF"
  shows "kok (kbind (rd a) (\<lambda>i. kbind (rd b) (\<lambda>j. copied j i)))
    (\<lambda>_ t. inv t \<and> frame s t \<and> view t = written a (cv_data (view s) b) (view s)) s"
  by (rule read_two [OF inv a b op]) (use dirty copy_tail a b op in auto)

lemma copy_from_first:
  assumes inv: "inv s" and a: "a < 2 ^ 32" "a < length (cv_disk (view s))"
    and b: "b < 2 ^ 32" "b < length (cv_disk (view s))" "a \<noteq> b"
    and op: "cv_open (view s) = Map.empty"
    and room: "card (cv_dirty (view s)) < NBUF" "a \<in> cv_dirty (view s) \<or> Suc (card (cv_dirty (view s))) < NBUF"
  shows "kok (kbind (rd b) (\<lambda>j. kbind (rd a) (\<lambda>i. copied j i)))
    (\<lambda>_ t. inv t \<and> frame s t \<and> view t = written a (cv_data (view s) b) (view s)) s"
proof (rule read_two [OF inv b(1,2) a b(3) [symmetric] op])
  fix j i t assume t: "inv t" "view t = (view s)\<lparr>cv_open := [b \<mapsto> j, a \<mapsto> i]\<rparr>"
  have "[b \<mapsto> j, a \<mapsto> i] = [a \<mapsto> i, b \<mapsto> j]" using b by (simp add: fun_upd_twist)
  moreover have "b \<in> cv_dirty (view s) \<or> cv_data (view s) b = cv_disk (view s) ! b"
    using blk_clean [OF inv, of b] op by auto
  ultimately show "kok (copied j i) (\<lambda>_ u. inv u \<and> frame t u \<and> view u = written a (cv_data (view s) b) (view s)) t"
    using copy_tail [OF t(1), of a b "view s" i j] t(2) a b op by simp
qed (use room in auto)

end

lemma cache_finite_blocks: "cache_inv s \<Longrightarrow> n < length (disk s) \<Longrightarrow> length (cv_data (cache_view s) n) = BSIZE"
proof -
  assume inv: "cache_inv s" and n: "n < length (disk s)"
  have one: "one_buffer (bufs s)" using inv by (simp add: cache_inv_def)
  show ?thesis
  proof (cases "block_buf (bufs s) n")
    case None
    then show ?thesis using inv n by (simp add: cache_view_def block_data_def cache_inv_def)
  next
    case (Some i)
    then have "i < NBUF" by (simp add: block_buf_Some [OF one])
    then have "length (b_data (bufs s ! i)) = BSIZE" using inv by (simp add: cache_inv_def buf_ok_def)
    then show ?thesis using Some inv n by (simp add: cache_view_def block_data_def cache_inv_def)
  qed
qed

lemma cache_clean:
  assumes inv: "cache_inv s" and op: "cv_open (cache_view s) n = None" and d: "n \<notin> cv_dirty (cache_view s)"
  shows "cv_data (cache_view s) n = disk s ! n"
proof (cases "block_buf (bufs s) n")
  case None
  then show ?thesis by (simp add: cache_view_def block_data_def)
next
  case (Some i)
  have one: "one_buffer (bufs s)" using inv by (simp add: cache_inv_def)
  have i: "i < NBUF" "holds_block (bufs s ! i) n" using Some by (simp_all add: block_buf_Some [OF one])
  have "buf_ok (disk s) (cur_pid s) (bufs s ! i)" using inv i by (simp add: cache_inv_def)
  moreover have "b_refcnt (bufs s ! i) = 0" "\<not> b_dirty (bufs s ! i)"
    using op d Some by (auto simp: cache_view_def block_defs split: if_splits)
  ultimately show ?thesis using Some i by (auto simp: cache_view_def block_data_def buf_ok_def holds_block_def)
qed

lemma getb_view:
  assumes "cache_inv s" and "cv_open (cache_view s) n = Some i"
  shows "kok (getb i) (\<lambda>b t. t = s \<and> b_data b = cv_data (cache_view s) n) s"
  using cache_view_open [OF assms] by (simp add: kok_def getb_def)

interpretation bcache: block_cache cache_inv cache_view cache_frame "\<lambda>n. bread 1 (of_nat n)" getb
  "\<lambda>i f. updb i (\<lambda>b. b\<lparr>b_data := f (b_data b)\<rparr>)" bwrite brelse
proof unfold_locales
  fix s :: "'a kbuf_scheme" and n i
  assume "cache_inv s" "cv_open (cache_view s) n = Some i"
    "n \<in> cv_dirty (cache_view s) \<or> cv_data (cache_view s) n = cv_disk (cache_view s) ! n"
  from brelse_view [OF this]
  show "kok (brelse i) (\<lambda>_ t. cache_inv t \<and> cache_frame s t \<and>
      cache_view t = (cache_view s)\<lparr>cv_open := (cv_open (cache_view s))(n := None)\<rparr>) s"
    by (rule kok_mono) simp
qed (auto intro: cache_frame_refl cache_frame_trans bread_view getb_view bdata_view bwrite_view [simplified]
       cache_finite_blocks cache_clean simp del: fun_upd_apply)

section \<open>The initial cache\<close>

definition buf0 :: buf where
  "buf0 = \<lparr>b_valid = False, b_dirty = False, b_dev = 0, b_blockno = 0, b_lock = initsleeplock, b_refcnt = 0,
     b_prev = 0, b_next = 0, b_data = replicate BSIZE 0\<rparr>"

lemma binit_loop:
  assumes L: "length (bufs s) = Suc NBUF" and e: "nexts (bufs s) NBUF = NBUF" "prevs (bufs s) NBUF = NBUF"
    and z: "map nolinks (bufs s) = replicate (Suc NBUF) buf0" and k: "k \<le> NBUF"
  shows "\<exists>bs'. kfor [0..<k] (\<lambda>i. kseq (updb i (\<lambda>b. b\<lparr>b_lock := initsleeplock\<rparr>)) (blink_head i)) s = Ok () (s\<lparr>bufs := bs'\<rparr>) \<and>
    length bs' = Suc NBUF \<and> map nolinks bs' = replicate (Suc NBUF) buf0 \<and>
    path (nexts bs') (prevs bs') NBUF (rev [0..<k]) NBUF"
  using k
proof (induction k)
  case 0
  have "s = s\<lparr>bufs := bufs s\<rparr>" by simp
  then show ?case using assms by (intro exI [of _ "bufs s"]) (simp add: krun)
next
  case (Suc k)
  then obtain bs where bs: "kfor [0..<k] (\<lambda>i. kseq (updb i (\<lambda>b. b\<lparr>b_lock := initsleeplock\<rparr>)) (blink_head i)) s = Ok () (s\<lparr>bufs := bs\<rparr>)"
    "length bs = Suc NBUF" "map nolinks bs = replicate (Suc NBUF) buf0"
    "path (nexts bs) (prevs bs) NBUF (rev [0..<k]) NBUF" by auto
  let ?f = "\<lambda>b. b\<lparr>b_lock := initsleeplock\<rparr>"
  let ?bs = "bs[k := ?f (bs ! k)]"
  have "nolinks (bs ! k) = buf0" using bs(2,3) Suc.prems by (metis Suc_leD le_imp_less_Suc length_map nth_map nth_replicate)
  then have "?f (bs ! k) = bs ! k" by (cases "bs ! k") (simp add: nolinks_def buf0_def)
  then have same: "?bs = bs" by simp
  have "path (nexts (bufs (s\<lparr>bufs := bs\<rparr>))) (prevs (bufs (s\<lparr>bufs := bs\<rparr>))) NBUF (rev [0..<k]) NBUF"
    "distinct (k # NBUF # rev [0..<k])" "length (bufs (s\<lparr>bufs := bs\<rparr>)) = Suc NBUF" "set (k # rev [0..<k]) \<subseteq> {0..<NBUF}"
    using bs Suc.prems by auto
  from blink_head_path [OF this]
  obtain bs' where bs': "blink_head k (s\<lparr>bufs := bs\<rparr>) = Ok () ((s\<lparr>bufs := bs\<rparr>)\<lparr>bufs := bs'\<rparr>)"
    "map nolinks bs' = map nolinks (bufs (s\<lparr>bufs := bs\<rparr>))" "path (nexts bs') (prevs bs') NBUF (k # rev [0..<k]) NBUF"
    by blast
  have "length bs' = Suc NBUF" using bs'(2) bs(2) by (auto dest: map_eq_imp_length_eq)
  moreover have "kseq (updb k ?f) (blink_head k) (s\<lparr>bufs := bs\<rparr>) = Ok () (s\<lparr>bufs := bs'\<rparr>)"
    using bs bs' Suc.prems same by (simp add: krun updb_def)
  from kfor_snoc [OF bs(1) this]
  have "kfor [0..<Suc k] (\<lambda>i. kseq (updb i ?f) (blink_head i)) s = Ok () (s\<lparr>bufs := bs'\<rparr>)" by simp
  ultimately show ?case using bs' bs(3) by (intro exI [of _ bs']) (simp del: replicate.simps)
qed

lemma cache_inv_fresh:
  assumes c: "cur_ok s" and r: "ring (bufs s) xs" and z: "map nolinks (bufs s) = replicate (Suc NBUF) buf0"
    and d: "\<forall>b \<in> set (disk s). length b = BSIZE"
  shows "cache_inv s" "cache_view s = \<lparr>cv_data = (\<lambda>n. disk s ! n), cv_disk = disk s, cv_writes = dwrites s, cv_dirty = {}, cv_open = Map.empty\<rparr>"
proof -
  have b: "nolinks (bufs s ! i) = buf0" if "i < NBUF" for i
    using z r that by (metis length_map less_SucI nth_map nth_replicate ring_length)
  have f: "b_valid (bufs s ! i) = False" "b_dirty (bufs s ! i) = False" "b_dev (bufs s ! i) = 0"
    "b_lock (bufs s ! i) = initsleeplock" "b_refcnt (bufs s ! i) = 0" "b_data (bufs s ! i) = replicate BSIZE 0"
    if "i < NBUF" for i
    using b [OF that] by (cases "bufs s ! i"; simp add: nolinks_def buf0_def)+
  have nh: "\<not> holds_block (bufs s ! i) n" if "i < NBUF" for i n
    using f [OF that] by (simp add: holds_block_def)
  have "one_buffer (bufs s)" unfolding one_buffer_def using nh by blast
  moreover have "buf_ok (disk s) (cur_pid s) (bufs s ! i)" if "i < NBUF" for i
    using f [OF that] by (simp add: buf_ok_def initsleeplock_def)
  ultimately show "cache_inv s" using c r d by (auto simp: cache_inv_def)
  have "block_buf (bufs s) n = None" for n using nh by (simp add: block_buf_None)
  then show "cache_view s = \<lparr>cv_data = (\<lambda>n. disk s ! n), cv_disk = disk s, cv_writes = dwrites s, cv_dirty = {}, cv_open = Map.empty\<rparr>"
    by (simp add: cache_view_def block_defs fun_eq_iff)
qed

lemma binit_run:
  assumes c: "cur_ok s" and b: "bufs s = replicate (Suc NBUF) buf0" and d: "\<forall>b \<in> set (disk s). length b = BSIZE"
  shows "kok binit (\<lambda>_ t. cache_inv t \<and> cache_frame s t \<and> ring (bufs t) (rev [0..<NBUF]) \<and>
    cache_view t = \<lparr>cv_data = (\<lambda>n. disk s ! n), cv_disk = disk s, cv_writes = dwrites s, cv_dirty = {}, cv_open = Map.empty\<rparr>) s"
proof -
  let ?bs = "(bufs s)[NBUF := buf0\<lparr>b_prev := NBUF, b_next := NBUF\<rparr>]"
  let ?t = "s\<lparr>bufs := ?bs\<rparr>"
  have bn: "bufs s ! NBUF = buf0" using b by (simp del: replicate.simps)
  have z: "map nolinks ?bs = replicate (Suc NBUF) buf0"
    using b by (simp add: map_update map_replicate_const [symmetric] del: replicate.simps)
       (simp add: nolinks_def buf0_def list_update_same_conv map_replicate del: replicate.simps)
  obtain bs' where r: "kfor [0..<NBUF] (\<lambda>i. kseq (updb i (\<lambda>b. b\<lparr>b_lock := initsleeplock\<rparr>)) (blink_head i)) ?t = Ok () (?t\<lparr>bufs := bs'\<rparr>)"
    "length bs' = Suc NBUF" "map nolinks bs' = replicate (Suc NBUF) buf0"
    "path (nexts bs') (prevs bs') NBUF (rev [0..<NBUF]) NBUF"
    using binit_loop [of ?t NBUF] b z by (auto simp del: replicate.simps path.simps)
  have "binit s = Ok () (s\<lparr>bufs := bs'\<rparr>)"
    using r(1) b bn by (simp add: binit_def updb_def krun del: replicate.simps)
  moreover have "ring bs' (rev [0..<NBUF])" using r by (auto simp: ring_def simp del: path.simps)
  ultimately show ?thesis
    using cache_inv_fresh [of "s\<lparr>bufs := bs'\<rparr>" "rev [0..<NBUF]"] r c d by (simp add: kok_def cache_frame_bufs)
qed

definition cache_boot :: "block list \<Rightarrow> kbuf" where
  "cache_boot d = kpipe.extend (pipe_state wrapping_pipe) (kbuf.fields (replicate (Suc NBUF) buf0) d [])"

text \<open>A cache that \<^verbatim>\<open>binit\<close> has set up over a given disk.\<close>

definition cache_ready :: "block list \<Rightarrow> kbuf" where
  "cache_ready d = (case binit (cache_boot d) of Ok x t \<Rightarrow> t | _ \<Rightarrow> cache_boot d)"

lemma cache_boot_ok:
  "cur_ok (cache_boot d)" "bufs (cache_boot d) = replicate (Suc NBUF) buf0" "disk (cache_boot d) = d"
  "dwrites (cache_boot d) = []"
  by (simp_all add: cache_boot_def pipe_state_def kpipe.defs kbuf.defs kproc.defs cur_ok_def kproc3_def kproc0_def
      ptable0_def NPROC_def del: replicate.simps)

lemma cache_ready_ok:
  assumes "\<forall>b \<in> set d. length b = BSIZE"
  shows "cache_inv (cache_ready d)" "ring (bufs (cache_ready d)) (rev [0..<NBUF])" "disk (cache_ready d) = d"
    "cache_view (cache_ready d) = \<lparr>cv_data = (\<lambda>n. d ! n), cv_disk = d, cv_writes = [], cv_dirty = {}, cv_open = Map.empty\<rparr>"
proof -
  obtain x t where t: "binit (cache_boot d) = Ok x t" "cache_inv t" "ring (bufs t) (rev [0..<NBUF])"
    "cache_view t = \<lparr>cv_data = (\<lambda>n. d ! n), cv_disk = d, cv_writes = [], cv_dirty = {}, cv_open = Map.empty\<rparr>"
    using kok_Ok [OF binit_run [OF cache_boot_ok(1,2)]] assms by (auto simp: cache_boot_ok)
  then have r: "cache_ready d = t" by (simp add: cache_ready_def)
  have "disk t = cv_disk (cache_view t)" by simp
  then have "disk t = d" unfolding t(4) by simp
  then show "cache_inv (cache_ready d)" "ring (bufs (cache_ready d)) (rev [0..<NBUF])" "disk (cache_ready d) = d"
    "cache_view (cache_ready d) = \<lparr>cv_data = (\<lambda>n. d ! n), cv_disk = d, cv_writes = [], cv_dirty = {}, cv_open = Map.empty\<rparr>"
    using t unfolding r by auto
qed

section \<open>Properties\<close>

text \<open>
  \<^verbatim>\<open>binit\<close> on zeroed memory builds a cache that satisfies the invariant: all buffers are in the doubly
  linked list, in the order 29 to 0, none is in use, and every block reads as what the disk holds.
\<close>

theorem binit_sets_up_cache:
  assumes "cur_ok s" and "bufs s = replicate (Suc NBUF) buf0" and "\<forall>b \<in> set (disk s). length b = BSIZE"
  shows "kok binit (\<lambda>_ t. cache_inv t \<and> ring (bufs t) (rev [0..<NBUF]) \<and> disk t = disk s \<and>
    cv_data (cache_view t) = (\<lambda>n. disk s ! n) \<and> cv_dirty (cache_view t) = {} \<and> cv_open (cache_view t) = Map.empty) s"
proof (rule kok_mono [OF binit_run [OF assms]], intro conjI)
  fix t assume t: "cache_inv t \<and> cache_frame s t \<and> ring (bufs t) (rev [0..<NBUF]) \<and> cache_view t =
    \<lparr>cv_data = (\<lambda>n. disk s ! n), cv_disk = disk s, cv_writes = dwrites s, cv_dirty = {}, cv_open = Map.empty\<rparr>"
  have "disk t = cv_disk (cache_view t)" by simp
  then show "disk t = disk s" using t by simp
qed auto

theorem binit_sets_up_cache_witness:
  "kok binit (\<lambda>_ t. cache_inv t \<and> ring (bufs t) (rev [0..<NBUF]) \<and> disk t = [replicate BSIZE 7])
     (cache_boot [replicate BSIZE 7])"
  by (rule kok_mono [OF binit_sets_up_cache [of "cache_boot [replicate BSIZE 7]"]]) (simp_all add: cache_boot_ok)

text \<open>
  C6: \<^verbatim>\<open>bread\<close> of a block of the disk that is not in use returns, as long as a buffer is free or the block is
  dirty and so still cached.  The buffer it returns is locked by the running process and has the current data
  of the block, also when the data is newer than the disk; no other block changes its data, becomes
  clean or dirty, or is opened, and the disk is not written.
\<close>

theorem bread_current_data:
  assumes "cache_inv s" and "n < 2 ^ 32" and "n < length (disk s)" and "cv_open (cache_view s) n = None"
    and "n \<in> cv_dirty (cache_view s) \<or> card (cv_dirty (cache_view s) \<union> dom (cv_open (cache_view s))) < NBUF"
  shows "\<exists>i t. bread 1 (of_nat n) s = Ok i t \<and> cache_inv t \<and>
    b_data (bufs t ! i) = cv_data (cache_view s) n \<and> b_lock (bufs t ! i) = \<lparr>sl_locked = True, sl_pid = cur_pid t\<rparr> \<and>
    cache_view t = (cache_view s)\<lparr>cv_open := (cv_open (cache_view s))(n \<mapsto> i)\<rparr>"
proof -
  obtain i t where t: "bread 1 (of_nat n) s = Ok i t" "cache_inv t"
    "cache_view t = (cache_view s)\<lparr>cv_open := (cv_open (cache_view s))(n \<mapsto> i)\<rparr>"
    using kok_Ok [OF bread_view [OF assms]] by blast
  then have "cv_open (cache_view t) n = Some i" by simp
  note cache_view_open [OF t(2) this]
  then show ?thesis using t by (intro exI conjI) auto
qed

theorem bread_current_data_witness:
  "\<exists>i t. bread 1 0 (cache_ready [replicate BSIZE 7]) = Ok i t \<and> b_data (bufs t ! i) = replicate BSIZE 7"
  using bread_current_data [of "cache_ready [replicate BSIZE 7]" 0] cache_ready_ok [of "[replicate BSIZE 7]"]
  by (auto simp: NBUF_def MAXOPBLOCKS_def)

text \<open>
  \<^verbatim>\<open>brelse\<close> of a buffer in use whose data is on the disk, or that is kept dirty, closes the block and makes
  the buffer the first of the list, the most recently used.  The data of no block changes: in particular a
  block that is recycled later still reads the same.
\<close>

theorem brelse_makes_most_recent:
  assumes "cache_inv s" and "cv_open (cache_view s) n = Some i"
    and "n \<in> cv_dirty (cache_view s) \<or> cv_data (cache_view s) n = disk s ! n"
  shows "\<exists>t xs. brelse i s = Ok () t \<and> cache_inv t \<and> ring (bufs t) (i # xs) \<and>
    cache_view t = (cache_view s)\<lparr>cv_open := (cv_open (cache_view s))(n := None)\<rparr>"
  using kok_Ok [OF brelse_view [OF assms(1,2)]] assms(3) by (auto simp del: fun_upd_apply)

theorem brelse_makes_most_recent_witness:
  "\<exists>i s t xs. bread 1 0 (cache_ready [replicate BSIZE 7]) = Ok i s \<and> brelse i s = Ok () t \<and> ring (bufs t) (i # xs)"
proof -
  let ?s = "cache_ready [replicate BSIZE 7]"
  note r = cache_ready_ok [of "[replicate BSIZE 7]", simplified]
  have "kok (bread 1 (of_nat 0)) (\<lambda>i t. cache_inv t \<and> cache_frame ?s t \<and>
      cache_view t = (cache_view ?s)\<lparr>cv_open := (cv_open (cache_view ?s))(0 \<mapsto> i)\<rparr>) ?s"
    using r by (intro bread_view) (simp_all add: NBUF_def MAXOPBLOCKS_def)
  then obtain i s where i: "bread 1 0 ?s = Ok i s" "cache_inv s"
    "cache_view s = (cache_view ?s)\<lparr>cv_open := (cv_open (cache_view ?s))(0 \<mapsto> i)\<rparr>"
    by (auto dest: kok_Ok simp del: fun_upd_apply)
  have "disk s = cv_disk (cache_view s)" by simp
  then have "disk s = [replicate BSIZE 7]" "cv_data (cache_view s) 0 = replicate BSIZE 7" "cv_open (cache_view s) 0 = Some i"
    using i(3) r by simp_all
  then show ?thesis
    using brelse_makes_most_recent [OF i(2), of 0 i] i(1) by auto
qed

text \<open>
  The cache recycles the least recently used buffer: \<^verbatim>\<open>bget\<close> of a block that is not cached takes the last
  buffer of the list that is neither in use nor dirty, so that every buffer behind it is in use or dirty, and
  leaves all other buffers as they are.
\<close>

theorem bget_recycles_least_recent:
  assumes "cache_inv s" and "ring (bufs s) (ys @ i # zs)" and "n < 2 ^ 32" and "block_buf (bufs s) n = None"
    and "b_refcnt (bufs s ! i) = 0" and "\<not> b_dirty (bufs s ! i)"
    and "\<forall>j \<in> set zs. b_refcnt (bufs s ! j) \<noteq> 0 \<or> b_dirty (bufs s ! j)"
  shows "\<exists>t. bget 1 (of_nat n) s = Ok i t \<and> b_blockno (bufs t ! i) = of_nat n \<and>
    (\<forall>j. j \<noteq> i \<longrightarrow> bufs t ! j = bufs s ! j)"
proof -
  have "find (\<lambda>i. b_refcnt (bufs s ! i) = 0 \<and> \<not> b_dirty (bufs s ! i)) (rev zs @ [i] @ rev ys) = Some i"
    using assms(5-7) by (subst find_skip) auto
  then have "recycled (bufs s) (ys @ i # zs) = Some i" by (simp add: recycled_def)
  note bget_recycle [OF assms(1,3,4,2) this]
  moreover have "i < length (bufs s)" using assms(2) by (auto simp: ring_def)
  ultimately show ?thesis by simp
qed

theorem bget_recycles_least_recent_witness:
  "\<exists>t. bget 1 5 (cache_ready []) = Ok 0 t \<and> b_blockno (bufs t ! 0) = 5"
proof -
  have r: "ring (bufs (cache_ready [])) (rev [1..<NBUF] @ 0 # [])"
    using cache_ready_ok(2) [of "[]"] by (simp add: NBUF_def MAXOPBLOCKS_def upt_conv_Cons)
  have inv: "cache_inv (cache_ready [])" by (rule cache_ready_ok) simp
  have v: "cv_open (cache_view (cache_ready [])) = Map.empty" "cv_dirty (cache_view (cache_ready [])) = {}"
    by (subst cache_ready_ok; simp)+
  have b: "buf_ok (disk (cache_ready [])) (cur_pid (cache_ready [])) (bufs (cache_ready []) ! 0)"
    "0 < NBUF" using inv by (simp_all add: cache_inv_def NBUF_def MAXOPBLOCKS_def)
  have dev: "b_dev (bufs (cache_ready []) ! i) \<noteq> 1" if "i < NBUF" for i
    using inv that cache_ready_ok(3) [of "[]"] by (auto simp: cache_inv_def buf_ok_def)
  then have "block_buf (bufs (cache_ready [])) 5 = None" by (simp add: block_buf_None holds_block_def)
  moreover have "b_refcnt (bufs (cache_ready []) ! 0) = 0 \<and> \<not> b_dirty (bufs (cache_ready []) ! 0)"
    using b dev [of 0] by (auto simp: buf_ok_def split: if_splits)
  ultimately show ?thesis
    using bget_recycles_least_recent [OF inv r, of 5] by auto
qed

end
