(* ===== verification/Console_Inv.thy ===== *)
theory Console_Inv
  imports Console Bio_Inv
begin

text \<open>
  The line editor of the console: what a reader gets after a line has been typed and corrected, and what the history then holds.  The
  ring buffer stands for two texts, the lines that were finished and not yet read, and the line that is being edited.
\<close>

section \<open>The texts in the buffer\<close>

definition in_text :: "input \<Rightarrow> nat \<Rightarrow> nat \<Rightarrow> uchar list" where
  "in_text inp a b = map (\<lambda>k. in_buf inp ! (k mod INPUT_BUF)) [a..<b]"

definition in_view :: "input \<Rightarrow> uchar list \<Rightarrow> uchar list \<Rightarrow> bool" where
  "in_view inp pend line \<longleftrightarrow> length (in_buf inp) = INPUT_BUF \<and> unat (in_r inp) \<le> unat (in_w inp) \<and> unat (in_w inp) \<le> unat (in_e inp)
     \<and> unat (in_e inp) - unat (in_r inp) \<le> INPUT_BUF
     \<and> in_text inp (unat (in_r inp)) (unat (in_w inp)) = pend \<and> in_text inp (unat (in_w inp)) (unat (in_e inp)) = line"

lemma in_view_lengths:
  assumes "in_view inp pend line"
  shows "unat (in_w inp) = unat (in_r inp) + length pend" "unat (in_e inp) = unat (in_w inp) + length line"
  using assms by (auto simp: in_view_def in_text_def)

lemma uint_bound: "unat (w :: uint) < 4294967296"
  by (rule order_less_le_trans [OF unsigned_less]) simp

lemma unat_diff: "b \<le> a \<Longrightarrow> unat (a - b) = unat a - unat (b :: uint)"
  by (simp add: unat_sub)

lemma in_view_diffs:
  assumes "in_view inp pend line"
  shows "unat (in_e inp - in_r inp) = length pend + length line" "unat (in_e inp - in_w inp) = length line"
  using in_view_lengths [OF assms] by (simp_all add: unat_diff word_le_nat_alt)

lemma ring_apart: "k < e \<Longrightarrow> e - k < INPUT_BUF \<Longrightarrow> k mod INPUT_BUF \<noteq> e mod INPUT_BUF"
proof
  assume a: "k < e" "e - k < INPUT_BUF" "k mod INPUT_BUF = e mod INPUT_BUF"
  then have "INPUT_BUF dvd e - k" using mod_eq_dvd_iff_nat [of k e INPUT_BUF] by auto
  then show False using a by (auto dest: dvd_imp_le)
qed

lemma in_text_put:
  assumes "b \<le> unat (in_e inp)" "unat (in_e inp) - a < INPUT_BUF" "length (in_buf inp) = INPUT_BUF"
  shows "in_text (in_put c inp) a b = in_text inp a b"
proof -
  have "k mod INPUT_BUF \<noteq> unat (in_e inp) mod INPUT_BUF" if "a \<le> k" "k < b" for k
    using ring_apart [of k "unat (in_e inp)"] that assms(1,2) by auto
  then show ?thesis by (auto simp: in_text_def in_put_def nth_list_update_neq [OF not_sym])
qed

lemma in_view_put:
  assumes v: "in_view inp pend line" and l: "length pend + length line < INPUT_BUF" "unat (in_e inp) + 1 < 2 ^ 32"
  shows "in_view (in_put c inp) pend (line @ [c])" "unat (in_e (in_put c inp)) = unat (in_e inp) + 1"
proof -
  note n = in_view_lengths [OF v]
  show e: "unat (in_e (in_put c inp)) = unat (in_e inp) + 1"
    using l(2) by (simp add: in_put_def unat_word_ariths)
  have p: "in_text (in_put c inp) (unat (in_r inp)) (unat (in_w inp)) = pend"
    "in_text (in_put c inp) (unat (in_w inp)) (unat (in_e inp)) = line"
    using v n l(1) by (subst in_text_put; auto simp: in_view_def)+
  have "in_buf (in_put c inp) ! (unat (in_e inp) mod INPUT_BUF) = c"
    using v by (simp add: in_put_def in_view_def INPUT_BUF_def)
  then have "in_text (in_put c inp) (unat (in_w inp)) (unat (in_e inp) + 1) = line @ [c]"
    using p(2) v by (simp add: in_text_def in_view_def)
  then show "in_view (in_put c inp) pend (line @ [c])"
    using v n l e p(1) by (simp add: in_view_def) (simp add: in_put_def)
qed

lemma in_text_cut: "in_text (inp\<lparr>in_e := x\<rparr>) a b = in_text inp a b" "in_text (inp\<lparr>in_w := x\<rparr>) a b = in_text inp a b"
  "in_text (inp\<lparr>in_r := x\<rparr>) a b = in_text inp a b"
  by (simp_all add: in_text_def)

lemma in_view_erase:
  assumes v: "in_view inp pend line" and n: "n \<le> length line"
  shows "in_view (inp\<lparr>in_e := in_e inp - of_nat n\<rparr>) pend (take (length line - n) line)"
proof -
  note l = in_view_lengths [OF v]
  have "n < 2 ^ 32" using l n uint_bound [of "in_e inp"] by simp
  then have "unat (of_nat n :: uint) = n" by (simp add: unat_of_nat)
  then have e: "unat (in_e inp - of_nat n) = unat (in_e inp) - n" using l n by (simp add: unat_diff word_le_nat_alt)
  have "take (length line - n) [unat (in_w inp)..<unat (in_e inp)] = [unat (in_w inp)..<unat (in_e inp) - n]"
    using l n by (subst take_upt) auto
  then have "in_text inp (unat (in_w inp)) (unat (in_e inp) - n) = take (length line - n) (in_text inp (unat (in_w inp)) (unat (in_e inp)))"
    by (simp add: in_text_def take_map)
  then have "in_text inp (unat (in_w inp)) (unat (in_e inp) - n) = take (length line - n) line"
    using v by (simp add: in_view_def)
  then show ?thesis using v l n e by (auto simp: in_view_def in_text_cut)
qed

lemma in_view_commit:
  assumes v: "in_view inp pend line"
  shows "in_view (inp\<lparr>in_w := in_e inp\<rparr>) (pend @ line) []"
proof -
  note l = in_view_lengths [OF v]
  have "[unat (in_r inp)..<unat (in_e inp)] = [unat (in_r inp)..<unat (in_w inp)] @ [unat (in_w inp)..<unat (in_e inp)]"
    using l upt_add_eq_append [of "unat (in_r inp)" "unat (in_w inp)" "length line"] by simp
  then have "in_text inp (unat (in_r inp)) (unat (in_e inp)) = pend @ line"
    using v by (simp add: in_view_def in_text_def)
  then show ?thesis using v l by (auto simp: in_view_def in_text_cut) (simp add: in_text_def)
qed

lemma in_view_read:
  assumes v: "in_view inp (c # pend) line"
  shows "in_at inp (in_r inp) = c" "in_r inp \<noteq> in_w inp" "in_view (inp\<lparr>in_r := in_r inp + 1\<rparr>) pend line"
proof -
  note l = in_view_lengths [OF v]
  have r: "[unat (in_r inp)..<unat (in_w inp)] = unat (in_r inp) # [Suc (unat (in_r inp))..<unat (in_w inp)]"
    using l by (simp add: upt_rec)
  then show "in_at inp (in_r inp) = c" using v by (simp add: in_view_def in_text_def in_at_def)
  show "in_r inp \<noteq> in_w inp" using l by auto
  have "unat (in_r inp) + 1 < 2 ^ 32" using l uint_bound [of "in_w inp"] by simp
  then have "unat (in_r inp + 1) = Suc (unat (in_r inp))" by (simp add: unat_word_ariths)
  then show "in_view (inp\<lparr>in_r := in_r inp + 1\<rparr>) pend line"
    using v l r by (auto simp: in_view_def in_text_cut) (simp add: in_text_def)
qed


section \<open>Editing\<close>

text \<open>
  The reference for the line editor: printable characters are appended, backspace and delete take the last character away, Control-U
  clears the line.
\<close>

definition plain_key :: "int \<Rightarrow> bool" where
  "plain_key c \<longleftrightarrow> 0 < c \<and> c < 256 \<and> c \<notin> {4, 8, 9, 10, 12, 13, 16, 21, 27, 127}"

definition edit_key :: "int \<Rightarrow> bool" where
  "edit_key c \<longleftrightarrow> plain_key c \<or> c \<in> {8, 21, 127}"

definition edit_step :: "uchar list \<Rightarrow> int \<Rightarrow> uchar list" where
  "edit_step line c = (if c = 21 then [] else if c = 8 \<or> c = 127 then butlast line else line @ [of_int c])"

definition edited :: "uchar list \<Rightarrow> int list \<Rightarrow> uchar list" where
  "edited line cs = foldl edit_step line cs"

definition clean :: "uchar list \<Rightarrow> bool" where
  "clean line \<longleftrightarrow> 0 \<notin> set line \<and> 4 \<notin> set line \<and> 10 \<notin> set line"

lemma edited_simps [simp]: "edited line [] = line" "edited line (c # cs) = edited (edit_step line c) cs"
  by (simp_all add: edited_def)

lemma byte_of_int: "0 \<le> c \<Longrightarrow> c < 256 \<Longrightarrow> uint (of_int c :: uchar) = c"
  by (simp add: unsigned_of_int take_bit_int_eq_self)

lemma plain_byte:
  assumes "plain_key c"
  shows "(of_int c :: uchar) \<noteq> 0" "(of_int c :: uchar) \<noteq> 4" "(of_int c :: uchar) \<noteq> 10"
proof -
  have u: "uint (of_int c :: uchar) = c" using assms by (intro byte_of_int) (simp_all add: plain_key_def)
  show "(of_int c :: uchar) \<noteq> 0" "(of_int c :: uchar) \<noteq> 4" "(of_int c :: uchar) \<noteq> 10"
    using u assms by (auto simp: plain_key_def)
qed

lemma clean_step: "edit_key c \<Longrightarrow> clean line \<Longrightarrow> clean (edit_step line c)"
  using plain_byte [of c] by (auto simp: clean_def edit_step_def edit_key_def plain_key_def dest: in_set_butlastD)

text \<open>A state in which a line is being edited, and a step that changes only the screen, the buffer and the position in the history.\<close>

definition editing :: "'z kcin_scheme \<Rightarrow> uchar list \<Rightarrow> uchar list \<Rightarrow> bool" where
  "editing s pend line \<longleftrightarrow> in_view (input s) pend line \<and> con_ok (con s)"

definition edit_rel :: "'z kcin_scheme \<Rightarrow> 'z kcin_scheme \<Rightarrow> bool" where
  "edit_rel s t \<longleftrightarrow> (\<exists>k i p. t = s\<lparr>con := k, input := i, hist := (hist s)\<lparr>hist_pos := p\<rparr>\<rparr>)"

lemma edit_rel_refl: "edit_rel s s"
  unfolding edit_rel_def by (intro exI [of _ "con s"] exI [of _ "input s"] exI [of _ "hist_pos (hist s)"]) simp

lemma edit_rel_trans:
  assumes "edit_rel s t" "edit_rel t u"
  shows "edit_rel s u"
proof -
  obtain k i p where "u = t\<lparr>con := k, input := i, hist := (hist t)\<lparr>hist_pos := p\<rparr>\<rparr>" using assms(2) by (auto simp: edit_rel_def)
  then have "u = s\<lparr>con := k, input := i, hist := (hist s)\<lparr>hist_pos := p\<rparr>\<rparr>" using assms(1) by (auto simp: edit_rel_def)
  then show ?thesis unfolding edit_rel_def by (intro exI)
qed

lemma erase_run:
  "con_ok (con s) \<Longrightarrow> \<exists>k. con_ok k \<and> erase n s = Ok () (s\<lparr>con := k, input := (input s)\<lparr>in_e := in_e (input s) - of_nat n\<rparr>\<rparr>)"
proof (induction n arbitrary: s)
  case 0
  then show ?case by (intro exI [of _ "con s"]) (simp add: krun)
next
  case (Suc n)
  let ?s = "s\<lparr>input := (input s)\<lparr>in_e := in_e (input s) - 1\<rparr>\<rparr>"
  obtain k where k: "consputc BACKSPACE ?s = Ok () (?s\<lparr>con := k\<rparr>)" "con_ok k"
    using con_onlyD [OF consputc_con_only, of ?s] Suc.prems by auto
  from Suc.IH [of "?s\<lparr>con := k\<rparr>"] k(2) obtain k' where
    "con_ok k'" "erase n (?s\<lparr>con := k\<rparr>) = Ok () (s\<lparr>con := k', input := (input s)\<lparr>in_e := in_e (input s) - 1 - of_nat n\<rparr>\<rparr>)"
    by auto
  then show ?case using k(1) by (intro exI [of _ k']) (simp add: krun inupd_def algebra_simps)
qed

lemma in_view_last:
  assumes "in_view inp pend (line @ [c])"
  shows "in_at inp (in_e inp - 1) = c" "in_view (inp\<lparr>in_e := in_e inp - 1\<rparr>) pend line"
proof -
  note l = in_view_lengths [OF assms]
  have e: "unat (in_e inp - 1) = unat (in_e inp) - 1" using l by (simp add: unat_diff word_le_nat_alt)
  have "[unat (in_w inp)..<unat (in_e inp)] = [unat (in_w inp)..<unat (in_e inp) - 1] @ [unat (in_e inp) - 1]"
    using l upt_Suc_append [of "unat (in_w inp)" "unat (in_e inp) - 1"] by simp
  then have "map (\<lambda>k. in_buf inp ! (k mod INPUT_BUF)) ([unat (in_w inp)..<unat (in_e inp) - 1] @ [unat (in_e inp) - 1]) = line @ [c]"
    using assms by (simp add: in_view_def in_text_def)
  then show "in_at inp (in_e inp - 1) = c" using e by (simp add: in_at_def)
  show "in_view (inp\<lparr>in_e := in_e inp - 1\<rparr>) pend line" using in_view_erase [OF assms, of 1] by simp
qed

lemma kill_count_clean: "in_view inp pend line \<Longrightarrow> clean line \<Longrightarrow> kill_count (length line) inp = length line"
  by (induction line arbitrary: inp rule: rev_induct) (auto simp: in_view_last clean_def)

text \<open>One key.\<close>

lemma edit_erase:
  assumes "editing s pend line" "n \<le> length line"
  shows "\<exists>t. erase n s = Ok () t \<and> edit_rel s t \<and> editing t pend (take (length line - n) line) \<and> unat (in_e (input t)) \<le> unat (in_e (input s))"
proof -
  obtain k where k: "con_ok k" "erase n s = Ok () (s\<lparr>con := k, input := (input s)\<lparr>in_e := in_e (input s) - of_nat n\<rparr>\<rparr>)"
    using erase_run assms(1) by (auto simp: editing_def)
  let ?i = "(input s)\<lparr>in_e := in_e (input s) - of_nat n\<rparr>"
  have v: "in_view (input s) pend line" using assms(1) by (simp add: editing_def)
  have w: "in_view ?i pend (take (length line - n) line)" using in_view_erase [OF v assms(2)] .
  have "edit_rel s (s\<lparr>con := k, input := ?i\<rparr>)"
    unfolding edit_rel_def by (intro exI [of _ k] exI [of _ ?i] exI [of _ "hist_pos (hist s)"]) simp
  moreover have "unat (in_e ?i) \<le> unat (in_e (input s))" using in_view_lengths [OF v] in_view_lengths [OF w] by simp
  ultimately show ?thesis using k w by (auto simp: editing_def)
qed

lemma edit_plain:
  assumes "editing s pend line" "plain_key c" "length pend + length line + 1 < INPUT_BUF" "unat (in_e (input s)) + 1 < 2 ^ 31"
  shows "\<exists>t. cons_default c s = Ok () t \<and> edit_rel s t \<and> editing t pend (line @ [of_int c]) \<and> unat (in_e (input t)) = unat (in_e (input s)) + 1"
proof -
  let ?i = "in_put (of_int c) (input s)"
  let ?s = "s\<lparr>hist := (hist s)\<lparr>hist_pos := - 1\<rparr>, input := ?i\<rparr>"
  have v: "in_view (input s) pend line" using assms(1) by (simp add: editing_def)
  have w: "in_view ?i pend (line @ [of_int c])" and e: "unat (in_e ?i) = unat (in_e (input s)) + 1"
    using in_view_put [OF v] assms(3,4) by simp_all
  obtain k where k: "consputc c ?s = Ok () (?s\<lparr>con := k\<rparr>)" "con_ok k"
    using con_onlyD [OF consputc_con_only, of ?s] assms(1) by (auto simp: editing_def)
  have "unat (in_e ?i - in_r ?i) < INPUT_BUF" using in_view_diffs(1) [OF w] assms(3) by simp
  then have "in_e ?i \<noteq> in_r ?i + of_nat INPUT_BUF" by (auto simp: INPUT_BUF_def)
  moreover have "unat (in_e (input s) - in_r (input s)) < INPUT_BUF" using in_view_diffs(1) [OF v] assms(3) by simp
  ultimately have "cons_default c s = Ok () (?s\<lparr>con := k\<rparr>)"
    using k(1) assms(2) by (simp add: cons_default_def krun inget_def inupd_def histupd_def plain_key_def Let_def)
  moreover have "edit_rel s (?s\<lparr>con := k\<rparr>)"
    unfolding edit_rel_def by (intro exI [of _ k] exI [of _ ?i] exI [of _ "- 1"]) simp
  ultimately show ?thesis using k(2) w e by (auto simp: editing_def)
qed

lemma edit_char:
  assumes "editing s pend line" "clean line" "edit_key c" "length pend + length line + 1 < INPUT_BUF" "unat (in_e (input s)) + 1 < 2 ^ 31"
  shows "\<exists>t. cons_char c s = Ok () t \<and> edit_rel s t \<and> editing t pend (edit_step line c) \<and> unat (in_e (input t)) \<le> unat (in_e (input s)) + 1"
proof -
  have v: "in_view (input s) pend line" using assms(1) by (simp add: editing_def)
  consider "plain_key c" | "c = 21" | "c = 8 \<or> c = 127" using assms(3) by (auto simp: edit_key_def)
  then show ?thesis
  proof cases
    case 1
    then have "cons_char c s = cons_default c s" "edit_step line c = line @ [of_int c]"
      by (auto simp: cons_char_def edit_step_def plain_key_def)
    moreover obtain t where "cons_default c s = Ok () t" "edit_rel s t" "editing t pend (line @ [of_int c])"
      "unat (in_e (input t)) = unat (in_e (input s)) + 1"
      using edit_plain [OF assms(1) 1 assms(4,5)] by blast
    ultimately show ?thesis by (intro exI [of _ t]) simp
  next
    case 2
    have "unat (in_e (input s) - in_w (input s)) = length line" using in_view_diffs(2) [OF v] .
    then have "cons_char c s = erase (length line) s"
      using kill_count_clean [OF v assms(2)] 2 by (simp add: cons_char_def inget_def krun)
    moreover obtain t where "erase (length line) s = Ok () t" "edit_rel s t" "editing t pend (take (length line - length line) line)"
      "unat (in_e (input t)) \<le> unat (in_e (input s))"
      using edit_erase [OF assms(1) le_refl] by blast
    ultimately show ?thesis using 2 by (intro exI [of _ t]) (simp add: edit_step_def)
  next
    case 3
    have n: "in_e (input s) = in_w (input s) \<longleftrightarrow> line = []"
      using in_view_lengths(2) [OF v] by (auto simp: word_unat_eq_iff)
    have run: "cons_char c s = (if line = [] then Ok () s else erase 1 s)"
      using 3 n by (auto simp: cons_char_def inget_def krun)
    have e: "edit_step line c = butlast line" using 3 by (auto simp: edit_step_def)
    show ?thesis
    proof (cases "line = []")
      case True
      then show ?thesis using run e assms(1) edit_rel_refl by (intro exI [of _ s]) simp
    next
      case False
      then have "1 \<le> length line" by (simp add: Suc_leI)
      then obtain t where "erase 1 s = Ok () t" "edit_rel s t" "editing t pend (take (length line - 1) line)"
        "unat (in_e (input t)) \<le> unat (in_e (input s))"
        using edit_erase [OF assms(1)] by blast
      then show ?thesis using run e False by (intro exI [of _ t]) (simp add: butlast_conv_take del: One_nat_def)
    qed
  qed
qed

text \<open>Several keys; the buffer must have room for every intermediate line and the newline.\<close>

primrec has_room :: "nat \<Rightarrow> uchar list \<Rightarrow> int list \<Rightarrow> bool" where
  "has_room n line [] \<longleftrightarrow> n + length line + 1 < INPUT_BUF"
| "has_room n line (c # cs) \<longleftrightarrow> n + length line + 1 < INPUT_BUF \<and> has_room n (edit_step line c) cs"

lemma has_room_end: "has_room n line cs \<Longrightarrow> n + length (edited line cs) + 1 < INPUT_BUF"
  by (induction cs arbitrary: line) auto

lemma edit_keys:
  assumes "editing s pend line" "clean line" "\<forall>c \<in> set cs. edit_key c" "has_room (length pend) line cs" "unat (in_e (input s)) + length cs < 2 ^ 31"
  shows "\<exists>t. (\<forall>rest d. consoleintr_loop (cs @ rest) d s = consoleintr_loop rest d t) \<and> edit_rel s t \<and> editing t pend (edited line cs)
    \<and> clean (edited line cs) \<and> unat (in_e (input t)) \<le> unat (in_e (input s)) + length cs"
  using assms
proof (induction cs arbitrary: s line)
  case Nil
  then show ?case using edit_rel_refl by (intro exI [of _ s]) simp
next
  case (Cons c cs)
  obtain t where t: "cons_char c s = Ok () t" "edit_rel s t" "editing t pend (edit_step line c)" "unat (in_e (input t)) \<le> unat (in_e (input s)) + 1"
    using edit_char [OF Cons.prems(1,2), of c] Cons.prems(3-5) by auto
  have k: "edit_key c" using Cons.prems(3) by simp
  obtain u where u: "\<forall>rest d. consoleintr_loop (cs @ rest) d t = consoleintr_loop rest d u" "edit_rel t u"
    "editing u pend (edited (edit_step line c) cs)" "clean (edited (edit_step line c) cs)" "unat (in_e (input u)) \<le> unat (in_e (input t)) + length cs"
    using Cons.IH [OF t(3) clean_step [OF k Cons.prems(2)]] Cons.prems(3-5) t(4) by auto
  have "consoleintr_loop ((c # cs) @ rest) d s = consoleintr_loop rest d u" for rest d
    using k t(1) u(1) by (auto simp: edit_key_def plain_key_def krun)
  then show ?case using u(3-5) t(4) edit_rel_trans [OF t(2) u(2)] by (intro exI [of _ u]) simp
qed

section \<open>The history\<close>

definition hist_ok :: "chist \<Rightarrow> bool" where
  "hist_ok h \<longleftrightarrow> length (history h) = HIST_MAX \<and> (\<forall>x \<in> set (history h). length x = INPUT_BUF)
     \<and> 0 \<le> hist_head h \<and> hist_head h < int HIST_MAX \<and> 0 \<le> hist_count h \<and> hist_count h \<le> int HIST_MAX"

definition hist_lines :: "chist \<Rightarrow> uchar list list" where
  "hist_lines h = map (\<lambda>i. the (history_get h (int i))) [0..<nat (hist_count h)]"

definition hist_added :: "uchar list \<Rightarrow> chist \<Rightarrow> chist" where
  "hist_added line h = h\<lparr>history := (history h)[nat (hist_head h) := splice (history h ! nat (hist_head h)) 0 (line @ [0])],
     hist_head := (hist_head h + 1) mod int HIST_MAX,
     hist_count := (if hist_count h < int HIST_MAX then hist_count h + 1 else hist_count h), hist_pos := - 1\<rparr>"

lemma hist_added_ok: "hist_ok h \<Longrightarrow> length line < INPUT_BUF \<Longrightarrow> hist_ok (hist_added line h)"
  by (auto simp: hist_ok_def hist_added_def splice_def HIST_MAX_def dest!: set_update_subset_insert [THEN subsetD])

text \<open>The slot of the \<open>i\<close>-th line, counted from the oldest one.\<close>

definition hist_slot :: "chist \<Rightarrow> nat \<Rightarrow> nat" where
  "hist_slot h i = (nat (hist_head h) + HIST_MAX - nat (hist_count h) + i) mod HIST_MAX"

lemma history_get_slot:
  assumes "hist_ok h" "i < nat (hist_count h)"
  shows "history_get h (int i) = Some (take (INPUT_BUF - 1) (cstr (history h ! hist_slot h i)))"
proof -
  have e: "hist_head h - hist_count h + int HIST_MAX = int (nat (hist_head h) + HIST_MAX - nat (hist_count h))"
    using assms by (auto simp: hist_ok_def HIST_MAX_def)
  have "((hist_head h - hist_count h + int HIST_MAX) mod int HIST_MAX + int i) mod int HIST_MAX = int (hist_slot h i)"
    unfolding e hist_slot_def by (simp add: mod_add_left_eq of_nat_mod)
  then show ?thesis using assms by (simp add: history_get_def Let_def)
qed

lemma slot_less: "H < 16 \<Longrightarrow> 0 < d \<Longrightarrow> d < 16 \<Longrightarrow> (H + 16 - d) mod 16 \<noteq> (H :: nat)"
  by (cases "d \<le> H") (auto simp: mod_if)

lemma slot_next:
  assumes "H < 16" "C \<le> 16"
  shows "((H + 1) mod 16 + 16 - (if C < 16 then C + 1 else 16) + i) mod 16 = (H + 16 - C + (if C < 16 then i else i + 1)) mod (16 :: nat)"
proof (cases "C < 16")
  case True
  then have "((H + 1) mod 16 + 16 - (C + 1) + i) mod 16 = ((H + 1) mod 16 + (15 - C + i)) mod 16"
    by (intro arg_cong [of _ _ "\<lambda>x. x mod 16"]) simp
  also have "\<dots> = (H + 1 + (15 - C + i)) mod 16" by (rule mod_add_left_eq)
  also have "H + 1 + (15 - C + i) = H + 16 - C + i" using True by simp
  finally show ?thesis using True by simp
next
  case False
  then show ?thesis using assms mod_add_left_eq [of "H + 1" 16 i] by simp
qed

text \<open>The history is the list of the last \<^verbatim>\<open>HIST_MAX\<close> lines.\<close>

lemma hist_added_lines:
  assumes ok: "hist_ok h" and l: "clean line" "length line < INPUT_BUF"
  shows "hist_lines (hist_added line h) = (if hist_count h < int HIST_MAX then hist_lines h else tl (hist_lines h)) @ [line]"
proof (rule nth_equalityI)
  let ?h = "hist_added line h"
  have ok': "hist_ok ?h" using hist_added_ok [OF ok l(2)] .
  define H where "H = nat (hist_head h)"
  define C where "C = nat (hist_count h)"
  have hc: "hist_head h = int H" "hist_count h = int C" "H < 16" "C \<le> 16" using ok by (auto simp: H_def C_def hist_ok_def HIST_MAX_def)
  have c': "nat (hist_count ?h) = (if C < 16 then C + 1 else 16)" "nat (hist_head ?h) = (H + 1) mod 16"
    using hc by (auto simp: hist_added_def HIST_MAX_def nat_mod_distrib nat_add_distrib)
  show "length (hist_lines ?h) = length ((if hist_count h < int HIST_MAX then hist_lines h else tl (hist_lines h)) @ [line])"
    using c'(1) hc by (simp add: hist_lines_def HIST_MAX_def)
  fix i assume "i < length (hist_lines ?h)"
  then have i: "i < (if C < 16 then C + 1 else 16)" using c'(1) by (simp add: hist_lines_def)
  have get: "hist_lines ?h ! i = take (INPUT_BUF - 1) (cstr (history ?h ! hist_slot ?h i))"
    using i c'(1) history_get_slot [OF ok', of i] by (simp add: hist_lines_def)
  let ?j = "if C < 16 then i else i + 1"
  have same: "hist_slot ?h i = hist_slot h ?j" using slot_next [OF hc(3,4), of i] c' hc by (simp add: hist_slot_def HIST_MAX_def)
  have last: "hist_slot h ?j = H" if "?j = C" using that hc by (simp add: hist_slot_def HIST_MAX_def)
  have other: "hist_slot h ?j \<noteq> H" if "?j < C"
  proof -
    have "H + 16 - C + ?j = H + 16 - (C - ?j)" "C - ?j < 16" using that hc by auto
    then show ?thesis using slot_less [OF hc(3), of "C - ?j"] that hc by (simp add: hist_slot_def HIST_MAX_def)
  qed
  show "hist_lines ?h ! i = ((if hist_count h < int HIST_MAX then hist_lines h else tl (hist_lines h)) @ [line]) ! i"
  proof (cases "?j = C")
    case True
    have "length (history h ! H) = INPUT_BUF" "H < length (history h)" using ok hc by (simp_all add: hist_ok_def HIST_MAX_def)
    then have "history ?h ! H = line @ 0 # drop (Suc (length line)) (history h ! H)"
      using hc by (simp add: hist_added_def splice_def)
    then have "hist_lines ?h ! i = line" using get same last [OF True] l by (simp add: cstr_append_nul clean_def)
    moreover have "((if hist_count h < int HIST_MAX then hist_lines h else tl (hist_lines h)) @ [line]) ! i = line"
      using True hc by (auto simp: nth_append hist_lines_def HIST_MAX_def nth_tl split: if_splits)
    ultimately show ?thesis by simp
  next
    case False
    then have j: "?j < C" using i hc by (auto split: if_splits)
    then have "history ?h ! hist_slot ?h i = history h ! hist_slot h ?j" using same other [OF j] hc by (simp add: hist_added_def)
    then have "hist_lines ?h ! i = hist_lines h ! ?j" using get j history_get_slot [OF ok, of ?j] hc by (simp add: hist_lines_def)
    then show ?thesis using j hc by (auto simp: nth_append HIST_MAX_def nth_tl hist_lines_def split: if_splits)
  qed
qed

section \<open>The end of a line\<close>

lemma sint_unat: "unat (w :: uint) < 2 ^ 31 \<Longrightarrow> sint w = int (unat w)"
  using sint_of_nat [of "unat w"] by simp

lemma nat_uint_mod: "nat ((uint (w :: uint) + int i) mod int n) = (unat w + i) mod n"
  by (simp add: nat_mod_distrib nat_add_distrib)

lemma uint_less: "uint (w :: uint) < int n \<longleftrightarrow> unat w < n"
  using nat_less_iff [of "uint w" n] by simp

lemma in_view_at:
  assumes "in_view inp pend line"
  shows "i < length pend \<Longrightarrow> in_buf inp ! ((unat (in_r inp) + i) mod INPUT_BUF) = pend ! i"
    "i < length line \<Longrightarrow> in_buf inp ! ((unat (in_w inp) + i) mod INPUT_BUF) = line ! i"
proof -
  have "map (\<lambda>k. in_buf inp ! (k mod INPUT_BUF)) [unat (in_r inp)..<unat (in_w inp)] ! i = pend ! i"
    "map (\<lambda>k. in_buf inp ! (k mod INPUT_BUF)) [unat (in_w inp)..<unat (in_e inp)] ! i = line ! i"
    using assms by (simp_all add: in_view_def in_text_def)
  then show "i < length pend \<Longrightarrow> in_buf inp ! ((unat (in_r inp) + i) mod INPUT_BUF) = pend ! i"
    "i < length line \<Longrightarrow> in_buf inp ! ((unat (in_w inp) + i) mod INPUT_BUF) = line ! i"
    using in_view_lengths [OF assms] by simp_all
qed

lemma hist_start_nat:
  assumes "unat (in_r inp) < 2 ^ 31"
  shows "hist_start inp (int k) = (if unat (in_r inp) < k \<and> in_buf inp ! ((k - 1) mod INPUT_BUF) \<noteq> 10 then hist_start inp (int (k - 1)) else int k)"
proof (cases k)
  case 0
  then show ?thesis by (subst hist_start.simps) simp
next
  case (Suc n)
  have "int n mod int INPUT_BUF = int (n mod INPUT_BUF)" by (simp add: of_nat_mod)
  then show ?thesis using Suc assms by (subst hist_start.simps) (use uint_less [of "in_r inp" "Suc n"] in \<open>simp add: sint_unat add.commute\<close>)
qed

text \<open>The line begins behind the lines that are not read yet.\<close>

lemma hist_start_line:
  assumes "in_view inp pend (line @ rest)" "clean line" "pend = [] \<or> last pend = 10" "unat (in_r inp) < 2 ^ 31"
  shows "hist_start inp (int (unat (in_w inp) + length line)) = int (unat (in_w inp))"
  using assms
proof (induction line arbitrary: rest rule: rev_induct)
  case Nil
  have "in_buf inp ! ((unat (in_w inp) - 1) mod INPUT_BUF) = 10" if ne: "pend \<noteq> []"
  proof -
    obtain n where n: "length pend = Suc n" using ne by (cases "length pend") auto
    then have "in_buf inp ! ((unat (in_r inp) + n) mod INPUT_BUF) = last pend"
      using in_view_at(1) [OF Nil(1), of n] ne by (simp add: last_conv_nth)
    then show ?thesis using n Nil(3) ne in_view_lengths [OF Nil(1)] by simp
  qed
  moreover have "pend = [] \<longleftrightarrow> unat (in_r inp) = unat (in_w inp)" using in_view_lengths [OF Nil(1)] by simp
  ultimately show ?case using hist_start_nat [OF assms(4), of "unat (in_w inp)"] by auto
next
  case (snoc c line)
  let ?k = "unat (in_w inp) + length line"
  have "in_buf inp ! (?k mod INPUT_BUF) = c"
    using in_view_at(2) [OF snoc.prems(1), of "length line"] by (simp add: nth_append)
  then have "in_buf inp ! (?k mod INPUT_BUF) \<noteq> 10" using snoc.prems(2) by (auto simp: clean_def)
  moreover have "unat (in_r inp) < Suc ?k" using snoc.prems(1) by (simp add: in_view_def)
  ultimately have "hist_start inp (int (Suc ?k)) = hist_start inp (int ?k)" using hist_start_nat [OF assms(4), of "Suc ?k"] by simp
  then show ?case using snoc.IH [of "c # rest"] snoc.prems by (simp add: clean_def)
qed

lemma history_add_run:
  assumes v: "in_view (input s) pend (line @ [10])" and l: "clean line" "pend = [] \<or> last pend = 10"
    and b: "length line < INPUT_BUF" "unat (in_e (input s)) < 2 ^ 31"
  shows "history_add s = Ok () (if line = [] then s else s\<lparr>hist := hist_added line (hist s)\<rparr>)"
proof -
  let ?i = "input s"
  note n = in_view_lengths [OF v]
  have e1: "unat (in_e ?i - 1) = unat (in_w ?i) + length line" using n by (simp add: unat_diff word_le_nat_alt)
  then have "sint (in_e ?i - 1) = int (unat (in_w ?i) + length line)" using n b(2) by (simp add: sint_unat)
  then have start: "hist_start ?i (sint (in_e ?i - 1)) = int (unat (in_w ?i))"
    using hist_start_line [OF v l] n b(2) by simp
  have "unat (in_e ?i - in_w ?i) = length line + 1" using in_view_diffs(2) [OF v] by simp
  then have len: "sint (in_e ?i - of_int (int (unat (in_w ?i)))) = int (length line) + 1"
    using b(1) by (simp add: sint_unat INPUT_BUF_def)
  have "in_buf ?i ! nat ((int (unat (in_w ?i)) + int i) mod int INPUT_BUF) = line ! i" if "i < length line" for i
    using in_view_at(2) [OF v, of i] that by (simp add: nth_append nat_uint_mod)
  then have copied: "map (\<lambda>i. in_buf ?i ! nat ((int (unat (in_w ?i)) + int i) mod int INPUT_BUF)) [0..<length line] = line"
    by (intro nth_equalityI) simp_all
  show ?thesis
  proof (cases "line = []")
    case True
    then show ?thesis using start len by (simp add: history_add_def inget_def krun Let_def)
  next
    case False
    have "nat (int (length line)) = length line" by simp
    then show ?thesis using start len copied False b(1)
      by (simp add: history_add_def inget_def histupd_def krun Let_def hist_added_def)
  qed
qed


text \<open>Enter: the line is finished, goes into the history, and the readers are woken up.\<close>

lemma cons_newline:
  assumes e: "editing s pend line" and l: "clean line" "pend = [] \<or> last pend = 10"
    and b: "length pend + length line + 1 < INPUT_BUF" "unat (in_e (input s)) + 1 < 2 ^ 31" and h: "PtableLock \<notin> set (held s)"
  shows "\<exists>k i. cons_char 10 s = Ok () (s\<lparr>con := k, input := i, hist := (if line = [] then (hist s)\<lparr>hist_pos := - 1\<rparr> else hist_added line (hist s)),
      ptable := woken ChInput (ptable s)\<rparr>) \<and> con_ok k \<and> in_view i (pend @ line @ [10]) [] \<and> unat (in_e i) = unat (in_e (input s)) + 1"
proof -
  let ?i = "in_put 10 (input s)"
  let ?s = "s\<lparr>hist := (hist s)\<lparr>hist_pos := - 1\<rparr>, input := ?i\<rparr>"
  have v: "in_view (input s) pend line" using e by (simp add: editing_def)
  have w: "in_view ?i pend (line @ [10])" and e1: "unat (in_e ?i) = unat (in_e (input s)) + 1"
    using in_view_put [OF v] b by simp_all
  obtain k where k: "consputc 10 ?s = Ok () (?s\<lparr>con := k\<rparr>)" "con_ok k"
    using con_onlyD [OF consputc_con_only, of ?s] e by (auto simp: editing_def)
  let ?t = "if line = [] then ?s\<lparr>con := k\<rparr> else ?s\<lparr>con := k, hist := hist_added line (hist s)\<rparr>"
  have t: "history_add (?s\<lparr>con := k\<rparr>) = Ok () ?t"
    using history_add_run [of "?s\<lparr>con := k\<rparr>" pend line] w l b e1 by (simp add: hist_added_def)
  have "unat (in_e (input s) - in_r (input s)) < INPUT_BUF" using in_view_diffs(1) [OF v] b(1) by simp
  then have "cons_char 10 s = (case ?t of t \<Rightarrow> wakeup ChInput (t\<lparr>input := ?i\<lparr>in_w := in_e ?i\<rparr>\<rparr>))"
    using k(1) t by (simp add: cons_char_def cons_default_def krun inget_def inupd_def histupd_def Let_def)
  also have "\<dots> = Ok () (s\<lparr>con := k, input := ?i\<lparr>in_w := in_e ?i\<rparr>, hist := (if line = [] then (hist s)\<lparr>hist_pos := - 1\<rparr> else hist_added line (hist s)),
      ptable := woken ChInput (ptable s)\<rparr>)"
    using h by (simp add: wakeup_woken)
  finally show ?thesis using in_view_commit [OF w] k(2) e1
    by (intro exI [of _ k] exI [of _ "?i\<lparr>in_w := in_e ?i\<rparr>"]) simp
qed

section \<open>Reading\<close>

text \<open>How \<^verbatim>\<open>consoleread\<close> ends.\<close>

definition read_done :: "nat \<Rightarrow> uchar list \<Rightarrow> (uchar list option, 'z kcin_scheme) M" where
  "read_done ip got = kseq (release ConsLock) (kseq (ilock (Some ip)) (kret (Some got)))"

lemma consoleread_char:
  assumes "in_view (input s) (c # pend) line" "c \<noteq> 4"
  shows "consoleread_loop ip tgt (Suc n) got s
    = (if c = 10 then read_done ip (got @ [c]) else consoleread_loop ip tgt n (got @ [c])) (s\<lparr>input := (input s)\<lparr>in_r := in_r (input s) + 1\<rparr>\<rparr>)"
  using in_view_read(1,2) [OF assms(1)] assms(2) by (simp add: inget_def inupd_def krun Let_def read_done_def cong: if_cong)

lemma consoleread_line:
  assumes "in_view (input s) (l @ 10 # rest) line" "clean l"
  shows "\<exists>i. consoleread_loop ip tgt n got s = read_done ip (got @ take n (l @ [10])) (s\<lparr>input := i\<rparr>)
    \<and> in_view i (drop n (l @ [10]) @ rest) line"
  using assms
proof (induction n arbitrary: s l got)
  case 0
  then show ?case by (intro exI [of _ "input s"]) (simp add: read_done_def)
next
  case (Suc n)
  let ?i = "(input s)\<lparr>in_r := in_r (input s) + 1\<rparr>"
  show ?case
  proof (cases l)
    case Nil
    then have v: "in_view (input s) (10 # rest) line" using Suc.prems(1) by simp
    then show ?thesis using in_view_read(3) [OF v] consoleread_char [OF v] Nil by (intro exI [of _ ?i]) simp
  next
    case (Cons c l')
    then have v: "in_view (input s) (c # l' @ 10 # rest) line" using Suc.prems(1) by simp
    have c: "c \<noteq> 4" "c \<noteq> 10" "clean l'" using Suc.prems(2) Cons by (auto simp: clean_def)
    obtain i where "consoleread_loop ip tgt n (got @ [c]) (s\<lparr>input := ?i\<rparr>) = read_done ip ((got @ [c]) @ take n (l' @ [10])) (s\<lparr>input := i\<rparr>)"
      "in_view i (drop n (l' @ [10]) @ rest) line"
      using Suc.IH [of "s\<lparr>input := ?i\<rparr>" l' "got @ [c]"] in_view_read(3) [OF v] c(3) by auto
    then show ?thesis using consoleread_char [OF v c(1)] c(2) Cons by (intro exI [of _ i]) (simp del: consoleread_loop.simps)
  qed
qed

section \<open>Recalling lines\<close>

lemma insert_run:
  assumes "editing s pend line" "length pend + length line + length tmp \<le> INPUT_BUF" "unat (in_e (input s)) + length tmp < 2 ^ 32"
  shows "\<exists>t. insert_line tmp s = Ok () t \<and> edit_rel s t \<and> editing t pend (line @ tmp) \<and> hist t = hist s \<and> in_w (input t) = in_w (input s)"
  using assms
proof (induction tmp arbitrary: s line)
  case Nil
  then show ?case using edit_rel_refl by (intro exI [of _ s]) (simp add: krun)
next
  case (Cons c tmp)
  let ?i = "in_put c (input s)"
  let ?s = "s\<lparr>input := ?i\<rparr>"
  have v: "in_view (input s) pend line" using Cons.prems(1) by (simp add: editing_def)
  have w: "in_view ?i pend (line @ [c])" and e: "unat (in_e ?i) = unat (in_e (input s)) + 1"
    using in_view_put [OF v] Cons.prems(2,3) by simp_all
  obtain k where k: "consputc (uint c) ?s = Ok () (?s\<lparr>con := k\<rparr>)" "con_ok k"
    using con_onlyD [OF consputc_con_only, of ?s] Cons.prems(1) by (auto simp: editing_def)
  have ed: "editing (?s\<lparr>con := k\<rparr>) pend (line @ [c])" using w k(2) by (simp add: editing_def)
  have rel: "edit_rel s (?s\<lparr>con := k\<rparr>)"
    unfolding edit_rel_def by (intro exI [of _ k] exI [of _ ?i] exI [of _ "hist_pos (hist s)"]) simp
  obtain t where t: "insert_line tmp (?s\<lparr>con := k\<rparr>) = Ok () t" "edit_rel (?s\<lparr>con := k\<rparr>) t" "editing t pend ((line @ [c]) @ tmp)" "hist t = hist s"
      "in_w (input t) = in_w (input s)"
    using Cons.IH [OF ed] Cons.prems(2,3) e by (auto simp: in_put_def)
  have "unat (in_e (input s) - in_r (input s)) < INPUT_BUF" using in_view_diffs(1) [OF v] Cons.prems(2) by simp
  then have "insert_line (c # tmp) s = Ok () t" using k(1) t(1) by (simp add: krun inget_def inupd_def)
  then show ?case using t edit_rel_trans [OF rel t(2)] by (intro exI [of _ t]) simp
qed

lemma history_restore_run:
  assumes "editing s pend line" "history_get (hist s) p = Some tmp" "0 \<le> p" "length pend + length tmp \<le> INPUT_BUF"
    "unat (in_w (input s)) + length tmp < 2 ^ 32"
  shows "\<exists>t. history_restore p s = Ok () t \<and> edit_rel s t \<and> editing t pend tmp \<and> hist t = hist s \<and> in_w (input t) = in_w (input s)"
proof -
  have v: "in_view (input s) pend line" using assms(1) by (simp add: editing_def)
  obtain k where k: "con_ok k" "erase (length line) s = Ok () (s\<lparr>con := k, input := (input s)\<lparr>in_e := in_e (input s) - of_nat (length line)\<rparr>\<rparr>)"
    using erase_run assms(1) by (auto simp: editing_def)
  let ?i = "(input s)\<lparr>in_e := in_e (input s) - of_nat (length line)\<rparr>"
  let ?s = "s\<lparr>con := k, input := ?i\<rparr>"
  have w: "in_view ?i pend []" using in_view_erase [OF v le_refl] by simp
  then have ed: "editing ?s pend []" using k(1) by (simp add: editing_def)
  have rel: "edit_rel s ?s"
    unfolding edit_rel_def by (intro exI [of _ k] exI [of _ ?i] exI [of _ "hist_pos (hist s)"]) simp
  have "unat (in_e ?i) = unat (in_w (input s))" using in_view_lengths(2) [OF w] by simp
  then obtain t where t: "insert_line tmp ?s = Ok () t" "edit_rel ?s t" "editing t pend tmp" "hist t = hist s" "in_w (input t) = in_w (input s)"
    using insert_run [OF ed] assms(4,5) by auto
  have "history_restore p s = Ok () t"
    using assms(2,3) t(1) k(2) in_view_diffs(2) [OF v] by (simp add: history_restore_def krun inget_def)
  then show ?thesis using t edit_rel_trans [OF rel t(2)] by (intro exI [of _ t]) simp
qed

text \<open>The position in the history after a number of presses of the up key.\<close>

definition up_pos :: "chist \<Rightarrow> nat \<Rightarrow> int" where
  "up_pos h j = (if j = 0 then - 1 else hist_count h - int j)"

lemma cons_up_run:
  assumes e: "editing s pend line" and h: "hist_ok (hist s)" "hist_pos (hist s) = up_pos (hist s) j" "j < length (hist_lines (hist s))"
    and b: "\<forall>x \<in> set (hist_lines (hist s)). length pend + length x \<le> INPUT_BUF" "unat (in_w (input s)) + INPUT_BUF < 2 ^ 32"
  shows "\<exists>t. cons_up s = Ok () t \<and> edit_rel s t \<and> editing t pend (hist_lines (hist s) ! (length (hist_lines (hist s)) - Suc j))
    \<and> hist_pos (hist t) = up_pos (hist s) (Suc j) \<and> in_w (input t) = in_w (input s)"
proof -
  define n where "n = length (hist_lines (hist s))"
  define q where "q = n - Suc j"
  have n: "hist_count (hist s) = int n" using h(1) by (simp add: n_def hist_lines_def hist_ok_def)
  have q: "hist_count (hist s) - int (Suc j) = int q" "q < n" using h(3) n by (auto simp: q_def n_def)
  let ?s = "s\<lparr>hist := (hist s)\<lparr>hist_pos := int q\<rparr>\<rparr>"
  have get: "history_get (hist s) (int q) = Some (hist_lines (hist s) ! q)"
    using history_get_slot [OF h(1), of q] q(2) n by (simp add: hist_lines_def)
  have "history_get (hist ?s) (int q) = history_get (hist s) (int q)" by (simp add: history_get_def)
  moreover have l: "length pend + length (hist_lines (hist s) ! q) \<le> INPUT_BUF" using b(1) q(2) by (simp add: n_def)
  moreover have "editing ?s pend line" using e by (simp add: editing_def)
  ultimately obtain t where t: "history_restore (int q) ?s = Ok () t" "edit_rel ?s t" "editing t pend (hist_lines (hist s) ! q)"
      "hist t = hist ?s" "in_w (input t) = in_w (input s)"
    using history_restore_run [of ?s pend line "int q" "hist_lines (hist s) ! q"] get b(2) by auto
  have "edit_rel s ?s" unfolding edit_rel_def by (intro exI [of _ "con s"] exI [of _ "input s"] exI [of _ "int q"]) simp
  then have rel: "edit_rel s t" using t(2) by (rule edit_rel_trans)
  have "0 < n" "int n - int j - 1 = int q" using q n by simp_all
  then have "cons_up s = Ok () t"
    using h(2) n q t(1) by (cases "j = 0") (auto simp: cons_up_def histupd_def krun up_pos_def diff_diff_eq add.commute)
  then show ?thesis using t rel q(1) by (intro exI [of _ t]) (simp add: up_pos_def q_def n_def)
qed


lemma cons_ups:
  assumes "editing s pend line" "hist_ok (hist s)" "hist_pos (hist s) = - 1" "j \<le> length (hist_lines (hist s))"
    and "\<forall>x \<in> set (hist_lines (hist s)). length pend + length x \<le> INPUT_BUF" "unat (in_w (input s)) + INPUT_BUF < 2 ^ 32"
  shows "\<exists>t. (\<forall>rest d. consoleintr_loop (concat (replicate j [27, 91, 65]) @ rest) d s = consoleintr_loop rest d t) \<and> edit_rel s t
    \<and> editing t pend (if j = 0 then line else hist_lines (hist s) ! (length (hist_lines (hist s)) - j))
    \<and> hist_pos (hist t) = up_pos (hist s) j \<and> in_w (input t) = in_w (input s)"
  using assms(4)
proof (induction j)
  case 0
  then show ?case using assms(1,3) edit_rel_refl by (intro exI [of _ s]) (simp add: up_pos_def)
next
  case (Suc j)
  obtain t where t: "\<forall>rest d. consoleintr_loop (concat (replicate j [27, 91, 65]) @ rest) d s = consoleintr_loop rest d t" "edit_rel s t"
      "editing t pend (if j = 0 then line else hist_lines (hist s) ! (length (hist_lines (hist s)) - j))"
      "hist_pos (hist t) = up_pos (hist s) j" "in_w (input t) = in_w (input s)"
    using Suc by auto
  obtain p where h: "hist t = (hist s)\<lparr>hist_pos := p\<rparr>" using t(2) by (auto simp: edit_rel_def)
  have lines: "hist_lines (hist t) = hist_lines (hist s)" unfolding h by (simp add: hist_lines_def history_get_def)
  have up: "up_pos (hist t) = up_pos (hist s)" unfolding h by (simp add: up_pos_def fun_eq_iff)
  have ok: "hist_ok (hist t)" using assms(2) unfolding h by (simp add: hist_ok_def)
  obtain u where u: "cons_up t = Ok () u" "edit_rel t u" "editing u pend (hist_lines (hist s) ! (length (hist_lines (hist s)) - Suc j))"
      "hist_pos (hist u) = up_pos (hist s) (Suc j)" "in_w (input u) = in_w (input s)"
    using cons_up_run [OF t(3) ok, of j] t(4,5) Suc.prems assms(5,6) lines up by auto
  have "concat (replicate (Suc j) [27, 91, 65 :: int]) = concat (replicate j [27, 91, 65]) @ [27, 91, 65]"
    by (induction j) simp_all
  then have "consoleintr_loop (concat (replicate (Suc j) [27, 91, 65]) @ rest) d s = consoleintr_loop rest d u" for rest d
    using t(1) u(1) by (simp add: krun)
  then show ?case using u edit_rel_trans [OF t(2) u(2)] by (intro exI [of _ u]) simp
qed

text \<open>The history after a line.\<close>

definition recorded :: "chist \<Rightarrow> uchar list \<Rightarrow> uchar list list" where
  "recorded h line = (let ls = hist_lines h @ (if line = [] then [] else [line]) in drop (length ls - HIST_MAX) ls)"

lemma typed_history:
  assumes "hist_ok h" "clean line" "length line < INPUT_BUF"
  shows "hist_lines (if line = [] then h\<lparr>hist_pos := q\<rparr> else hist_added line (h\<lparr>hist_pos := p\<rparr>))
    = recorded h line"
proof -
  have n: "length (hist_lines h) = nat (hist_count h)" "hist_count h \<le> int HIST_MAX" "0 \<le> hist_count h" "0 < HIST_MAX"
    using assms(1) by (simp_all add: hist_lines_def hist_ok_def HIST_MAX_def)
  have p: "hist_lines (h\<lparr>hist_pos := q\<rparr>) = hist_lines h" "hist_ok (h\<lparr>hist_pos := p\<rparr>)" for p q
    using assms(1) by (simp_all add: hist_lines_def history_get_def hist_ok_def)
  show ?thesis
  proof (cases "line = []")
    case True
    then show ?thesis using n p by (simp add: recorded_def)
  next
    case False
    then show ?thesis using n hist_added_lines [OF p(2) assms(2,3)] p(1) by (auto simp: recorded_def drop_Suc)
  qed
qed

section \<open>Properties\<close>

text \<open>
  C21: What is typed is what is read.  Characters, corrected by backspace and Control-U in any order and ended by Enter, leave a line that a
  reader gets exactly as the reference editor gives it, in as many pieces as it asks for; the processes that wait for input are runnable; and the
  history holds the last \<^verbatim>\<open>HIST_MAX\<close> lines that are not empty.
\<close>

theorem typed_line_is_read:
  assumes "in_view (input s) [] []" "con_ok (con s)" "hist_ok (hist s)" "held s = []"
    and "\<forall>c \<in> set cs. edit_key c" "has_room 0 [] cs" "unat (in_e (input s)) + length cs + 1 < 2 ^ 31"
  shows "\<exists>t. consoleintr (cs @ [10]) s = Ok () t \<and> ptable t = woken ChInput (ptable s) \<and> held t = []
    \<and> hist_lines (hist t) = recorded (hist s) (edited [] cs)
    \<and> (\<forall>ip n. \<exists>i. consoleread_loop ip n n [] (t\<lparr>held := [ConsLock]\<rparr>) = read_done ip (take n (edited [] cs @ [10])) (t\<lparr>held := [ConsLock], input := i\<rparr>)
         \<and> in_view i (drop n (edited [] cs @ [10])) [])"
proof -
  let ?l = "edited [] cs"
  let ?s = "s\<lparr>held := [ConsLock]\<rparr>"
  have ed: "editing ?s [] []" using assms(1,2) by (simp add: editing_def)
  obtain u where u: "\<forall>rest d. consoleintr_loop (cs @ rest) d ?s = consoleintr_loop rest d u" "edit_rel ?s u" "editing u [] ?l" "clean ?l"
      "unat (in_e (input u)) \<le> unat (in_e (input s)) + length cs"
    using edit_keys [OF ed, of cs] assms(5-7) by (auto simp: clean_def)
  obtain p where h: "hist u = (hist s)\<lparr>hist_pos := p\<rparr>" "held u = [ConsLock]" "ptable u = ptable s" using u(2) by (auto simp: edit_rel_def)
  obtain k i where t: "cons_char 10 u = Ok () (u\<lparr>con := k, input := i, hist := (if ?l = [] then (hist u)\<lparr>hist_pos := - 1\<rparr> else hist_added ?l (hist u)),
      ptable := woken ChInput (ptable u)\<rparr>)" "in_view i (?l @ [10]) []"
    using cons_newline [OF u(3,4)] has_room_end [OF assms(6)] u(5) assms(7) h(2) by auto
  define t where "t = u\<lparr>con := k, input := i, hist := (if ?l = [] then (hist u)\<lparr>hist_pos := - 1\<rparr> else hist_added ?l (hist u)),
      ptable := woken ChInput (ptable u), held := []\<rparr>"
  have "consoleintr (cs @ [10]) s = Ok () t"
    using assms(4) u(1) t(1) h(2) by (simp add: consoleintr_def krun t_def)
  moreover have "hist_lines (hist t) = recorded (hist s) ?l"
    using typed_history [OF assms(3) u(4), of "- 1" p] has_room_end [OF assms(6)] h(1) by (auto simp: t_def split: if_splits)
  moreover have "\<exists>i'. consoleread_loop ip n n [] (t\<lparr>held := [ConsLock]\<rparr>) = read_done ip (take n (?l @ [10])) (t\<lparr>held := [ConsLock], input := i'\<rparr>)
         \<and> in_view i' (drop n (?l @ [10])) []" for ip n
    using consoleread_line [of "t\<lparr>held := [ConsLock]\<rparr>" ?l "[]" "[]" ip n n "[]"] t(2) u(4) by (simp add: t_def)
  ultimately show ?thesis using h(3) by (intro exI [of _ t]) (simp add: t_def)
qed


definition fresh_input :: input where
  "fresh_input = \<lparr>in_buf = replicate INPUT_BUF 0, in_r = 0, in_w = 0, in_e = 0\<rparr>"

definition fresh_hist :: chist where
  "fresh_hist = \<lparr>history = replicate HIST_MAX (replicate INPUT_BUF 0), hist_count = 0, hist_head = 0, hist_pos = - 1\<rparr>"

lemma fresh_ok: "in_view fresh_input [] []" "hist_ok fresh_hist" "hist_lines fresh_hist = []"
  by (auto simp: fresh_input_def fresh_hist_def in_view_def in_text_def hist_ok_def hist_lines_def HIST_MAX_def)

definition fresh_con :: console where
  "fresh_con = \<lparr>panicked = False, locking = True, uart = False, uart_out = [], crt = (\<lambda>_. 0), crt_pos = 0\<rparr>"

theorem typed_line_is_read_witness:
  "\<forall>s :: kcin. \<exists>t i. consoleintr [108, 120, 127, 115, 10] (s\<lparr>con := fresh_con, input := fresh_input, hist := fresh_hist, held := []\<rparr>) = Ok () t
     \<and> hist_lines (hist t) = [lit ''ls''] \<and> consoleread_loop 0 9 9 [] (t\<lparr>held := [ConsLock]\<rparr>) = read_done 0 (lit ''ls'' @ [10]) (t\<lparr>held := [ConsLock], input := i\<rparr>)"
proof
  fix s :: kcin
  let ?s = "s\<lparr>con := fresh_con, input := fresh_input, hist := fresh_hist, held := []\<rparr>"
  have e: "edited [] [108, 120, 127, 115] = lit ''ls''" "has_room 0 [] [108, 120, 127, 115]" "recorded fresh_hist (lit ''ls'') = [lit ''ls'']"
    using fresh_ok(3) by (simp_all add: edit_step_def lit_def INPUT_BUF_def recorded_def HIST_MAX_def)
  have k: "\<forall>c \<in> set [108, 120, 127, 115]. edit_key c" by (simp add: edit_key_def plain_key_def)
  obtain t where t: "consoleintr ([108, 120, 127, 115] @ [10]) ?s = Ok () t" "hist_lines (hist t) = recorded fresh_hist (lit ''ls'')"
      "\<forall>ip n. \<exists>i. consoleread_loop ip n n [] (t\<lparr>held := [ConsLock]\<rparr>) = read_done ip (take n (lit ''ls'' @ [10])) (t\<lparr>held := [ConsLock], input := i\<rparr>)
         \<and> in_view i (drop n (lit ''ls'' @ [10])) []"
    using typed_line_is_read [of ?s, OF _ _ _ _ k e(2)] fresh_ok(1,2) e(1) by (auto simp: con_ok_def fresh_con_def fresh_input_def)
  obtain i where i: "consoleread_loop 0 9 9 [] (t\<lparr>held := [ConsLock]\<rparr>) = read_done 0 (take 9 (lit ''ls'' @ [10])) (t\<lparr>held := [ConsLock], input := i\<rparr>)"
    using t(3) by blast
  show "\<exists>t i. consoleintr [108, 120, 127, 115, 10] ?s = Ok () t
     \<and> hist_lines (hist t) = [lit ''ls''] \<and> consoleread_loop 0 9 9 [] (t\<lparr>held := [ConsLock]\<rparr>) = read_done 0 (lit ''ls'' @ [10]) (t\<lparr>held := [ConsLock], input := i\<rparr>)"
    using t(1,2) e(3) i by (intro exI [of _ t] exI [of _ i]) (simp add: lit_def del: consoleread_loop.simps)
qed

text \<open>
  C23: The up key goes back in the history.  Pressed \<open>j\<close> times on a line that is being edited, it replaces this line by the \<open>j\<close>-th
  last line of the history, and changes nothing but the screen, the buffer and the position in the history.
\<close>

theorem history_recalls_lines:
  assumes "editing s pend line" "hist_ok (hist s)" "hist_pos (hist s) = - 1" "0 < j" "j \<le> length (hist_lines (hist s))" "held s = []"
    and "\<forall>x \<in> set (hist_lines (hist s)). length pend + length x \<le> INPUT_BUF" "unat (in_w (input s)) + INPUT_BUF < 2 ^ 32"
  shows "\<exists>t. consoleintr (concat (replicate j [27, 91, 65])) s = Ok () t \<and> edit_rel s t
    \<and> editing t pend (hist_lines (hist s) ! (length (hist_lines (hist s)) - j))"
proof -
  let ?s = "s\<lparr>held := [ConsLock]\<rparr>"
  have "editing ?s pend line" using assms(1) by (simp add: editing_def)
  then obtain t where t: "\<forall>rest d. consoleintr_loop (concat (replicate j [27, 91, 65]) @ rest) d ?s = consoleintr_loop rest d t" "edit_rel ?s t"
      "editing t pend (hist_lines (hist s) ! (length (hist_lines (hist s)) - j))"
    using cons_ups [of ?s pend line j] assms(2-) by auto
  obtain k i p where r: "t = ?s\<lparr>con := k, input := i, hist := (hist s)\<lparr>hist_pos := p\<rparr>\<rparr>" using t(2) by (auto simp: edit_rel_def)
  have "consoleintr_loop (concat (replicate j [27, 91, 65])) False ?s = Ok False t" using t(1) [rule_format, of "[]" False] by (simp add: krun)
  then have "consoleintr (concat (replicate j [27, 91, 65])) s = Ok () (t\<lparr>held := []\<rparr>)"
    using assms(6) r by (simp add: consoleintr_def krun)
  moreover have "edit_rel s (t\<lparr>held := []\<rparr>)"
    unfolding edit_rel_def using r assms(6) by (intro exI [of _ k] exI [of _ i] exI [of _ p]) simp
  moreover have "editing (t\<lparr>held := []\<rparr>) pend (hist_lines (hist s) ! (length (hist_lines (hist s)) - j))" using t(3) by (simp add: editing_def)
  ultimately show ?thesis by blast
qed

definition two_lines :: chist where
  "two_lines = hist_added (lit ''ps'') (hist_added (lit ''ls'') fresh_hist)"

lemma two_lines: "hist_ok two_lines" "hist_lines two_lines = [lit ''ls'', lit ''ps'']" "hist_pos two_lines = - 1"
proof -
  have c: "clean (lit ''ls'')" "clean (lit ''ps'')" "length (lit ''ls'') < INPUT_BUF" "length (lit ''ps'') < INPUT_BUF"
    by (simp_all add: clean_def lit_def INPUT_BUF_def)
  have ok: "hist_ok (hist_added (lit ''ls'') fresh_hist)" using hist_added_ok [OF fresh_ok(2) c(3)] .
  then show "hist_ok two_lines" using hist_added_ok [OF _ c(4)] by (simp add: two_lines_def)
  have "hist_count (hist_added (lit ''ls'') fresh_hist) = 1" "hist_count fresh_hist = 0"
    by (simp_all add: hist_added_def fresh_hist_def HIST_MAX_def)
  then show "hist_lines two_lines = [lit ''ls'', lit ''ps'']"
    using hist_added_lines [OF ok c(2,4)] hist_added_lines [OF fresh_ok(2) c(1,3)] fresh_ok(3) by (simp add: two_lines_def HIST_MAX_def)
  show "hist_pos two_lines = - 1" by (simp add: two_lines_def hist_added_def)
qed

theorem history_recalls_lines_witness:
  "\<forall>s :: kcin. \<exists>t. consoleintr [27, 91, 65, 27, 91, 65] (s\<lparr>con := fresh_con, input := fresh_input, hist := two_lines, held := []\<rparr>) = Ok () t \<and> editing t [] (lit ''ls'')"
proof
  fix s :: kcin
  let ?s = "s\<lparr>con := fresh_con, input := fresh_input, hist := two_lines, held := []\<rparr>"
  have "editing ?s [] []" using fresh_ok(1) by (simp add: editing_def con_ok_def fresh_con_def)
  then show "\<exists>t. consoleintr [27, 91, 65, 27, 91, 65] ?s = Ok () t \<and> editing t [] (lit ''ls'')"
    using history_recalls_lines [of ?s "[]" "[]" "Suc (Suc 0)"] two_lines by (auto simp: INPUT_BUF_def lit_def fresh_input_def)
qed

end
