(* ===== verification/Fs.thy ===== *)
theory Fs
  imports Console
begin

text \<open>
  The upper layers of the file system (\<^verbatim>\<open>fs.c\<close>): reading and writing inodes, directories and path names.
  The bytes read are returned instead of being stored through a pointer, with \<open>None\<close> for the result -1, and
  the bytes to write are a list.  A device is a function of \<^verbatim>\<open>devsw\<close>; the console is the only one.
\<close>

datatype devfn = ConsoleDev

record kfs = kcin +
  devsw :: "devfn option list"

definition CONSOLE :: nat where "CONSOLE = 1"

definition consoleinit :: "(unit, 'z kfs_scheme) M" where
  "consoleinit =
     kseq (kmod (\<lambda>s. s\<lparr>devsw := (devsw s)[CONSOLE := Some ConsoleDev]\<rparr>))
          (kmod (\<lambda>s. s\<lparr>con := (con s)\<lparr>locking := True\<rparr>\<rparr>))"

definition dev_of :: "ushort \<Rightarrow> 'z kfs_scheme \<Rightarrow> devfn option" where
  "dev_of major s = (if sint major < 0 \<or> sint major \<ge> int NDEV then None else devsw s ! unat major)"

section \<open>Contents of inodes\<close>

text \<open>The loop of \<^verbatim>\<open>readi\<close>: \<open>n\<close> bytes are left from the offset \<open>off\<close>; each step reads at least one.\<close>

function readi_loop :: "nat \<Rightarrow> uint \<Rightarrow> nat \<Rightarrow> (uchar list, 'z kfs_scheme) M" where
  "readi_loop i off n =
     (if n = 0 then kret []
      else
        kbind (bmap i (off div of_nat BSIZE)) (\<lambda>addr.
        kbind (geti i) (\<lambda>ip.
        kbind (bread (ip_dev ip) addr) (\<lambda>b.
        kbind (getb b) (\<lambda>buf.
        (let o' = unat off mod BSIZE; m = min n (BSIZE - o') in
         kseq (brelse b)
        (if m = 0 then kundef
         else
           kbind (readi_loop i (off + of_nat m) (n - m)) (\<lambda>bs.
           kret (slice (b_data buf) o' m @ bs))))))))) "
  by pat_completeness auto
termination
  by (relation "measure (\<lambda>(i, off, n). n)") auto

declare readi_loop.simps [simp del]

definition readi :: "nat \<Rightarrow> uint \<Rightarrow> uint \<Rightarrow> (uchar list option, 'z kfs_scheme) M" where
  "readi i off n =
     kbind (geti i) (\<lambda>ip.
     if ip_type ip = T_DEV then
       kbind (kget (dev_of (ip_major ip))) (\<lambda>d. case d of
         None \<Rightarrow> kret None
       | Some ConsoleDev \<Rightarrow> consoleread i (unat n))
     else if off > ip_size ip \<or> off + n < off then kret None
     else
       (let n' = (if off + n > ip_size ip then ip_size ip - off else n) in
        kbind (readi_loop i off (unat n')) (\<lambda>bs. kret (Some bs))))"

text \<open>The loop of \<^verbatim>\<open>writei\<close>, which returns the offset at the end.\<close>

function writei_loop :: "nat \<Rightarrow> uint \<Rightarrow> uchar list \<Rightarrow> (uint, 'z kfs_scheme) M" where
  "writei_loop i off src =
     (if src = [] then kret off
      else
        kbind (bmap i (off div of_nat BSIZE)) (\<lambda>addr.
        kbind (geti i) (\<lambda>ip.
        kbind (bread (ip_dev ip) addr) (\<lambda>b.
        (let o' = unat off mod BSIZE; m = min (length src) (BSIZE - o') in
         kseq (bdata b (\<lambda>d. splice d o' (take m src)))
        (kseq (log_write b)
        (kseq (brelse b)
        (if m = 0 then kundef else writei_loop i (off + of_nat m) (drop m src))))))))) "
  by pat_completeness auto
termination
  by (relation "measure (\<lambda>(i, off, src). length src)") auto

declare writei_loop.simps [simp del]

definition writei :: "nat \<Rightarrow> uchar list \<Rightarrow> uint \<Rightarrow> (int, 'z kfs_scheme) M" where
  "writei i src off =
     (let n = of_nat (length src) in
      kbind (geti i) (\<lambda>ip.
      if ip_type ip = T_DEV then
        kbind (kget (dev_of (ip_major ip))) (\<lambda>d. case d of
          None \<Rightarrow> kret (- 1)
        | Some ConsoleDev \<Rightarrow> consolewrite i src)
      else if off > ip_size ip \<or> off + n < off then kret (- 1)
      else if unat (off + n) > MAXFILE * BSIZE then kret (- 1)
      else
        kbind (writei_loop i off src) (\<lambda>off'.
        kbind (geti i) (\<lambda>ip.
        kseq (kwhen (n > 0 \<and> off' > ip_size ip)
                (kseq (updi i (\<lambda>ip. ip\<lparr>ip_size := off'\<rparr>)) (iupdate i)))
             (kret (int (length src)))))))"

section \<open>Directories\<close>

definition DIRSIZ :: nat where "DIRSIZ = 14"
definition DIRENT_SIZE :: nat where "DIRENT_SIZE = 16"

text \<open>Two names, of DIRSIZ bytes each or terminated before.\<close>

definition namecmp :: "uchar list \<Rightarrow> uchar list \<Rightarrow> int option" where
  "namecmp a b = strncmp a b DIRSIZ"

record dirent =
  de_inum :: ushort
  de_name :: "uchar list"

definition dirent_of :: "uchar list \<Rightarrow> dirent" where
  "dirent_of bs = \<lparr>de_inum = rd16 bs 0, de_name = slice bs 2 DIRSIZ\<rparr>"

definition dirent_bytes :: "dirent \<Rightarrow> uchar list" where
  "dirent_bytes de = half_bytes (de_inum de) @ de_name de"

definition read_dirent :: "nat \<Rightarrow> uint \<Rightarrow> string \<Rightarrow> (dirent, 'z kfs_scheme) M" where
  "read_dirent dp off err =
     kbind (readi dp off (of_nat DIRENT_SIZE)) (\<lambda>r. case r of
       None \<Rightarrow> kpanic err
     | Some bs \<Rightarrow> if length bs \<noteq> DIRENT_SIZE then kpanic err else kret (dirent_of bs))"

text \<open>
  The loop of \<^verbatim>\<open>dirlookup\<close>.  A directory whose size comes within 16 bytes of the largest uint would make
  the offset wrap around and the loop never end.
\<close>

function dirlookup_loop :: "nat \<Rightarrow> uchar list \<Rightarrow> uint \<Rightarrow> uint \<Rightarrow> ((nat \<times> uint) option, 'z kfs_scheme) M" where
  "dirlookup_loop dp name off sz =
     (if off < sz then
        kbind (read_dirent dp off ''dirlookup read'') (\<lambda>de.
        let next_entry = (if off < off + of_nat DIRENT_SIZE
                          then dirlookup_loop dp name (off + of_nat DIRENT_SIZE) sz else kundef) in
        if de_inum de = 0 then next_entry
        else
          kbind (kopt (namecmp name (de_name de))) (\<lambda>c.
          if c = 0 then
            kbind (geti dp) (\<lambda>ip.
            kbind (iget (ip_dev ip) (ucast (de_inum de))) (\<lambda>j. kret (Some (j, off))))
          else next_entry))
      else kret None)"
  by pat_completeness auto
termination
  by (relation "measure (\<lambda>(dp, name, off, sz). unat sz - unat off)")
     (auto simp: word_less_nat_alt)

declare dirlookup_loop.simps [simp del]

definition dirlookup :: "nat \<Rightarrow> uchar list \<Rightarrow> ((nat \<times> uint) option, 'z kfs_scheme) M" where
  "dirlookup dp name =
     kbind (geti dp) (\<lambda>ip.
     if ip_type ip \<noteq> T_DIR then kpanic ''dirlookup not DIR''
     else dirlookup_loop dp name 0 (ip_size ip))"

text \<open>The first free entry of a directory, or its end.\<close>

function dirlink_loop :: "nat \<Rightarrow> uint \<Rightarrow> uint \<Rightarrow> (uint, 'z kfs_scheme) M" where
  "dirlink_loop dp off sz =
     (if off < sz then
        kbind (read_dirent dp off ''dirlink read'') (\<lambda>de.
        if de_inum de = 0 then kret off
        else if off < off + of_nat DIRENT_SIZE then dirlink_loop dp (off + of_nat DIRENT_SIZE) sz
        else kundef)
      else kret off)"
  by pat_completeness auto
termination
  by (relation "measure (\<lambda>(dp, off, sz). unat sz - unat off)")
     (auto simp: word_less_nat_alt)

declare dirlink_loop.simps [simp del]

definition dirlink :: "nat \<Rightarrow> uchar list \<Rightarrow> uint \<Rightarrow> (int, 'z kfs_scheme) M" where
  "dirlink dp name inum =
     kbind (dirlookup dp name) (\<lambda>r. case r of
       Some (j, _) \<Rightarrow> kseq (iput j) (kret (- 1))
     | None \<Rightarrow>
         kbind (geti dp) (\<lambda>ip.
         kbind (dirlink_loop dp 0 (ip_size ip)) (\<lambda>off.
         kbind (kopt (strncpy (replicate DIRSIZ 0) name DIRSIZ)) (\<lambda>nm.
         kbind (writei dp (dirent_bytes \<lparr>de_inum = ucast inum, de_name = nm\<rparr>) off) (\<lambda>w.
         if w \<noteq> int DIRENT_SIZE then kpanic ''dirlink'' else kret 0)))))"

section \<open>Path names\<close>

text \<open>
  \<^verbatim>\<open>skipelem\<close> on the bytes from \<^verbatim>\<open>path\<close> on, which include a NUL: the rest of the path and the new contents of
  \<^verbatim>\<open>name\<close>, or \<open>None\<close> when there is no element.
\<close>

definition skip_slashes :: "uchar list \<Rightarrow> uchar list" where
  "skip_slashes path = dropWhile (\<lambda>c. c = 47) path"

definition skipelem :: "uchar list \<Rightarrow> uchar list \<Rightarrow> (uchar list \<times> uchar list) option" where
  "skipelem path name =
     (let s = skip_slashes path in
      if s = [] \<or> hd s = 0 then None
      else
        (let el = takeWhile (\<lambda>c. c \<noteq> 47 \<and> c \<noteq> 0) s;
             rest = dropWhile (\<lambda>c. c \<noteq> 47 \<and> c \<noteq> 0) s;
             name' = (if length el \<ge> DIRSIZ then splice name 0 (take DIRSIZ el)
                      else splice name 0 (el @ [0]))
         in Some (skip_slashes rest, name')))"

lemma skipelem_shorter:
  assumes "skipelem path name = Some (rest, name')"
  shows "length rest < length path"
proof -
  let ?s = "skip_slashes path"
  have s: "?s \<noteq> []" "hd ?s \<noteq> 0" using assms by (auto simp: skipelem_def Let_def split: if_splits)
  then have "hd ?s \<noteq> 47" using hd_dropWhile [of "\<lambda>c. c = 47" path] by (simp add: skip_slashes_def)
  with s have "length (dropWhile (\<lambda>c. c \<noteq> 47 \<and> c \<noteq> 0) ?s) < length ?s"
    by (cases ?s) (auto simp: le_imp_less_Suc length_dropWhile_le)
  moreover have "rest = skip_slashes (dropWhile (\<lambda>c. c \<noteq> 47 \<and> c \<noteq> 0) ?s)"
    using assms s by (simp add: skipelem_def Let_def)
  then have "length rest \<le> length (dropWhile (\<lambda>c. c \<noteq> 47 \<and> c \<noteq> 0) ?s)"
    by (simp add: skip_slashes_def length_dropWhile_le)
  moreover have "length ?s \<le> length path" by (simp add: skip_slashes_def length_dropWhile_le)
  ultimately show ?thesis by simp
qed

text \<open>The loop of \<^verbatim>\<open>namex\<close>; with \<open>np\<close> it stops at the parent.  The result has the name with it.\<close>

function namex_loop :: "nat \<Rightarrow> uchar list \<Rightarrow> bool \<Rightarrow> uchar list \<Rightarrow> ((nat \<times> uchar list) option, 'z kfs_scheme) M" where
  "namex_loop i path np name =
     (case skipelem path name of
        None \<Rightarrow>
          if np then kseq (iput i) (kret None) else kret (Some (i, name))
      | Some (path', name') \<Rightarrow>
          kseq (ilock (Some i))
         (kbind (geti i) (\<lambda>ip.
          if ip_type ip \<noteq> T_DIR then kseq (iunlockput i) (kret None)
          else if np \<and> hd path' = 0 then kseq (iunlock (Some i)) (kret (Some (i, name')))
          else
            kbind (dirlookup i name') (\<lambda>r. case r of
              None \<Rightarrow> kseq (iunlockput i) (kret None)
            | Some (next_ip, _) \<Rightarrow> kseq (iunlockput i) (namex_loop next_ip path' np name')))))"
  by pat_completeness auto
termination
  by (relation "measure (\<lambda>(i, path, np, name). length path)") (auto simp: skipelem_shorter)

declare namex_loop.simps [simp del]

text \<open>\<open>path\<close> are the bytes of the string with its NUL.\<close>

definition namex :: "uchar list \<Rightarrow> bool \<Rightarrow> uchar list \<Rightarrow> ((nat \<times> uchar list) option, 'z kfs_scheme) M" where
  "namex path np name =
     kbind (if hd path = 47 then iget ROOTDEV ROOTINO
            else kbind myproc (\<lambda>c. kbind (getp c) (\<lambda>p. kbind (kopt (p_cwd p)) idup)))
       (\<lambda>i. namex_loop i path np name)"

definition namei :: "uchar list \<Rightarrow> (nat option, 'z kfs_scheme) M" where
  "namei path = kbind (namex path False (replicate DIRSIZ 0)) (\<lambda>r. kret (map_option fst r))"

definition nameiparent :: "uchar list \<Rightarrow> uchar list \<Rightarrow> ((nat \<times> uchar list) option, 'z kfs_scheme) M" where
  "nameiparent path name = namex path True name"

end
