(* ===== verification/File.thy ===== *)
theory File
  imports Fs
begin

text \<open>
  Open files (\<^verbatim>\<open>file.c\<close>, with \<^verbatim>\<open>pipealloc\<close> of \<^verbatim>\<open>pipe.c\<close>) and the system calls on files (\<^verbatim>\<open>sysfile.c\<close>, without
  \<^verbatim>\<open>exec\<close>).  An open file is its index in \<^verbatim>\<open>ftable.file\<close>.
\<close>

section \<open>The file table\<close>

datatype ftype = FD_NONE | FD_PIPE | FD_INODE

record open_file =
  f_type :: ftype
  f_ref :: int
  f_readable :: bool
  f_writable :: bool
  f_pipe :: uint
  f_ip :: "nat option"
  f_off :: uint

record kfile = kfs +
  ftable :: "open_file list"

definition getf :: "nat \<Rightarrow> (open_file, 'z kfile_scheme) M" where
  "getf i = (\<lambda>s. if i < length (ftable s) then Ok (ftable s ! i) s else Undef)"

definition updf :: "nat \<Rightarrow> (open_file \<Rightarrow> open_file) \<Rightarrow> (unit, 'z kfile_scheme) M" where
  "updf i f = (\<lambda>s.
     if i < length (ftable s) then Ok () (s\<lparr>ftable := (ftable s)[i := f (ftable s ! i)]\<rparr>) else Undef)"

definition filealloc :: "(nat option, 'z kfile_scheme) M" where
  "filealloc =
     kseq (acquire FtableLock)
    (kbind (kget ftable) (\<lambda>fs.
     case find (\<lambda>i. f_ref (fs ! i) = 0) [0..<length fs] of
       Some i \<Rightarrow>
         kseq (updf i (\<lambda>f. f\<lparr>f_ref := 1\<rparr>))
        (kseq (release FtableLock) (kret (Some i)))
     | None \<Rightarrow> kseq (release FtableLock) (kret None)))"

definition filedup :: "nat \<Rightarrow> (nat, 'z kfile_scheme) M" where
  "filedup i =
     kseq (acquire FtableLock)
    (kbind (getf i) (\<lambda>f.
     if f_ref f < 1 then kpanic ''filedup''
     else
       kseq (updf i (\<lambda>f. f\<lparr>f_ref := f_ref f + 1\<rparr>))
      (kseq (release FtableLock) (kret i))))"

definition fileclose :: "nat \<Rightarrow> (unit, 'z kfile_scheme) M" where
  "fileclose i =
     kseq (acquire FtableLock)
    (kbind (getf i) (\<lambda>f.
     if f_ref f < 1 then kpanic ''fileclose''
     else
       kseq (updf i (\<lambda>f. f\<lparr>f_ref := f_ref f - 1\<rparr>))
      (if f_ref f - 1 > 0 then release FtableLock
       else
         kbind (getf i) (\<lambda>ff.
         kseq (updf i (\<lambda>f. f\<lparr>f_ref := 0, f_type := FD_NONE\<rparr>))
        (kseq (release FtableLock)
        (case f_type ff of
           FD_PIPE \<Rightarrow> pipeclose (f_pipe ff) (f_writable ff)
         | FD_INODE \<Rightarrow>
             kseq begin_op
            (kbind (kopt (f_ip ff)) (\<lambda>ip.
             kseq (iput ip) end_op))
         | FD_NONE \<Rightarrow> kret ()))))))"

definition filestat :: "nat \<Rightarrow> (stat option, 'z kfile_scheme) M" where
  "filestat i =
     kbind (getf i) (\<lambda>f.
     if f_type f = FD_INODE then
       kbind (kopt (f_ip f)) (\<lambda>ip.
       kseq (ilock (Some ip))
      (kbind (stati ip) (\<lambda>st.
       kseq (iunlock (Some ip)) (kret (Some st)))))
     else kret None)"

definition fileread :: "nat \<Rightarrow> uint \<Rightarrow> (uchar list option, 'z kfile_scheme) M" where
  "fileread i n =
     kbind (getf i) (\<lambda>f.
     if \<not> f_readable f then kret None
     else case f_type f of
       FD_PIPE \<Rightarrow> piperead (f_pipe f) (unat n)
     | FD_INODE \<Rightarrow>
         kbind (kopt (f_ip f)) (\<lambda>ip.
         kseq (ilock (Some ip))
        (kbind (readi ip (f_off f) n) (\<lambda>r.
         kseq (case r of
                 None \<Rightarrow> kret ()
               | Some bs \<Rightarrow> updf i (\<lambda>f. f\<lparr>f_off := f_off f + of_nat (length bs)\<rparr>))
        (kseq (iunlock (Some ip))
              (kret r)))))
     | FD_NONE \<Rightarrow> kpanic ''fileread'')"

definition FILEWRITE_MAX :: nat where
  "FILEWRITE_MAX = ((MAXOPBLOCKS - 1 - 1 - 2) div 2) * 512"

text \<open>The loop of \<^verbatim>\<open>filewrite\<close>: \<open>bs\<close> is left to write of \<open>n\<close> bytes.\<close>

function filewrite_loop :: "nat \<Rightarrow> nat \<Rightarrow> int \<Rightarrow> uchar list \<Rightarrow> (int, 'z kfile_scheme) M" where
  "filewrite_loop i ip n bs =
     (if bs = [] then kret n
      else
        (let n1 = min (length bs) FILEWRITE_MAX in
         kseq begin_op
        (kseq (ilock (Some ip))
        (kbind (getf i) (\<lambda>f.
         kbind (writei ip (take n1 bs) (f_off f)) (\<lambda>r.
         kseq (kwhen (r > 0) (updf i (\<lambda>f. f\<lparr>f_off := f_off f + of_int r\<rparr>)))
        (kseq (iunlock (Some ip))
        (kseq end_op
        (if r < 0 then kret (- 1)
         else if r \<noteq> int n1 then kpanic ''short filewrite''
         else if n1 = 0 then kundef
         else filewrite_loop i ip n (drop n1 bs))))))))))"
  by pat_completeness auto
termination
  by (relation "measure (\<lambda>(i, ip, n, bs). length bs)") auto

declare filewrite_loop.simps [simp del]

definition filewrite :: "nat \<Rightarrow> uchar list \<Rightarrow> (int, 'z kfile_scheme) M" where
  "filewrite i bs =
     kbind (getf i) (\<lambda>f.
     if \<not> f_writable f then kret (- 1)
     else case f_type f of
       FD_PIPE \<Rightarrow> pipewrite (f_pipe f) bs
     | FD_INODE \<Rightarrow> kbind (kopt (f_ip f)) (\<lambda>ip. filewrite_loop i ip (int (length bs)) bs)
     | FD_NONE \<Rightarrow> kpanic ''filewrite'')"

text \<open>
  \<^verbatim>\<open>pipealloc\<close>: the data of a new pipe is what was in its page, after the 52 bytes of the spin lock.
\<close>

definition pipealloc :: "((nat \<times> nat) option, 'z kfile_scheme) M" where
  "pipealloc =
     kbind filealloc (\<lambda>r0. case r0 of
       None \<Rightarrow> kret None
     | Some f0 \<Rightarrow>
         kbind filealloc (\<lambda>r1. case r1 of
           None \<Rightarrow> kseq (fileclose f0) (kret None)
         | Some f1 \<Rightarrow>
             kbind kalloc (\<lambda>p.
             if p = 0 then kseq (fileclose f0) (kseq (fileclose f1) (kret None))
             else
               kseq (kmod (\<lambda>s. s\<lparr>pipes := (pipes s)(p \<mapsto> \<lparr>pi_data = load_bytes (mem s) (p + 52) PIPESIZE,
                       pi_nread = 0, pi_nwrite = 0, pi_readopen = True, pi_writeopen = True\<rparr>)\<rparr>))
              (kseq (updf f0 (\<lambda>f. f\<lparr>f_type := FD_PIPE, f_readable := True, f_writable := False, f_pipe := p\<rparr>))
              (kseq (updf f1 (\<lambda>f. f\<lparr>f_type := FD_PIPE, f_readable := False, f_writable := True, f_pipe := p\<rparr>))
                    (kret (Some (f0, f1))))))))"

section \<open>File descriptors\<close>

definition argfd :: "uint \<Rightarrow> ((nat \<times> nat) option, 'z kfile_scheme) M" where
  "argfd n =
     kbind (argint n) (\<lambda>r. case r of
       None \<Rightarrow> kret None
     | Some fd \<Rightarrow>
         if sint fd < 0 \<or> sint fd \<ge> int NOFILE then kret None
         else
           kbind myproc (\<lambda>c. kbind (getp c) (\<lambda>p.
           case p_ofile p ! unat fd of
             None \<Rightarrow> kret None
           | Some f \<Rightarrow> kret (Some (unat fd, f)))))"

definition fdalloc :: "nat \<Rightarrow> (nat option, 'z kfile_scheme) M" where
  "fdalloc f =
     kbind myproc (\<lambda>c. kbind (getp c) (\<lambda>p.
     case find (\<lambda>fd. p_ofile p ! fd = None) [0..<NOFILE] of
       Some fd \<Rightarrow>
         kseq (updp c (\<lambda>p. p\<lparr>p_ofile := (p_ofile p)[fd := Some f]\<rparr>)) (kret (Some fd))
     | None \<Rightarrow> kret None))"

definition clear_fd :: "nat \<Rightarrow> (unit, 'z kfile_scheme) M" where
  "clear_fd fd = kbind myproc (\<lambda>c. updp c (\<lambda>p. p\<lparr>p_ofile := (p_ofile p)[fd := None]\<rparr>))"

section \<open>System calls\<close>

definition sys_dup :: "(int, 'z kfile_scheme) M" where
  "sys_dup =
     kbind (argfd 0) (\<lambda>r. case r of
       None \<Rightarrow> kret (- 1)
     | Some (_, f) \<Rightarrow>
         kbind (fdalloc f) (\<lambda>r. case r of
           None \<Rightarrow> kret (- 1)
         | Some fd \<Rightarrow> kbind (filedup f) (\<lambda>_. kret (int fd))))"

definition sys_read :: "(int, 'z kfile_scheme) M" where
  "sys_read =
     kbind (argfd 0) (\<lambda>r. case r of
       None \<Rightarrow> kret (- 1)
     | Some (_, f) \<Rightarrow>
         kbind (argint 2) (\<lambda>r. case r of
           None \<Rightarrow> kret (- 1)
         | Some n \<Rightarrow>
             kbind (argptr 1 n) (\<lambda>r. case r of
               None \<Rightarrow> kret (- 1)
             | Some p \<Rightarrow>
                 kbind (fileread f n) (\<lambda>r. case r of
                   None \<Rightarrow> kret (- 1)
                 | Some bs \<Rightarrow> kseq (ustore_bytes p bs) (kret (int (length bs)))))))"

definition sys_write :: "(int, 'z kfile_scheme) M" where
  "sys_write =
     kbind (argfd 0) (\<lambda>r. case r of
       None \<Rightarrow> kret (- 1)
     | Some (_, f) \<Rightarrow>
         kbind (argint 2) (\<lambda>r. case r of
           None \<Rightarrow> kret (- 1)
         | Some n \<Rightarrow>
             kbind (argptr 1 n) (\<lambda>r. case r of
               None \<Rightarrow> kret (- 1)
             | Some p \<Rightarrow> kbind (uload_bytes (unat n) p) (filewrite f))))"

definition sys_close :: "(int, 'z kfile_scheme) M" where
  "sys_close =
     kbind (argfd 0) (\<lambda>r. case r of
       None \<Rightarrow> kret (- 1)
     | Some (fd, f) \<Rightarrow> kseq (clear_fd fd) (kseq (fileclose f) (kret 0)))"

text \<open>The fields of \<^verbatim>\<open>struct stat\<close> are stored one by one; its size with padding is 20.\<close>

definition sys_fstat :: "(int, 'z kfile_scheme) M" where
  "sys_fstat =
     kbind (argfd 0) (\<lambda>r. case r of
       None \<Rightarrow> kret (- 1)
     | Some (_, f) \<Rightarrow>
         kbind (argptr 1 20) (\<lambda>r. case r of
           None \<Rightarrow> kret (- 1)
         | Some p \<Rightarrow>
             kbind (filestat f) (\<lambda>r. case r of
               None \<Rightarrow> kret (- 1)
             | Some st \<Rightarrow>
                 kseq (ustore_bytes (p + 4) (word_bytes (st_dev st)))
                (kseq (ustore_bytes (p + 8) (word_bytes (st_ino st)))
                (kseq (ustore_bytes p (half_bytes (st_type st)))
                (kseq (ustore_bytes (p + 12) (half_bytes (st_nlink st)))
                (kseq (ustore_bytes (p + 16) (word_bytes (st_size st)))
                      (kret 0))))))))"

text \<open>The strings that \<^verbatim>\<open>argstr\<close> gives are used with their NUL.\<close>

definition sys_link :: "(int, 'z kfile_scheme) M" where
  "sys_link =
     kbind (argstr 0) (\<lambda>r. case r of
       None \<Rightarrow> kret (- 1)
     | Some old_path \<Rightarrow>
         kbind (argstr 1) (\<lambda>r. case r of
           None \<Rightarrow> kret (- 1)
         | Some new_path \<Rightarrow>
             kseq begin_op
            (kbind (namei (old_path @ [0])) (\<lambda>r. case r of
               None \<Rightarrow> kseq end_op (kret (- 1))
             | Some ip \<Rightarrow>
                 kseq (ilock (Some ip))
                (kbind (geti ip) (\<lambda>i.
                 if ip_type i = T_DIR then kseq (iunlockput ip) (kseq end_op (kret (- 1)))
                 else
                   kseq (updi ip (\<lambda>i. i\<lparr>ip_nlink := ip_nlink i + 1\<rparr>))
                  (kseq (iupdate ip)
                  (kseq (iunlock (Some ip))
                  (let bad = kseq (ilock (Some ip))
                            (kseq (updi ip (\<lambda>i. i\<lparr>ip_nlink := ip_nlink i - 1\<rparr>))
                            (kseq (iupdate ip)
                            (kseq (iunlockput ip)
                            (kseq end_op (kret (- 1)))))) in
                   kbind (nameiparent (new_path @ [0]) (replicate DIRSIZ 0)) (\<lambda>r. case r of
                     None \<Rightarrow> bad
                   | Some (dp, name) \<Rightarrow>
                       kseq (ilock (Some dp))
                      (kbind (geti dp) (\<lambda>d.
                       kbind (geti ip) (\<lambda>i.
                       kbind (if ip_dev d \<noteq> ip_dev i then kret (- 1) else dirlink dp name (ip_inum i)) (\<lambda>r.
                       if r < 0 then kseq (iunlockput dp) bad
                       else
                         kseq (iunlockput dp)
                        (kseq (iput ip)
                        (kseq end_op (kret 0)))))))))))))))))"

function isdirempty_loop :: "nat \<Rightarrow> uint \<Rightarrow> uint \<Rightarrow> (bool, 'z kfile_scheme) M" where
  "isdirempty_loop dp off sz =
     (if off < sz then
        kbind (read_dirent dp off ''isdirempty: readi'') (\<lambda>de.
        if de_inum de \<noteq> 0 then kret False
        else if off < off + of_nat DIRENT_SIZE then isdirempty_loop dp (off + of_nat DIRENT_SIZE) sz
        else kundef)
      else kret True)"
  by pat_completeness auto
termination
  by (relation "measure (\<lambda>(dp, off, sz). unat sz - unat off)")
     (auto simp: word_less_nat_alt)

declare isdirempty_loop.simps [simp del]

definition isdirempty :: "nat \<Rightarrow> (bool, 'z kfile_scheme) M" where
  "isdirempty dp = kbind (geti dp) (\<lambda>ip. isdirempty_loop dp (2 * of_nat DIRENT_SIZE) (ip_size ip))"

definition sys_unlink :: "(int, 'z kfile_scheme) M" where
  "sys_unlink =
     kbind (argstr 0) (\<lambda>r. case r of
       None \<Rightarrow> kret (- 1)
     | Some path \<Rightarrow>
         kseq begin_op
        (kbind (nameiparent (path @ [0]) (replicate DIRSIZ 0)) (\<lambda>r. case r of
           None \<Rightarrow> kseq end_op (kret (- 1))
         | Some (dp, name) \<Rightarrow>
             kseq (ilock (Some dp))
            (let bad = kseq (iunlockput dp) (kseq end_op (kret (- 1))) in
             if namecmp name (lit ''.'' @ [0]) = Some 0 \<or> namecmp name (lit ''..'' @ [0]) = Some 0 then bad
             else
               kbind (dirlookup dp name) (\<lambda>r. case r of
                 None \<Rightarrow> bad
               | Some (ip, off) \<Rightarrow>
                   kseq (ilock (Some ip))
                  (kbind (geti ip) (\<lambda>i.
                   if sint (ip_nlink i) < 1 then kpanic ''unlink: nlink < 1''
                   else
                     kbind (if ip_type i = T_DIR then isdirempty ip else kret True) (\<lambda>empty.
                     if \<not> empty then kseq (iunlockput ip) bad
                     else
                       kbind (writei dp (replicate DIRENT_SIZE 0) off) (\<lambda>w.
                       if w \<noteq> int DIRENT_SIZE then kpanic ''unlink: writei''
                       else
                         kseq (kwhen (ip_type i = T_DIR)
                                 (kseq (updi dp (\<lambda>d. d\<lparr>ip_nlink := ip_nlink d - 1\<rparr>)) (iupdate dp)))
                        (kseq (iunlockput dp)
                        (kseq (updi ip (\<lambda>i. i\<lparr>ip_nlink := ip_nlink i - 1\<rparr>))
                        (kseq (iupdate ip)
                        (kseq (iunlockput ip)
                        (kseq end_op (kret 0)))))))))))))))"

definition create :: "uchar list \<Rightarrow> ushort \<Rightarrow> ushort \<Rightarrow> ushort \<Rightarrow> (nat option, 'z kfile_scheme) M" where
  "create path ty major minor =
     kbind (nameiparent path (replicate DIRSIZ 0)) (\<lambda>r. case r of
       None \<Rightarrow> kret None
     | Some (dp, name) \<Rightarrow>
         kseq (ilock (Some dp))
        (kbind (dirlookup dp name) (\<lambda>r. case r of
           Some (ip, _) \<Rightarrow>
             kseq (iunlockput dp)
            (kseq (ilock (Some ip))
            (kbind (geti ip) (\<lambda>i.
             if ty = T_FILE \<and> ip_type i = T_FILE then kret (Some ip)
             else kseq (iunlockput ip) (kret None))))
         | None \<Rightarrow>
             kbind (geti dp) (\<lambda>d.
             kbind (ialloc (ip_dev d) ty) (\<lambda>ip.
             kseq (ilock (Some ip))
            (kseq (updi ip (\<lambda>i. i\<lparr>ip_major := major, ip_minor := minor, ip_nlink := 1\<rparr>))
            (kseq (iupdate ip)
            (kbind (geti ip) (\<lambda>i.
             kseq (kwhen (ty = T_DIR)
                     (kseq (updi dp (\<lambda>d. d\<lparr>ip_nlink := ip_nlink d + 1\<rparr>))
                     (kseq (iupdate dp)
                     (kbind (dirlink ip (lit ''.'' @ [0]) (ip_inum i)) (\<lambda>r.
                      if r < 0 then kpanic ''create dots''
                      else
                        kbind (dirlink ip (lit ''..'' @ [0]) (ip_inum d)) (\<lambda>r.
                        if r < 0 then kpanic ''create dots'' else kret ()))))))
            (kbind (dirlink dp name (ip_inum i)) (\<lambda>r.
             if r < 0 then kpanic ''create: dirlink''
             else kseq (iunlockput dp) (kret (Some ip)))))))))))))"

definition O_RDONLY :: uint where "O_RDONLY = 0x000"
definition O_WRONLY :: uint where "O_WRONLY = 0x001"
definition O_RDWR :: uint where "O_RDWR = 0x002"
definition O_CREATE :: uint where "O_CREATE = 0x200"

definition open_inode :: "uchar list \<Rightarrow> uint \<Rightarrow> (nat option, 'z kfile_scheme) M" where
  "open_inode path omode =
     (if omode AND O_CREATE \<noteq> 0 then
        kbind (create path T_FILE 0 0) (\<lambda>r. case r of
          None \<Rightarrow> kseq end_op (kret None) | Some ip \<Rightarrow> kret (Some ip))
      else
        kbind (namei path) (\<lambda>r. case r of
          None \<Rightarrow> kseq end_op (kret None)
        | Some ip \<Rightarrow>
            kseq (ilock (Some ip))
           (kbind (geti ip) (\<lambda>i.
            if ip_type i = T_DIR \<and> omode \<noteq> O_RDONLY then
              kseq (iunlockput ip) (kseq end_op (kret None))
            else kret (Some ip)))))"

definition sys_open :: "(int, 'z kfile_scheme) M" where
  "sys_open =
     kbind (argstr 0) (\<lambda>r. case r of
       None \<Rightarrow> kret (- 1)
     | Some path \<Rightarrow>
         kbind (argint 1) (\<lambda>r. case r of
           None \<Rightarrow> kret (- 1)
         | Some omode \<Rightarrow>
             kseq begin_op
            (kbind (open_inode (path @ [0]) omode) (\<lambda>r. case r of
               None \<Rightarrow> kret (- 1)
             | Some ip \<Rightarrow>
                 kbind filealloc (\<lambda>r. case r of
                   None \<Rightarrow> kseq (iunlockput ip) (kseq end_op (kret (- 1)))
                 | Some f \<Rightarrow>
                     kbind (fdalloc f) (\<lambda>r. case r of
                       None \<Rightarrow> kseq (fileclose f) (kseq (iunlockput ip) (kseq end_op (kret (- 1))))
                     | Some fd \<Rightarrow>
                         kseq (iunlock (Some ip))
                        (kseq end_op
                        (kseq (updf f (\<lambda>f. f\<lparr>f_type := FD_INODE, f_ip := Some ip, f_off := 0,
                                f_readable := (omode AND O_WRONLY = 0),
                                f_writable := (omode AND O_WRONLY \<noteq> 0 \<or> omode AND O_RDWR \<noteq> 0)\<rparr>))
                              (kret (int fd))))))))))"

definition sys_mkdir :: "(int, 'z kfile_scheme) M" where
  "sys_mkdir =
     kseq begin_op
    (kbind (argstr 0) (\<lambda>r. case r of
       None \<Rightarrow> kseq end_op (kret (- 1))
     | Some path \<Rightarrow>
         kbind (create (path @ [0]) T_DIR 0 0) (\<lambda>r. case r of
           None \<Rightarrow> kseq end_op (kret (- 1))
         | Some ip \<Rightarrow> kseq (iunlockput ip) (kseq end_op (kret 0)))))"

definition sys_mknod :: "(int, 'z kfile_scheme) M" where
  "sys_mknod =
     kseq begin_op
    (kbind (argstr 0) (\<lambda>r. case r of
       None \<Rightarrow> kseq end_op (kret (- 1))
     | Some path \<Rightarrow>
         kbind (argint 1) (\<lambda>r. case r of
           None \<Rightarrow> kseq end_op (kret (- 1))
         | Some major \<Rightarrow>
             kbind (argint 2) (\<lambda>r. case r of
               None \<Rightarrow> kseq end_op (kret (- 1))
             | Some minor \<Rightarrow>
                 kbind (create (path @ [0]) T_DEV (ucast major) (ucast minor)) (\<lambda>r. case r of
                   None \<Rightarrow> kseq end_op (kret (- 1))
                 | Some ip \<Rightarrow> kseq (iunlockput ip) (kseq end_op (kret 0)))))))"

definition sys_chdir :: "(int, 'z kfile_scheme) M" where
  "sys_chdir =
     kbind myproc (\<lambda>c.
     kseq begin_op
    (kbind (argstr 0) (\<lambda>r. case r of
       None \<Rightarrow> kseq end_op (kret (- 1))
     | Some path \<Rightarrow>
         kbind (namei (path @ [0])) (\<lambda>r. case r of
           None \<Rightarrow> kseq end_op (kret (- 1))
         | Some ip \<Rightarrow>
             kseq (ilock (Some ip))
            (kbind (geti ip) (\<lambda>i.
             if ip_type i \<noteq> T_DIR then kseq (iunlockput ip) (kseq end_op (kret (- 1)))
             else
               kseq (iunlock (Some ip))
              (kbind (getp c) (\<lambda>p.
               kbind (kopt (p_cwd p)) (\<lambda>cwd.
               kseq (iput cwd)
              (kseq end_op
              (kseq (updp c (\<lambda>p. p\<lparr>p_cwd := Some ip\<rparr>))
                    (kret 0))))))))))))"

definition sys_pipe :: "(int, 'z kfile_scheme) M" where
  "sys_pipe =
     kbind (argptr 0 8) (\<lambda>r. case r of
       None \<Rightarrow> kret (- 1)
     | Some fdp \<Rightarrow>
         kbind pipealloc (\<lambda>r. case r of
           None \<Rightarrow> kret (- 1)
         | Some (rfl, wfl) \<Rightarrow>
             kbind (fdalloc rfl) (\<lambda>r0. case r0 of
               None \<Rightarrow> kseq (fileclose rfl) (kseq (fileclose wfl) (kret (- 1)))
             | Some fd0 \<Rightarrow>
                 kbind (fdalloc wfl) (\<lambda>r1. case r1 of
                   None \<Rightarrow>
                     kseq (clear_fd fd0)
                    (kseq (fileclose rfl) (kseq (fileclose wfl) (kret (- 1))))
                 | Some fd1 \<Rightarrow>
                     kseq (ustore_bytes fdp (word_bytes (of_nat fd0)))
                    (kseq (ustore_bytes (fdp + 4) (word_bytes (of_nat fd1)))
                          (kret 0))))))"

end
