(* ===== verification/Exec.thy ===== *)
theory Exec
  imports File
begin

text \<open>
  The operations that use every other part of the kernel: creating and ending processes (\<^verbatim>\<open>userinit\<close>,
  \<^verbatim>\<open>fork\<close>, \<^verbatim>\<open>exit\<close> and \<^verbatim>\<open>forkret\<close> of \<^verbatim>\<open>proc.c\<close>), loading a program (\<^verbatim>\<open>loaduvm\<close> of \<^verbatim>\<open>vm.c\<close> and
  \<^verbatim>\<open>exec.c\<close>), and the entry of the kernel (\<^verbatim>\<open>syscall\<close> of \<^verbatim>\<open>syscall.c\<close> and \<^verbatim>\<open>trap\<close> of \<^verbatim>\<open>trap.c\<close>).
\<close>

section \<open>Processes\<close>

definition ROOTDEV :: uint where "ROOTDEV = 1"

text \<open>\<open>forkret_first\<close> is the static variable of \<^verbatim>\<open>forkret\<close>.\<close>

record ksys = kfile +
  forkret_first :: bool

definition kstore32 :: "uint \<Rightarrow> uint \<Rightarrow> (unit, 'z kmem_scheme) M" where
  "kstore32 a v = kmod (\<lambda>s. s\<lparr>mem := store32 (mem s) a v\<rparr>)"

definition kstore16 :: "uint \<Rightarrow> ushort \<Rightarrow> (unit, 'z kmem_scheme) M" where
  "kstore16 a v = kmod (\<lambda>s. s\<lparr>mem := store_bytes (mem s) a (half_bytes v)\<rparr>)"

definition TF_ES :: uint where "TF_ES = 40"
definition TF_DS :: uint where "TF_DS = 44"
definition TF_EFLAGS :: uint where "TF_EFLAGS = 64"
definition TF_SS :: uint where "TF_SS = 72"

definition SEG_UCODE :: ushort where "SEG_UCODE = 3"
definition SEG_UDATA :: ushort where "SEG_UDATA = 4"
definition DPL_USER :: ushort where "DPL_USER = 3"
definition FL_IF :: uint where "FL_IF = 0x200"

text \<open>\<open>initcode\<close> is the image that the linker includes.  A failing \<^verbatim>\<open>allocproc\<close> is dereferenced.\<close>

definition userinit :: "uchar list \<Rightarrow> (unit, 'z ksys_scheme) M" where
  "userinit initcode =
     kbind allocproc (\<lambda>r.
     kseq (kmod (\<lambda>s. s\<lparr>ptable := (ptable s)\<lparr>initproc := r\<rparr>\<rparr>))
    (kbind (kopt r) (\<lambda>i.
     kbind setupkvm (\<lambda>d.
     kseq (updp i (\<lambda>p. p\<lparr>p_pgdir := d\<rparr>))
    (if d = 0 then kpanic ''userinit: out of memory?''
     else
       kseq (inituvm d initcode)
      (kseq (updp i (\<lambda>p. p\<lparr>p_sz := PGSIZE\<rparr>))
      (kbind (getp i) (\<lambda>p.
       (let tf = p_tf p; ds = push_bit 3 SEG_UDATA OR DPL_USER in
        kseq (kmod (\<lambda>s. s\<lparr>mem := memset (mem s) tf 0 TF_SIZE\<rparr>))
       (kseq (kstore16 (tf + TF_CS) (push_bit 3 SEG_UCODE OR DPL_USER))
       (kseq (kstore16 (tf + TF_DS) ds)
       (kseq (kstore16 (tf + TF_ES) ds)
       (kseq (kstore16 (tf + TF_SS) ds)
       (kseq (kstore32 (tf + TF_EFLAGS) FL_IF)
       (kseq (kstore32 (tf + TF_ESP) PGSIZE)
       (kseq (kstore32 (tf + TF_EIP) 0)
       (kbind (kopt (safestrcpy (p_name p) (lit ''initcode'' @ [0]) 16)) (\<lambda>nm.
        kseq (updp i (\<lambda>p. p\<lparr>p_name := nm\<rparr>))
       (kbind (namei (lit ''/'' @ [0])) (\<lambda>cwd.
        kseq (updp i (\<lambda>p. p\<lparr>p_cwd := cwd\<rparr>))
       (kseq (acquire PtableLock)
       (kseq (updp i (\<lambda>p. p\<lparr>p_state := RUNNABLE\<rparr>))
             (release PtableLock)))))))))))))))))))))))"

text \<open>The loop of \<^verbatim>\<open>fork\<close> that shares the open files.\<close>

definition fork_files :: "nat \<Rightarrow> nat \<Rightarrow> (unit, 'z kfile_scheme) M" where
  "fork_files c np =
     kfor [0..<NOFILE] (\<lambda>i.
       kbind (getp c) (\<lambda>p. case p_ofile p ! i of
         None \<Rightarrow> kret ()
       | Some f \<Rightarrow> kbind (filedup f) (\<lambda>f. updp np (\<lambda>q. q\<lparr>p_ofile := (p_ofile q)[i := Some f]\<rparr>))))"

definition fork :: "(int, 'z kfile_scheme) M" where
  "fork =
     kbind myproc (\<lambda>c.
     kbind allocproc (\<lambda>r. case r of
       None \<Rightarrow> kret (- 1)
     | Some np \<Rightarrow>
         kbind (getp c) (\<lambda>p.
         kbind (copyuvm (p_pgdir p) (p_sz p)) (\<lambda>d.
         kseq (updp np (\<lambda>q. q\<lparr>p_pgdir := d\<rparr>))
        (if d = 0 then
           kbind (getp np) (\<lambda>q.
           kseq (kfree (p_kstack q))
          (kseq (updp np (\<lambda>q. q\<lparr>p_kstack := 0\<rparr>))
          (kseq (updp np (\<lambda>q. q\<lparr>p_state := UNUSED\<rparr>))
                (kret (- 1)))))
         else
           kseq (updp np (\<lambda>q. q\<lparr>p_sz := p_sz p\<rparr>))
          (kseq (updp np (\<lambda>q. q\<lparr>p_parent := Some c\<rparr>))
          (kbind (getp np) (\<lambda>q.
           kseq (kmod (\<lambda>s. s\<lparr>mem := store_bytes (mem s) (p_tf q) (load_bytes (mem s) (p_tf p) (unat TF_SIZE))\<rparr>))
          (kseq (kstore32 (p_tf q + TF_EAX) 0)
          (kseq (fork_files c np)
          (kbind (kopt (p_cwd p)) (\<lambda>cwd.
           kbind (idup cwd) (\<lambda>cwd.
           kseq (updp np (\<lambda>q. q\<lparr>p_cwd := Some cwd\<rparr>))
          (kbind (kopt (safestrcpy (p_name q) (p_name p) 16)) (\<lambda>nm.
           kseq (updp np (\<lambda>q. q\<lparr>p_name := nm\<rparr>))
          (kseq (updp np (\<lambda>q. q\<lparr>p_priority := p_priority p\<rparr>))
          (kseq (acquire PtableLock)
          (kseq (updp np (\<lambda>q. q\<lparr>p_state := RUNNABLE\<rparr>))
          (kseq (release PtableLock)
                (kret (p_pid q)))))))))))))))))))))"

definition exit_files :: "nat \<Rightarrow> (unit, 'z kfile_scheme) M" where
  "exit_files c =
     kfor [0..<NOFILE] (\<lambda>fd.
       kbind (getp c) (\<lambda>p. case p_ofile p ! fd of
         None \<Rightarrow> kret ()
       | Some f \<Rightarrow>
           kseq (fileclose f) (updp c (\<lambda>p. p\<lparr>p_ofile := (p_ofile p)[fd := None]\<rparr>))))"

text \<open>\<^verbatim>\<open>wakeup1\<close> of a process pointer; a null pointer is the channel of no sleeping process.\<close>

definition wakeup1_proc :: "nat option \<Rightarrow> (unit, 'z kproc_scheme) M" where
  "wakeup1_proc q = (case q of
     Some i \<Rightarrow> wakeup1 (ChProc i)
   | None \<Rightarrow>
       kmod (\<lambda>s. s\<lparr>ptable := (ptable s)\<lparr>procs :=
         map (\<lambda>p. if p_state p = SLEEPING \<and> p_chan p = None then p\<lparr>p_state := RUNNABLE\<rparr> else p)
           (procs (ptable s))\<rparr>\<rparr>))"

definition exit_children :: "nat \<Rightarrow> (unit, 'z kproc_scheme) M" where
  "exit_children c =
     kfor [0..<NPROC] (\<lambda>i.
       kbind (getp i) (\<lambda>p.
       kwhen (p_parent p = Some c)
         (kbind (kget (\<lambda>s. initproc (ptable s))) (\<lambda>ini.
          kseq (updp i (\<lambda>p. p\<lparr>p_parent := ini\<rparr>))
               (kwhen (p_state p = ZOMBIE) (wakeup1_proc ini))))))"

definition exit :: "('a, 'z kfile_scheme) M" where
  "exit =
     kbind myproc (\<lambda>c.
     kbind (kget (\<lambda>s. initproc (ptable s))) (\<lambda>ini.
     if ini = Some c then kpanic ''init exiting''
     else
       kbind (kget ticks) (\<lambda>now.
       kseq (updp c (\<lambda>p. p\<lparr>p_turnaround_time := now - p_creation_time p\<rparr>))
      (kbind (getp c) (\<lambda>p.
       kseq (cprintf (''Process %d exited: wait_time=%d, run_time=%d, turnaround_time=%d'' @ [CHR 0x0A])
               [ArgU (of_int (p_pid p)), ArgU (p_wait_time p), ArgU (p_run_time p), ArgU (p_turnaround_time p)])
      (kseq (exit_files c)
      (kseq begin_op
      (kbind (getp c) (\<lambda>p.
       kbind (kopt (p_cwd p)) (\<lambda>cwd.
       kseq (iput cwd)
      (kseq end_op
      (kseq (updp c (\<lambda>p. p\<lparr>p_cwd := None\<rparr>))
      (kseq (acquire PtableLock)
      (kseq (wakeup1_proc (p_parent p))
      (kseq (exit_children c)
      (kseq (updp c (\<lambda>p. p\<lparr>p_state := ZOMBIE\<rparr>))
             sched))))))))))))))))"

definition forkret :: "(unit, 'z ksys_scheme) M" where
  "forkret =
     kseq (release PtableLock)
    (kbind (kget forkret_first) (\<lambda>first.
     kwhen first
       (kseq (kmod (\<lambda>s. s\<lparr>forkret_first := False\<rparr>))
       (kseq (iinit ROOTDEV)
             (initlog ROOTDEV)))))"

section \<open>Loading a program\<close>

function loaduvm_loop :: "uint \<Rightarrow> uint \<Rightarrow> nat \<Rightarrow> uint \<Rightarrow> uint \<Rightarrow> uint \<Rightarrow> (int, 'z kfs_scheme) M" where
  "loaduvm_loop pgdir addr ip offset sz i =
     (if i < sz then
        kbind (walkpgdir pgdir (addr + i) False) (\<lambda>pte.
        if pte = 0 then kpanic ''loaduvm: address should exist''
        else
          kbind (kget (\<lambda>s. PTE_ADDR (load32 (mem s) pte))) (\<lambda>pa.
          let n = (if sz - i < PGSIZE then sz - i else PGSIZE) in
          kbind (readi ip (offset + i) n) (\<lambda>r. case r of
            None \<Rightarrow> kret (- 1)
          | Some bs \<Rightarrow>
              kseq (kmod (\<lambda>s. s\<lparr>mem := store_bytes (mem s) (P2V pa) bs\<rparr>))
             (if of_nat (length bs) \<noteq> n then kret (- 1)
              else if i < i + PGSIZE then loaduvm_loop pgdir addr ip offset sz (i + PGSIZE)
              else kundef))))
      else kret 0)"
  by pat_completeness auto
termination
  by (relation "measure (\<lambda>(pgdir, addr, ip, offset, sz, i). unat sz - unat i)")
     (auto simp: word_less_nat_alt)

declare loaduvm_loop.simps [simp del]

definition loaduvm :: "uint \<Rightarrow> uint \<Rightarrow> nat \<Rightarrow> uint \<Rightarrow> uint \<Rightarrow> (int, 'z kfs_scheme) M" where
  "loaduvm pgdir addr ip offset sz =
     (if addr mod PGSIZE \<noteq> 0 then kpanic ''loaduvm: addr must be page aligned''
      else loaduvm_loop pgdir addr ip offset sz 0)"

definition ELF_MAGIC :: uint where "ELF_MAGIC = 0x464C457F"
definition ELF_PROG_LOAD :: uint where "ELF_PROG_LOAD = 1"
definition ELFHDR_SIZE :: nat where "ELFHDR_SIZE = 52"
definition PROGHDR_SIZE :: nat where "PROGHDR_SIZE = 32"

record elfhdr =
  e_magic :: uint
  e_entry :: uint
  e_phoff :: uint
  e_phnum :: ushort

record proghdr =
  ph_type :: uint
  ph_off :: uint
  ph_vaddr :: uint
  ph_filesz :: uint
  ph_memsz :: uint

definition elfhdr_of :: "uchar list \<Rightarrow> elfhdr" where
  "elfhdr_of d = \<lparr>e_magic = rd32 d 0, e_entry = rd32 d 24, e_phoff = rd32 d 28, e_phnum = rd16 d 44\<rparr>"

definition proghdr_of :: "uchar list \<Rightarrow> proghdr" where
  "proghdr_of d = \<lparr>ph_type = rd32 d 0, ph_off = rd32 d 4, ph_vaddr = rd32 d 8, ph_filesz = rd32 d 16,
     ph_memsz = rd32 d 20\<rparr>"

text \<open>The checks of a program header that come before its pages are allocated.\<close>

definition ph_ok :: "proghdr \<Rightarrow> bool" where
  "ph_ok ph \<longleftrightarrow> \<not> ph_memsz ph < ph_filesz ph \<and> \<not> ph_vaddr ph + ph_memsz ph < ph_vaddr ph"

text \<open>The loop over the program headers; \<open>None\<close> is the jump to \<^verbatim>\<open>bad\<close>.\<close>

primrec exec_load :: "nat \<Rightarrow> uint \<Rightarrow> nat \<Rightarrow> uint \<Rightarrow> uint \<Rightarrow> (uint option, 'z kfs_scheme) M" where
  "exec_load 0 pgdir ip off sz = kret (Some sz)"
| "exec_load (Suc k) pgdir ip off sz =
     kbind (readi ip off (of_nat PROGHDR_SIZE)) (\<lambda>r. case r of
       None \<Rightarrow> kret None
     | Some bs \<Rightarrow>
         if length bs \<noteq> PROGHDR_SIZE then kret None
         else
           (let ph = proghdr_of bs; off' = off + of_nat PROGHDR_SIZE in
            if ph_type ph \<noteq> ELF_PROG_LOAD then exec_load k pgdir ip off' sz
            else if \<not> ph_ok ph then kret None
            else
              kbind (allocuvm pgdir sz (ph_vaddr ph + ph_memsz ph)) (\<lambda>sz'.
              if sz' = 0 then kret None
              else if ph_vaddr ph mod PGSIZE \<noteq> 0 then kret None
              else
                kbind (loaduvm pgdir (ph_vaddr ph) ip (ph_off ph) (ph_filesz ph)) (\<lambda>r.
                if r < 0 then kret None else exec_load k pgdir ip off' sz'))))"

text \<open>
  Pushing the argument strings: the stack pointer and the addresses of the strings pushed so far; \<open>None\<close>
  is the jump to \<^verbatim>\<open>bad\<close>.
\<close>

primrec exec_args :: "uint \<Rightarrow> uchar list list \<Rightarrow> uint \<Rightarrow> uint list \<Rightarrow> ((uint \<times> uint list) option, 'z kmem_scheme) M" where
  "exec_args pgdir [] sp us = kret (Some (sp, us))"
| "exec_args pgdir (a # as) sp us =
     (if length us \<ge> MAXARG then kret None
      else
        (let sp' = (sp - (of_nat (length a) + 1)) AND NOT 3 in
         kbind (copyout pgdir sp' (a @ [0])) (\<lambda>r.
         if r < 0 then kret None else exec_args pgdir as sp' (us @ [sp']))))"

text \<open>The words below the strings: a fake return address, \<^verbatim>\<open>argc\<close>, \<^verbatim>\<open>argv\<close>, and the array \<^verbatim>\<open>argv[]\<close>.\<close>

definition ustack :: "uint \<Rightarrow> uint list \<Rightarrow> uint list" where
  "ustack sp us = [0xffffffff, of_nat (length us), sp - (of_nat (length us) + 1) * 4] @ us @ [0]"

text \<open>The part of a path after its last slash.\<close>

fun path_last :: "uchar list \<Rightarrow> uchar list \<Rightarrow> uchar list" where
  "path_last [] lst = lst"
| "path_last (c # s) lst =
     (if c = 0 then lst else path_last s (if c = 47 then s else lst))"

definition exec_bad :: "uint \<Rightarrow> nat option \<Rightarrow> (int, 'z kfs_scheme) M" where
  "exec_bad pgdir ip =
     kseq (kwhen (pgdir \<noteq> 0) (freevm pgdir))
    (kseq (case ip of None \<Rightarrow> kret () | Some i \<Rightarrow> kseq (iunlockput i) end_op)
          (kret (- 1)))"

text \<open>The second half of \<^verbatim>\<open>exec\<close>: the stack, and the commit to the new image.\<close>

definition exec_stack :: "nat \<Rightarrow> uchar list \<Rightarrow> uchar list list \<Rightarrow> elfhdr \<Rightarrow> uint \<Rightarrow> uint \<Rightarrow> (int, 'z kfs_scheme) M" where
  "exec_stack c path argv elf pgdir sz0 =
     (let sz1 = PGROUNDUP sz0 in
      kbind (allocuvm pgdir sz1 (sz1 + 2 * PGSIZE)) (\<lambda>sz.
      if sz = 0 then exec_bad pgdir None
      else
        kseq (clearpteu pgdir (sz - 2 * PGSIZE))
       (kbind (exec_args pgdir argv sz []) (\<lambda>r. case r of
          None \<Rightarrow> exec_bad pgdir None
        | Some (sp, us) \<Rightarrow>
            (let sp' = sp - (3 + of_nat (length us) + 1) * 4 in
             kbind (copyout pgdir sp' (concat (map word_bytes (ustack sp us)))) (\<lambda>r.
             if r < 0 then exec_bad pgdir None
             else
               kbind (getp c) (\<lambda>p.
               kbind (kopt (safestrcpy (p_name p) (path_last path path) 16)) (\<lambda>nm.
               kseq (updp c (\<lambda>p. p\<lparr>p_name := nm\<rparr>))
              (kseq (updp c (\<lambda>p. p\<lparr>p_pgdir := pgdir, p_sz := sz\<rparr>))
              (kseq (kstore32 (p_tf p + TF_EIP) (e_entry elf))
              (kseq (kstore32 (p_tf p + TF_ESP) sp')
              (kseq (switchuvm c)
              (kseq (freevm (p_pgdir p))
                    (kret 0))))))))))))))"

definition exec :: "uchar list \<Rightarrow> uchar list list \<Rightarrow> (int, 'z kfs_scheme) M" where
  "exec path argv =
     kbind myproc (\<lambda>c.
     kseq begin_op
    (kbind (namei path) (\<lambda>r. case r of
       None \<Rightarrow> kseq end_op (kseq (cprintf (''exec: fail'' @ [CHR 0x0A]) []) (kret (- 1)))
     | Some ip \<Rightarrow>
         kseq (ilock (Some ip))
        (kbind (readi ip 0 (of_nat ELFHDR_SIZE)) (\<lambda>r. case r of
           None \<Rightarrow> exec_bad 0 (Some ip)
         | Some bs \<Rightarrow>
             if length bs \<noteq> ELFHDR_SIZE \<or> e_magic (elfhdr_of bs) \<noteq> ELF_MAGIC then exec_bad 0 (Some ip)
             else
               kbind setupkvm (\<lambda>pgdir.
               if pgdir = 0 then exec_bad 0 (Some ip)
               else
                 kbind (exec_load (unat (e_phnum (elfhdr_of bs))) pgdir ip (e_phoff (elfhdr_of bs)) 0) (\<lambda>r. case r of
                   None \<Rightarrow> exec_bad pgdir (Some ip)
                 | Some sz \<Rightarrow>
                     kseq (iunlockput ip)
                    (kseq end_op
                          (exec_stack c path argv (elfhdr_of bs) pgdir sz)))))))))"

text \<open>Fetching the argument vector of \<^verbatim>\<open>sys_exec\<close>, with \<open>k\<close> entries of it left from number \<open>i\<close> on.\<close>

primrec fetch_argv :: "nat \<Rightarrow> uint \<Rightarrow> uint \<Rightarrow> (uchar list list option, 'z kproc_scheme) M" where
  "fetch_argv 0 uargv i = kret None"
| "fetch_argv (Suc k) uargv i =
     kbind (fetchint (uargv + 4 * i)) (\<lambda>r. case r of
       None \<Rightarrow> kret None
     | Some uarg \<Rightarrow>
         if uarg = 0 then kret (Some [])
         else
           kbind (fetchstr uarg) (\<lambda>r. case r of
             None \<Rightarrow> kret None
           | Some a \<Rightarrow> kbind (fetch_argv k uargv (i + 1)) (\<lambda>r. kret (map_option (Cons a) r))))"

definition sys_exec :: "(int, 'z kfs_scheme) M" where
  "sys_exec =
     kbind (argstr 0) (\<lambda>r. case r of
       None \<Rightarrow> kret (- 1)
     | Some path \<Rightarrow>
         kbind (argint 1) (\<lambda>r. case r of
           None \<Rightarrow> kret (- 1)
         | Some uargv \<Rightarrow>
             kbind (fetch_argv MAXARG uargv 0) (\<lambda>r. case r of
               None \<Rightarrow> kret (- 1)
             | Some argv \<Rightarrow> exec (path @ [0]) argv)))"

section \<open>The entry of the kernel\<close>

definition sys_fork :: "(int, 'z kfile_scheme) M" where
  "sys_fork = fork"

definition sys_exit :: "(int, 'z kfile_scheme) M" where
  "sys_exit = exit"

definition NSYSCALLS :: int where "NSYSCALLS = 26"

text \<open>The table of the system calls; \<open>tmp\<close> is the uninitialised buffer of \<^verbatim>\<open>sys_getprocs\<close>.\<close>

definition syscalls :: "uchar list \<Rightarrow> int \<Rightarrow> (int, 'z kfile_scheme) M option" where
  "syscalls tmp num =
     (if num = 1 then Some sys_fork else if num = 2 then Some sys_exit
      else if num = 3 then Some sys_wait else if num = 4 then Some sys_pipe
      else if num = 5 then Some sys_read else if num = 6 then Some sys_kill
      else if num = 7 then Some sys_exec else if num = 8 then Some sys_fstat
      else if num = 9 then Some sys_chdir else if num = 10 then Some sys_dup
      else if num = 11 then Some sys_getpid else if num = 12 then Some sys_sbrk
      else if num = 13 then Some sys_sleep else if num = 14 then Some sys_uptime
      else if num = 15 then Some sys_open else if num = 16 then Some sys_write
      else if num = 17 then Some sys_mknod else if num = 18 then Some sys_unlink
      else if num = 19 then Some sys_link else if num = 20 then Some sys_mkdir
      else if num = 21 then Some sys_close else if num = 22 then Some sys_wolfie
      else if num = 23 then Some (sys_getprocs tmp) else if num = 24 then Some sys_setpriority
      else if num = 25 then Some sys_getstats else None)"

definition set_eax :: "nat \<Rightarrow> int \<Rightarrow> (unit, 'z kproc_scheme) M" where
  "set_eax c v = kbind (getp c) (\<lambda>p. kstore32 (p_tf p + TF_EAX) (of_int v))"

definition syscall :: "uchar list \<Rightarrow> (unit, 'z kfile_scheme) M" where
  "syscall tmp =
     kbind myproc (\<lambda>c.
     kbind (mytf TF_EAX) (\<lambda>eax.
     let num = sint eax in
     case (if 0 < num \<and> num < NSYSCALLS then syscalls tmp num else None) of
       Some f \<Rightarrow> kbind f (set_eax c)
     | None \<Rightarrow>
         kbind (getp c) (\<lambda>p.
         kseq (cprintf (''%d %s: unknown sys call %d'' @ [CHR 0x0A])
                 [ArgU (of_int (p_pid p)), ArgS (Some (p_name p)), ArgU eax])
              (set_eax c (- 1)))))"

text \<open>
  A trap: the CPU it occurs on, the faulting address in \<^verbatim>\<open>cr2\<close>, and the characters that the keyboard and
  the serial line have for \<^verbatim>\<open>consoleintr\<close>.
\<close>

record trap_env =
  t_cpu :: nat
  t_cr2 :: uint
  t_kbd :: "int list"
  t_uart :: "int list"
  t_tmp :: "uchar list"

definition exit_if_killed :: "(unit, 'z kfile_scheme) M" where
  "exit_if_killed = kbind myproc (\<lambda>c. kbind (getp c) (\<lambda>p. kwhen (p_killed p) exit))"

text \<open>\<^verbatim>\<open>if(myproc() && myproc()->killed && (tf->cs&3) == DPL_USER) exit();\<close>\<close>

definition exit_killed_user :: "uint \<Rightarrow> (unit, 'z kfile_scheme) M" where
  "exit_killed_user cs =
     kbind (kget curproc) (\<lambda>r. case r of
       None \<Rightarrow> kret ()
     | Some c \<Rightarrow> kbind (getp c) (\<lambda>p. kwhen (p_killed p \<and> cs AND 3 = 3) exit))"

definition trap_default :: "trap_env \<Rightarrow> uint \<Rightarrow> (unit, 'z kfile_scheme) M" where
  "trap_default e tf =
     kbind (kget (\<lambda>s. load32 (mem s) (tf + TF_TRAPNO))) (\<lambda>no.
     kbind (kget (\<lambda>s. load32 (mem s) (tf + TF_CS))) (\<lambda>cs.
     kbind (kget (\<lambda>s. load32 (mem s) (tf + TF_EIP))) (\<lambda>eip.
     kbind (kget (\<lambda>s. load32 (mem s) (tf + TF_ERR))) (\<lambda>err.
     kbind (kget curproc) (\<lambda>r. case (r, cs AND 3 = 0) of
       (Some c, False) \<Rightarrow>
         kbind (getp c) (\<lambda>p.
         kseq (cprintf (''pid %d %s: trap %d err %d on cpu %d eip 0x%x addr 0x%x--kill proc'' @ [CHR 0x0A])
                 [ArgU (of_int (p_pid p)), ArgS (Some (p_name p)), ArgU no, ArgU err,
                  ArgU (of_nat (t_cpu e)), ArgU eip, ArgU (t_cr2 e)])
              (updp c (\<lambda>p. p\<lparr>p_killed := True\<rparr>)))
     | _ \<Rightarrow>
         kseq (cprintf (''unexpected trap %d from cpu %d eip %x (cr2=0x%x)'' @ [CHR 0x0A])
                 [ArgU no, ArgU (of_nat (t_cpu e)), ArgU eip, ArgU (t_cr2 e)])
              (kpanic ''trap''))))))"

definition trap_device :: "trap_env \<Rightarrow> uint \<Rightarrow> (unit, 'z kfile_scheme) M" where
  "trap_device e tf =
     kbind (kget (\<lambda>s. load32 (mem s) (tf + TF_TRAPNO))) (\<lambda>no.
     if no = 32 then kwhen (t_cpu e = 0) timer_tick
     else if no = 32 + 14 then kret ()
     else if no = 32 + 14 + 1 then kret ()
     else if no = 32 + 1 then consoleintr (t_kbd e)
     else if no = 32 + 4 then consoleintr (t_uart e)
     else if no = 32 + 7 \<or> no = 32 + 31 then
       kbind (kget (\<lambda>s. load32 (mem s) (tf + TF_CS) AND 0xFFFF)) (\<lambda>cs.
       kbind (kget (\<lambda>s. load32 (mem s) (tf + TF_EIP))) (\<lambda>eip.
       cprintf (''cpu%d: spurious interrupt at %x:%x'' @ [CHR 0x0A])
         [ArgU (of_nat (t_cpu e)), ArgU cs, ArgU eip]))
     else trap_default e tf)"

definition trap :: "trap_env \<Rightarrow> uint \<Rightarrow> (unit, 'z kfile_scheme) M" where
  "trap e tf =
     kbind (kget (\<lambda>s. load32 (mem s) (tf + TF_TRAPNO))) (\<lambda>no.
     kbind (kget (\<lambda>s. load32 (mem s) (tf + TF_CS))) (\<lambda>cs.
     if no = 64 then
       kseq exit_if_killed
      (kbind myproc (\<lambda>c.
       kseq (updp c (\<lambda>p. p\<lparr>p_tf := tf\<rparr>))
      (kseq (syscall (t_tmp e))
             exit_if_killed)))
     else
       kseq (trap_device e tf)
      (kseq (exit_killed_user cs)
      (kbind (kget curproc) (\<lambda>r. case r of
         None \<Rightarrow> kret ()
       | Some c \<Rightarrow>
           kbind (getp c) (\<lambda>p.
           if p_state p = RUNNING \<and> no = 32 then yield else exit_killed_user cs))))))"

text \<open>The end of \<^verbatim>\<open>trap\<close> when \<^verbatim>\<open>yield\<close> has returned.\<close>

definition trap_return :: "uint \<Rightarrow> (unit, 'z kfile_scheme) M" where
  "trap_return cs = kseq yield_return (exit_killed_user cs)"

end
