(* ===== verification/Devices.thy ===== *)
theory Devices
  imports Exec
begin

text \<open>
  The devices of the machine: input and output instructions (\<^verbatim>\<open>x86.h\<close>), the interrupt controllers (\<^verbatim>\<open>lapic.c\<close>, \<^verbatim>\<open>ioapic.c\<close>,
  \<^verbatim>\<open>picirq.c\<close>), the clock chip (\<^verbatim>\<open>cmostime\<close> of \<^verbatim>\<open>lapic.c\<close>) and the serial port (\<^verbatim>\<open>uart.c\<close>).

  A device is seen through its registers.  What reading a port or a memory-mapped register will return is a list in the
  state, an input of the model; what is written is appended to a trace.  Code that waits for a
  value which never comes does not return: its outcome is \<open>Undef\<close>.
\<close>

section \<open>Ports and registers\<close>

datatype io = Outb ushort uchar | Outsl ushort "uchar list" | Mmio uint uint

text \<open>
  \<open>lapic\<close> is the address of the local APIC (0 as long as it is not known), \<open>apicids\<close> the field \<^verbatim>\<open>apicid\<close> of the CPUs found, so \<^verbatim>\<open>ncpu\<close> is its length;
  \<open>disk_in\<close> are the blocks that the disk will deliver, \<open>qnext\<close> the field of this name of the buffers, and \<open>kbd_shift\<close> the
  static variable of \<^verbatim>\<open>kbdgetc\<close>.
\<close>

record kio = ksys +
  port_in :: "ushort \<Rightarrow> uchar list"
  mmio_in :: "uint \<Rightarrow> uint list"
  io_out :: "io list"
  lapic :: uint
  apicids :: "uchar list"
  ioapicid :: uchar
  havedisk1 :: bool
  disk_in :: "block list"
  idequeue :: "nat option"
  qnext :: "nat \<Rightarrow> nat option"
  kbd_shift :: uint

definition inb :: "ushort \<Rightarrow> (uchar, 'z kio_scheme) M" where
  "inb p = (\<lambda>s. case port_in s p of [] \<Rightarrow> Undef | x # xs \<Rightarrow> Ok x (s\<lparr>port_in := (port_in s)(p := xs)\<rparr>))"

definition io_log :: "io \<Rightarrow> (unit, 'z kio_scheme) M" where
  "io_log x = kmod (\<lambda>s. s\<lparr>io_out := io_out s @ [x]\<rparr>)"

definition outb :: "ushort \<Rightarrow> uchar \<Rightarrow> (unit, 'z kio_scheme) M" where
  "outb p v = io_log (Outb p v)"

definition outsl :: "ushort \<Rightarrow> uchar list \<Rightarrow> (unit, 'z kio_scheme) M" where
  "outsl p bs = io_log (Outsl p bs)"

definition insl :: "ushort \<Rightarrow> (block, 'z kio_scheme) M" where
  "insl p = (\<lambda>s. case disk_in s of [] \<Rightarrow> Undef | b # bs \<Rightarrow> Ok b (s\<lparr>disk_in := bs\<rparr>))"

definition mmio_read :: "uint \<Rightarrow> (uint, 'z kio_scheme) M" where
  "mmio_read a = (\<lambda>s. case mmio_in s a of [] \<Rightarrow> Undef | x # xs \<Rightarrow> Ok x (s\<lparr>mmio_in := (mmio_in s)(a := xs)\<rparr>))"

section \<open>Interrupt controllers\<close>

definition T_IRQ0 :: uint where "T_IRQ0 = 32"
definition IRQ_TIMER :: uint where "IRQ_TIMER = 0"
definition IRQ_KBD :: uint where "IRQ_KBD = 1"
definition IRQ_COM1 :: uint where "IRQ_COM1 = 4"
definition IRQ_IDE :: uint where "IRQ_IDE = 14"
definition IRQ_ERROR :: uint where "IRQ_ERROR = 19"
definition IRQ_SPURIOUS :: uint where "IRQ_SPURIOUS = 31"

definition picinit :: "(unit, 'z kio_scheme) M" where
  "picinit = kseq (outb 0x21 0xFF) (outb 0xA1 0xFF)"

definition IOAPIC :: uint where "IOAPIC = 0xFEC00000"
definition REG_ID :: uint where "REG_ID = 0"
definition REG_VER :: uint where "REG_VER = 1"
definition REG_TABLE :: uint where "REG_TABLE = 0x10"
definition INT_DISABLED :: uint where "INT_DISABLED = 0x10000"

text \<open>The register that \<^verbatim>\<open>ioapic->data\<close> stands for is selected by the write before.\<close>

definition ioapicread :: "uint \<Rightarrow> (uint, 'z kio_scheme) M" where
  "ioapicread reg = kseq (io_log (Mmio IOAPIC reg)) (mmio_read (IOAPIC + 16))"

definition ioapicwrite :: "uint \<Rightarrow> uint \<Rightarrow> (unit, 'z kio_scheme) M" where
  "ioapicwrite reg data = kseq (io_log (Mmio IOAPIC reg)) (io_log (Mmio (IOAPIC + 16) data))"

definition ioapicinit :: "(unit, 'z kio_scheme) M" where
  "ioapicinit =
     kbind (ioapicread REG_VER) (\<lambda>v.
     kbind (ioapicread REG_ID) (\<lambda>w.
     kbind (kget ioapicid) (\<lambda>n.
     kseq (kwhen (drop_bit 24 w \<noteq> ucast n) (cprintf (''ioapicinit: id isn'' @ [CHR 0x27] @ ''t equal to ioapicid; not a MP'' @ [CHR 0x0A]) []))
          (kfor [0..<Suc (unat (drop_bit 16 v AND 0xFF))] (\<lambda>i.
             kseq (ioapicwrite (REG_TABLE + 2 * of_nat i) (INT_DISABLED OR (T_IRQ0 + of_nat i)))
                  (ioapicwrite (REG_TABLE + 2 * of_nat i + 1) 0))))))"

definition ioapicenable :: "uint \<Rightarrow> uint \<Rightarrow> (unit, 'z kio_scheme) M" where
  "ioapicenable irq cpunum =
     kseq (ioapicwrite (REG_TABLE + 2 * irq) (T_IRQ0 + irq))
          (ioapicwrite (REG_TABLE + 2 * irq + 1) (push_bit 24 cpunum))"

text \<open>Registers of the local APIC, as indices of words.\<close>

definition LA_ID :: uint where "LA_ID = 0x20 div 4"
definition LA_VER :: uint where "LA_VER = 0x30 div 4"
definition LA_TPR :: uint where "LA_TPR = 0x80 div 4"
definition LA_EOI :: uint where "LA_EOI = 0xB0 div 4"
definition LA_SVR :: uint where "LA_SVR = 0xF0 div 4"
definition LA_ESR :: uint where "LA_ESR = 0x280 div 4"
definition LA_ICRLO :: uint where "LA_ICRLO = 0x300 div 4"
definition LA_ICRHI :: uint where "LA_ICRHI = 0x310 div 4"
definition LA_TIMER :: uint where "LA_TIMER = 0x320 div 4"
definition LA_PCINT :: uint where "LA_PCINT = 0x340 div 4"
definition LA_LINT0 :: uint where "LA_LINT0 = 0x350 div 4"
definition LA_LINT1 :: uint where "LA_LINT1 = 0x360 div 4"
definition LA_ERROR :: uint where "LA_ERROR = 0x370 div 4"
definition LA_TICR :: uint where "LA_TICR = 0x380 div 4"
definition LA_TDCR :: uint where "LA_TDCR = 0x3E0 div 4"
definition LA_ENABLE :: uint where "LA_ENABLE = 0x100"
definition LA_INIT :: uint where "LA_INIT = 0x500"
definition LA_STARTUP :: uint where "LA_STARTUP = 0x600"
definition LA_DELIVS :: uint where "LA_DELIVS = 0x1000"
definition LA_ASSERT :: uint where "LA_ASSERT = 0x4000"
definition LA_LEVEL :: uint where "LA_LEVEL = 0x8000"
definition LA_BCAST :: uint where "LA_BCAST = 0x80000"
definition LA_X1 :: uint where "LA_X1 = 0xB"
definition LA_PERIODIC :: uint where "LA_PERIODIC = 0x20000"
definition LA_MASKED :: uint where "LA_MASKED = 0x10000"

text \<open>The read of the identifier after the write only waits, its value is not used.\<close>

definition lapicw :: "uint \<Rightarrow> uint \<Rightarrow> (unit, 'z kio_scheme) M" where
  "lapicw index val = kbind (kget lapic) (\<lambda>a. io_log (Mmio (a + 4 * index) val))"

definition lapicr :: "uint \<Rightarrow> (uint, 'z kio_scheme) M" where
  "lapicr index = kbind (kget lapic) (\<lambda>a. mmio_read (a + 4 * index))"

function lapic_wait :: "(unit, 'z kio_scheme) M" where
  "lapic_wait s = (case lapicr LA_ICRLO s of
     Ok v t \<Rightarrow> if v AND LA_DELIVS \<noteq> 0 then lapic_wait t else Ok () t
   | Panic e \<Rightarrow> Panic e | Swtch t \<Rightarrow> Swtch t | Undef \<Rightarrow> Undef)"
  by pat_completeness auto
termination
  by (relation "measure (\<lambda>s. length (mmio_in s (lapic s + 4 * LA_ICRLO)))")
     (auto simp: lapicr_def mmio_read_def krun split: list.splits)

declare lapic_wait.simps [simp del]

definition lapicinit :: "(unit, 'z kio_scheme) M" where
  "lapicinit =
     kbind (kget lapic) (\<lambda>a.
     if a = 0 then kret ()
     else
       kseq (lapicw LA_SVR (LA_ENABLE OR (T_IRQ0 + IRQ_SPURIOUS)))
      (kseq (lapicw LA_TDCR LA_X1)
      (kseq (lapicw LA_TIMER (LA_PERIODIC OR (T_IRQ0 + IRQ_TIMER)))
      (kseq (lapicw LA_TICR 10000000)
      (kseq (lapicw LA_LINT0 LA_MASKED)
      (kseq (lapicw LA_LINT1 LA_MASKED)
      (kbind (lapicr LA_VER) (\<lambda>v.
       kseq (kwhen (drop_bit 16 v AND 0xFF \<ge> 4) (lapicw LA_PCINT LA_MASKED))
      (kseq (lapicw LA_ERROR (T_IRQ0 + IRQ_ERROR))
      (kseq (lapicw LA_ESR 0)
      (kseq (lapicw LA_ESR 0)
      (kseq (lapicw LA_EOI 0)
      (kseq (lapicw LA_ICRHI 0)
      (kseq (lapicw LA_ICRLO (LA_BCAST OR LA_INIT OR LA_LEVEL))
      (kseq lapic_wait
            (lapicw LA_TPR 0))))))))))))))))"

definition lapicid :: "(int, 'z kio_scheme) M" where
  "lapicid =
     kbind (kget lapic) (\<lambda>a.
     if a = 0 then kret 0 else kbind (lapicr LA_ID) (\<lambda>v. kret (uint (drop_bit 24 v))))"

definition lapiceoi :: "(unit, 'z kio_scheme) M" where
  "lapiceoi = kbind (kget lapic) (\<lambda>a. kwhen (a \<noteq> 0) (lapicw LA_EOI 0))"

text \<open>The body of \<^verbatim>\<open>microdelay\<close> is empty.\<close>

definition microdelay :: "int \<Rightarrow> (unit, 'z kio_scheme) M" where
  "microdelay us = kret ()"

definition CMOS_PORT :: ushort where "CMOS_PORT = 0x70"
definition CMOS_RETURN :: ushort where "CMOS_RETURN = 0x71"

definition lapicstartap :: "uchar \<Rightarrow> uint \<Rightarrow> (unit, 'z kio_scheme) M" where
  "lapicstartap apicid addr =
     (let wrv = P2V (push_bit 4 0x40 OR 0x67) in
      kseq (outb CMOS_PORT 0xF)
     (kseq (outb (CMOS_PORT + 1) 0x0A)
     (kseq (kstore16 wrv 0)
     (kseq (kstore16 (wrv + 2) (ucast (drop_bit 4 addr)))
     (kseq (lapicw LA_ICRHI (push_bit 24 (ucast apicid)))
     (kseq (lapicw LA_ICRLO (LA_INIT OR LA_LEVEL OR LA_ASSERT))
     (kseq (microdelay 200)
     (kseq (lapicw LA_ICRLO (LA_INIT OR LA_LEVEL))
     (kseq (microdelay 100)
           (kfor [0..<(2::nat)] (\<lambda>i.
              kseq (lapicw LA_ICRHI (push_bit 24 (ucast apicid)))
             (kseq (lapicw LA_ICRLO (LA_STARTUP OR drop_bit 12 addr))
                   (microdelay 200)))))))))))))"

section \<open>The clock chip\<close>

definition CMOS_STATA :: uint where "CMOS_STATA = 0x0a"
definition CMOS_STATB :: uint where "CMOS_STATB = 0x0b"
definition CMOS_UIP :: uint where "CMOS_UIP = 0x80"

record rtcdate =
  rtc_second :: uint
  rtc_minute :: uint
  rtc_hour :: uint
  rtc_day :: uint
  rtc_month :: uint
  rtc_year :: uint

definition cmos_read :: "uint \<Rightarrow> (uint, 'z kio_scheme) M" where
  "cmos_read reg =
     kseq (outb CMOS_PORT (ucast reg))
    (kseq (microdelay 200)
    (kbind (inb CMOS_RETURN) (\<lambda>v. kret (ucast v))))"

definition fill_rtcdate :: "(rtcdate, 'z kio_scheme) M" where
  "fill_rtcdate =
     kbind (cmos_read 0x00) (\<lambda>sec.
     kbind (cmos_read 0x02) (\<lambda>min.
     kbind (cmos_read 0x04) (\<lambda>h.
     kbind (cmos_read 0x07) (\<lambda>d.
     kbind (cmos_read 0x08) (\<lambda>mon.
     kbind (cmos_read 0x09) (\<lambda>y.
     kret \<lparr>rtc_second = sec, rtc_minute = min, rtc_hour = h, rtc_day = d, rtc_month = mon, rtc_year = y\<rparr>))))))"

text \<open>One round of the loop: \<open>None\<close> when the date has to be read again.\<close>

definition cmos_round :: "(rtcdate option, 'z kio_scheme) M" where
  "cmos_round =
     kbind fill_rtcdate (\<lambda>t1.
     kbind (cmos_read CMOS_STATA) (\<lambda>a.
     if a AND CMOS_UIP \<noteq> 0 then kret None
     else kbind fill_rtcdate (\<lambda>t2. kret (if t1 = t2 then Some t1 else None))))"

lemma cmos_read_uses:
  "cmos_read r s = Ok x t \<Longrightarrow> \<exists>b. port_in s CMOS_RETURN = b # port_in t CMOS_RETURN \<and> x = ucast b"
  by (auto simp: cmos_read_def microdelay_def outb_def io_log_def inb_def krun split: list.splits)

lemma cmos_round_uses:
  assumes "cmos_round s = Ok r t"
  shows "length (port_in t CMOS_RETURN) < length (port_in s CMOS_RETURN)"
proof -
  have read: "length (port_in t CMOS_RETURN) < length (port_in s CMOS_RETURN)" if "cmos_read r s = Ok x t"
    for r x and s t :: "'a kio_scheme"
    using cmos_read_uses [OF that] by auto
  have fill: "length (port_in t CMOS_RETURN) < length (port_in s CMOS_RETURN)" if "fill_rtcdate s = Ok x t"
    for x and s t :: "'a kio_scheme"
    using that by (auto simp: fill_rtcdate_def krun dest!: read split: outcome.splits)
  show ?thesis using assms
    by (auto simp: cmos_round_def krun dest!: fill read split: outcome.splits if_splits)
qed

function cmos_loop :: "(rtcdate, 'z kio_scheme) M" where
  "cmos_loop s = (case cmos_round s of
     Ok None t \<Rightarrow> cmos_loop t
   | Ok (Some r) t \<Rightarrow> Ok r t
   | Panic e \<Rightarrow> Panic e | Swtch t \<Rightarrow> Swtch t | Undef \<Rightarrow> Undef)"
  by pat_completeness auto
termination
  by (relation "measure (\<lambda>s. length (port_in s CMOS_RETURN))") (auto dest: cmos_round_uses)

declare cmos_loop.simps [simp del]

definition CONV :: "uint \<Rightarrow> uint" where
  "CONV x = drop_bit 4 x * 10 + (x AND 0xf)"

definition cmostime :: "(rtcdate, 'z kio_scheme) M" where
  "cmostime =
     kbind (cmos_read CMOS_STATB) (\<lambda>sb.
     kbind cmos_loop (\<lambda>t.
     let t = (if sb AND push_bit 2 1 = 0 then
                \<lparr>rtc_second = CONV (rtc_second t), rtc_minute = CONV (rtc_minute t), rtc_hour = CONV (rtc_hour t),
                 rtc_day = CONV (rtc_day t), rtc_month = CONV (rtc_month t), rtc_year = CONV (rtc_year t)\<rparr>
              else t)
     in kret (t\<lparr>rtc_year := rtc_year t + 2000\<rparr>)))"

section \<open>The serial port\<close>

definition COM1 :: ushort where "COM1 = 0x3f8"

definition uartinit :: "(unit, 'z kio_scheme) M" where
  "uartinit =
     kseq (outb (COM1 + 2) 0)
    (kseq (outb (COM1 + 3) 0x80)
    (kseq (outb (COM1 + 0) (115200 div 9600))
    (kseq (outb (COM1 + 1) 0)
    (kseq (outb (COM1 + 3) 0x03)
    (kseq (outb (COM1 + 4) 0)
    (kseq (outb (COM1 + 1) 0x01)
    (kbind (inb (COM1 + 5)) (\<lambda>st.
     if st = 0xFF then kret ()
     else
       kseq (kmod (\<lambda>s. s\<lparr>con := (con s)\<lparr>uart := True\<rparr>\<rparr>))
      (kbind (inb (COM1 + 2)) (\<lambda>_.
       kbind (inb (COM1 + 0)) (\<lambda>_.
       kseq (ioapicenable IRQ_COM1 0)
            (kfor (map (\<lambda>c. int (of_char c)) (''xv6...'' @ [CHR 0x0A])) (\<lambda>c.
               kmod (\<lambda>s. s\<lparr>con := uartputc c (con s)\<rparr>))))))))))))))"

definition uartgetc :: "(int, 'z kio_scheme) M" where
  "uartgetc =
     kbind (kget (\<lambda>s. uart (con s))) (\<lambda>u.
     if \<not> u then kret (- 1)
     else
       kbind (inb (COM1 + 5)) (\<lambda>st.
       if st AND 0x01 = 0 then kret (- 1) else kbind (inb (COM1 + 0)) (\<lambda>c. kret (uint c))))"

text \<open>
  An interrupt handler passes its function to \<^verbatim>\<open>consoleintr\<close>, which calls it until it returns a negative value.  The function touches
  only the state of its device, so the values can be collected first.
\<close>

function uart_drain :: "(int list, 'z kio_scheme) M" where
  "uart_drain s = (case uartgetc s of
     Ok c t \<Rightarrow> if c < 0 then Ok [] t
       else (case uart_drain t of
           Ok cs u \<Rightarrow> Ok (c # cs) u | Panic e \<Rightarrow> Panic e | Swtch u \<Rightarrow> Swtch u | Undef \<Rightarrow> Undef)
   | Panic e \<Rightarrow> Panic e | Swtch t \<Rightarrow> Swtch t | Undef \<Rightarrow> Undef)"
  by pat_completeness auto
termination
  by (relation "measure (\<lambda>s. length (port_in s (COM1 + 5)))")
     (auto simp: uartgetc_def inb_def krun COM1_def split: list.splits outcome.splits if_splits)

declare uart_drain.simps [simp del]

definition uartintr :: "(unit, 'z kio_scheme) M" where
  "uartintr = kbind uart_drain consoleintr"

section \<open>The date is not torn\<close>

text \<open>The six bytes of a date, and the rounds of the loop that do not end it: an update is in progress, or the date has changed.\<close>

definition date_of :: "uchar list \<Rightarrow> rtcdate" where
  "date_of d = \<lparr>rtc_second = ucast (d ! 0), rtc_minute = ucast (d ! 1), rtc_hour = ucast (d ! 2),
     rtc_day = ucast (d ! 3), rtc_month = ucast (d ! 4), rtc_year = ucast (d ! 5)\<rparr>"

definition bad_round :: "uchar list \<Rightarrow> bool" where
  "bad_round bs \<longleftrightarrow> length bs = 7 \<and> bs ! 6 AND 0x80 \<noteq> 0
     \<or> length bs = 13 \<and> bs ! 6 AND 0x80 = 0 \<and> take 6 bs \<noteq> drop 7 bs"

definition bcd :: "nat \<Rightarrow> uchar" where
  "bcd n = of_nat (16 * (n div 10) + n mod 10)"

lemma cmos_read_run:
  assumes "port_in s CMOS_RETURN = b # bs"
  shows "\<exists>t. cmos_read r s = Ok (ucast b) t \<and> port_in t CMOS_RETURN = bs"
  using assms by (simp add: cmos_read_def microdelay_def outb_def io_log_def inb_def krun)

lemma fill_rtcdate_run:
  assumes "port_in s CMOS_RETURN = d @ bs" "length d = 6"
  shows "\<exists>t. fill_rtcdate s = Ok (date_of d) t \<and> port_in t CMOS_RETURN = bs"
proof -
  have "\<exists>b0 b1 b2 b3 b4 b5. d = [b0, b1, b2, b3, b4, b5]"
    using assms(2) by (auto simp: eval_nat_numeral length_Suc_conv)
  then obtain b0 b1 b2 b3 b4 b5 where d: "d = [b0, b1, b2, b3, b4, b5]" by blast
  show ?thesis using assms(1)
    by (simp add: d fill_rtcdate_def date_of_def cmos_read_def microdelay_def outb_def io_log_def inb_def krun)
qed

lemma cmos_round_ends:
  assumes "port_in s CMOS_RETURN = d @ a # d' @ bs" "length d = 6" "length d' = 6" "a AND 0x80 = 0"
  shows "\<exists>t. cmos_round s = Ok (if date_of d = date_of d' then Some (date_of d) else None) t \<and> port_in t CMOS_RETURN = bs"
proof -
  obtain t where t: "fill_rtcdate s = Ok (date_of d) t" "port_in t CMOS_RETURN = a # d' @ bs"
    using fill_rtcdate_run assms(1,2) by metis
  obtain u where u: "cmos_read CMOS_STATA t = Ok (ucast a) u" "port_in u CMOS_RETURN = d' @ bs"
    using cmos_read_run t(2) by metis
  obtain v where v: "fill_rtcdate u = Ok (date_of d') v" "port_in v CMOS_RETURN = bs"
    using fill_rtcdate_run u(2) assms(3) by metis
  have "(ucast a :: uint) AND CMOS_UIP = ucast (a AND 0x80)" by (auto simp: CMOS_UIP_def bit_eq_iff bit_simps dest: bit_imp_le_length)
  then have "(ucast a :: uint) AND CMOS_UIP = 0" using assms(4) by simp
  then show ?thesis using t u v by (simp add: cmos_round_def krun)
qed

lemma cmos_round_updating:
  assumes "port_in s CMOS_RETURN = d @ a # bs" "length d = 6" "a AND 0x80 \<noteq> 0"
  shows "\<exists>t. cmos_round s = Ok None t \<and> port_in t CMOS_RETURN = bs"
proof -
  obtain t where t: "fill_rtcdate s = Ok (date_of d) t" "port_in t CMOS_RETURN = a # bs"
    using fill_rtcdate_run assms(1,2) by metis
  obtain u where u: "cmos_read CMOS_STATA t = Ok (ucast a) u" "port_in u CMOS_RETURN = bs"
    using cmos_read_run t(2) by metis
  have "(ucast ((ucast a :: uint) AND CMOS_UIP) :: uchar) = a AND 0x80"
    by (auto simp: CMOS_UIP_def bit_eq_iff bit_simps)
  then have "(ucast a :: uint) AND CMOS_UIP \<noteq> 0" using assms(3) by auto
  then show ?thesis using t u by (simp add: cmos_round_def krun)
qed

lemma date_of_inj:
  assumes "length d = 6" "length d' = 6" "date_of d = date_of d'"
  shows "d = d'"
proof (rule nth_equalityI)
  have up: "x = y" if "(ucast x :: uint) = ucast y" for x y :: uchar
  proof -
    have "ucast (ucast z :: uint) = z" for z :: uchar by (rule bit_word_eqI) (auto simp: bit_simps)
    then show ?thesis using that by metis
  qed
  fix i assume "i < length d"
  then have "i \<in> {0, 1, 2, 3, 4, 5}" using assms(1) by auto
  then show "d ! i = d' ! i" using assms(3) by (auto simp: date_of_def dest!: up)
qed (simp add: assms)

lemma cmos_round_bad:
  assumes "bad_round r" "port_in s CMOS_RETURN = r @ bs"
  shows "\<exists>t. cmos_round s = Ok None t \<and> port_in t CMOS_RETURN = bs"
proof -
  consider "length r = 7" "r ! 6 AND 0x80 \<noteq> 0" | "length r = 13" "r ! 6 AND 0x80 = 0" "take 6 r \<noteq> drop 7 r"
    using assms(1) by (auto simp: bad_round_def)
  moreover then have "6 < length r" by cases simp_all
  then have "r @ bs = (take 6 r @ r ! 6 # drop (Suc 6) r) @ bs" using id_take_nth_drop [of 6 r] by simp
  then have p: "port_in s CMOS_RETURN = take 6 r @ r ! 6 # drop 7 r @ bs" using assms(2) by simp
  ultimately show ?thesis
  proof cases
    case 1
    then show ?thesis using cmos_round_updating [of s "take 6 r" "r ! 6" bs] p by simp
  next
    case 2
    then show ?thesis using cmos_round_ends [OF p] date_of_inj [of "take 6 r" "drop 7 r"] by auto
  qed
qed

lemma cmos_loop_run:
  assumes "\<forall>r \<in> set rs. bad_round r" "port_in s CMOS_RETURN = concat rs @ d @ a # d @ bs" "length d = 6" "a AND 0x80 = 0"
  shows "\<exists>t. cmos_loop s = Ok (date_of d) t \<and> port_in t CMOS_RETURN = bs"
  using assms(1,2)
proof (induction rs arbitrary: s)
  case Nil
  then obtain t where "cmos_round s = Ok (Some (date_of d)) t" "port_in t CMOS_RETURN = bs"
    using cmos_round_ends [of s d a d bs] assms(3,4) by auto
  then show ?case by (simp add: cmos_loop.simps [of s])
next
  case (Cons r rs)
  then obtain t where t: "cmos_round s = Ok None t" "port_in t CMOS_RETURN = concat rs @ d @ a # d @ bs"
    using cmos_round_bad [of r s] by auto
  then show ?case using Cons.IH [of t] Cons.prems(1) by (simp add: cmos_loop.simps [of s])
qed

lemma CONV_bcd:
  assumes "n < 100"
  shows "CONV (ucast (bcd n)) = of_nat n"
proof -
  have "list_all (\<lambda>n. CONV (ucast (bcd n)) = of_nat n) [0..<100]" by code_simp
  then show ?thesis using assms by (simp add: list_all_iff)
qed



end
