(* ===== verification/Segs.thy ===== *)
theory Segs
  imports Devices
begin

text \<open>
  Segments and gates (\<^verbatim>\<open>mmu.h\<close>, \<^verbatim>\<open>seginit\<close> and the task state of \<^verbatim>\<open>switchuvm\<close> in \<^verbatim>\<open>vm.c\<close>, \<^verbatim>\<open>tvinit\<close> and \<^verbatim>\<open>idtinit\<close> in \<^verbatim>\<open>trap.c\<close>): the tables
  that decide how the processor enters the kernel.  Descriptors are records of the bit fields of the source at their widths;
  what the processor reads out of them (base, limit, entry point, who may use a gate) are definitions of their own.
\<close>

section \<open>Descriptors\<close>

definition SEG_KCODE :: ushort where "SEG_KCODE = 1"
definition SEG_KDATA :: ushort where "SEG_KDATA = 2"
definition SEG_TSS :: ushort where "SEG_TSS = 5"
definition T_SYSCALL :: uint where "T_SYSCALL = 64"
definition NSEGS :: nat where "NSEGS = 6"
definition STA_X :: uint where "STA_X = 0x8"
definition STA_W :: uint where "STA_W = 0x2"
definition STA_R :: uint where "STA_R = 0x2"
definition STS_T32A :: uint where "STS_T32A = 0x9"
definition STS_IG32 :: uint where "STS_IG32 = 0xE"
definition STS_TG32 :: uint where "STS_TG32 = 0xF"

lemmas seg_consts = SEG_KCODE_def SEG_KDATA_def SEG_UCODE_def SEG_UDATA_def SEG_TSS_def T_SYSCALL_def NSEGS_def DPL_USER_def
  STA_X_def STA_W_def STA_R_def STS_T32A_def STS_IG32_def STS_TG32_def

record segdesc =
  lim_15_0 :: "16 word"
  base_15_0 :: "16 word"
  base_23_16 :: "8 word"
  seg_type :: "4 word"
  seg_s :: "1 word"
  seg_dpl :: "2 word"
  seg_p :: "1 word"
  lim_19_16 :: "4 word"
  seg_avl :: "1 word"
  seg_rsv1 :: "1 word"
  seg_db :: "1 word"
  seg_g :: "1 word"
  base_31_24 :: "8 word"

definition SEG :: "uint \<Rightarrow> uint \<Rightarrow> uint \<Rightarrow> uint \<Rightarrow> segdesc" where
  "SEG type base lim dpl =
     \<lparr>lim_15_0 = ucast (drop_bit 12 lim AND 0xffff), base_15_0 = ucast (base AND 0xffff),
      base_23_16 = ucast (drop_bit 16 base AND 0xff), seg_type = ucast type, seg_s = 1, seg_dpl = ucast dpl, seg_p = 1,
      lim_19_16 = ucast (drop_bit 28 lim), seg_avl = 0, seg_rsv1 = 0, seg_db = 1, seg_g = 1, base_31_24 = ucast (drop_bit 24 base)\<rparr>"

definition SEG16 :: "uint \<Rightarrow> uint \<Rightarrow> uint \<Rightarrow> uint \<Rightarrow> segdesc" where
  "SEG16 type base lim dpl =
     \<lparr>lim_15_0 = ucast (lim AND 0xffff), base_15_0 = ucast (base AND 0xffff),
      base_23_16 = ucast (drop_bit 16 base AND 0xff), seg_type = ucast type, seg_s = 1, seg_dpl = ucast dpl, seg_p = 1,
      lim_19_16 = ucast (drop_bit 16 lim), seg_avl = 0, seg_rsv1 = 0, seg_db = 1, seg_g = 0, base_31_24 = ucast (drop_bit 24 base)\<rparr>"

record gatedesc =
  off_15_0 :: "16 word"
  gate_cs :: "16 word"
  gate_args :: "5 word"
  gate_rsv1 :: "3 word"
  gate_type :: "4 word"
  gate_s :: "1 word"
  gate_dpl :: "2 word"
  gate_p :: "1 word"
  off_31_16 :: "16 word"

definition SETGATE :: "bool \<Rightarrow> uint \<Rightarrow> uint \<Rightarrow> uint \<Rightarrow> gatedesc" where
  "SETGATE istrap sel off d =
     \<lparr>off_15_0 = ucast (off AND 0xffff), gate_cs = ucast sel, gate_args = 0, gate_rsv1 = 0,
      gate_type = ucast (if istrap then STS_TG32 else STS_IG32), gate_s = 0, gate_dpl = ucast d, gate_p = 1,
      off_31_16 = ucast (drop_bit 16 off)\<rparr>"

section \<open>The tables of a CPU\<close>

text \<open>
  \<open>gdt\<close>, \<open>ts_ss0\<close> and \<open>ts_iomb\<close> belong to the \<^verbatim>\<open>struct cpu\<close> of the CPU that runs (the field \<^verbatim>\<open>esp0\<close> of the task state is \<open>ts_esp0\<close> of the process state); \<open>idt\<close> is shared.  \<open>gdtr\<close>, \<open>idtr\<close> and
  \<open>tr\<close> are the registers: the first two hold the three halfwords \<^verbatim>\<open>pd\<close>.  \<open>gdt_at\<close>, \<open>ts_at\<close> and \<open>idt_at\<close> are
  the addresses at which the linker puts these objects, and \<open>vectors\<close> is the table of entry points from \<^verbatim>\<open>vectors.S\<close>.
\<close>

record kseg = kio +
  gdt :: "segdesc list"
  idt :: "gatedesc list"
  ts_ss0 :: ushort
  ts_iomb :: ushort
  gdtr :: "ushort list"
  idtr :: "ushort list"
  tr :: ushort
  gdt_at :: uint
  ts_at :: uint
  idt_at :: uint
  vectors :: "uint list"

definition SEGDESC_SIZE :: nat where "SEGDESC_SIZE = 8"
definition GATEDESC_SIZE :: nat where "GATEDESC_SIZE = 8"
definition TASKSTATE_SIZE :: uint where "TASKSTATE_SIZE = 104"

definition lgdt :: "uint \<Rightarrow> nat \<Rightarrow> (unit, 'z kseg_scheme) M" where
  "lgdt p size_arg = kmod (\<lambda>s. s\<lparr>gdtr := [of_nat size_arg - 1, ucast p, ucast (drop_bit 16 p)]\<rparr>)"

definition lidt :: "uint \<Rightarrow> nat \<Rightarrow> (unit, 'z kseg_scheme) M" where
  "lidt p size_arg = kmod (\<lambda>s. s\<lparr>idtr := [of_nat size_arg - 1, ucast p, ucast (drop_bit 16 p)]\<rparr>)"

definition ltr :: "ushort \<Rightarrow> (unit, 'z kseg_scheme) M" where
  "ltr sel = kmod (\<lambda>s. s\<lparr>tr := sel\<rparr>)"

definition seginit :: "(unit, 'z kseg_scheme) M" where
  "seginit =
     kseq (kmod (\<lambda>s. s\<lparr>gdt := (gdt s)[unat SEG_KCODE := SEG (STA_X OR STA_R) 0 0xffffffff 0]\<rparr>))
    (kseq (kmod (\<lambda>s. s\<lparr>gdt := (gdt s)[unat SEG_KDATA := SEG STA_W 0 0xffffffff 0]\<rparr>))
    (kseq (kmod (\<lambda>s. s\<lparr>gdt := (gdt s)[unat SEG_UCODE := SEG (STA_X OR STA_R) 0 0xffffffff (ucast DPL_USER)]\<rparr>))
    (kseq (kmod (\<lambda>s. s\<lparr>gdt := (gdt s)[unat SEG_UDATA := SEG STA_W 0 0xffffffff (ucast DPL_USER)]\<rparr>))
          (kbind (kget gdt_at) (\<lambda>p. lgdt p (NSEGS * SEGDESC_SIZE))))))"

definition tvinit :: "(unit, 'z kseg_scheme) M" where
  "tvinit =
     kseq (kfor [0..<256] (\<lambda>i. kmod (\<lambda>s. s\<lparr>idt := (idt s)[i := SETGATE False (push_bit 3 (ucast SEG_KCODE)) (vectors s ! i) 0]\<rparr>)))
          (kmod (\<lambda>s. s\<lparr>idt := (idt s)[unat T_SYSCALL := SETGATE True (push_bit 3 (ucast SEG_KCODE)) (vectors s ! unat T_SYSCALL) (ucast DPL_USER)]\<rparr>))"

definition idtinit :: "(unit, 'z kseg_scheme) M" where
  "idtinit = kbind (kget idt_at) (\<lambda>p. lidt p (256 * GATEDESC_SIZE))"

text \<open>
  \<^verbatim>\<open>switchuvm\<close> with all that it does to the CPU; the pair \<^verbatim>\<open>pushcli\<close>, \<^verbatim>\<open>popcli\<close> around it leaves the state as it was.  The process is an entry of
  the table, so the test for a null pointer does not apply.
\<close>

definition switchuvm_cpu :: "nat \<Rightarrow> (unit, 'z kseg_scheme) M" where
  "switchuvm_cpu i =
     kbind (getp i) (\<lambda>p.
     if p_kstack p = 0 then kpanic ''switchuvm: no kstack''
     else if p_pgdir p = 0 then kpanic ''switchuvm: no pgdir''
     else
       kseq (kmod (\<lambda>s. s\<lparr>gdt := (gdt s)[unat SEG_TSS := SEG16 STS_T32A (ts_at s) (TASKSTATE_SIZE - 1) 0]\<rparr>))
      (kseq (kmod (\<lambda>s. s\<lparr>gdt := (gdt s)[unat SEG_TSS := (gdt s ! unat SEG_TSS)\<lparr>seg_s := 0\<rparr>]\<rparr>))
      (kseq (kmod (\<lambda>s. s\<lparr>ts_ss0 := push_bit 3 SEG_KDATA\<rparr>))
      (kseq (kmod (\<lambda>s. s\<lparr>ts_esp0 := p_kstack p + KSTACKSIZE\<rparr>))
      (kseq (kmod (\<lambda>s. s\<lparr>ts_iomb := 0xFFFF\<rparr>))
      (kseq (ltr (push_bit 3 SEG_TSS))
            (kmod (\<lambda>s. s\<lparr>cr3 := V2P (p_pgdir p)\<rparr>))))))))"

section \<open>What the processor reads\<close>

definition seg_base :: "segdesc \<Rightarrow> uint" where
  "seg_base d = ucast (base_15_0 d) OR push_bit 16 (ucast (base_23_16 d)) OR push_bit 24 (ucast (base_31_24 d))"

definition seg_limit :: "segdesc \<Rightarrow> uint" where
  "seg_limit d = (let l = ucast (lim_15_0 d) OR push_bit 16 (ucast (lim_19_16 d)) in if seg_g d = 1 then push_bit 12 l OR 0xfff else l)"

definition gate_entry :: "gatedesc \<Rightarrow> uint" where
  "gate_entry g = ucast (off_15_0 g) OR push_bit 16 (ucast (off_31_16 g))"

definition gate_seg :: "segdesc list \<Rightarrow> gatedesc \<Rightarrow> segdesc" where
  "gate_seg ds g = ds ! unat (drop_bit 3 (gate_cs g))"

text \<open>An \<^verbatim>\<open>int\<close> instruction may use a gate at the privilege level \<open>cpl\<close>, where 0 is the kernel and 3 a process.\<close>

definition may_invoke :: "nat \<Rightarrow> gatedesc \<Rightarrow> bool" where
  "may_invoke cpl g \<longleftrightarrow> gate_p g = 1 \<and> cpl \<le> unat (gate_dpl g)"

definition clears_IF :: "gatedesc \<Rightarrow> bool" where
  "clears_IF g \<longleftrightarrow> gate_type g = 0xE"

lemma masks: "(0xffff :: uint) = mask 16" "(0xff :: uint) = mask 8" "(0xfff :: uint) = mask 12"
  by (simp_all add: mask_eq_exp_minus_1)

lemma bit_below: "bit (w :: uint) n \<Longrightarrow> n < 32"
  using bit_imp_le_length [of w n] by simp

lemma gate_entry_SETGATE: "gate_entry (SETGATE istrap sel off d) = off"
  unfolding gate_entry_def SETGATE_def masks
  by (rule bit_word_eqI) (auto simp: bit_simps not_less dest: bit_below)

lemma base_parts: "ucast (ucast (b AND mask 16) :: 16 word) OR push_bit 16 (ucast (ucast (drop_bit 16 b AND mask 8) :: 8 word))
    OR push_bit 24 (ucast (ucast (drop_bit 24 b) :: 8 word)) = (b :: uint)"
  (is "?l = b")
proof (rule bit_word_eqI)
  fix n assume "n < LENGTH(32)"
  then have "n < 32" by simp
  then have "n < 16 \<or> (\<exists>k < 8. n = 16 + k) \<or> (\<exists>k < 8. n = 24 + k)" by presburger
  then show "bit ?l n = bit b n" by (auto simp: bit_simps)
qed

lemma seg_base_SEG: "seg_base (SEG type base lim dpl) = base" "seg_base (SEG16 type base lim dpl) = base"
  using base_parts [of base] by (simp_all add: seg_base_def SEG_def SEG16_def masks)


lemma seg_limits: "seg_limit (SEG type base 0xffffffff dpl) = 0xffffffff" "lim < 0x10000 \<Longrightarrow> seg_limit (SEG16 type base lim dpl) = lim"
proof -
  show "seg_limit (SEG type base 0xffffffff dpl) = 0xffffffff" unfolding seg_limit_def SEG_def by simp
  assume "lim < 0x10000"
  then have n: "unat lim < 65536" by (simp add: word_less_nat_alt)
  then have d: "drop_bit 16 lim = 0" by (simp add: word_unat_eq_iff drop_bit_eq_div unat_div)
  have t: "take_bit 16 lim = lim" using n by (simp add: word_unat_eq_iff take_bit_eq_mod unat_mod)
  have "ucast (ucast (take_bit 16 lim) :: 16 word) = take_bit 16 lim" by (rule bit_word_eqI) (auto simp: bit_simps)
  then show "seg_limit (SEG16 type base lim dpl) = lim" using d t by (simp add: seg_limit_def SEG16_def masks flip: take_bit_eq_mask)
qed

text \<open>The loop of \<^verbatim>\<open>tvinit\<close>.\<close>

lemma idt_loop:
  "n \<le> length (idt s) \<Longrightarrow> kfor [0..<n] (\<lambda>i. kmod (\<lambda>s. s\<lparr>idt := (idt s)[i := f i (vectors s)]\<rparr>)) s
    = Ok () (s\<lparr>idt := map (\<lambda>i. f i (vectors s)) [0..<n] @ drop n (idt s)\<rparr>)"
proof (induction n)
  case 0
  then show ?case by (simp add: krun)
next
  case (Suc n)
  then have "drop n (idt s) = (idt s ! n) # drop (Suc n) (idt s)" by (simp add: Cons_nth_drop_Suc)
  moreover have "(map (\<lambda>i. f i (vectors s)) [0..<n] @ x # xs)[n := y] = map (\<lambda>i. f i (vectors s)) [0..<n] @ y # xs" for x y xs
    using list_update_length [of "map (\<lambda>i. f i (vectors s)) [0..<n]" x xs y] by simp
  ultimately show ?case using Suc by (simp add: krun kfor_append)
qed

lemma gate_facts:
  assumes "ds ! 1 = SEG 10 0 0xffffffff 0" "g = (if n = 64 then SETGATE True 8 v 3 else SETGATE False 8 v 0)"
  shows "let d = gate_seg ds g in gate_entry g = v \<and> seg_base d = 0 \<and> seg_limit d = 0xffffffff \<and> seg_dpl d = 0 \<and> seg_p d = 1 \<and> bit (seg_type d) 3
      \<and> (may_invoke 3 g \<longleftrightarrow> n = 64) \<and> (clears_IF g \<longleftrightarrow> n \<noteq> 64)"
proof -
  have "gate_cs g = 8" "gate_entry g = v" using assms(2) by (auto simp: gate_entry_SETGATE) (simp_all add: SETGATE_def)
  moreover from this have "gate_seg ds g = SEG 10 0 0xffffffff 0" using assms(1) by (simp add: gate_seg_def drop_bit_eq_div)
  moreover have "seg_dpl (SEG 10 0 0xffffffff 0) = 0" "seg_p (SEG 10 0 0xffffffff 0) = 1" "bit (seg_type (SEG 10 0 0xffffffff 0)) 3"
    by (simp_all add: SEG_def)
  moreover have "may_invoke 3 g \<longleftrightarrow> n = 64" "clears_IF g \<longleftrightarrow> n \<noteq> 64"
    using assms(2) by (simp_all add: may_invoke_def clears_IF_def SETGATE_def seg_consts)
  ultimately show ?thesis by (simp add: seg_base_SEG seg_limits Let_def)
qed

section \<open>Properties\<close>

text \<open>
  C22: Every way into the kernel leads to its entry point, and a process has exactly one such way.  After \<^verbatim>\<open>seginit\<close> and \<^verbatim>\<open>tvinit\<close>, gate \<open>n\<close> leads
  to entry \<open>n\<close> of \<^verbatim>\<open>vectors\<close> in a code segment of the kernel, which covers all addresses; at the privilege of a process only the
  gate of system calls can be invoked; and this is the only gate through which interrupts stay enabled.
\<close>

theorem traps_enter_kernel:
  assumes "length (gdt s) = NSEGS" "length (idt s) = 256" "length (vectors s) = 256"
  shows "\<exists>t. kseq seginit tvinit s = Ok () t \<and> (\<forall>n < 256. let g = idt t ! n; d = gate_seg (gdt t) g in
      gate_entry g = vectors s ! n \<and> seg_base d = 0 \<and> seg_limit d = 0xffffffff \<and> seg_dpl d = 0 \<and> seg_p d = 1 \<and> bit (seg_type d) 3
      \<and> (may_invoke 3 g \<longleftrightarrow> n = 64) \<and> (clears_IF g \<longleftrightarrow> n \<noteq> 64))"
proof -
  obtain u where u: "seginit s = Ok () u" "gdt u ! 1 = SEG 10 0 0xffffffff 0" "idt u = idt s" "vectors u = vectors s"
    using assms(1) by (simp add: seginit_def lgdt_def krun seg_consts)
  let ?t = "u\<lparr>idt := (map (\<lambda>n. SETGATE False 8 (vectors s ! n) 0) [0..<256])[64 := SETGATE True 8 (vectors s ! 64) 3]\<rparr>"
  have run: "tvinit u = Ok () ?t"
    using idt_loop [of 256 u "\<lambda>i v. SETGATE False 8 (v ! i) 0"] assms(2) u(3,4) by (simp add: tvinit_def krun seg_consts push_bit_eq_mult del: upt_rec_numeral)
  have gate: "idt ?t ! n = (if n = 64 then SETGATE True 8 (vectors s ! n) 3 else SETGATE False 8 (vectors s ! n) 0)" if "n < 256" for n
    using that by (simp add: nth_list_update del: upt_rec_numeral)
  have gdt: "gdt ?t ! 1 = SEG 10 0 0xffffffff 0" using u(2) by simp
  show ?thesis
  proof (intro exI [of _ ?t] conjI allI impI)
    show "kseq seginit tvinit s = Ok () ?t" using u(1) run by (simp add: krun)
    show "let g = idt ?t ! n; d = gate_seg (gdt ?t) g in
      gate_entry g = vectors s ! n \<and> seg_base d = 0 \<and> seg_limit d = 0xffffffff \<and> seg_dpl d = 0 \<and> seg_p d = 1 \<and> bit (seg_type d) 3
      \<and> (may_invoke 3 g \<longleftrightarrow> n = 64) \<and> (clears_IF g \<longleftrightarrow> n \<noteq> 64)" if "n < 256" for n
      using gate_facts [OF gdt gate [OF that]] unfolding Let_def .
  qed
qed

definition no_gdt :: "segdesc list" where "no_gdt = replicate 6 (SEG 0 0 0 0)"
definition no_idt :: "gatedesc list" where "no_idt = replicate 256 (SETGATE False 0 0 0)"
definition numbered :: "uint list" where "numbered = map of_nat [0..<256]"

lemma empty_tables: "length no_gdt = NSEGS" "length no_idt = 256" "length numbered = 256" "numbered ! 14 = 14"
  by (simp_all add: no_gdt_def no_idt_def numbered_def NSEGS_def del: upt_rec_numeral)

theorem traps_enter_kernel_witness:
  "\<forall>s :: kseg. \<exists>t. kseq seginit tvinit (s\<lparr>gdt := no_gdt, idt := no_idt, vectors := numbered\<rparr>) = Ok () t
     \<and> may_invoke 3 (idt t ! 64) \<and> \<not> may_invoke 3 (idt t ! 14) \<and> gate_entry (idt t ! 14) = 14"
proof
  fix s :: kseg
  let ?s = "s\<lparr>gdt := no_gdt, idt := no_idt, vectors := numbered\<rparr>"
  have n: "length (gdt ?s) = NSEGS" "length (idt ?s) = 256" "length (vectors ?s) = 256" "vectors ?s ! 14 = 14" by (simp_all add: empty_tables)
  from traps_enter_kernel [OF n(1-3)] obtain t where t: "kseq seginit tvinit ?s = Ok () t"
    and g: "\<forall>n < 256. let g = idt t ! n; d = gate_seg (gdt t) g in
      gate_entry g = vectors ?s ! n \<and> seg_base d = 0 \<and> seg_limit d = 0xffffffff \<and> seg_dpl d = 0 \<and> seg_p d = 1 \<and> bit (seg_type d) 3
      \<and> (may_invoke 3 g \<longleftrightarrow> n = 64) \<and> (clears_IF g \<longleftrightarrow> n \<noteq> 64)"
    by (elim exE conjE)
  have "may_invoke 3 (idt t ! 64)" "\<not> may_invoke 3 (idt t ! 14)" "gate_entry (idt t ! 14) = 14"
    using g [rule_format, of 64] g [rule_format, of 14] n(4) by (simp_all add: Let_def)
  then show "\<exists>t. kseq seginit tvinit ?s = Ok () t \<and> may_invoke 3 (idt t ! 64) \<and> \<not> may_invoke 3 (idt t ! 14) \<and> gate_entry (idt t ! 14) = 14"
    using t by blast
qed

text \<open>
  \<^verbatim>\<open>switchuvm\<close> prepares the next entry from the process it switches to: besides the stack pointer and the page table, which are those of the process
  model, the task register selects a descriptor of the task state in the kernel's table, the stack segment of the entry is the kernel's, and the
  map of input and output rights lies outside of the task state, so that processes have no access to ports.
\<close>

theorem switchuvm_task_state:
  assumes "length (gdt s) = NSEGS" "switchuvm i s = Ok () t"
  shows "\<exists>u. switchuvm_cpu i s = Ok () u \<and> ts_esp0 u = ts_esp0 t \<and> cr3 u = cr3 t \<and> ts_ss0 u = push_bit 3 SEG_KDATA
    \<and> (let d = gdt u ! unat (drop_bit 3 (tr u)) in seg_base d = ts_at s \<and> seg_limit d = TASKSTATE_SIZE - 1 \<and> seg_s d = 0 \<and> seg_dpl d = 0
         \<and> seg_limit d < ucast (ts_iomb u))"
proof -
  let ?d = "(SEG16 9 (ts_at s) 103 0)\<lparr>seg_s := 0\<rparr>"
  obtain p where p: "getp i s = Ok p s" "p_kstack p \<noteq> 0" "p_pgdir p \<noteq> 0" "ts_esp0 t = p_kstack p + KSTACKSIZE" "cr3 t = V2P (p_pgdir p)"
    using assms(2) by (auto simp: switchuvm_def krun getp_def split: if_splits)
  let ?u = "s\<lparr>gdt := (gdt s)[5 := ?d], ts_ss0 := push_bit 3 SEG_KDATA, ts_esp0 := p_kstack p + KSTACKSIZE, ts_iomb := 0xFFFF, tr := 40, cr3 := V2P (p_pgdir p)\<rparr>"
  have run: "switchuvm_cpu i s = Ok () ?u"
    using p(1-3) assms(1) by (simp add: switchuvm_cpu_def krun ltr_def seg_consts TASKSTATE_SIZE_def push_bit_eq_mult)
  have "seg_base ?d = seg_base (SEG16 9 (ts_at s) 103 0)" "seg_limit ?d = seg_limit (SEG16 9 (ts_at s) 103 0)"
    by (simp_all add: seg_base_def seg_limit_def)
  then have d: "seg_base ?d = ts_at s" "seg_limit ?d = 103" by (simp_all add: seg_base_SEG seg_limits)
  have z: "seg_s ?d = 0" "seg_dpl ?d = 0" by (simp_all add: SEG16_def)
  have "gdt ?u ! unat (drop_bit 3 (tr ?u)) = ?d" using assms(1) by (simp add: drop_bit_eq_div NSEGS_def)
  then show ?thesis using run p(4,5) d z by (intro exI [of _ ?u]) (simp add: Let_def TASKSTATE_SIZE_def)
qed

end
