(* ===== verification/Kbd.thy ===== *)
theory Kbd
  imports Devices
begin

text \<open>
  The keyboard (\<^verbatim>\<open>kbd.c\<close>, \<^verbatim>\<open>kbd.h\<close>): the tables from scan codes to characters and \<^verbatim>\<open>kbdgetc\<close>, which keeps the state of the
  modifier keys in a static variable.
\<close>

section \<open>Tables\<close>

definition KBSTATP :: ushort where "KBSTATP = 0x64"
definition KBS_DIB :: uchar where "KBS_DIB = 0x01"
definition KBDATAP :: ushort where "KBDATAP = 0x60"

definition SHIFT :: uint where "SHIFT = 1"
definition CTL :: uint where "CTL = 2"
definition ALT :: uint where "ALT = 4"
definition CAPSLOCK :: uint where "CAPSLOCK = 8"
definition NUMLOCK :: uint where "NUMLOCK = 16"
definition SCROLLLOCK :: uint where "SCROLLLOCK = 32"
definition E0ESC :: uint where "E0ESC = 64"

text \<open>An array of 256 bytes with its first elements and the designated ones; the others are 0.\<close>

definition kbd_table :: "uchar list \<Rightarrow> (nat \<times> uchar) list \<Rightarrow> uchar list" where
  "kbd_table xs ds = foldl (\<lambda>t (i, v). t[i := v]) (xs @ replicate (256 - length xs) 0) ds"

definition chars :: "string \<Rightarrow> uchar list" where
  "chars cs = map of_char cs"

definition shiftcode :: "uchar list" where
  "shiftcode = kbd_table [] [(0x1D, ucast CTL), (0x2A, ucast SHIFT), (0x36, ucast SHIFT), (0x38, ucast ALT), (0x9D, ucast CTL), (0xB8, ucast ALT)]"

definition togglecode :: "uchar list" where
  "togglecode = kbd_table [] [(0x3A, ucast CAPSLOCK), (0x45, ucast NUMLOCK), (0x46, ucast SCROLLLOCK)]"

text \<open>The keys of the right block, the same in all three maps: arrows, page keys, home, end, insert and delete.\<close>

definition keypad :: "(nat \<times> uchar) list" where
  "keypad = [(0xC8, 0xE2), (0xD0, 0xE3), (0xC9, 0xE6), (0xD1, 0xE7), (0xCB, 0xE4), (0xCD, 0xE5), (0x97, 0xE0), (0xCF, 0xE1), (0xD2, 0xE8), (0xD3, 0xE9)]"

definition normalmap :: "uchar list" where
  "normalmap = kbd_table
     ([0, 0x1B] @ chars ''1234567890-='' @ [8, 9] @ chars ''qwertyuiop[]'' @ [10, 0] @ chars ''asdfghjkl;'' @ [0x27] @ chars ''`'' @ [0, 0x5C]
       @ chars ''zxcvbnm,./'' @ [0] @ chars ''*'' @ [0] @ chars '' '' @ replicate 13 0 @ chars ''789-456+1230.'' @ replicate 4 0)
     ([(0x9C, 10), (0xB5, of_char CHR ''/'')] @ keypad)"

definition shiftmap :: "uchar list" where
  "shiftmap = kbd_table
     ([0, 27] @ chars ''!@#$%^&*()_+'' @ [8, 9] @ chars ''QWERTYUIOP{}'' @ [10, 0] @ chars ''ASDFGHJKL:'' @ [0x22] @ chars ''~'' @ [0] @ chars ''|''
       @ chars ''ZXCVBNM<>?'' @ [0] @ chars ''*'' @ [0] @ chars '' '' @ replicate 13 0 @ chars ''789-456+1230.'' @ replicate 4 0)
     ([(0x9C, 10), (0xB5, of_char CHR ''/'')] @ keypad)"

definition ctl_chars :: "string \<Rightarrow> uchar list" where
  "ctl_chars cs = map (\<lambda>c. of_char c - of_char CHR ''@'') cs"

definition ctlmap :: "uchar list" where
  "ctlmap = kbd_table
     (replicate 16 0 @ ctl_chars ''QWERTYUIOP'' @ [0, 0, 13, 0] @ ctl_chars ''ASDFGHJKL'' @ replicate 4 0 @ [0x5C - 0x40]
       @ ctl_chars ''ZXCVBNM'' @ [0, 0] @ ctl_chars ''/'' @ [0, 0])
     ([(0x9C, 13), (0xB5, of_char CHR ''/'' - of_char CHR ''@'')] @ keypad)"

text \<open>The index is two bits of the shift state, so the array has four entries.\<close>

definition charcode :: "uint \<Rightarrow> uchar list" where
  "charcode i = [normalmap, shiftmap, ctlmap, ctlmap] ! unat i"

section \<open>Reading a key\<close>

definition caps :: "uint \<Rightarrow> uint" where
  "caps c = (if 0x61 \<le> c \<and> c \<le> 0x7A then c + 0x41 - 0x61 else if 0x41 \<le> c \<and> c \<le> 0x5A then c + 0x61 - 0x41 else c)"

text \<open>What a byte from the keyboard does to the shift state, and the value that \<^verbatim>\<open>kbdgetc\<close> returns for it.\<close>

definition kbd_key :: "uint \<Rightarrow> uchar \<Rightarrow> uint \<times> uint" where
  "kbd_key shift d =
     (if d = 0xE0 then (shift OR E0ESC, 0)
      else if d AND 0x80 \<noteq> 0 then
        (let d = (if shift AND E0ESC \<noteq> 0 then d else d AND 0x7F)
         in (shift AND NOT (ucast (shiftcode ! unat d) OR E0ESC), 0))
      else
        (let d' = (if shift AND E0ESC \<noteq> 0 then d OR 0x80 else d);
             shift = (if shift AND E0ESC \<noteq> 0 then shift AND NOT E0ESC else shift);
             shift = shift OR ucast (shiftcode ! unat d');
             shift = shift XOR ucast (togglecode ! unat d');
             c = ucast (charcode (shift AND (CTL OR SHIFT)) ! unat d')
         in (shift, if shift AND CAPSLOCK \<noteq> 0 then caps c else c)))"

definition kbdgetc :: "(int, 'z kio_scheme) M" where
  "kbdgetc =
     kbind (inb KBSTATP) (\<lambda>st.
     if st AND KBS_DIB = 0 then kret (- 1)
     else
       kbind (inb KBDATAP) (\<lambda>d.
       kbind (kget kbd_shift) (\<lambda>shift.
       let (shift, c) = kbd_key shift d in
       kseq (kmod (\<lambda>s. s\<lparr>kbd_shift := shift\<rparr>)) (kret (uint c)))))"

function kbd_drain :: "(int list, 'z kio_scheme) M" where
  "kbd_drain s = (case kbdgetc s of
     Ok c t \<Rightarrow> if c < 0 then Ok [] t
       else (case kbd_drain t of
           Ok cs u \<Rightarrow> Ok (c # cs) u | Panic e \<Rightarrow> Panic e | Swtch u \<Rightarrow> Swtch u | Undef \<Rightarrow> Undef)
   | Panic e \<Rightarrow> Panic e | Swtch t \<Rightarrow> Swtch t | Undef \<Rightarrow> Undef)"
  by pat_completeness auto
termination
  by (relation "measure (\<lambda>s. length (port_in s KBSTATP))")
     (auto simp: kbdgetc_def inb_def krun KBSTATP_def KBDATAP_def Let_def split: list.splits outcome.splits if_splits prod.splits)

declare kbd_drain.simps [simp del]

definition kbdintr :: "(unit, 'z kio_scheme) M" where
  "kbdintr = kbind kbd_drain consoleintr"

section \<open>Ranges\<close>

lemma below_iff: "x < (128 :: uint) \<longleftrightarrow> take_bit 7 x = x"
proof -
  have "unat (take_bit 7 x) = unat x mod 128" by (simp add: take_bit_eq_mod unat_mod)
  then have "take_bit 7 x = x \<longleftrightarrow> unat x mod 128 = unat x" by (auto simp: word_unat_eq_iff)
  also have "\<dots> \<longleftrightarrow> unat x < 128" using mod_less_divisor [of 128 "unat x"] by (auto simp del: mod_less_divisor)
  finally show ?thesis by (simp add: word_less_nat_alt)
qed

lemma below_ops:
  fixes x y :: uint
  assumes "x < 128"
  shows "y < 128 \<Longrightarrow> x OR y < 128" "y < 128 \<Longrightarrow> x XOR y < 128" "x AND y < 128"
  using assms unfolding below_iff
  by (simp_all add: bit_eq_iff bit_simps) blast+

lemma table_range:
  assumes "i < 256"
  shows "ucast (shiftcode ! i) < (128 :: uint)" "ucast (togglecode ! i) < (128 :: uint)"
proof -
  have "list_all (\<lambda>x. ucast x < (128 :: uint)) shiftcode \<and> length shiftcode = 256"
    "list_all (\<lambda>x. ucast x < (128 :: uint)) togglecode \<and> length togglecode = 256" by code_simp+
  then show "ucast (shiftcode ! i) < (128 :: uint)" "ucast (togglecode ! i) < (128 :: uint)"
    using assms by (simp_all add: list_all_length)
qed

lemma unat_uchar: "unat (x :: uchar) < 256"
  using unsigned_less [of x] by simp

lemma caps_range: "c < 256 \<Longrightarrow> caps c < 256"
  by (auto simp: caps_def word_less_nat_alt word_le_nat_alt unat_sub_if' unat_plus_if')

lemma ucast_range: "(ucast (x :: uchar) :: uint) < 256"
  using unat_uchar [of x] by (simp add: word_less_nat_alt unsigned_ucast_eq take_bit_nat_eq_self)

lemma kbd_key_range:
  assumes "shift < 128"
  shows "fst (kbd_key shift d) < 128" "snd (kbd_key shift d) < 256"
proof -
  have "E0ESC < 128" by (simp add: E0ESC_def)
  then show "fst (kbd_key shift d) < 128"
    using assms by (auto simp: kbd_key_def Let_def intro!: below_ops table_range unat_uchar)
  show "snd (kbd_key shift d) < 256"
    by (auto simp: kbd_key_def Let_def intro!: caps_range ucast_range)
qed

lemma kbdgetc_cases:
  assumes "kbdgetc s = Ok c t"
  shows "c = - 1 \<and> kbd_shift t = kbd_shift s
    \<or> (\<exists>d. c = uint (snd (kbd_key (kbd_shift s) d)) \<and> kbd_shift t = fst (kbd_key (kbd_shift s) d))"
  using assms unfolding kbdgetc_def inb_def krun Let_def case_prod_beta
  by (auto split: list.splits if_splits simp: krun)

lemma kbdgetc_range:
  assumes "kbd_shift s < 128" "kbdgetc s = Ok c t"
  shows "- 1 \<le> c" "c < 256" "kbd_shift t < 128"
proof -
  have "uint (snd (kbd_key (kbd_shift s) d)) < 256" "- 1 \<le> uint (snd (kbd_key (kbd_shift s) d))" for d
    using kbd_key_range(2) [OF assms(1), of d] by (simp_all add: word_less_def order_trans [OF _ uint_ge_0])
  then show "- 1 \<le> c" "c < 256" "kbd_shift t < 128"
    using kbdgetc_cases [OF assms(2)] assms(1) kbd_key_range(1) [OF assms(1)] by auto
qed

section \<open>Letters\<close>

text \<open>The scan codes of the letters in their order in the alphabet.\<close>

definition letter_codes :: "uchar list" where
  "letter_codes = [0x1E, 0x30, 0x2E, 0x20, 0x12, 0x21, 0x22, 0x23, 0x17, 0x24, 0x25, 0x26, 0x32, 0x31, 0x18, 0x19, 0x10, 0x13, 0x1F, 0x14,
     0x16, 0x2F, 0x11, 0x2D, 0x15, 0x2C]"

lemma letter_tables:
  assumes "i < 26"
  shows "normalmap ! unat (letter_codes ! i) = 0x61 + of_nat i" "shiftmap ! unat (letter_codes ! i) = 0x41 + of_nat i"
    "ctlmap ! unat (letter_codes ! i) = 1 + of_nat i" "shiftcode ! unat (letter_codes ! i) = 0" "togglecode ! unat (letter_codes ! i) = 0"
    "letter_codes ! i AND 0x80 = 0"
proof -
  have "list_all (\<lambda>i. normalmap ! unat (letter_codes ! i) = 0x61 + of_nat i) [0..<26]"
    "list_all (\<lambda>i. shiftmap ! unat (letter_codes ! i) = 0x41 + of_nat i) [0..<26]"
    "list_all (\<lambda>i. ctlmap ! unat (letter_codes ! i) = 1 + of_nat i) [0..<26]"
    "list_all (\<lambda>i. shiftcode ! unat (letter_codes ! i) = 0) [0..<26]"
    "list_all (\<lambda>i. togglecode ! unat (letter_codes ! i) = 0) [0..<26]"
    "list_all (\<lambda>i. letter_codes ! i AND 0x80 = 0) [0..<26]" by code_simp+
  then show "normalmap ! unat (letter_codes ! i) = 0x61 + of_nat i" "shiftmap ! unat (letter_codes ! i) = 0x41 + of_nat i"
    "ctlmap ! unat (letter_codes ! i) = 1 + of_nat i" "shiftcode ! unat (letter_codes ! i) = 0" "togglecode ! unat (letter_codes ! i) = 0"
    "letter_codes ! i AND 0x80 = 0"
    using assms by (simp_all add: list_all_iff)
qed

lemma charcode_shift:
  assumes "shift AND CTL = 0"
  shows "charcode (shift AND (CTL OR SHIFT)) = (if shift AND SHIFT = 0 then normalmap else shiftmap)"
proof -
  have "shift AND (CTL OR SHIFT) = shift AND SHIFT" using assms by (simp add: bit.conj_disj_distrib)
  moreover have "shift AND SHIFT = (if shift AND SHIFT = 0 then 0 else 1)"
    by (simp add: SHIFT_def and_one_eq mod_2_eq_odd)
  ultimately show ?thesis by (auto simp: charcode_def)
qed

lemma kbd_key_letter:
  assumes "i < 26" "shift AND E0ESC = 0" "shift AND CTL = 0"
  shows "kbd_key shift (letter_codes ! i) = (shift, if (shift AND SHIFT \<noteq> 0) \<noteq> (shift AND CAPSLOCK \<noteq> 0) then 0x41 + of_nat i else 0x61 + of_nat i)"
proof -
  note t = letter_tables [OF assms(1)]
  have "list_all (\<lambda>i. letter_codes ! i \<noteq> 0xE0) [0..<26]" by code_simp
  then have e0: "letter_codes ! i \<noteq> 0xE0" using assms(1) by (simp add: list_all_iff)
  have "list_all (\<lambda>i. ucast (0x41 + of_nat i :: uchar) = (0x41 + of_nat i :: uint) \<and> ucast (0x61 + of_nat i :: uchar) = (0x61 + of_nat i :: uint)
      \<and> caps (0x41 + of_nat i) = 0x61 + of_nat i \<and> caps (0x61 + of_nat i) = 0x41 + of_nat i) [0..<26]" by code_simp
  then have "ucast (0x41 + of_nat i :: uchar) = (0x41 + of_nat i :: uint)" "ucast (0x61 + of_nat i :: uchar) = (0x61 + of_nat i :: uint)"
    "caps (0x41 + of_nat i) = 0x61 + of_nat i" "caps (0x61 + of_nat i) = 0x41 + of_nat i"
    using assms(1) by (simp_all add: list_all_iff)
  then show ?thesis
    using assms(2) e0 t by (simp add: kbd_key_def Let_def charcode_shift [OF assms(3)])
qed

lemma kbd_drain_range:
  assumes "kbd_drain s = Ok cs t" "kbd_shift s < 128"
  shows "(\<forall>c \<in> set cs. 0 \<le> c \<and> c < 256) \<and> kbd_shift t < 128"
  using assms
proof (induction s arbitrary: cs t rule: kbd_drain.induct)
  case (1 s)
  obtain c u where c: "kbdgetc s = Ok c u"
    using 1(2) by (subst (asm) kbd_drain.simps) (auto split: outcome.splits)
  note r = kbdgetc_range [OF 1(3) c]
  show ?case
  proof (cases "c < 0")
    case True
    then show ?thesis using 1(2) c r by (simp add: kbd_drain.simps [of s])
  next
    case False
    then obtain ds where "kbd_drain u = Ok ds t" "cs = c # ds"
      using 1(2) c by (subst (asm) kbd_drain.simps) (auto split: outcome.splits)
    then show ?thesis using 1(1) [OF c] False r by auto
  qed
qed

section \<open>Properties\<close>

text \<open>
  C37: What the keyboard driver passes on are bytes: \<^verbatim>\<open>kbdgetc\<close> returns -1 or a value from 0 to 255, and the shift state stays in its seven
  bits, so that every table is read inside of its 256 entries.  Hence every value that an interrupt hands to \<^verbatim>\<open>consoleintr\<close> is a
  character code.
\<close>

theorem kbd_values_are_bytes:
  assumes "kbd_shift s < 128"
  shows "(\<forall>c t. kbdgetc s = Ok c t \<longrightarrow> - 1 \<le> c \<and> c < 256 \<and> kbd_shift t < 128)
    \<and> (\<forall>cs t. kbd_drain s = Ok cs t \<longrightarrow> (\<forall>c \<in> set cs. 0 \<le> c \<and> c < 256) \<and> kbd_shift t < 128)"
  using kbdgetc_range [OF assms] kbd_drain_range [OF _ assms] by blast

theorem kbd_values_are_bytes_witness:
  "\<forall>s :: kio. \<exists>c t. kbdgetc (s\<lparr>kbd_shift := 0, port_in := (\<lambda>p. [1, 0x1E])\<rparr>) = Ok c t \<and> c < 256 \<and> kbd_shift t < 128"
proof
  fix s :: kio
  let ?s = "s\<lparr>kbd_shift := 0, port_in := (\<lambda>p. [1, 0x1E])\<rparr>"
  have "\<exists>c t. kbdgetc ?s = Ok c t"
    by (auto simp: kbdgetc_def inb_def krun KBSTATP_def KBDATAP_def KBS_DIB_def Let_def case_prod_beta)
  then show "\<exists>c t. kbdgetc ?s = Ok c t \<and> c < 256 \<and> kbd_shift t < 128"
    using kbd_values_are_bytes [of ?s] by auto
qed

text \<open>
  C36: The letter keys give the letters of the alphabet: with neither or both of Shift and Caps Lock the small letter, with exactly one of
  them the capital letter.
\<close>

theorem kbd_letters:
  assumes "i < 26" "kbd_shift s AND E0ESC = 0" "kbd_shift s AND CTL = 0"
    and "port_in s KBSTATP = st # sts" "st AND KBS_DIB \<noteq> 0" "port_in s KBDATAP = (letter_codes ! i) # ds"
  shows "\<exists>t. kbdgetc s = Ok (int (of_char ((if (kbd_shift s AND SHIFT \<noteq> 0) \<noteq> (kbd_shift s AND CAPSLOCK \<noteq> 0)
      then ''ABCDEFGHIJKLMNOPQRSTUVWXYZ'' else ''abcdefghijklmnopqrstuvwxyz'') ! i))) t \<and> kbd_shift t = kbd_shift s"
proof -
  have "list_all (\<lambda>i. uint (0x41 + of_nat i :: uint) = int (of_char (''ABCDEFGHIJKLMNOPQRSTUVWXYZ'' ! i))
      \<and> uint (0x61 + of_nat i :: uint) = int (of_char (''abcdefghijklmnopqrstuvwxyz'' ! i))) [0..<26]" by code_simp
  then have "uint (0x41 + of_nat i :: uint) = int (of_char (''ABCDEFGHIJKLMNOPQRSTUVWXYZ'' ! i))"
    "uint (0x61 + of_nat i :: uint) = int (of_char (''abcdefghijklmnopqrstuvwxyz'' ! i))"
    using assms(1) by (simp_all add: list_all_iff)
  then show ?thesis
    using assms(4-) kbd_key_letter [OF assms(1-3)]
    by (auto simp: kbdgetc_def inb_def krun KBSTATP_def KBDATAP_def)
qed

theorem kbd_letters_witness:
  "\<forall>s :: kio. \<exists>t. kbdgetc (s\<lparr>kbd_shift := 1, port_in := (\<lambda>p. if p = KBSTATP then [1] else [0x30])\<rparr>) = Ok 66 t"
proof
  fix s :: kio
  show "\<exists>t. kbdgetc (s\<lparr>kbd_shift := 1, port_in := (\<lambda>p. if p = KBSTATP then [1] else [0x30])\<rparr>) = Ok 66 t"
    using kbd_letters [of 1 "s\<lparr>kbd_shift := 1, port_in := (\<lambda>p. if p = KBSTATP then [1] else [0x30])\<rparr>" 1 "[]" "[]"]
    by (auto simp: E0ESC_def CTL_def KBS_DIB_def KBSTATP_def KBDATAP_def letter_codes_def SHIFT_def CAPSLOCK_def)
qed

end
