(* ===== verification/Mp.thy ===== *)
theory Mp
  imports Devices
begin

text \<open>
  Finding the processors (\<^verbatim>\<open>mp.c\<close>, \<^verbatim>\<open>mp.h\<close>): the search for the tables that the BIOS leaves in memory, and their evaluation.  The structures are
  the bytes of the memory.  The evaluation can run forever; the value of such a run is \<open>None\<close>.
\<close>

section \<open>Structures (mp.h)\<close>

definition MPPROC :: uchar where "MPPROC = 0"
definition MPBUS :: uchar where "MPBUS = 1"
definition MPIOAPIC :: uchar where "MPIOAPIC = 2"
definition MPIOINTR :: uchar where "MPIOINTR = 3"
definition MPLINTR :: uchar where "MPLINTR = 4"

definition mp_physaddr :: "memory \<Rightarrow> uint \<Rightarrow> uint" where "mp_physaddr m p = load32 m (p + 4)"
definition mp_imcrp :: "memory \<Rightarrow> uint \<Rightarrow> uchar" where "mp_imcrp m p = m (p + 12)"

definition conf_length :: "memory \<Rightarrow> uint \<Rightarrow> uint" where "conf_length m c = ucast (m (c + 4)) OR push_bit 8 (ucast (m (c + 5)))"
definition conf_version :: "memory \<Rightarrow> uint \<Rightarrow> uchar" where "conf_version m c = m (c + 6)"
definition conf_lapicaddr :: "memory \<Rightarrow> uint \<Rightarrow> uint" where "conf_lapicaddr m c = load32 m (c + 36)"

section \<open>Searching\<close>

text \<open>The sum is computed as an int and cut to a byte when it is returned.\<close>

definition mp_sum :: "memory \<Rightarrow> uint \<Rightarrow> nat \<Rightarrow> uchar" where
  "mp_sum m addr len = of_int (foldl (\<lambda>k i. k + uint (m (addr + of_nat i))) 0 [0..<len])"

function mpsearch1_loop :: "memory \<Rightarrow> uint \<Rightarrow> uint \<Rightarrow> uint option" where
  "mpsearch1_loop m p e =
     (if p < e then
        if memcmp (load_bytes m p 4) (lit ''_MP_'') 4 = Some 0 \<and> mp_sum m p 16 = 0 then Some p
        else if p < p + 16 then mpsearch1_loop m (p + 16) e else None
      else Some 0)"
  by pat_completeness auto
termination
  by (relation "measure (\<lambda>(m, p, e). unat e - unat p)") (auto simp: word_less_nat_alt)

declare mpsearch1_loop.simps [simp del]

definition mpsearch1 :: "memory \<Rightarrow> uint \<Rightarrow> uint \<Rightarrow> uint option" where
  "mpsearch1 m a len = (let addr = P2V a in mpsearch1_loop m addr (addr + len))"

definition mpsearch :: "memory \<Rightarrow> uint option" where
  "mpsearch m =
     (let bda = P2V 0x400; p = push_bit 4 (push_bit 8 (ucast (m (bda + 0x0F))) OR ucast (m (bda + 0x0E))) in
      case (if p \<noteq> 0 then mpsearch1 m p 1024
            else mpsearch1 m ((push_bit 8 (ucast (m (bda + 0x14))) OR ucast (m (bda + 0x13))) * 1024 - 1024) 1024) of
        None \<Rightarrow> None
      | Some r \<Rightarrow> if r \<noteq> 0 then Some r else mpsearch1 m 0xF0000 0x10000)"

text \<open>The configuration table and the floating pointer that leads to it; the table 0 is none.\<close>

definition mpconfig :: "memory \<Rightarrow> (uint \<times> uint) option" where
  "mpconfig m = (case mpsearch m of
     None \<Rightarrow> None
   | Some p \<Rightarrow>
       if p = 0 \<or> mp_physaddr m p = 0 then Some (0, p)
       else
         (let conf = P2V (mp_physaddr m p) in
          if memcmp (load_bytes m conf 4) (lit ''PCMP'') 4 \<noteq> Some 0 then Some (0, p)
          else if conf_version m conf \<noteq> 1 \<and> conf_version m conf \<noteq> 4 then Some (0, p)
          else if mp_sum m conf (unat (conf_length m conf)) \<noteq> 0 then Some (0, p)
          else Some (conf, p)))"

section \<open>Evaluation\<close>

text \<open>
  The loop over the entries.  An entry of an unknown type sets \<^verbatim>\<open>ismp\<close> to 0 and leaves only the \<^verbatim>\<open>switch\<close>, so that the loop comes back to
  the same entry.
\<close>

partial_function (option) mp_entries :: "memory \<Rightarrow> uint \<Rightarrow> uint \<Rightarrow> bool \<Rightarrow> uchar list \<Rightarrow> uchar \<Rightarrow> (bool \<times> uchar list \<times> uchar) option" where
  "mp_entries m p e ismp ids io =
     (if p < e then
        if m p = MPPROC then mp_entries m (p + 20) e ismp (if length ids < NCPU then ids @ [m (p + 1)] else ids) io
        else if m p = MPIOAPIC then mp_entries m (p + 8) e ismp ids (m (p + 1))
        else if m p = MPBUS \<or> m p = MPIOINTR \<or> m p = MPLINTR then mp_entries m (p + 8) e ismp ids io
        else mp_entries m p e False ids io
      else Some (ismp, ids, io))"

definition mpinit :: "(unit, 'z kio_scheme) M" where
  "mpinit =
     kbind (kget (\<lambda>s. mpconfig (mem s))) (\<lambda>r.
     kbind (kopt r) (\<lambda>(conf, p).
     if conf = 0 then kpanic ''Expect to run on an SMP''
     else
       kseq (kmod (\<lambda>s. s\<lparr>lapic := conf_lapicaddr (mem s) conf\<rparr>))
      (kbind (kget (\<lambda>s. mp_entries (mem s) (conf + 44) (conf + conf_length (mem s) conf) True (apicids s) (ioapicid s))) (\<lambda>r.
       kbind (kopt r) (\<lambda>(ismp, ids, io).
       kseq (kmod (\<lambda>s. s\<lparr>apicids := ids, ioapicid := io\<rparr>))
      (if \<not> ismp then kpanic ''Didn't find a suitable machine''
       else
         kbind (kget (\<lambda>s. mp_imcrp (mem s) p)) (\<lambda>imcrp.
         kwhen (imcrp \<noteq> 0)
           (kseq (outb 0x22 0x70)
           (kbind (inb 0x23) (\<lambda>v. outb 0x23 (v OR 1)))))))))))"

section \<open>What a table means\<close>

datatype mpentry = Processor uchar | Io_apic uchar | Other

text \<open>The entries from \<open>p\<close> up to \<open>q\<close>.\<close>

fun entries_at :: "memory \<Rightarrow> uint \<Rightarrow> mpentry list \<Rightarrow> uint \<Rightarrow> bool" where
  "entries_at m p [] q \<longleftrightarrow> p = q"
| "entries_at m p (Processor i # es) q \<longleftrightarrow> p < q \<and> m p = MPPROC \<and> m (p + 1) = i \<and> entries_at m (p + 20) es q"
| "entries_at m p (Io_apic i # es) q \<longleftrightarrow> p < q \<and> m p = MPIOAPIC \<and> m (p + 1) = i \<and> entries_at m (p + 8) es q"
| "entries_at m p (Other # es) q \<longleftrightarrow> p < q \<and> m p \<in> {MPBUS, MPIOINTR, MPLINTR} \<and> entries_at m (p + 8) es q"

fun processors :: "mpentry list \<Rightarrow> uchar list" where
  "processors [] = []"
| "processors (Processor i # es) = i # processors es"
| "processors (_ # es) = processors es"

fun last_ioapic :: "mpentry list \<Rightarrow> uchar \<Rightarrow> uchar" where
  "last_ioapic [] io = io"
| "last_ioapic (Io_apic i # es) io = last_ioapic es i"
| "last_ioapic (_ # es) io = last_ioapic es io"

lemmas mp_types = MPPROC_def MPBUS_def MPIOAPIC_def MPIOINTR_def MPLINTR_def

lemma mp_entries_run:
  assumes "entries_at m p es q" "q \<le> e" "length ids \<le> NCPU"
  shows "mp_entries m p e ismp ids io = mp_entries m q e ismp (take NCPU (ids @ processors es)) (last_ioapic es io)"
  using assms
proof (induction m p es q arbitrary: ids io rule: entries_at.induct)
  case (2 m p i es q)
  let ?ids = "if length ids < NCPU then ids @ [m (p + 1)] else ids"
  have "take NCPU (?ids @ processors es) = take NCPU (ids @ processors (Processor i # es))"
    using 2(2) 2(4) by (auto simp: take_Cons')
  then show ?case using 2 by (subst mp_entries.simps) (auto simp: mp_types)
next
  case (3 m p i es q)
  then show ?case by (subst mp_entries.simps) (auto simp: mp_types)
next
  case (4 m p es q)
  then show ?case by (subst mp_entries.simps) (auto simp: mp_types)
qed simp

definition known_entry :: "uchar \<Rightarrow> bool" where
  "known_entry t \<longleftrightarrow> t \<in> {MPPROC, MPIOAPIC, MPBUS, MPIOINTR, MPLINTR}"

lemma mp_entries_unknown:
  assumes "p < e" "\<not> known_entry (m p)"
  shows "mp_entries m p e ismp ids io = None"
proof -
  have "\<not> (p < e \<and> \<not> known_entry (m p))" if "mp_entries m p e ismp ids io = Some r" for r
    using _ that
  proof (rule mp_entries.raw_induct [where P = "\<lambda>m p e ismp ids io r. \<not> (p < e \<and> \<not> known_entry (m p))"])
    fix f m p e ismp ids io r
    assume IH: "\<And>m p e ismp ids io r. f m p e ismp ids io = Some r \<Longrightarrow> \<not> (p < e \<and> \<not> known_entry (m p))"
      and run: "(if p < e then
        if m p = MPPROC then f m (p + 20) e ismp (if length ids < NCPU then ids @ [m (p + 1)] else ids) io
        else if m p = MPIOAPIC then f m (p + 8) e ismp ids (m (p + 1))
        else if m p = MPBUS \<or> m p = MPIOINTR \<or> m p = MPLINTR then f m (p + 8) e ismp ids io
        else f m p e False ids io
      else Some (ismp, ids, io)) = Some r"
    show "\<not> (p < e \<and> \<not> known_entry (m p))"
    proof
      assume u: "p < e \<and> \<not> known_entry (m p)"
      then have "f m p e False ids io = Some r" using run by (simp add: known_entry_def)
      from IH [OF this] u show False by simp
    qed
  qed
  then show ?thesis using assms by (cases "mp_entries m p e ismp ids io") auto
qed

text \<open>The tables of a machine with two processors; the type of the last entry and the checksum of the table are arguments.\<close>

definition bios_conf :: "uchar \<Rightarrow> uchar \<Rightarrow> uchar list" where
  "bios_conf ty ck = lit ''PCMP'' @ [92, 0, 4, ck] @ replicate 28 0 @ [0, 0, 0xE0, 0xFE] @ replicate 4 0
     @ [0, 0] @ replicate 18 0 @ [0, 1] @ replicate 18 0 @ [ty, 2] @ replicate 6 0"

definition bios :: "uchar \<Rightarrow> uchar \<Rightarrow> memory" where
  "bios ty ck = (\<lambda>a.
     if a - 0x8009FC00 < 16 then (lit ''_MP_'' @ [0, 0xFD, 0x09, 0, 1, 4, 154] @ replicate 5 0) ! unat (a - 0x8009FC00)
     else if a - 0x8009FD00 < 92 then bios_conf ty ck ! unat (a - 0x8009FD00)
     else if a - 0x8000040E < 2 then [0xC0, 0x9F] ! unat (a - 0x8000040E)
     else 0)"

lemma bios_config:
  "mpconfig (bios 2 141) = Some (0x8009FD00, 0x8009FC00)" "mpconfig (bios 9 134) = Some (0x8009FD00, 0x8009FC00)"
  "conf_length (bios 2 141) 0x8009FD00 = 92" "conf_length (bios 9 134) 0x8009FD00 = 92"
  "entries_at (bios 2 141) 0x8009FD2C [Processor 0, Processor 1, Io_apic 2] 0x8009FD5C"
  "entries_at (bios 9 134) 0x8009FD2C [Processor 0, Processor 1] 0x8009FD54"
  by code_simp+

section \<open>Properties\<close>

text \<open>
  C38: \<^verbatim>\<open>mpinit\<close> evaluates the table: when it has found a configuration table whose entries fill it, it registers
  the processors of the table in their order, at most \<^verbatim>\<open>NCPU\<close> of them, takes the last I/O APIC and the address of the local APIC, and
  changes nothing else.
\<close>

theorem mpinit_registers_processors:
  assumes "mpconfig (mem s) = Some (conf, p)" "conf \<noteq> 0" "entries_at (mem s) (conf + 44) es (conf + conf_length (mem s) conf)"
    and "apicids s = []" "mp_imcrp (mem s) p = 0"
  shows "mpinit s = Ok () (s\<lparr>lapic := conf_lapicaddr (mem s) conf, apicids := take NCPU (processors es), ioapicid := last_ioapic es (ioapicid s)\<rparr>)"
proof -
  have "mp_entries (mem s) (conf + 44) (conf + conf_length (mem s) conf) True [] (ioapicid s)
      = Some (True, take NCPU (processors es), last_ioapic es (ioapicid s))"
    using mp_entries_run [OF assms(3), of _ "[]"] by (subst mp_entries_run [OF assms(3)]) (simp_all add: mp_entries.simps)
  then show ?thesis using assms(1,2,4,5) by (simp add: mpinit_def krun)
qed

theorem mpinit_registers_processors_witness:
  "\<forall>s :: kio. mpinit (s\<lparr>mem := bios 2 141, apicids := []\<rparr>)
     = Ok () (s\<lparr>mem := bios 2 141, lapic := 0xFEE00000, apicids := [0, 1], ioapicid := 2\<rparr>)"
proof
  fix s :: kio
  have "mp_imcrp (bios 2 141) 0x8009FC00 = 0" "conf_lapicaddr (bios 2 141) 0x8009FD00 = 0xFEE00000" by code_simp+
  then show "mpinit (s\<lparr>mem := bios 2 141, apicids := []\<rparr>) = Ok () (s\<lparr>mem := bios 2 141, lapic := 0xFEE00000, apicids := [0, 1], ioapicid := 2\<rparr>)"
    using mpinit_registers_processors [of "s\<lparr>mem := bios 2 141, apicids := []\<rparr>" "0x8009FD00" "0x8009FC00" "[Processor 0, Processor 1, Io_apic 2]"]
    by (simp add: bios_config NCPU_def del: entries_at.simps)
qed

text \<open>
  C39: An entry of an unknown type stops the machine: \<^verbatim>\<open>mpinit\<close> does not return and does not reach its panic about an unsuitable machine,
  because the \<^verbatim>\<open>break\<close> of the default case does not leave the loop.
\<close>

theorem mpinit_unknown_entry_hangs:
  assumes "mpconfig (mem s) = Some (conf, p)" "conf \<noteq> 0" "entries_at (mem s) (conf + 44) es q"
    and "q < conf + conf_length (mem s) conf" "\<not> known_entry (mem s q)" "apicids s = []"
  shows "mp_entries (mem s) (conf + 44) (conf + conf_length (mem s) conf) True (apicids s) (ioapicid s) = None \<and> mpinit s = Undef"
proof -
  have "mp_entries (mem s) (conf + 44) (conf + conf_length (mem s) conf) True [] (ioapicid s) = None"
    using mp_entries_run [OF assms(3), of "conf + conf_length (mem s) conf" "[]"] mp_entries_unknown [where m = "mem s", OF assms(4,5)] assms(4) by simp
  then show ?thesis using assms(1,2,6) by (simp add: mpinit_def krun)
qed

theorem mpinit_unknown_entry_hangs_witness:
  "\<forall>s :: kio. mpinit (s\<lparr>mem := bios 9 134, apicids := []\<rparr>) = Undef"
proof
  fix s :: kio
  have "bios 9 134 0x8009FD54 = 9" by code_simp
  then show "mpinit (s\<lparr>mem := bios 9 134, apicids := []\<rparr>) = Undef"
    using mpinit_unknown_entry_hangs [of "s\<lparr>mem := bios 9 134, apicids := []\<rparr>" "0x8009FD00" "0x8009FC00" "[Processor 0, Processor 1]" "0x8009FD54"]
    by (simp add: bios_config known_entry_def mp_types del: entries_at.simps)
qed

end
