(* ===== verification/Ide.thy ===== *)
theory Ide
  imports Devices Bio_Inv
begin

text \<open>
  The disk driver (\<^verbatim>\<open>ide.c\<close>) of the kernel that boots from a disk; the kernel with the disk in memory links \<^verbatim>\<open>memide.c\<close> (theory
  Bio) in its place.  Requests wait in a list that is linked through the buffers; the first one is with the disk.  The driver
  is shown to serve the requests in the order in which they were made.
\<close>

section \<open>The disk\<close>

definition IDE_BSY :: uchar where "IDE_BSY = 0x80"
definition IDE_DRDY :: uchar where "IDE_DRDY = 0x40"
definition IDE_DF :: uchar where "IDE_DF = 0x20"
definition IDE_ERR :: uchar where "IDE_ERR = 0x01"
definition IDE_CMD_READ :: uchar where "IDE_CMD_READ = 0x20"
definition IDE_CMD_WRITE :: uchar where "IDE_CMD_WRITE = 0x30"

definition ide_ready :: "uchar \<Rightarrow> bool" where
  "ide_ready r \<longleftrightarrow> r AND (IDE_BSY OR IDE_DRDY) = IDE_DRDY"

function idewait :: "bool \<Rightarrow> (int, 'z kio_scheme) M" where
  "idewait checkerr s = (case inb 0x1f7 s of
     Ok r t \<Rightarrow> if \<not> ide_ready r then idewait checkerr t
       else Ok (if checkerr \<and> r AND (IDE_DF OR IDE_ERR) \<noteq> 0 then - 1 else 0) t
   | Panic e \<Rightarrow> Panic e | Swtch t \<Rightarrow> Swtch t | Undef \<Rightarrow> Undef)"
  by pat_completeness auto
termination
  by (relation "measure (\<lambda>(c, s). length (port_in s 0x1f7))") (auto simp: inb_def split: list.splits)

declare idewait.simps [simp del]

text \<open>The search for the second disk: at most \<open>n\<close> reads of the status.\<close>

primrec ide_probe :: "nat \<Rightarrow> (unit, 'z kio_scheme) M" where
  "ide_probe 0 = kret ()"
| "ide_probe (Suc n) = kbind (inb 0x1f7) (\<lambda>r. if r \<noteq> 0 then kmod (\<lambda>s. s\<lparr>havedisk1 := True\<rparr>) else ide_probe n)"

definition ideinit :: "(unit, 'z kio_scheme) M" where
  "ideinit =
     kbind (kget (\<lambda>s. length (apicids s))) (\<lambda>ncpu.
     kseq (ioapicenable IRQ_IDE (of_nat ncpu - 1))
    (kbind (idewait False) (\<lambda>_.
     kseq (outb 0x1f6 (0xe0 OR push_bit 4 1))
    (kseq (ide_probe 1000)
          (outb 0x1f6 0xe0)))))"

text \<open>A block is one sector, so the single-sector commands are used.\<close>

definition idestart :: "nat option \<Rightarrow> (unit, 'z kio_scheme) M" where
  "idestart r = (case r of
     None \<Rightarrow> kpanic ''idestart''
   | Some i \<Rightarrow>
       kbind (getb i) (\<lambda>b.
       if b_blockno b \<ge> of_nat FSSIZE then kpanic ''incorrect blockno''
       else
         (let sector = b_blockno b in
          kbind (idewait False) (\<lambda>_.
          kseq (outb 0x3f6 0)
         (kseq (outb 0x1f2 1)
         (kseq (outb 0x1f3 (ucast (sector AND 0xff)))
         (kseq (outb 0x1f4 (ucast (drop_bit 8 sector AND 0xff)))
         (kseq (outb 0x1f5 (ucast (drop_bit 16 sector AND 0xff)))
         (kseq (outb 0x1f6 (0xe0 OR push_bit 4 (ucast (b_dev b AND 1)) OR ucast (drop_bit 24 sector AND 0x0f)))
               (if b_dirty b then kseq (outb 0x1f7 IDE_CMD_WRITE) (outsl 0x1f0 (b_data b))
                else outb 0x1f7 IDE_CMD_READ))))))))))"

section \<open>The queue\<close>

text \<open>The last buffer of the list that starts at \<open>i\<close>; on a list that runs in a circle the loop does not end.\<close>

partial_function (option) ide_tail :: "(nat \<Rightarrow> nat option) \<Rightarrow> nat \<Rightarrow> nat option" where
  "ide_tail nx i = (case nx i of None \<Rightarrow> Some i | Some j \<Rightarrow> ide_tail nx j)"

definition ide_append :: "nat \<Rightarrow> (unit, 'z kio_scheme) M" where
  "ide_append i =
     kseq (kmod (\<lambda>s. s\<lparr>qnext := (qnext s)(i := None)\<rparr>))
    (kbind (kget idequeue) (\<lambda>q. case q of
       None \<Rightarrow> kmod (\<lambda>s. s\<lparr>idequeue := Some i\<rparr>)
     | Some j \<Rightarrow>
         kbind (kget (\<lambda>s. ide_tail (qnext s) j)) (\<lambda>r. kbind (kopt r) (\<lambda>l.
         kmod (\<lambda>s. s\<lparr>qnext := (qnext s)(l := Some i)\<rparr>)))))"

text \<open>The end of the interrupt handler: the disk gets the next request.\<close>

definition ide_next :: "(unit, 'z kio_scheme) M" where
  "ide_next = kbind (kget idequeue) (\<lambda>q. kseq (kwhen (q \<noteq> None) (idestart q)) (release IdeLock))"

definition ideintr :: "(unit, 'z kio_scheme) M" where
  "ideintr =
     kseq (acquire IdeLock)
    (kbind (kget idequeue) (\<lambda>q. case q of
       None \<Rightarrow> release IdeLock
     | Some i \<Rightarrow>
         kseq (kmod (\<lambda>s. s\<lparr>idequeue := qnext s i\<rparr>))
        (kbind (getb i) (\<lambda>b.
         kseq (if b_dirty b then kret ()
               else
                 kbind (idewait True) (\<lambda>r.
                 kwhen (r \<ge> 0) (kbind (insl 0x1f0) (\<lambda>d. updb i (\<lambda>b. b\<lparr>b_data := d\<rparr>)))))
        (kseq (updb i (\<lambda>b. b\<lparr>b_valid := True\<rparr>))
        (kseq (updb i (\<lambda>b. b\<lparr>b_dirty := False\<rparr>))
        (kseq (wakeup (ChDisk i))
         ide_next)))))))"

text \<open>The wait for the request, with the lock held.\<close>

definition iderw_wait :: "nat \<Rightarrow> (unit, 'z kio_scheme) M" where
  "iderw_wait i =
     kbind (getb i) (\<lambda>b.
     if b_valid b \<and> \<not> b_dirty b then release IdeLock else sleep (ChDisk i) IdeLock)"

definition ide_iderw :: "nat \<Rightarrow> (unit, 'z kio_scheme) M" where
  "ide_iderw i =
     kbind (holdingsleep (buf_lens i)) (\<lambda>h.
     if \<not> h then kpanic ''iderw: buf not locked''
     else
       kbind (getb i) (\<lambda>b.
       if b_valid b \<and> \<not> b_dirty b then kpanic ''iderw: nothing to do''
       else
         kbind (kget havedisk1) (\<lambda>d1.
         if b_dev b \<noteq> 0 \<and> \<not> d1 then kpanic ''iderw: ide disk 1 not present''
         else
           kseq (acquire IdeLock)
          (kseq (ide_append i)
          (kbind (kget idequeue) (\<lambda>q.
           kseq (kwhen (q = Some i) (idestart (Some i)))
                (iderw_wait i)))))))"

definition iderw_return :: "nat \<Rightarrow> nat \<Rightarrow> (unit, 'z kio_scheme) M" where
  "iderw_return c i = kseq (sleep_return c IdeLock) (iderw_wait i)"

section \<open>The list of requests\<close>

fun chain :: "(nat \<Rightarrow> nat option) \<Rightarrow> nat option \<Rightarrow> nat list \<Rightarrow> bool" where
  "chain nx p [] \<longleftrightarrow> p = None"
| "chain nx p (x # xs) \<longleftrightarrow> p = Some x \<and> chain nx (nx x) xs"

definition ideq :: "'z kio_scheme \<Rightarrow> nat list \<Rightarrow> bool" where
  "ideq s xs \<longleftrightarrow> chain (qnext s) (idequeue s) xs \<and> distinct xs"

lemma chain_other: "x \<notin> set xs \<Longrightarrow> chain (nx(x := y)) p xs = chain nx p xs"
  by (induction xs arbitrary: p) auto

lemma chain_append:
  assumes "chain nx (nx l) []" "chain nx p (xs @ [l])" "i \<notin> set (xs @ [l])" "distinct (xs @ [l])" "nx i = None"
  shows "chain (nx(l := Some i)) p (xs @ [l, i])"
  using assms by (induction xs arbitrary: p) (auto simp: fun_upd_def)

lemma ide_tail_chain:
  assumes "chain nx (Some j) (xs @ [l])"
  shows "ide_tail nx j = Some l \<and> nx l = None"
  using assms
proof (induction xs arbitrary: j)
  case Nil
  then show ?case by (auto simp: ide_tail.simps)
next
  case (Cons x xs)
  then have "x = j" "chain nx (nx j) (xs @ [l])" by auto
  moreover then obtain k where "nx j = Some k" by (cases xs) auto
  ultimately show ?case using Cons.IH [of k] by (subst ide_tail.simps) auto
qed

lemma ide_append_run:
  assumes "ideq s xs" "i \<notin> set xs"
  shows "\<exists>t. ide_append i s = Ok () t \<and> ideq t (xs @ [i]) \<and> (\<exists>q n. t = s\<lparr>idequeue := q, qnext := n\<rparr>)"
proof (cases xs rule: rev_cases)
  case Nil
  let ?t = "s\<lparr>idequeue := Some i, qnext := (qnext s)(i := None)\<rparr>"
  have "idequeue s = None" using assms Nil by (simp add: ideq_def)
  then have "ide_append i s = Ok () ?t" "ideq ?t (xs @ [i])" using Nil by (simp_all add: ide_append_def krun ideq_def)
  then show ?thesis by blast
next
  case (snoc ys l)
  let ?n = "(qnext s)(i := None)"
  obtain j where j: "idequeue s = Some j" using assms snoc by (cases ys) (auto simp: ideq_def)
  have c: "chain ?n (Some j) (ys @ [l])" using assms snoc j by (simp add: ideq_def chain_other)
  note l = ide_tail_chain [OF c]
  let ?t = "s\<lparr>qnext := ?n(l := Some i)\<rparr>"
  have "ide_append i s = Ok () ?t" using l j by (simp add: ide_append_def krun)
  moreover have "chain (?n(l := Some i)) (Some j) (ys @ [l, i])"
    using assms snoc l c by (intro chain_append) (auto simp: ideq_def)
  then have "ideq ?t (xs @ [i])" using assms snoc j by (simp add: ideq_def)
  moreover have "?t = s\<lparr>idequeue := idequeue s, qnext := ?n(l := Some i)\<rparr>" by simp
  ultimately show ?thesis by blast
qed

section \<open>Requests to the disk\<close>

text \<open>A status without error, and the commands for a buffer: the number of the block in three bytes, the drive, and the kind of the request.\<close>

definition ide_good :: "uchar \<Rightarrow> bool" where
  "ide_good r \<longleftrightarrow> ide_ready r \<and> r AND (IDE_DF OR IDE_ERR) = 0"

definition start_cmd :: "buf \<Rightarrow> io list" where
  "start_cmd b =
     (let n = unat (b_blockno b) in
      [Outb 0x3f6 0, Outb 0x1f2 1, Outb 0x1f3 (of_nat (n mod 256)), Outb 0x1f4 (of_nat (n div 256)), Outb 0x1f5 0,
       Outb 0x1f6 (if odd (b_dev b) then 0xf0 else 0xe0)]
      @ (if b_dirty b then [Outb 0x1f7 IDE_CMD_WRITE, Outsl 0x1f0 (b_data b)] else [Outb 0x1f7 IDE_CMD_READ]))"

lemma idewait_ready:
  assumes "port_in s 0x1f7 = us @ r # rs" "\<forall>u \<in> set us. \<not> ide_ready u" "ide_ready r"
  shows "idewait c s = Ok (if c \<and> r AND (IDE_DF OR IDE_ERR) \<noteq> 0 then - 1 else 0) (s\<lparr>port_in := (port_in s)(0x1f7 := rs)\<rparr>)"
  using assms
proof (induction us arbitrary: s)
  case Nil
  then have "inb 0x1f7 s = Ok r (s\<lparr>port_in := (port_in s)(0x1f7 := rs)\<rparr>)" by (simp add: inb_def)
  then show ?case using Nil.prems(3) by (subst idewait.simps) simp
next
  case (Cons u us)
  then have "inb 0x1f7 s = Ok u (s\<lparr>port_in := (port_in s)(0x1f7 := us @ r # rs)\<rparr>)" by (simp add: inb_def)
  moreover have "idewait c (s\<lparr>port_in := (port_in s)(0x1f7 := us @ r # rs)\<rparr>)
      = Ok (if c \<and> r AND (IDE_DF OR IDE_ERR) \<noteq> 0 then - 1 else 0) (s\<lparr>port_in := (port_in s)(0x1f7 := rs)\<rparr>)"
    using Cons.IH [of "s\<lparr>port_in := (port_in s)(0x1f7 := us @ r # rs)\<rparr>"] Cons.prems by (simp add: fun_upd_def cong: if_cong)
  ultimately show ?case using Cons.prems(2) by (subst idewait.simps) simp
qed

lemma sector_bytes:
  fixes n :: uint
  assumes "n < of_nat FSSIZE"
  shows "ucast (n AND 0xff) = (of_nat (unat n mod 256) :: uchar)" "ucast (drop_bit 8 n AND 0xff) = (of_nat (unat n div 256) :: uchar)"
    "drop_bit 16 n AND 0xff = 0" "drop_bit 24 n AND 0x0f = 0"
proof -
  have n: "unat n < 1000" using assms by (simp add: word_less_nat_alt FSSIZE_def)
  have ff: "(0xff :: uint) = mask 8" by (simp add: mask_eq_exp_minus_1)
  have low: "ucast (x AND 0xff) = (of_nat (unat x) :: uchar)" for x :: uint
    unfolding ff by (rule bit_word_eqI) (simp add: bit_simps)
  show "ucast (n AND 0xff) = (of_nat (unat n mod 256) :: uchar)"
    unfolding low by (rule bit_word_eqI) (simp add: bit_simps flip: take_bit_eq_mod [of 8 "unat n", simplified])
  show "ucast (drop_bit 8 n AND 0xff) = (of_nat (unat n div 256) :: uchar)"
    unfolding low by (simp add: drop_bit_eq_div unat_div)
  have "unat (drop_bit 16 n) = 0" "unat (drop_bit 24 n) = 0" using n by (simp_all add: drop_bit_eq_div unat_div)
  then have "drop_bit 16 n = 0" "drop_bit 24 n = 0" by (simp_all only: unat_eq_zero)
  then show "drop_bit 16 n AND 0xff = 0" "drop_bit 24 n AND 0x0f = 0" by simp_all
qed

lemma drive_byte: "0xe0 OR push_bit 4 (ucast ((d :: uint) AND 1)) = (if odd d then 0xf0 else 0xe0 :: uchar)"
  by (simp add: and_one_eq mod_2_eq_odd push_bit_eq_mult)

lemma idestart_run:
  assumes "i < length (bufs s)" "b_blockno (bufs s ! i) < of_nat FSSIZE"
    and "port_in s 0x1f7 = us @ r # rs" "\<forall>u \<in> set us. \<not> ide_ready u" "ide_ready r"
  shows "idestart (Some i) s = Ok () (s\<lparr>port_in := (port_in s)(0x1f7 := rs), io_out := io_out s @ start_cmd (bufs s ! i)\<rparr>)"
proof -
  have "\<not> of_nat FSSIZE \<le> b_blockno (bufs s ! i)" using assms(2) by simp
  then show ?thesis
    using assms(1) idewait_ready [OF assms(3-5), of False] sector_bytes [OF assms(2)]
    by (simp add: idestart_def getb_def outb_def outsl_def io_log_def krun Let_def start_cmd_def drive_byte)
qed

lemma idewait_good:
  assumes "port_in s 0x1f7 \<noteq> []" "ide_ready (hd (port_in s 0x1f7))"
  shows "idewait c s = Ok (if c \<and> hd (port_in s 0x1f7) AND (IDE_DF OR IDE_ERR) \<noteq> 0 then - 1 else 0)
    (s\<lparr>port_in := (port_in s)(0x1f7 := tl (port_in s 0x1f7))\<rparr>)"
  using assms by (intro idewait_ready [where us = "[]"]) auto

lemma idestart_good:
  assumes "i < length (bufs s)" "b_blockno (bufs s ! i) < of_nat FSSIZE" "port_in s 0x1f7 \<noteq> []" "ide_ready (hd (port_in s 0x1f7))"
  shows "idestart (Some i) s = Ok () (s\<lparr>port_in := (port_in s)(0x1f7 := tl (port_in s 0x1f7)), io_out := io_out s @ start_cmd (bufs s ! i)\<rparr>)"
  using assms by (intro idestart_run [where us = "[]"]) auto

lemma sleep_run:
  assumes "curproc s = Some c" "c < length (procs (ptable s))" "held s = [lk]" "lk \<noteq> PtableLock"
  shows "sleep ch lk s = Swtch (s\<lparr>held := [PtableLock], ptable := ptable_upd c (\<lambda>p. p\<lparr>p_chan := Some ch, p_state := SLEEPING\<rparr>) (ptable s)\<rparr>)"
  using assms by (simp add: sleep_def krun sched_def myproc_def getp_def updp_def ptable_upd_def)

text \<open>The end of an interrupt: the next request is started.\<close>

definition next_cmd :: "buf list \<Rightarrow> nat list \<Rightarrow> io list" where
  "next_cmd bs xs = (case xs of [] \<Rightarrow> [] | y # _ \<Rightarrow> start_cmd (bs ! y))"

definition ide_done :: "block list \<Rightarrow> buf \<Rightarrow> buf" where
  "ide_done ds b = b\<lparr>b_data := (if b_dirty b then b_data b else hd ds), b_valid := True, b_dirty := False\<rparr>"

definition after_read :: "buf \<Rightarrow> 'a list \<Rightarrow> 'a list" where
  "after_read b xs = (if b_dirty b then xs else tl xs)"

lemma ideintr_run:
  assumes q: "ideq s (x # xs)" and lk: "held s = []" and b: "\<forall>y \<in> set (x # xs). y < length (bufs s) \<and> b_blockno (bufs s ! y) < of_nat FSSIZE"
    and st: "\<forall>r \<in> set (port_in s 0x1f7). ide_good r" "length (port_in s 0x1f7) \<ge> 2" and d: "disk_in s \<noteq> []"
  shows "\<exists>t. ideintr s = Ok () t \<and> ideq t xs \<and> held t = [] \<and> bufs t = (bufs s)[x := ide_done (disk_in s) (bufs s ! x)]
    \<and> ptable t = woken (ChDisk x) (ptable s) \<and> io_out t = io_out s @ next_cmd (bufs s) xs \<and> disk_in t = after_read (bufs s ! x) (disk_in s)
    \<and> (\<exists>k \<le> 2. port_in t 0x1f7 = drop k (port_in s 0x1f7))"
proof -
  obtain r1 r2 rs where r: "port_in s 0x1f7 = r1 # r2 # rs" using st(2) by (metis Suc_le_length_iff numeral_2_eq_2)
  obtain d1 ds where d1: "disk_in s = d1 # ds" using d by (cases "disk_in s") auto
  have g: "ide_ready r1" "ide_ready r2" "r1 AND (IDE_DF OR IDE_ERR) = 0" using st(1) r by (auto simp: ide_good_def)
  have qx: "idequeue s = Some x" "chain (qnext s) (qnext s x) xs" "x \<notin> set xs" "distinct xs" using q by (auto simp: ideq_def)
  have x: "x < length (bufs s)" using b by simp
  let ?b = "bufs s ! x" and ?k = "if b_dirty (bufs s ! x) then 0 else 1 :: nat"
  let ?u = "s\<lparr>held := [IdeLock], idequeue := qnext s x, port_in := (port_in s)(0x1f7 := drop ?k (port_in s 0x1f7)),
    disk_in := after_read ?b (disk_in s), bufs := (bufs s)[x := ide_done (disk_in s) ?b], ptable := woken (ChDisk x) (ptable s)\<rparr>"
  have run: "ideintr s = ide_next ?u"
  proof (cases "b_dirty ?b")
    case True
    then show ?thesis using qx(1) x lk
      by (simp add: ideintr_def krun getb_def updb_def wakeup_woken ide_done_def after_read_def)
  next
    case False
    then show ?thesis using qx(1) x lk g d1 r
      by (simp add: ideintr_def krun getb_def updb_def wakeup_woken ide_done_def after_read_def idewait_good insl_def)
  qed
  show ?thesis
  proof (cases xs)
    case Nil
    then have "ide_next ?u = Ok () (?u\<lparr>held := []\<rparr>)" using qx by (simp add: ide_next_def krun)
    moreover have "ideq (?u\<lparr>held := []\<rparr>) xs" using qx by (simp add: ideq_def)
    moreover have "\<exists>k \<le> 2. drop ?k (port_in s 0x1f7) = drop k (port_in s 0x1f7)" by (rule exI [of _ ?k]) simp
    ultimately show ?thesis using run Nil by (simp add: next_cmd_def)
  next
    case (Cons y ys)
    then have y: "qnext s x = Some y" "y < length (bufs s)" "b_blockno (bufs s ! y) < of_nat FSSIZE" "y \<noteq> x" using qx b by auto
    let ?t = "?u\<lparr>held := [], port_in := (port_in s)(0x1f7 := drop (Suc ?k) (port_in s 0x1f7)), io_out := io_out s @ start_cmd (bufs s ! y)\<rparr>"
    have "ide_next ?u = Ok () ?t" using y g r by (simp add: ide_next_def krun idestart_good)
    moreover have "ideq ?t xs" using qx by (simp add: ideq_def)
    moreover have "\<exists>k \<le> 2. drop (Suc ?k) (port_in s 0x1f7) = drop k (port_in s 0x1f7)" by (rule exI [of _ "Suc ?k"]) simp
    ultimately show ?thesis using run Cons by (simp add: next_cmd_def)
  qed
qed

section \<open>Properties\<close>

text \<open>
  C8: A request goes to the end of the queue.  \<^verbatim>\<open>iderw\<close> on a locked buffer appends it to the requests that wait, sends its commands to
  the disk only when no other request is there, leaves the buffers alone, and puts the process to sleep
  until the request is done, in one step with giving up the lock.
\<close>

theorem ide_request_queued:
  assumes q: "ideq s xs" "i \<notin> set xs" and c: "curproc s = Some c" "c < length (procs (ptable s))" "held s = []"
    and i: "i < length (bufs s)" "b_lock (bufs s ! i) = \<lparr>sl_locked = True, sl_pid = p_pid (procs (ptable s) ! c)\<rparr>"
    and b: "\<not> (b_valid (bufs s ! i) \<and> \<not> b_dirty (bufs s ! i))" "b_dev (bufs s ! i) = 0 \<or> havedisk1 s"
      "b_blockno (bufs s ! i) < of_nat FSSIZE"
    and st: "port_in s 0x1f7 = us @ r # rs" "\<forall>u \<in> set us. \<not> ide_ready u" "ide_ready r"
  shows "\<exists>t. ide_iderw i s = Swtch t \<and> ideq t (xs @ [i]) \<and> bufs t = bufs s
    \<and> io_out t = io_out s @ (if xs = [] then start_cmd (bufs s ! i) else [])
    \<and> p_state (procs (ptable t) ! c) = SLEEPING \<and> p_chan (procs (ptable t) ! c) = Some (ChDisk i) \<and> held t = [PtableLock]"
proof -
  let ?s = "s\<lparr>held := [IdeLock]\<rparr>"
  have ok: "cur_ok s" using c by (simp add: cur_ok_def)
  have "ideq ?s xs" using q(1) by (simp add: ideq_def)
  then obtain t a n where t: "ide_append i ?s = Ok () t" "ideq t (xs @ [i])" "t = ?s\<lparr>idequeue := a, qnext := n\<rparr>"
    using ide_append_run [OF _ q(2)] by blast
  have first: "idequeue t = Some i \<longleftrightarrow> xs = []"
    using t(2) q(2) by (cases xs) (auto simp: ideq_def)
  let ?u = "if xs = [] then t\<lparr>port_in := (port_in s)(0x1f7 := rs), io_out := io_out s @ start_cmd (bufs s ! i)\<rparr> else t"
  have "idestart (Some i) t = Ok () (t\<lparr>port_in := (port_in t)(0x1f7 := rs), io_out := io_out t @ start_cmd (bufs t ! i)\<rparr>)"
    using i b(3) st t(3) by (intro idestart_run) simp_all
  then have "kwhen (idequeue t = Some i) (idestart (Some i)) t = Ok () ?u" using first t(3) by (simp add: krun)
  moreover have "iderw_wait i ?u = Swtch (?u\<lparr>held := [PtableLock], ptable := ptable_upd c (\<lambda>p. p\<lparr>p_chan := Some (ChDisk i), p_state := SLEEPING\<rparr>) (ptable s)\<rparr>)"
    using c i(1) b(1) t(3) by (simp add: iderw_wait_def getb_def krun sleep_run)
  moreover have "holdingsleep (buf_lens i) s = Ok True s" using holdingsleep_buf [OF ok i(1)] i(2) c(1) by (simp add: cur_pid_def)
  ultimately have "ide_iderw i s = Swtch (?u\<lparr>held := [PtableLock], ptable := ptable_upd c (\<lambda>p. p\<lparr>p_chan := Some (ChDisk i), p_state := SLEEPING\<rparr>) (ptable s)\<rparr>)"
    using i(1) b c(3) t(1) by (simp add: ide_iderw_def krun getb_def)
  then show ?thesis using t(2,3) c(2) by (cases "xs = []") (simp_all add: ptable_upd_def ideq_def)
qed

text \<open>Two buffers of the first disk, the second one dirty, both locked by process 7.\<close>

definition two_bufs :: "buf list" where
  "two_bufs = map (\<lambda>n. \<lparr>b_valid = n > 300, b_dirty = n > 300, b_dev = 0, b_blockno = n, b_lock = \<lparr>sl_locked = True, sl_pid = 7\<rparr>, b_refcnt = 1,
     b_prev = 0, b_next = 0, b_data = replicate 512 0\<rparr>) [300, 301]"

theorem ide_request_queued_witness:
  "\<forall>(s :: kio) p. \<exists>t. ide_iderw 1 (s\<lparr>bufs := two_bufs, idequeue := Some 0, qnext := (\<lambda>_. None), held := [], curproc := Some 0, port_in := (\<lambda>_. [0x80, 0x40]),
     ptable := (ptable s)\<lparr>procs := [p\<lparr>p_pid := 7\<rparr>]\<rparr>\<rparr>) = Swtch t \<and> ideq t [0, 1]"
proof (intro allI)
  fix s :: kio and p
  let ?s = "s\<lparr>bufs := two_bufs, idequeue := Some 0, qnext := (\<lambda>_. None), held := [], curproc := Some 0, port_in := (\<lambda>_. [0x80, 0x40]),
     ptable := (ptable s)\<lparr>procs := [p\<lparr>p_pid := 7\<rparr>]\<rparr>\<rparr>"
  show "\<exists>t. ide_iderw 1 ?s = Swtch t \<and> ideq t [0, 1]"
    using ide_request_queued [of ?s "[0]" 1 0 "[0x80]" "0x40" "[]"]
    by (auto simp: ideq_def two_bufs_def FSSIZE_def ide_ready_def IDE_BSY_def IDE_DRDY_def)
qed

lemma waiting_woken:
  assumes "c < length (procs pt)"
  shows "p_state (procs (woken ch pt) ! c) = (if p_state (procs pt ! c) = SLEEPING \<and> p_chan (procs pt ! c) = Some ch then RUNNABLE else p_state (procs pt ! c))"
    "p_chan (procs (woken ch pt) ! c) = p_chan (procs pt ! c)" "length (procs (woken ch pt)) = length (procs pt)"
  using assms by (simp_all add: woken_def wakeup_proc_def)

lemma fold_woken:
  assumes "c < length (procs pt)"
  shows "p_state (procs (fold (\<lambda>y. woken (ChDisk y)) xs pt) ! c)
    = (if p_state (procs pt ! c) = SLEEPING \<and> (\<exists>y \<in> set xs. p_chan (procs pt ! c) = Some (ChDisk y)) then RUNNABLE else p_state (procs pt ! c))"
  using assms
proof (induction xs arbitrary: pt)
  case (Cons x xs)
  then show ?case
    by (cases "p_state (procs pt ! c) = SLEEPING"; cases "p_chan (procs pt ! c) = Some (ChDisk x)") (simp_all add: Cons.IH waiting_woken)
qed simp

lemma ide_serve:
  assumes "ideq s xs" "held s = []" "\<forall>y \<in> set xs. y < length (bufs s) \<and> b_blockno (bufs s ! y) < of_nat FSSIZE"
    and "\<forall>r \<in> set (port_in s 0x1f7). ide_good r" "length (port_in s 0x1f7) \<ge> 2 * length xs" "length (disk_in s) \<ge> length xs"
  shows "\<exists>t. kfor xs (\<lambda>_. ideintr) s = Ok () t \<and> ideq t [] \<and> (\<forall>y \<in> set xs. b_valid (bufs t ! y) \<and> \<not> b_dirty (bufs t ! y))
    \<and> (\<forall>y. y \<notin> set xs \<longrightarrow> bufs t ! y = bufs s ! y)
    \<and> io_out t = io_out s @ concat (map (\<lambda>y. start_cmd (bufs s ! y)) (tl xs))
    \<and> ptable t = fold (\<lambda>y. woken (ChDisk y)) xs (ptable s)"
  using assms
proof (induction xs arbitrary: s)
  case Nil
  then show ?case by (simp add: krun)
next
  case (Cons x xs)
  have "length (port_in s 0x1f7) \<ge> 2" "disk_in s \<noteq> []" using Cons.prems(5,6) by auto
  then obtain t k where t: "ideintr s = Ok () t" "ideq t xs" "held t = []" "bufs t = (bufs s)[x := ide_done (disk_in s) (bufs s ! x)]"
    "ptable t = woken (ChDisk x) (ptable s)" "io_out t = io_out s @ next_cmd (bufs s) xs" "disk_in t = after_read (bufs s ! x) (disk_in s)"
    "k \<le> 2" "port_in t 0x1f7 = drop k (port_in s 0x1f7)"
    using ideintr_run [OF Cons.prems(1-4)] by blast
  have x: "x \<notin> set xs" "x < length (bufs s)" using Cons.prems(1,3) by (auto simp: ideq_def)
  have d: "bufs t ! y = bufs s ! y" if "y \<noteq> x" for y using that t(4) by simp
  have "\<forall>y \<in> set xs. y < length (bufs t) \<and> b_blockno (bufs t ! y) < of_nat FSSIZE"
    using Cons.prems(3) x d t(4) by (metis length_list_update list.set_intros(2))
  moreover have "\<forall>r \<in> set (port_in t 0x1f7). ide_good r" using Cons.prems(4) t(9) by (auto dest: in_set_dropD)
  moreover have "length (port_in t 0x1f7) \<ge> 2 * length xs" "length (disk_in t) \<ge> length xs"
    using Cons.prems(5,6) t(7-9) by (auto simp: after_read_def)
  ultimately obtain u where u: "kfor xs (\<lambda>_. ideintr) t = Ok () u" "ideq u []" "\<forall>y \<in> set xs. b_valid (bufs u ! y) \<and> \<not> b_dirty (bufs u ! y)"
    "\<forall>y. y \<notin> set xs \<longrightarrow> bufs u ! y = bufs t ! y" "io_out u = io_out t @ concat (map (\<lambda>y. start_cmd (bufs t ! y)) (tl xs))"
    "ptable u = fold (\<lambda>y. woken (ChDisk y)) xs (ptable t)"
    using Cons.IH [OF t(2,3)] by blast
  have "bufs u ! x = ide_done (disk_in s) (bufs s ! x)" using u(4) x t(4) by simp
  then have "b_valid (bufs u ! x) \<and> \<not> b_dirty (bufs u ! x)" by (simp add: ide_done_def)
  moreover have "map (\<lambda>y. start_cmd (bufs t ! y)) (tl xs) = map (\<lambda>y. start_cmd (bufs s ! y)) (tl xs)"
    using x(1) d by (intro map_cong refl) (metis list.set_sel(2) list.sel(2))
  then have "next_cmd (bufs s) xs @ concat (map (\<lambda>y. start_cmd (bufs t ! y)) (tl xs)) = concat (map (\<lambda>y. start_cmd (bufs s ! y)) xs)"
    by (cases xs) (simp_all add: next_cmd_def cong: map_cong)
  ultimately show ?case using u t(1,5,6) d by (auto simp: krun)
qed

text \<open>
  C7: Every request is served, in the order of the queue.  When the disk answers without an error, as many interrupts as there are
  requests empty the queue; all buffers are then valid and clean, the commands of the requests behind the first one have been sent one by
  one in their order, and every process that slept on one of the requests is runnable.
\<close>

theorem ide_requests_served_in_order:
  assumes "ideq s xs" "held s = []" "\<forall>y \<in> set xs. y < length (bufs s) \<and> b_blockno (bufs s ! y) < of_nat FSSIZE"
    and "\<forall>r \<in> set (port_in s 0x1f7). ide_good r" "length (port_in s 0x1f7) \<ge> 2 * length xs" "length (disk_in s) \<ge> length xs"
  shows "\<exists>t. kfor xs (\<lambda>_. ideintr) s = Ok () t \<and> ideq t [] \<and> (\<forall>y \<in> set xs. b_valid (bufs t ! y) \<and> \<not> b_dirty (bufs t ! y))
    \<and> io_out t = io_out s @ concat (map (\<lambda>y. start_cmd (bufs s ! y)) (tl xs))
    \<and> (\<forall>c < length (procs (ptable s)). \<forall>y \<in> set xs. p_state (procs (ptable s) ! c) = SLEEPING \<longrightarrow> p_chan (procs (ptable s) ! c) = Some (ChDisk y)
        \<longrightarrow> p_state (procs (ptable t) ! c) = RUNNABLE)"
proof -
  obtain t where t: "kfor xs (\<lambda>_. ideintr) s = Ok () t" "ideq t []" "\<forall>y \<in> set xs. b_valid (bufs t ! y) \<and> \<not> b_dirty (bufs t ! y)"
    "io_out t = io_out s @ concat (map (\<lambda>y. start_cmd (bufs s ! y)) (tl xs))" "ptable t = fold (\<lambda>y. woken (ChDisk y)) xs (ptable s)"
    using ide_serve [OF assms] by blast
  have "p_state (procs (ptable t) ! c) = RUNNABLE"
    if "c < length (procs (ptable s))" "y \<in> set xs" "p_state (procs (ptable s) ! c) = SLEEPING" "p_chan (procs (ptable s) ! c) = Some (ChDisk y)" for c y
    using fold_woken [OF that(1)] that t(5) by auto
  then show ?thesis using t(1-4) by blast
qed

theorem ide_requests_served_in_order_witness:
  "\<forall>s :: kio. \<exists>t. kfor [0, 1] (\<lambda>_ :: nat. ideintr) (s\<lparr>bufs := two_bufs, idequeue := Some 0, qnext := (\<lambda>_. None)(0 := Some 1), held := [], port_in := (\<lambda>_. replicate 4 0x40),
     disk_in := [replicate 512 1, replicate 512 2], io_out := []\<rparr>) = Ok () t \<and> ideq t []
     \<and> io_out t = [Outb 0x3f6 0, Outb 0x1f2 1, Outb 0x1f3 45, Outb 0x1f4 1, Outb 0x1f5 0, Outb 0x1f6 0xe0, Outb 0x1f7 0x30, Outsl 0x1f0 (replicate 512 0)]"
proof
  fix s :: kio
  let ?s = "s\<lparr>bufs := two_bufs, idequeue := Some 0, qnext := (\<lambda>_. None)(0 := Some 1), held := [], port_in := (\<lambda>_. replicate 4 0x40),
     disk_in := [replicate 512 1, replicate 512 2], io_out := []\<rparr>"
  have h: "ideq ?s [0, 1]" "held ?s = []" "\<forall>y \<in> set [0, 1]. y < length (bufs ?s) \<and> b_blockno (bufs ?s ! y) < of_nat FSSIZE"
    "\<forall>r \<in> set (port_in ?s 0x1f7). ide_good r" "length (port_in ?s 0x1f7) \<ge> 2 * length [0, 1]" "length (disk_in ?s) \<ge> length [0, 1]"
    by (auto simp: ideq_def two_bufs_def FSSIZE_def ide_good_def ide_ready_def IDE_BSY_def IDE_DRDY_def IDE_DF_def IDE_ERR_def)
  have "start_cmd (two_bufs ! 1) = [Outb 0x3f6 0, Outb 0x1f2 1, Outb 0x1f3 45, Outb 0x1f4 1, Outb 0x1f5 0, Outb 0x1f6 0xe0, Outb 0x1f7 0x30, Outsl 0x1f0 (replicate 512 0)]"
    by (simp add: start_cmd_def two_bufs_def IDE_CMD_WRITE_def)
  then show "\<exists>t. kfor [0, 1] (\<lambda>_ :: nat. ideintr) ?s = Ok () t \<and> ideq t []
     \<and> io_out t = [Outb 0x3f6 0, Outb 0x1f2 1, Outb 0x1f3 45, Outb 0x1f4 1, Outb 0x1f5 0, Outb 0x1f6 0xe0, Outb 0x1f7 0x30, Outsl 0x1f0 (replicate 512 0)]"
    using ide_requests_served_in_order [OF h] by (auto simp del: kfor.simps)
qed

end
