(* ===== verification/Log_Inv.thy ===== *)
theory Log_Inv
  imports Bio_Inv Log "HOL-Library.Sublist"
begin

text \<open>
  The write-ahead log (log.c): what the three phases of a commit write, that \<^verbatim>\<open>recover_from_log\<close> undoes a crash
  at every point of the commit, and what \<^verbatim>\<open>begin_op\<close>, \<^verbatim>\<open>log_write\<close> and \<^verbatim>\<open>end_op\<close> promise to a
  system call.  All steps on blocks go through the laws of the locale \<open>block_cache\<close>.
\<close>

section \<open>Fields of blocks\<close>

lemma word_bytes_length [simp]: "length (word_bytes w) = 4"
  by (simp add: word_bytes_def)

lemma wr32_length [simp]: "off + 4 \<le> length d \<Longrightarrow> length (wr32 d off v) = length d"
  by (simp add: wr32_def)

lemma word_of_bytes:
  "(ucast (ucast w :: uchar) :: uint) OR push_bit 8 (ucast (ucast (drop_bit 8 w) :: uchar))
     OR push_bit 16 (ucast (ucast (drop_bit 16 w) :: uchar)) OR push_bit 24 (ucast (ucast (drop_bit 24 w) :: uchar)) = w" (is "?l = w")
proof (rule bit_word_eqI)
  fix n
  assume "n < LENGTH(32)"
  then consider "n < 8" | "8 \<le> n \<and> n < 16" | "16 \<le> n \<and> n < 24" | "24 \<le> n \<and> n < 32"
    by fastforce
  then show "bit ?l n = bit w n" by cases (auto simp: bit_simps)
qed

lemma word_bytes_nth:
  "word_bytes w ! 0 = ucast w" "word_bytes w ! 1 = ucast (drop_bit 8 w)"
  "word_bytes w ! 2 = ucast (drop_bit 16 w)" "word_bytes w ! 3 = ucast (drop_bit 24 w)"
  by (simp_all add: word_bytes_def)

lemma rd32_wr32_same:
  assumes "off + 4 \<le> length d"
  shows "rd32 (wr32 d off v) off = v"
proof -
  have "wr32 d off v ! (off + k) = word_bytes v ! k" if "k < 4" for k
    using assms that by (simp add: wr32_def nth_splice)
  from this [of 0] this [of 1] this [of 2] this [of 3]
  show ?thesis unfolding rd32_def by (simp only: word_bytes_nth word_of_bytes) (simp add: word_bytes_nth word_of_bytes)
qed

lemma rd32_wr32_other:
  "off + 4 \<le> length d \<Longrightarrow> off' + 4 \<le> length d \<Longrightarrow> off + 4 \<le> off' \<or> off' + 4 \<le> off \<Longrightarrow>
   rd32 (wr32 d off v) off' = rd32 d off'"
  by (auto simp: rd32_def wr32_def nth_splice)

section \<open>Sequences of writes\<close>

definition apply_writes :: "block list \<Rightarrow> (nat \<times> block) list \<Rightarrow> block list" where
  "apply_writes d ws = foldl (\<lambda>d w. d[fst w := snd w]) d ws"

lemma apply_writes_simps [simp]:
  "apply_writes d [] = d" "apply_writes d (ws @ [w]) = (apply_writes d ws)[fst w := snd w]"
  by (simp_all add: apply_writes_def)

lemma apply_writes_append: "apply_writes d (ws @ vs) = apply_writes (apply_writes d ws) vs"
  by (simp add: apply_writes_def)

lemma apply_writes_length [simp]: "length (apply_writes d ws) = length d"
  by (induction ws rule: rev_induct) simp_all

lemma apply_writes_other: "n \<notin> fst ` set ws \<Longrightarrow> apply_writes d ws ! n = d ! n"
  by (induction ws rule: rev_induct) auto

lemma apply_writes_nth:
  "distinct (map fst ws) \<Longrightarrow> (n, x) \<in> set ws \<Longrightarrow> n < length d \<Longrightarrow> apply_writes d ws ! n = x"
proof (induction ws rule: rev_induct)
  case (snoc w ws)
  show ?case
  proof (cases "w = (n, x)")
    case True
    then show ?thesis using snoc.prems by simp
  next
    case False
    then have "(n, x) \<in> set ws" using snoc.prems by auto
    then have "n \<in> fst ` set ws" by force
    then have "fst w \<noteq> n" using snoc.prems by auto
    then show ?thesis using snoc.IH snoc.prems \<open>(n, x) \<in> set ws\<close> by simp
  qed
qed simp

definition written_all :: "(nat \<times> block) list \<Rightarrow> cview \<Rightarrow> cview" where
  "written_all ws v = foldl (\<lambda>v w. written (fst w) (snd w) v) v ws"

lemma written_all_simps [simp]:
  "written_all [] v = v" "written_all (ws @ [w]) v = written (fst w) (snd w) (written_all ws v)"
  by (simp_all add: written_all_def)

lemma written_all_append: "written_all (ws @ vs) v = written_all vs (written_all ws v)"
  by (simp add: written_all_def)

lemma written_all_view:
  "cv_disk (written_all ws v) = apply_writes (cv_disk v) ws"
  "cv_writes (written_all ws v) = cv_writes v @ ws"
  "cv_dirty (written_all ws v) = cv_dirty v - fst ` set ws"
  "cv_open (written_all ws v) = cv_open v"
  by (induction ws rule: rev_induct) (auto simp: written_def)

lemma written_all_data_other: "n \<notin> fst ` set ws \<Longrightarrow> cv_data (written_all ws v) n = cv_data v n"
  by (induction ws rule: rev_induct) (auto simp: written_def)

lemma written_all_data:
  "distinct (map fst ws) \<Longrightarrow> (n, x) \<in> set ws \<Longrightarrow> cv_data (written_all ws v) n = x"
proof (induction ws rule: rev_induct)
  case (snoc w ws)
  show ?case
  proof (cases "w = (n, x)")
    case False
    then have "(n, x) \<in> set ws" using snoc.prems by auto
    then have "n \<in> fst ` set ws" by force
    then have "fst w \<noteq> n" using snoc.prems by auto
    then show ?thesis using snoc.IH snoc.prems \<open>(n, x) \<in> set ws\<close> by (simp add: written_def)
  qed (simp add: written_def)
qed simp

section \<open>The log on the disk\<close>

text \<open>
  The header of the log is the block \<open>ls\<close>, and the logged blocks follow it, up to \<open>sz\<close> blocks in all.
  The home blocks of a transaction lie outside of the log.
\<close>

definition log_area :: "nat \<Rightarrow> nat \<Rightarrow> nat set" where
  "log_area ls sz = {ls..<ls + sz}"

definition log_geom :: "'z klog_scheme \<Rightarrow> nat \<Rightarrow> nat \<Rightarrow> bool" where
  "log_geom s ls sz \<longleftrightarrow> l_dev (log s) = 1 \<and> l_start (log s) = int ls \<and> 0 < sz \<and> sz \<le> LOGSIZE \<and>
     ls + sz \<le> length (disk s) \<and> length (disk s) \<le> 2 ^ 32 \<and> length (lh_block (log s)) = LOGSIZE"

definition homes :: "log \<Rightarrow> nat list" where
  "homes l = map unat (take (nat (lh_n l)) (lh_block l))"

definition homes_ok :: "nat \<Rightarrow> nat \<Rightarrow> nat \<Rightarrow> nat list \<Rightarrow> bool" where
  "homes_ok ls sz dlen hs \<longleftrightarrow> distinct hs \<and> length hs < sz \<and> (\<forall>b \<in> set hs. b < dlen \<and> b \<notin> log_area ls sz)"

lemma frame_log: "cache_frame s t \<Longrightarrow> log t = log s"
  by (cases s; cases t) (simp add: cache_frame_def)

lemma homes_nth:
  "k < nat (lh_n l) \<Longrightarrow> length (lh_block l) = LOGSIZE \<Longrightarrow> nat (lh_n l) < LOGSIZE \<Longrightarrow>
   k < length (homes l) \<and> lh_block l ! k = of_nat (homes l ! k)"
  by (simp add: homes_def)

lemma of_int_block: "(of_int (int a + int k + 1) :: uint) = of_nat (a + 1 + k)"
  by simp

lemma frame_disk_length:
  "cache_view t = written_all ws (cache_view s) \<Longrightarrow> length (disk t) = length (disk s)"
  using written_all_view(1) [of ws "cache_view s"] by (metis apply_writes_length cache_view_simps(1))

lemma cache_finite_dirty: "cache_inv s \<Longrightarrow> finite (cv_dirty (cache_view s))"
proof -
  assume "cache_inv s"
  then have "one_buffer (bufs s)" by (simp add: cache_inv_def)
  then have "cv_dirty (cache_view s) \<subseteq> (\<lambda>i. unat (b_blockno (bufs s ! i))) ` {0..<NBUF}"
    by (auto simp: cv_dirty_iff holds_block_def)
  then show ?thesis by (rule finite_subset) simp
qed

text \<open>The writes of the three phases of a commit.\<close>

definition log_writes :: "nat \<Rightarrow> nat list \<Rightarrow> (nat \<Rightarrow> block) \<Rightarrow> (nat \<times> block) list" where
  "log_writes ls hs dat = map (\<lambda>k. (ls + 1 + k, dat (hs ! k))) [0..<length hs]"

definition home_writes :: "nat \<Rightarrow> nat list \<Rightarrow> (nat \<Rightarrow> block) \<Rightarrow> (nat \<times> block) list" where
  "home_writes ls hs dat = map (\<lambda>k. (hs ! k, dat (ls + 1 + k))) [0..<length hs]"

lemma copy_loop:
  assumes inv: "cache_inv s"
    and step: "\<And>k t. k < n \<Longrightarrow> cache_inv t \<Longrightarrow> cache_frame s t \<Longrightarrow>
      cache_view t = written_all (map (\<lambda>k. (dst k, cv_data (cache_view s) (src k))) [0..<k]) (cache_view s) \<Longrightarrow>
      kok (body k) (\<lambda>_ u. cache_inv u \<and> cache_frame t u \<and>
        cache_view u = written (dst k) (cv_data (cache_view t) (src k)) (cache_view t)) t"
    and sep: "\<And>j k. j < n \<Longrightarrow> k < n \<Longrightarrow> src j \<noteq> dst k"
  shows "kok (kfor [0..<n] body) (\<lambda>_ t. cache_inv t \<and> cache_frame s t \<and>
    cache_view t = written_all (map (\<lambda>k. (dst k, cv_data (cache_view s) (src k))) [0..<n]) (cache_view s)) s"
proof (rule kok_for_upto)
  fix k t
  let ?ws = "map (\<lambda>k. (dst k, cv_data (cache_view s) (src k))) [0..<k]"
  assume k: "k < n" and t: "cache_inv t \<and> cache_frame s t \<and> cache_view t = written_all ?ws (cache_view s)"
  have "cv_data (cache_view t) (src k) = cv_data (cache_view s) (src k)"
    using t k sep by (auto intro!: written_all_data_other)
  then have "written (dst k) (cv_data (cache_view t) (src k)) (cache_view t) =
      written_all (?ws @ [(dst k, cv_data (cache_view s) (src k))]) (cache_view s)"
    using t by simp
  then show "kok (body k) (\<lambda>_ u. cache_inv u \<and> cache_frame s u \<and>
      cache_view u = written_all (map (\<lambda>k. (dst k, cv_data (cache_view s) (src k))) [0..<Suc k]) (cache_view s)) t"
    using t by (intro kok_mono [OF step [OF k]]) (auto intro: cache_frame_trans)
qed (simp add: inv cache_frame_refl)

text \<open>What the phases of a commit have in common.\<close>

definition txn :: "'z klog_scheme \<Rightarrow> nat \<Rightarrow> nat \<Rightarrow> nat list \<Rightarrow> bool" where
  "txn s ls sz hs \<longleftrightarrow> cache_inv s \<and> log_geom s ls sz \<and> hs = homes (log s) \<and> lh_n (log s) = int (length hs) \<and>
     homes_ok ls sz (length (disk s)) hs \<and> cv_open (cache_view s) = Map.empty \<and> card (cv_dirty (cache_view s)) < NBUF \<and>
     cv_dirty (cache_view s) \<inter> log_area ls sz = {}"

lemma txnD:
  assumes "txn s ls sz hs"
  shows "cache_inv s" "l_dev (log s) = 1" "l_start (log s) = int ls" "ls + sz \<le> length (disk s)"
    "length (disk s) \<le> 2 ^ 32" "lh_n (log s) = int (length hs)" "distinct hs" "length hs < sz" "sz \<le> LOGSIZE"
    "cv_open (cache_view s) = Map.empty" "card (cv_dirty (cache_view s)) < NBUF"
    "cv_dirty (cache_view s) \<inter> log_area ls sz = {}"
    "\<And>b. b \<in> set hs \<Longrightarrow> b < length (disk s) \<and> b \<notin> log_area ls sz"
    "\<And>k. k < length hs \<Longrightarrow> lh_block (log s) ! k = of_nat (hs ! k)"
  using assms homes_nth [of _ "log s"] by (auto simp: txn_def log_geom_def homes_ok_def)

lemma txn_sep: "txn s ls sz hs \<Longrightarrow> j < length hs \<Longrightarrow> k < length hs \<Longrightarrow> hs ! j \<noteq> ls + 1 + k"
  using txnD(8) [of s ls sz hs] txnD(13) [of s ls sz hs "hs ! j"] by (auto simp: log_area_def)

lemma txn_step:
  assumes t: "txn s ls sz hs" and i: "cache_inv t" "cache_frame s t" "cache_view t = written_all ws (cache_view s)"
  shows "txn t ls sz hs" "length (disk t) = length (disk s)"
proof -
  have len: "length (disk t) = length (disk s)" using frame_disk_length [OF i(3)] .
  then show "length (disk t) = length (disk s)" .
  have l: "log t = log s" using frame_log [OF i(2)] .
  have "cv_dirty (cache_view t) \<subseteq> cv_dirty (cache_view s)" using i(3) by (auto simp: written_all_view)
  moreover have "finite (cv_dirty (cache_view s))" using cache_finite_dirty txnD(1) [OF t] .
  ultimately have "card (cv_dirty (cache_view t)) < NBUF" "cv_dirty (cache_view t) \<inter> log_area ls sz = {}"
    using txnD(11,12) [OF t] card_mono [of "cv_dirty (cache_view s)" "cv_dirty (cache_view t)"] by auto
  then show "txn t ls sz hs"
    using t i(1) len unfolding txn_def log_geom_def l i(3) written_all_view by metis
qed

lemma write_log_view:
  assumes t: "txn s ls sz hs" and d: "set hs \<subseteq> cv_dirty (cache_view s)"
  shows "kok write_log (\<lambda>_ t. cache_inv t \<and> cache_frame s t \<and>
    cache_view t = written_all (log_writes ls hs (cv_data (cache_view s))) (cache_view s)) s"
proof -
  note T = txnD [OF t]
  have "kok (kfor [0..<length hs] (\<lambda>tail.
       kbind (bread (l_dev (log s)) (of_int (l_start (log s) + int tail + 1))) (\<lambda>to.
       kbind (bread (l_dev (log s)) (lh_block (log s) ! tail)) (\<lambda>from.
       kbind (getb from) (\<lambda>fb.
       kseq (bdata to (\<lambda>_. b_data fb)) (kseq (bwrite to) (kseq (brelse from) (brelse to))))))))
     (\<lambda>_ t. cache_inv t \<and> cache_frame s t \<and> cache_view t =
       written_all (map (\<lambda>k. (ls + 1 + k, cv_data (cache_view s) (hs ! k))) [0..<length hs]) (cache_view s)) s"
  proof (rule copy_loop [OF T(1)])
    fix k u
    assume k: "k < length hs" and u: "cache_inv u" "cache_frame s u"
      "cache_view u = written_all (map (\<lambda>k. (ls + 1 + k, cv_data (cache_view s) (hs ! k))) [0..<k]) (cache_view s)"
    note U = txnD [OF txn_step(1) [OF t u]]
    have "hs ! k \<in> cv_dirty (cache_view u)"
      using d k T(13) [of "hs ! k"] T(8) by (auto simp: u(3) written_all_view log_area_def)
    then have "kok (kbind (bread 1 (of_nat (ls + 1 + k))) (\<lambda>i. kbind (bread 1 (of_nat (hs ! k))) (\<lambda>j. bcache.copied j i)))
      (\<lambda>_ w. cache_inv w \<and> cache_frame u w \<and>
        cache_view w = written (ls + 1 + k) (cv_data (cache_view u) (hs ! k)) (cache_view u)) u"
      using U(4,5,8,10,11) U(13) [of "hs ! k"] k by (intro bcache.copy_to_first [OF u(1)]) (auto simp: log_area_def)
    then show "kok (kbind (bread (l_dev (log s)) (of_int (l_start (log s) + int k + 1))) (\<lambda>to.
       kbind (bread (l_dev (log s)) (lh_block (log s) ! k)) (\<lambda>from.
       kbind (getb from) (\<lambda>fb.
       kseq (bdata to (\<lambda>_. b_data fb)) (kseq (bwrite to) (kseq (brelse from) (brelse to)))))))
      (\<lambda>_ w. cache_inv w \<and> cache_frame u w \<and>
        cache_view w = written (ls + 1 + k) (cv_data (cache_view u) (hs ! k)) (cache_view u)) u"
      unfolding bcache.copied_def bdata_def T(2,3) of_int_block using T(14) [OF k] by simp
  qed (rule txn_sep [OF t])
  then show ?thesis
    by (simp add: write_log_def logget_def kok_bind kok_get T(6) log_writes_def)
qed

lemma install_trans_view:
  assumes t: "txn s ls sz hs" and d: "set hs \<subseteq> cv_dirty (cache_view s) \<or> cv_dirty (cache_view s) = {}"
  shows "kok install_trans (\<lambda>_ t. cache_inv t \<and> cache_frame s t \<and>
    cache_view t = written_all (home_writes ls hs (cv_data (cache_view s))) (cache_view s)) s"
proof -
  note T = txnD [OF t]
  have "kok (kfor [0..<length hs] (\<lambda>tail.
       kbind (bread (l_dev (log s)) (of_int (l_start (log s) + int tail + 1))) (\<lambda>lbuf.
       kbind (bread (l_dev (log s)) (lh_block (log s) ! tail)) (\<lambda>dbuf.
       kbind (getb lbuf) (\<lambda>lb.
       kseq (bdata dbuf (\<lambda>_. b_data lb)) (kseq (bwrite dbuf) (kseq (brelse lbuf) (brelse dbuf))))))))
     (\<lambda>_ t. cache_inv t \<and> cache_frame s t \<and> cache_view t =
       written_all (map (\<lambda>k. (hs ! k, cv_data (cache_view s) (ls + 1 + k))) [0..<length hs]) (cache_view s)) s"
  proof (rule copy_loop [OF T(1)])
    fix k u
    assume k: "k < length hs" and u: "cache_inv u" "cache_frame s u"
      "cache_view u = written_all (map (\<lambda>k. (hs ! k, cv_data (cache_view s) (ls + 1 + k))) [0..<k]) (cache_view s)"
    note U = txnD [OF txn_step(1) [OF t u]]
    have "hs ! k \<notin> (\<lambda>k. hs ! k) ` {0..<k}" using T(7) k by (auto simp: nth_eq_iff_index_eq)
    then have "hs ! k \<in> cv_dirty (cache_view u) \<or> Suc (card (cv_dirty (cache_view u))) < NBUF"
      using d k by (auto simp: u(3) written_all_view image_image NBUF_def MAXOPBLOCKS_def)
    then have "kok (kbind (bread 1 (of_nat (ls + 1 + k))) (\<lambda>j. kbind (bread 1 (of_nat (hs ! k))) (\<lambda>i. bcache.copied j i)))
      (\<lambda>_ w. cache_inv w \<and> cache_frame u w \<and>
        cache_view w = written (hs ! k) (cv_data (cache_view u) (ls + 1 + k)) (cache_view u)) u"
      using U(4,5,8,10,11) U(13) [of "hs ! k"] k by (intro bcache.copy_from_first [OF u(1)]) (auto simp: log_area_def)
    then show "kok (kbind (bread (l_dev (log s)) (of_int (l_start (log s) + int k + 1))) (\<lambda>lbuf.
       kbind (bread (l_dev (log s)) (lh_block (log s) ! k)) (\<lambda>dbuf.
       kbind (getb lbuf) (\<lambda>lb.
       kseq (bdata dbuf (\<lambda>_. b_data lb)) (kseq (bwrite dbuf) (kseq (brelse lbuf) (brelse dbuf)))))))
      (\<lambda>_ w. cache_inv w \<and> cache_frame u w \<and>
        cache_view w = written (hs ! k) (cv_data (cache_view u) (ls + 1 + k)) (cache_view u)) u"
      unfolding bcache.copied_def bdata_def T(2,3) of_int_block using T(14) [OF k] by simp
  qed (rule txn_sep [OF t, symmetric])
  then show ?thesis
    by (simp add: install_trans_def logget_def kok_bind kok_get T(6) home_writes_def)
qed

section \<open>The header\<close>

text \<open>The block that \<^verbatim>\<open>write_head\<close> writes.\<close>

definition header :: "log \<Rightarrow> nat \<Rightarrow> block \<Rightarrow> block" where
  "header l k d = foldl (\<lambda>d k. wr32 d (4 + 4 * k) (lh_block l ! k)) (wr32 d 0 (of_int (lh_n l))) [0..<k]"

lemma header_simps [simp]:
  "header l 0 d = wr32 d 0 (of_int (lh_n l))" "header l (Suc k) d = wr32 (header l k d) (4 + 4 * k) (lh_block l ! k)"
  by (simp_all add: header_def)

lemma header_length [simp]: "length d = BSIZE \<Longrightarrow> k \<le> LOGSIZE \<Longrightarrow> length (header l k d) = BSIZE"
  by (induction k) (simp_all add: BSIZE_def LOGSIZE_def MAXOPBLOCKS_def)

lemma header_n: "length d = BSIZE \<Longrightarrow> k \<le> LOGSIZE \<Longrightarrow> rd32 (header l k d) 0 = of_int (lh_n l)"
proof (induction k)
  case 0
  then show ?case by (simp add: rd32_wr32_same BSIZE_def)
next
  case (Suc k)
  then have "length (header l k d) = BSIZE" by simp
  then show ?case using Suc by (simp add: rd32_wr32_other BSIZE_def LOGSIZE_def MAXOPBLOCKS_def)
qed

lemma header_block:
  "length d = BSIZE \<Longrightarrow> k \<le> LOGSIZE \<Longrightarrow> j < k \<Longrightarrow> rd32 (header l k d) (4 + 4 * j) = lh_block l ! j"
proof (induction k)
  case (Suc k)
  then have len: "length (header l k d) = BSIZE" by simp
  show ?case
  proof (cases "j = k")
    case True
    then show ?thesis using Suc.prems len by (simp add: rd32_wr32_same BSIZE_def LOGSIZE_def MAXOPBLOCKS_def)
  next
    case False
    then show ?thesis using Suc len by (simp add: rd32_wr32_other BSIZE_def LOGSIZE_def MAXOPBLOCKS_def)
  qed
qed simp

lemma write_head_view:
  assumes t: "txn s ls sz hs"
  shows "kok write_head (\<lambda>_ t. cache_inv t \<and> cache_frame s t \<and>
    cache_view t = written ls (header (log s) (length hs) (cv_data (cache_view s) ls)) (cache_view s)) s"
proof -
  note T = txnD [OF t]
  let ?D = "cv_data (cache_view s) ls" and ?l = "log s"
  have ls: "ls < 2 ^ 32" "ls < length (cv_disk (cache_view s))" using T by auto
  have D: "length ?D = BSIZE" using bcache.blk_size [OF T(1) ls(2)] .
  let ?upd = "\<lambda>i. kseq (bdata i (\<lambda>d. wr32 d 0 (of_int (lh_n ?l))))
    (kfor [0..<length hs] (\<lambda>k. if k \<ge> LOGSIZE then kundef else bdata i (\<lambda>d. wr32 d (4 + 4 * k) (lh_block ?l ! k))))"
  have "kok (kbind (bread 1 (of_nat ls)) (\<lambda>i. kseq (?upd i) (kseq (bwrite i) (brelse i))))
    (\<lambda>_ t. cache_inv t \<and> cache_frame s t \<and> cache_view t = written ls (header ?l (length hs) ?D) (cache_view s)) s"
  proof (rule bcache.rewrite_block [OF T(1) ls T(10,11)])
    fix u i assume u: "cache_inv u" "cache_frame s u" "cache_view u = (cache_view s)\<lparr>cv_open := [ls \<mapsto> i]\<rparr>"
    define J where "J k w \<longleftrightarrow> cache_inv w \<and> cache_frame u w \<and>
        cache_view w = (cache_view u)\<lparr>cv_data := (cv_data (cache_view u))(ls := header ?l k ?D)\<rparr>"
      for k and w :: "'a klog_scheme"
    have dat: "kok (bdata i f) (\<lambda>_ x. cache_inv x \<and> cache_frame u x \<and>
        cache_view x = (cache_view u)\<lparr>cv_data := (cv_data (cache_view u))(ls := f d)\<rparr>) w"
      if "cache_inv w" "cache_frame u w" "length (f d) = BSIZE"
        "cache_view w = (cache_view u)\<lparr>cv_data := (cv_data (cache_view u))(ls := d)\<rparr>" for w :: "'a klog_scheme" and f d
      unfolding bdata_def using that u(3) cache_frame_trans [OF that(2)]
      by (intro kok_mono [OF bcache.dat_ok [OF that(1), of ls i f]]) auto
    have "kok (bdata i (\<lambda>d. wr32 d 0 (of_int (lh_n ?l)))) (\<lambda>_ w. J 0 w) u"
      unfolding J_def header_simps(1)
      by (rule dat [of u "\<lambda>d. wr32 d 0 (of_int (lh_n ?l))" ?D])
         (use u D in \<open>simp_all add: cache_frame_refl BSIZE_def fun_upd_idem\<close>)
    moreover have "kok (kfor [0..<length hs] (\<lambda>k. if k \<ge> LOGSIZE then kundef else bdata i (\<lambda>d. wr32 d (4 + 4 * k) (lh_block ?l ! k))))
        (\<lambda>_ x. J (length hs) x) w" if "J 0 w" for w
    proof (rule kok_for_upto [where I = J])
      fix k x assume k: "k < length hs" and x: "J k x"
      have "length (header ?l k ?D) = BSIZE" using D k T(8,9) by simp
      then show "kok (if k \<ge> LOGSIZE then kundef else bdata i (\<lambda>d. wr32 d (4 + 4 * k) (lh_block ?l ! k))) (\<lambda>_ y. J (Suc k) y) x"
        using x k T(8,9) dat [of x "\<lambda>d. wr32 d (4 + 4 * k) (lh_block ?l ! k)" "header ?l k ?D"]
        by (simp add: J_def BSIZE_def LOGSIZE_def MAXOPBLOCKS_def)
    qed (rule that)
    ultimately show "kok (?upd i) (\<lambda>_ w. cache_inv w \<and> cache_frame u w \<and>
        cache_view w = (cache_view u)\<lparr>cv_data := (cv_data (cache_view u))(ls := header ?l (length hs) ?D)\<rparr>) u"
      unfolding kok_seq J_def by (rule kok_mono)
  qed
  then show ?thesis
    using T(2,3,6) by (simp add: write_head_def logget_def kok_bind kok_get kseq_assoc)
qed

lemma cache_log_upd [simp]:
  "cache_inv (s\<lparr>log := l\<rparr>) = cache_inv s" "cache_view (s\<lparr>log := l\<rparr>) = cache_view s"
  by (simp_all add: cache_inv_def cache_view_def cur_ok_def cur_pid_def split: option.split)

lemma log_writes_fst: "fst ` set (log_writes ls hs dat) = {ls + 1..<ls + 1 + length hs}"
proof -
  have "fst ` set (log_writes ls hs dat) = (+) (ls + 1) ` {0..<length hs}"
    unfolding log_writes_def by (simp add: image_image)
  then show ?thesis unfolding image_add_atLeastLessThan by (simp add: add.commute)
qed

lemma log_writes_distinct: "distinct (map fst (log_writes ls hs dat))"
  by (simp add: log_writes_def distinct_map inj_on_def comp_def)

lemma log_writes_in: "k < length hs \<Longrightarrow> (ls + 1 + k, dat (hs ! k)) \<in> set (log_writes ls hs dat)"
  by (auto simp: log_writes_def)

text \<open>The writes of a commit, in order.\<close>

definition commit_writes :: "log \<Rightarrow> nat \<Rightarrow> nat list \<Rightarrow> (nat \<Rightarrow> block) \<Rightarrow> (nat \<times> block) list" where
  "commit_writes l ls hs dat =
     (let h = header l (length hs) (dat ls) in
      log_writes ls hs dat @ [(ls, h)] @ map (\<lambda>b. (b, dat b)) hs @ [(ls, wr32 h 0 0)])"

text \<open>From \<open>s\<close> to \<open>t\<close> the cache has made the writes \<open>ws\<close> and nothing else has changed.\<close>

definition wrote :: "'z klog_scheme \<Rightarrow> (nat \<times> block) list \<Rightarrow> 'z klog_scheme \<Rightarrow> bool" where
  "wrote s ws t \<longleftrightarrow> cache_inv t \<and> cache_frame s t \<and> cache_view t = written_all ws (cache_view s)"

lemmas wrote_fun = wrote_def [abs_def]

lemma written_one: "written_all [(n, d)] v = written n d v"
  by (simp add: written_all_def)

lemma wrote_view: "wrote s ws t \<Longrightarrow> cache_view t = written_all ws (cache_view s)"
  by (simp add: wrote_def)

lemma wrote_trans: "wrote s ws t \<Longrightarrow> wrote t vs u \<Longrightarrow> wrote s (ws @ vs) u"
  by (auto simp: wrote_def written_all_append intro: cache_frame_trans)

lemma wrote_log: "wrote s ws t \<Longrightarrow> log t = log s"
  by (auto simp: wrote_def dest: frame_log)

lemma wrote_txn: "txn s ls sz hs \<Longrightarrow> wrote s ws t \<Longrightarrow> txn t ls sz hs"
  by (auto simp: wrote_def dest: txn_step)

text \<open>The phases, after the writes \<open>ws\<close> of those before.\<close>

lemma write_log_after:
  assumes "txn s ls sz hs" and "set hs \<subseteq> cv_dirty (cache_view s)"
  shows "kok write_log (\<lambda>_. wrote s (log_writes ls hs (cv_data (cache_view s)))) s"
  using write_log_view [OF assms] unfolding wrote_fun .

lemma write_head_after:
  assumes t: "txn s ls sz hs" and w: "wrote s ws u"
  shows "kok write_head
    (\<lambda>_. wrote s (ws @ [(ls, header (log s) (length hs) (cv_data (written_all ws (cache_view s)) ls))])) u"
proof -
  have "kok write_head (\<lambda>_. wrote u [(ls, header (log u) (length hs) (cv_data (cache_view u) ls))]) u"
    using write_head_view [OF wrote_txn [OF t w]] unfolding wrote_fun written_one .
  then show ?thesis
    unfolding wrote_log [OF w] wrote_view [OF w] by (rule kok_mono) (rule wrote_trans [OF w])
qed

lemma install_trans_after:
  assumes t: "txn s ls sz hs" and w: "wrote s ws u"
    and d: "set hs \<inter> fst ` set ws = {} \<and> set hs \<subseteq> cv_dirty (cache_view s) \<or> cv_dirty (cache_view s) = {}"
  shows "kok install_trans (\<lambda>_. wrote s (ws @ home_writes ls hs (cv_data (written_all ws (cache_view s))))) u"
proof -
  have "kok install_trans (\<lambda>_. wrote u (home_writes ls hs (cv_data (cache_view u)))) u"
    unfolding wrote_fun using d
    by (intro install_trans_view [OF wrote_txn [OF t w]]) (auto simp: wrote_view [OF w] written_all_view)
  then show ?thesis
    unfolding wrote_view [OF w] by (rule kok_mono) (rule wrote_trans [OF w])
qed

text \<open>Clearing the header in memory and on the disk.\<close>

lemma clear_head_after:
  assumes t: "txn s ls sz hs" and w: "wrote s ws u"
  shows "kok (kseq (logupd (\<lambda>l. l\<lparr>lh_n := 0\<rparr>)) write_head) (\<lambda>_ x. cache_inv x \<and> log x = (log s)\<lparr>lh_n := 0\<rparr> \<and>
    cache_view x = written_all (ws @ [(ls, wr32 (cv_data (written_all ws (cache_view s)) ls) 0 0)]) (cache_view s)) u"
proof -
  let ?u = "u\<lparr>log := (log u)\<lparr>lh_n := 0\<rparr>\<rparr>"
  have "txn ?u ls sz []"
  proof -
    note U = wrote_txn [OF t w]
    have "log_geom ?u ls sz" using U by (simp add: txn_def log_geom_def)
    then show ?thesis
      using txnD(1,10,11,12) [OF U] by (simp add: txn_def homes_def homes_ok_def log_geom_def)
  qed
  from write_head_view [OF this]
  have "kok write_head (\<lambda>_. wrote ?u [(ls, header (log ?u) (length ([] :: nat list)) (cv_data (cache_view ?u) ls))]) ?u"
    unfolding wrote_fun written_one .
  moreover have "header (log ?u) (length ([] :: nat list)) (cv_data (cache_view ?u) ls) = wr32 (cv_data (cache_view u) ls) 0 0"
    by simp
  ultimately have "kok write_head (\<lambda>_. wrote ?u [(ls, wr32 (cv_data (cache_view u) ls) 0 0)]) ?u"
    by (simp only:)
  then have "kok write_head (\<lambda>_ x. cache_inv x \<and> log x = (log s)\<lparr>lh_n := 0\<rparr> \<and>
    cache_view x = written_all (ws @ [(ls, wr32 (cv_data (written_all ws (cache_view s)) ls) 0 0)]) (cache_view s)) ?u"
  proof (rule kok_mono)
    fix x assume x: "wrote ?u [(ls, wr32 (cv_data (cache_view u) ls) 0 0)] x"
    show "cache_inv x \<and> log x = (log s)\<lparr>lh_n := 0\<rparr> \<and>
      cache_view x = written_all (ws @ [(ls, wr32 (cv_data (written_all ws (cache_view s)) ls) 0 0)]) (cache_view s)"
    proof (intro conjI)
      show "cache_inv x" using x by (simp add: wrote_def)
      show "log x = (log s)\<lparr>lh_n := 0\<rparr>" using wrote_log [OF x] wrote_log [OF w] by simp
      show "cache_view x = written_all (ws @ [(ls, wr32 (cv_data (written_all ws (cache_view s)) ls) 0 0)]) (cache_view s)"
        using wrote_view [OF x] wrote_view [OF w] by (simp add: written_one)
    qed
  qed
  then show ?thesis by (simp add: kok_seq logupd_def kok_mod)
qed

lemma commit_home_writes:
  assumes t: "txn s ls sz hs"
  shows "home_writes ls hs (cv_data (written_all (log_writes ls hs dat @ [(ls, h)]) v)) = map (\<lambda>b. (b, dat b)) hs"
proof -
  have "cv_data (written_all (log_writes ls hs dat @ [(ls, h)]) v) (ls + 1 + k) = dat (hs ! k)" if "k < length hs" for k
    using that log_writes_in [of k hs ls dat] by (simp add: written_def written_all_data [OF log_writes_distinct])
  then have "home_writes ls hs (cv_data (written_all (log_writes ls hs dat @ [(ls, h)]) v)) =
      map (\<lambda>b. (b, dat b)) (map ((!) hs) [0..<length hs])"
    by (simp add: home_writes_def comp_def)
  then show ?thesis by (simp add: map_nth)
qed

lemma commit_view:
  assumes t: "txn s ls sz hs" and d: "cv_dirty (cache_view s) = set hs" and n: "hs \<noteq> []"
  shows "kok commit (\<lambda>_ t. cache_inv t \<and> log t = (log s)\<lparr>lh_n := 0\<rparr> \<and>
    cache_view t = written_all (commit_writes (log s) ls hs (cv_data (cache_view s))) (cache_view s)) s"
proof -
  note T = txnD [OF t]
  define dat where "dat = cv_data (cache_view s)"
  define lw where "lw = log_writes ls hs dat"
  define h where "h = header (log s) (length hs) (dat ls)"
  define hw where "hw = map (\<lambda>b. (b, dat b)) hs"
  have ls: "cv_data (written_all lw (cache_view s)) ls = dat ls"
    unfolding dat_def by (rule written_all_data_other) (simp add: lw_def log_writes_fst)
  have out: "set hs \<inter> fst ` set (lw @ [(ls, h)]) = {}"
  proof -
    have "fst ` set (lw @ [(ls, h)]) \<subseteq> log_area ls sz"
      using T(8) by (auto simp: lw_def log_writes_fst log_area_def)
    then show ?thesis using T(13) by blast
  qed
  have "ls \<notin> fst ` set hw" using out by (auto simp: hw_def)
  then have ls': "cv_data (written_all ((lw @ [(ls, h)]) @ hw) (cache_view s)) ls = h"
    unfolding written_all_append [of "lw @ [(ls, h)]"] by (subst written_all_data_other) (auto simp: written_def)
  have p1: "kok write_log (\<lambda>_. wrote s lw) s"
    using write_log_after [OF t] d by (simp add: lw_def dat_def)
  have p2: "kok write_head (\<lambda>_. wrote s (lw @ [(ls, h)])) u" if "wrote s lw u" for u
    using write_head_after [OF t that] by (simp add: ls h_def)
  have p3: "kok install_trans (\<lambda>_. wrote s ((lw @ [(ls, h)]) @ hw)) u" if "wrote s (lw @ [(ls, h)]) u" for u
    using install_trans_after [OF t that] out d commit_home_writes [OF t, of dat h "cache_view s"]
    by (simp add: lw_def hw_def del: append_assoc)
  have p4: "kok (kseq (logupd (\<lambda>l. l\<lparr>lh_n := 0\<rparr>)) write_head) (\<lambda>_ x. cache_inv x \<and> log x = (log s)\<lparr>lh_n := 0\<rparr> \<and>
      cache_view x = written_all (commit_writes (log s) ls hs dat) (cache_view s)) u"
    if "wrote s ((lw @ [(ls, h)]) @ hw) u" for u
    using clear_head_after [OF t that] unfolding ls' by (simp add: commit_writes_def lw_def hw_def h_def Let_def)
  have "lh_n (log s) > 0" using n T(6) by simp
  then show ?thesis
    unfolding commit_def kok_bind logget_def kok_get kok_when dat_def [symmetric]
    by (simp) (intro kok_seqI [OF p1] kok_seqI [OF p2] kok_seqI [OF p3] p4; assumption)
qed

section \<open>Recovery\<close>

text \<open>What a header block says: the number of logged blocks and their home blocks.\<close>

definition head_n :: "block \<Rightarrow> int" where
  "head_n d = sint (rd32 d 0)"

definition head_homes :: "block \<Rightarrow> nat list" where
  "head_homes d = map (\<lambda>k. unat (rd32 d (4 + 4 * k))) [0..<nat (head_n d)]"

text \<open>A machine that has just been started on the disk \<open>d\<close>: nothing is cached that is not on the disk.\<close>

definition booted :: "'z klog_scheme \<Rightarrow> block list \<Rightarrow> nat \<Rightarrow> nat \<Rightarrow> bool" where
  "booted s d ls sz \<longleftrightarrow> cache_inv s \<and> log_geom s ls sz \<and> disk s = d \<and>
     cv_dirty (cache_view s) = {} \<and> cv_open (cache_view s) = Map.empty"

lemma booted_data: "booted s d ls sz \<Longrightarrow> cv_data (cache_view s) n = d ! n"
  using cache_clean [of s n] by (simp add: booted_def)

definition read_blocks :: "block \<Rightarrow> nat \<Rightarrow> uint list \<Rightarrow> uint list" where
  "read_blocks d k bs = map (\<lambda>j. if j < k then rd32 d (4 + 4 * j) else bs ! j) [0..<length bs]"

lemma read_blocks_simps:
  "read_blocks d 0 bs = bs"
  "k < length bs \<Longrightarrow> (read_blocks d k bs)[k := rd32 d (4 + 4 * k)] = read_blocks d (Suc k) bs"
  "length (read_blocks d k bs) = length bs"
proof -
  show "read_blocks d 0 bs = bs" by (simp add: read_blocks_def map_nth)
  show l: "length (read_blocks d k bs) = length bs" for k by (simp add: read_blocks_def)
  assume "k < length bs"
  then show "(read_blocks d k bs)[k := rd32 d (4 + 4 * k)] = read_blocks d (Suc k) bs"
    by (intro nth_equalityI) (simp_all add: l, simp add: read_blocks_def nth_list_update less_Suc_eq)
qed

text \<open>The state while the header is read, with the first \<open>k\<close> blocks of it taken over.\<close>

definition reading :: "'z klog_scheme \<Rightarrow> nat \<Rightarrow> nat \<Rightarrow> block \<Rightarrow> nat \<Rightarrow> 'z klog_scheme \<Rightarrow> bool" where
  "reading s ls i d k w \<longleftrightarrow> cache_inv w \<and> cache_view w = (cache_view s)\<lparr>cv_open := [ls \<mapsto> i]\<rparr> \<and>
     log w = (log s)\<lparr>lh_n := head_n d, lh_block := read_blocks d k (lh_block (log s))\<rparr>"

definition head_loop :: "block \<Rightarrow> (unit, 'z klog_scheme) M" where
  "head_loop d = kfor [0..<nat (head_n d)] (\<lambda>k. if k \<ge> LOGSIZE then kundef
     else logupd (\<lambda>l. l\<lparr>lh_block := (lh_block l)[k := rd32 d (4 + 4 * k)]\<rparr>))"

lemma head_loop_reading:
  assumes "reading s ls i d 0 w" and "head_n d \<le> int LOGSIZE" and "length (lh_block (log s)) = LOGSIZE"
  shows "kok (head_loop d) (\<lambda>_. reading s ls i d (nat (head_n d))) w"
  unfolding head_loop_def
proof (rule kok_for_upto [where I = "reading s ls i d"])
  fix k w assume k: "k < nat (head_n d)" "reading s ls i d k w"
  then have "k < LOGSIZE" using assms(2) by simp
  then show "kok (if k \<ge> LOGSIZE then kundef else logupd (\<lambda>l. l\<lparr>lh_block := (lh_block l)[k := rd32 d (4 + 4 * k)]\<rparr>))
    (\<lambda>_ u. reading s ls i d (Suc k) u) w"
    using assms(3) k(2) by (simp add: reading_def logupd_def kok_mod read_blocks_simps)
qed (rule assms)

lemma view_disk: "cache_view w = (cache_view s)\<lparr>cv_open := x\<rparr> \<Longrightarrow> disk w = disk s"
  using cache_view_simps(1) [of w] by simp

lemma head_release:
  assumes b: "booted s d ls sz" and w: "reading s ls i (d ! ls) k w"
  shows "kok (brelse i) (\<lambda>_ t. cache_inv t \<and> cache_view t = cache_view s \<and>
    log t = (log s)\<lparr>lh_n := head_n (d ! ls), lh_block := read_blocks (d ! ls) k (lh_block (log s))\<rparr>) w"
proof -
  have v: "cache_inv w" "cache_view w = (cache_view s)\<lparr>cv_open := [ls \<mapsto> i]\<rparr>" "cv_open (cache_view s) = Map.empty"
    using b w by (simp_all add: reading_def booted_def)
  have "cv_data (cache_view w) ls = cv_disk (cache_view w) ! ls"
    using v(2) view_disk [OF v(2)] booted_data [OF b, of ls] b by (simp add: booted_def)
  then have "kok (brelse i) (\<lambda>_ t. cache_inv t \<and> cache_frame w t \<and>
      cache_view t = (cache_view w)\<lparr>cv_open := (cv_open (cache_view w))(ls := None)\<rparr>) w"
    using v by (intro bcache.rel_ok) simp_all
  then show ?thesis
  proof (rule kok_mono)
    fix t assume "cache_inv t \<and> cache_frame w t \<and> cache_view t = (cache_view w)\<lparr>cv_open := (cv_open (cache_view w))(ls := None)\<rparr>"
    moreover have "(cache_view w)\<lparr>cv_open := (cv_open (cache_view w))(ls := None)\<rparr> = cache_view s"
      using v(2,3) by (cases "cache_view s") simp
    ultimately show "cache_inv t \<and> cache_view t = cache_view s \<and>
        log t = (log s)\<lparr>lh_n := head_n (d ! ls), lh_block := read_blocks (d ! ls) k (lh_block (log s))\<rparr>"
      using w frame_log [of w t] by (simp add: reading_def)
  qed
qed

lemma read_head_view:
  assumes b: "booted s d ls sz" and n: "head_n (d ! ls) \<le> int LOGSIZE"
  shows "kok read_head (\<lambda>_ t. cache_inv t \<and> cache_view t = cache_view s \<and>
    log t = (log s)\<lparr>lh_n := head_n (d ! ls), lh_block := read_blocks (d ! ls) (nat (head_n (d ! ls))) (lh_block (log s))\<rparr>) s"
    (is "kok _ ?Q s")
proof -
  have inv: "cache_inv s" and g: "l_dev (log s) = 1" "l_start (log s) = int ls" "ls < length (disk s)" "length (disk s) \<le> 2 ^ 32"
    "length (lh_block (log s)) = LOGSIZE" and v: "cv_dirty (cache_view s) = {}" "cv_open (cache_view s) = Map.empty"
    using b by (auto simp: booted_def log_geom_def)
  have rd: "kok (bread 1 (of_nat ls)) (\<lambda>i t. cache_inv t \<and> cache_frame s t \<and>
      cache_view t = (cache_view s)\<lparr>cv_open := [ls \<mapsto> i]\<rparr>) s"
    using bcache.rd_ok [OF inv, of ls] g v by (simp add: NBUF_def MAXOPBLOCKS_def)
  have "kok (kbind (bread 1 (of_nat ls)) (\<lambda>i. kbind (getb i) (\<lambda>b.
     kseq (logupd (\<lambda>l. l\<lparr>lh_n := head_n (b_data b)\<rparr>)) (kseq (head_loop (b_data b)) (brelse i))))) ?Q s"
    unfolding kok_bind
  proof (rule kok_mono [OF rd])
    fix i t assume t: "cache_inv t \<and> cache_frame s t \<and> cache_view t = (cache_view s)\<lparr>cv_open := [ls \<mapsto> i]\<rparr>"
    have get: "kok (getb i) (\<lambda>b u. u = t \<and> b_data b = d ! ls) t"
      using bcache.cont_ok [of t ls i] t booted_data [OF b, of ls] by simp
    have "kok (logupd (\<lambda>l. l\<lparr>lh_n := head_n (d ! ls)\<rparr>)) (\<lambda>_. reading s ls i (d ! ls) 0) t"
      using t frame_log [of s t] by (simp add: logupd_def kok_mod reading_def read_blocks_simps)
    then have "kok (kseq (logupd (\<lambda>l. l\<lparr>lh_n := head_n (d ! ls)\<rparr>)) (kseq (head_loop (d ! ls)) (brelse i))) ?Q t"
      by (rule kok_seqI) (rule kok_seqI [OF head_loop_reading [OF _ n g(5)] head_release [OF b]])
    then show "kok (getb i) (\<lambda>b. kok (kseq (logupd (\<lambda>l. l\<lparr>lh_n := head_n (b_data b)\<rparr>))
        (kseq (head_loop (b_data b)) (brelse i))) ?Q) t"
      by (intro kok_mono [OF get]) simp
  qed
  then show ?thesis
    using g by (simp add: read_head_def logget_def kok_bind kok_get head_loop_def head_n_def)
qed

text \<open>Recovery copies the logged blocks to their homes and clears the header.\<close>

lemma recover_view:
  assumes b: "booted s d ls sz" and n: "0 \<le> head_n (d ! ls)" and h: "homes_ok ls sz (length d) (head_homes (d ! ls))"
  shows "kok recover_from_log (\<lambda>_ t. cache_inv t \<and>
    (\<exists>x. disk t = apply_writes d (home_writes ls (head_homes (d ! ls)) (\<lambda>m. d ! m) @ [(ls, x)]))) s"
proof -
  let ?hs = "head_homes (d ! ls)" and ?n = "nat (head_n (d ! ls))"
  have len: "length ?hs = ?n" by (simp add: head_homes_def)
  have g: "log_geom s ls sz" "disk s = d" "sz \<le> LOGSIZE" "length (lh_block (log s)) = LOGSIZE"
    using b by (auto simp: booted_def log_geom_def)
  have le: "?n < sz" using h by (simp add: homes_ok_def len)
  have le': "head_n (d ! ls) \<le> int LOGSIZE" using le g by simp
  have "kok read_head (\<lambda>_ t. txn t ls sz ?hs \<and> cache_view t = cache_view s) s"
  proof (rule kok_mono [OF read_head_view [OF b le']], intro conjI)
    fix t assume t: "cache_inv t \<and> cache_view t = cache_view s \<and>
      log t = (log s)\<lparr>lh_n := head_n (d ! ls), lh_block := read_blocks (d ! ls) ?n (lh_block (log s))\<rparr>"
    then have dt: "disk t = d" using cache_view_simps(1) [of t] g(2) by simp
    have "homes (log t) = ?hs"
      using t g le by (intro nth_equalityI) (simp_all add: homes_def head_homes_def read_blocks_def)
    moreover have "log_geom t ls sz" using t g dt by (simp add: log_geom_def read_blocks_simps)
    ultimately show "txn t ls sz ?hs"
      using t h n b dt by (simp add: txn_def len booted_def NBUF_def MAXOPBLOCKS_def)
  qed simp
  then show ?thesis
    unfolding recover_from_log_def
  proof (rule kok_seqI)
    fix t assume "txn t ls sz ?hs \<and> cache_view t = cache_view s"
    then have t: "txn t ls sz ?hs" "cache_view t = cache_view s" by simp_all
    then have w: "wrote t [] t" by (simp add: wrote_def txnD(1) cache_frame_refl)
    let ?hw = "home_writes ls ?hs (cv_data (cache_view t))"
    have i: "kok install_trans (\<lambda>_. wrote t ?hw) t"
      using install_trans_after [OF t(1) w] b t(2) by (simp add: booted_def)
    have dat: "cv_data (cache_view t) = (\<lambda>m. d ! m)" using booted_data [OF b] t(2) by auto
    have dt: "disk t = d" using t(2) cache_view_simps(1) [of t] g(2) by simp
    show "kok (kseq install_trans (kseq (logupd (\<lambda>l. l\<lparr>lh_n := 0\<rparr>)) write_head)) (\<lambda>_ u. cache_inv u \<and>
        (\<exists>x. disk u = apply_writes d (home_writes ls ?hs (\<lambda>m. d ! m) @ [(ls, x)]))) t"
    proof (rule kok_seqI [OF i])
      fix u assume u: "wrote t ?hw u"
      show "kok (kseq (logupd (\<lambda>l. l\<lparr>lh_n := 0\<rparr>)) write_head) (\<lambda>_ u. cache_inv u \<and>
          (\<exists>x. disk u = apply_writes d (home_writes ls ?hs (\<lambda>m. d ! m) @ [(ls, x)]))) u"
      proof (rule kok_mono [OF clear_head_after [OF t(1) u]], intro conjI)
        fix y assume "cache_inv y \<and> log y = (log t)\<lparr>lh_n := 0\<rparr> \<and> cache_view y =
          written_all (?hw @ [(ls, wr32 (cv_data (written_all ?hw (cache_view t)) ls) 0 0)]) (cache_view t)"
        then have y: "cache_inv y" and "cv_disk (cache_view y) =
            apply_writes (cv_disk (cache_view t)) (?hw @ [(ls, wr32 (cv_data (written_all ?hw (cache_view t)) ls) 0 0)])"
          by (simp_all only: written_all_view)
        then show "\<exists>x. disk y = apply_writes d (home_writes ls ?hs (\<lambda>m. d ! m) @ [(ls, x)])"
          unfolding cache_view_simps dt dat by blast
        show "cache_inv y" by (rule y)
      qed
    qed
  qed
qed

section \<open>A crash during a commit\<close>

text \<open>What recovery leaves outside of the log.\<close>

lemma recover_nothing:
  assumes b: "booted s d ls sz" and n: "rd32 (d ! ls) 0 = 0"
  shows "kok recover_from_log (\<lambda>_ t. \<forall>b. b \<notin> log_area ls sz \<longrightarrow> disk t ! b = d ! b) s"
proof -
  have h: "head_homes (d ! ls) = []" "head_n (d ! ls) = 0" using n by (simp_all add: head_homes_def head_n_def)
  have g: "0 < sz" using b by (simp add: booted_def log_geom_def)
  show ?thesis
  proof (rule kok_mono [OF recover_view [OF b]])
    fix t assume "cache_inv t \<and> (\<exists>x. disk t = apply_writes d (home_writes ls (head_homes (d ! ls)) (\<lambda>m. d ! m) @ [(ls, x)]))"
    then obtain x where "disk t = d[ls := x]" by (auto simp: h home_writes_def apply_writes_def)
    then show "\<forall>b. b \<notin> log_area ls sz \<longrightarrow> disk t ! b = d ! b" using g by (auto simp: log_area_def)
  qed (use h g in \<open>simp_all add: homes_ok_def\<close>)
qed

lemma recover_logged:
  assumes b: "booted s d ls sz" and n: "head_n (d ! ls) = int (length hs)" "head_homes (d ! ls) = hs"
    and h: "homes_ok ls sz (length d) hs" and l: "\<And>k. k < length hs \<Longrightarrow> d ! (ls + 1 + k) = dat (hs ! k)"
  shows "kok recover_from_log (\<lambda>_ t. \<forall>b. b \<notin> log_area ls sz \<longrightarrow>
    disk t ! b = (if b \<in> set hs then dat b else d ! b)) s"
proof -
  have hw: "home_writes ls hs (\<lambda>m. d ! m) = map (\<lambda>b. (b, dat b)) hs"
  proof -
    have "home_writes ls hs (\<lambda>m. d ! m) = map (\<lambda>b. (b, dat b)) (map ((!) hs) [0..<length hs])"
      using l by (simp add: home_writes_def comp_def)
    then show ?thesis by (simp add: map_nth)
  qed
  have ls: "ls \<in> log_area ls sz" using b by (simp add: booted_def log_geom_def log_area_def)
  show ?thesis
  proof (rule kok_mono [OF recover_view [OF b]])
    fix t assume "cache_inv t \<and> (\<exists>x. disk t = apply_writes d (home_writes ls (head_homes (d ! ls)) (\<lambda>m. d ! m) @ [(ls, x)]))"
    then obtain x where x: "disk t = (apply_writes d (map (\<lambda>b. (b, dat b)) hs))[ls := x]" by (auto simp: n hw)
    have "disk t ! b = (if b \<in> set hs then dat b else d ! b)" if b: "b \<notin> log_area ls sz" for b
    proof (cases "b \<in> set hs")
      case True
      then have "apply_writes d (map (\<lambda>b. (b, dat b)) hs) ! b = dat b"
        using h by (intro apply_writes_nth) (auto simp: homes_ok_def comp_def)
      then show ?thesis using True b ls x by (metis nth_list_update_neq)
    next
      case False
      then have "apply_writes d (map (\<lambda>b. (b, dat b)) hs) ! b = d ! b"
        by (intro apply_writes_other) auto
      then show ?thesis using False b ls x by (metis nth_list_update_neq)
    qed
    then show "\<forall>b. b \<notin> log_area ls sz \<longrightarrow> disk t ! b = (if b \<in> set hs then dat b else d ! b)" by blast
  qed (use n h in simp_all)
qed

text \<open>The disk after a prefix of the writes of a commit.\<close>

lemma commit_prefix:
  assumes p: "prefix ws (commit_writes l ls hs dat)"
  obtains "prefix ws (log_writes ls hs dat)"
  | vs where "ws = log_writes ls hs dat @ (ls, header l (length hs) (dat ls)) # vs" "prefix vs (map (\<lambda>b. (b, dat b)) hs)"
  | "ws = commit_writes l ls hs dat"
  using p unfolding commit_writes_def Let_def
  by (auto simp: prefix_append prefix_Cons)

lemma commit_blocks:
  assumes t: "txn s ls sz hs" and d: "cv_dirty (cache_view s) = set hs" and b: "b \<notin> set hs"
  shows "cv_data (cache_view s) b = disk s ! b"
  using cache_clean [OF txnD(1) [OF t], of b] txnD(10) [OF t] d b by simp

lemma txn_homes: "txn s ls sz hs \<Longrightarrow> homes_ok ls sz (length (disk s)) hs"
  unfolding txn_def by blast

lemma commit_header:
  assumes t: "txn s ls sz hs" and D: "length D = BSIZE"
  shows "head_n (header (log s) (length hs) D) = int (length hs)" "head_homes (header (log s) (length hs) D) = hs"
proof -
  note T = txnD [OF t]
  have n: "length hs \<le> LOGSIZE" using T(8,9) by simp
  show h: "head_n (header (log s) (length hs) D) = int (length hs)"
    using n T(6) by (simp add: head_n_def header_n [OF D] sint_of_nat LOGSIZE_def MAXOPBLOCKS_def)
  have "unat (rd32 (header (log s) (length hs) D) (4 + 4 * k)) = hs ! k" if k: "k < length hs" for k
    using header_block [OF D n k] T(13) [of "hs ! k"] T(5) T(14) [OF k] k by (simp add: unat_of_nat32)
  then show "head_homes (header (log s) (length hs) D) = hs"
    by (intro nth_equalityI) (simp_all add: head_homes_def h)
qed

text \<open>Recovery after a crash finds the old blocks or the new ones, never a mixture.\<close>

definition all_old :: "block list \<Rightarrow> nat set \<Rightarrow> block list \<Rightarrow> bool" where
  "all_old d A d' \<longleftrightarrow> (\<forall>b < length d. b \<notin> A \<longrightarrow> d' ! b = d ! b)"

definition all_new :: "nat \<Rightarrow> nat set \<Rightarrow> (nat \<Rightarrow> block) \<Rightarrow> block list \<Rightarrow> bool" where
  "all_new n A dat d' \<longleftrightarrow> (\<forall>b < n. b \<notin> A \<longrightarrow> d' ! b = dat b)"

lemma log_writes_area: "length hs < sz \<Longrightarrow> fst ` set (log_writes ls hs dat) \<subseteq> log_area ls sz - {ls}"
  by (auto simp: log_writes_fst log_area_def)

lemma crash_before_header:
  assumes t: "txn s ls sz hs" and z: "rd32 (disk s ! ls) 0 = 0"
    and p: "prefix ws (log_writes ls hs dat)" and b: "booted u (apply_writes (disk s) ws) ls sz"
  shows "kok recover_from_log (\<lambda>_ x. all_old (disk s) (log_area ls sz) (disk x)) u"
proof -
  have "fst ` set ws \<subseteq> log_area ls sz - {ls}"
    using log_writes_area [of hs sz ls dat] txnD(8) [OF t] set_mono_prefix [OF p] by blast
  then have k: "m \<notin> log_area ls sz - {ls} \<Longrightarrow> apply_writes (disk s) ws ! m = disk s ! m" for m
    by (intro apply_writes_other) blast
  have "rd32 (apply_writes (disk s) ws ! ls) 0 = 0" using k [of ls] z by simp
  from recover_nothing [OF b this] show ?thesis
    by (rule kok_mono) (simp add: all_old_def k)
qed

lemma crash_after_header:
  assumes t: "txn s ls sz hs" and d: "cv_dirty (cache_view s) = set hs" and dat: "dat = cv_data (cache_view s)"
    and ws: "ws = log_writes ls hs dat @ (ls, header (log s) (length hs) (dat ls)) # vs" "prefix vs (map (\<lambda>b. (b, dat b)) hs)"
    and b: "booted u (apply_writes (disk s) ws) ls sz"
  shows "kok recover_from_log (\<lambda>_ x. all_new (length (disk s)) (log_area ls sz) dat (disk x)) u"
proof -
  note T = txnD [OF t]
  let ?h = "header (log s) (length hs) (dat ls)" and ?d = "apply_writes (disk s) ws" and ?lw = "log_writes ls hs dat"
  let ?d1 = "apply_writes (disk s) (?lw @ [(ls, ?h)])"
  have vs: "fst ` set vs \<subseteq> set hs" using set_mono_prefix [OF ws(2)] by auto
  have out: "set hs \<inter> log_area ls sz = {}" using T(13) by blast
  have D: "length (dat ls) = BSIZE" using bcache.blk_size [OF T(1), of ls] T(4,8) by (simp add: dat)
  have "?d = apply_writes ?d1 vs" by (simp add: ws(1) apply_writes_def)
  then have in_log: "?d ! m = ?d1 ! m" if "m \<in> log_area ls sz" for m
    using that vs out by (auto intro!: apply_writes_other)
  have ls: "ls \<in> log_area ls sz" "ls < length (disk s)" using T(4,8) by (auto simp: log_area_def)
  have "?d ! ls = ?h" using in_log [OF ls(1)] ls(2) by simp
  moreover have "?d ! (ls + 1 + k) = dat (hs ! k)" if k: "k < length hs" for k
  proof -
    have "apply_writes (disk s) ?lw ! (ls + 1 + k) = dat (hs ! k)"
      using T(4,8) k by (intro apply_writes_nth [OF log_writes_distinct log_writes_in]) auto
    then show ?thesis using in_log [of "ls + 1 + k"] k T(8) by (simp add: log_area_def)
  qed
  ultimately have r: "kok recover_from_log (\<lambda>_ x. \<forall>b. b \<notin> log_area ls sz \<longrightarrow>
      disk x ! b = (if b \<in> set hs then dat b else ?d ! b)) u"
    using commit_header [OF t D] txn_homes [OF t] by (intro recover_logged [OF b]) simp_all
  have "?d ! m = dat m" if "m \<notin> set hs" "m \<notin> log_area ls sz" for m
  proof -
    have "m \<notin> fst ` set ws"
      using that vs log_writes_area [of hs sz ls dat] T(8) ls by (auto simp: ws(1))
    then show ?thesis using commit_blocks [OF t d that(1)] by (simp add: apply_writes_other dat)
  qed
  then show ?thesis
    by (intro kok_mono [OF r]) (auto simp: all_new_def)
qed

lemma commit_done:
  assumes t: "txn s ls sz hs" and d: "cv_dirty (cache_view s) = set hs" and dat: "dat = cv_data (cache_view s)"
  shows "all_new (length (disk s)) (log_area ls sz) dat (apply_writes (disk s) (commit_writes (log s) ls hs dat))"
    and "rd32 (apply_writes (disk s) (commit_writes (log s) ls hs dat) ! ls) 0 = 0"
proof -
  note T = txnD [OF t]
  let ?h = "header (log s) (length hs) (dat ls)" and ?hw = "map (\<lambda>b. (b, dat b)) hs"
  let ?d = "apply_writes (disk s) (log_writes ls hs dat @ [(ls, ?h)])"
  have e: "apply_writes (disk s) (commit_writes (log s) ls hs dat) = (apply_writes ?d ?hw)[ls := wr32 ?h 0 0]"
    by (simp add: commit_writes_def Let_def apply_writes_def)
  have ls: "ls \<in> log_area ls sz" "ls < length (disk s)" using T(4,8) by (auto simp: log_area_def)
  have D: "length (dat ls) = BSIZE" using bcache.blk_size [OF T(1), of ls] T(4,8) by (simp add: dat)
  have "apply_writes ?d ?hw ! b = dat b" if b: "b < length (disk s)" "b \<notin> log_area ls sz" for b
  proof (cases "b \<in> set hs")
    case True
    then show ?thesis using T(7) b by (intro apply_writes_nth) (auto simp: comp_def)
  next
    case False
    then have "b \<notin> fst ` set ?hw" by auto
    then have "apply_writes ?d ?hw ! b = ?d ! b" by (rule apply_writes_other)
    also have "?d ! b = disk s ! b"
      using b ls log_writes_area [of hs sz ls dat] T(8) by (intro apply_writes_other) auto
    finally show ?thesis using commit_blocks [OF t d False] by (simp add: dat)
  qed
  then show "all_new (length (disk s)) (log_area ls sz) dat (apply_writes (disk s) (commit_writes (log s) ls hs dat))"
    unfolding e all_new_def
  proof (intro allI impI)
    fix b assume b: "b < length (disk s)" "b \<notin> log_area ls sz"
    then have "ls \<noteq> b" using ls by blast
    then show "(apply_writes ?d ?hw)[ls := wr32 ?h 0 0] ! b = dat b"
      using \<open>\<And>b. b < length (disk s) \<Longrightarrow> b \<notin> log_area ls sz \<Longrightarrow> apply_writes ?d ?hw ! b = dat b\<close> [OF b]
      by (subst nth_list_update_neq)
  qed
  have "length ?h = BSIZE" using D T(8,9) by simp
  then show "rd32 (apply_writes (disk s) (commit_writes (log s) ls hs dat) ! ls) 0 = 0"
    unfolding e using ls by (simp add: rd32_wr32_same BSIZE_def)
qed

section \<open>A concrete transaction\<close>

text \<open>A log of three blocks at block 1 of a disk of five, and a transaction that has changed block 4.\<close>

definition log1 :: log where
  "log1 = \<lparr>l_start = 1, l_size = 3, l_outstanding = 0, l_committing = True, l_dev = 1, lh_n = 1,
     lh_block = 4 # replicate 29 0\<rparr>"

definition log_state0 :: klog where
  "log_state0 = kbuf.extend (cache_ready (replicate 5 (replicate BSIZE 0))) (klog.fields log1)"

definition log_state1 :: klog where
  "log_state1 = (case kbind (bread 1 4) (\<lambda>i. kseq (bdata i (\<lambda>_. replicate BSIZE 9))
     (kseq (updb i (\<lambda>b. b\<lparr>b_dirty := True\<rparr>)) (brelse i))) log_state0 of Ok x t \<Rightarrow> t | _ \<Rightarrow> log_state0)"

lemma cache_extend:
  fixes s :: kbuf
  shows "cache_inv (kbuf.extend s r) = cache_inv s" "cache_view (kbuf.extend s r) = cache_view s"
  by (simp_all add: cache_inv_def cache_view_def cur_ok_def cur_pid_def kbuf.defs split: option.split)

lemma log_state0_ok:
  "cache_inv log_state0" "log log_state0 = log1" "disk log_state0 = replicate 5 (replicate BSIZE 0)"
  "cache_view log_state0 = \<lparr>cv_data = (\<lambda>n. replicate 5 (replicate BSIZE 0) ! n), cv_disk = replicate 5 (replicate BSIZE 0),
     cv_writes = [], cv_dirty = {}, cv_open = Map.empty\<rparr>"
proof -
  note r = cache_ready_ok [of "replicate 5 (replicate BSIZE 0)"]
  show "cache_inv log_state0" unfolding log_state0_def cache_extend by (rule r) simp
  show "log log_state0 = log1" by (simp add: log_state0_def kbuf.defs klog.defs)
  show v: "cache_view log_state0 = \<lparr>cv_data = (\<lambda>n. replicate 5 (replicate BSIZE 0) ! n), cv_disk = replicate 5 (replicate BSIZE 0),
     cv_writes = [], cv_dirty = {}, cv_open = Map.empty\<rparr>"
    unfolding log_state0_def cache_extend by (rule r) simp
  show "disk log_state0 = replicate 5 (replicate BSIZE 0)"
    using cache_view_simps(1) [of log_state0] unfolding v by simp
qed

lemma modify_block:
  assumes inv: "cache_inv s" and n: "n < 2 ^ 32" "n < length (disk s)" and op: "cv_open (cache_view s) = Map.empty"
    and room: "card (cv_dirty (cache_view s)) < NBUF" and len: "length (f (cv_data (cache_view s) n)) = BSIZE"
  shows "kok (kbind (bread 1 (of_nat n)) (\<lambda>i. kseq (bdata i f) (kseq (updb i (\<lambda>b. b\<lparr>b_dirty := True\<rparr>)) (brelse i))))
    (\<lambda>_ t. cache_inv t \<and> cache_frame s t \<and>
      cache_view t = (cache_view s)\<lparr>cv_data := (cv_data (cache_view s))(n := f (cv_data (cache_view s) n)),
        cv_dirty := insert n (cv_dirty (cache_view s))\<rparr>) s"
proof -
  define v where "v = cache_view s"
  define v1 where "v1 m = v\<lparr>cv_open := m, cv_data := (cv_data v)(n := f (cv_data v n))\<rparr>" for m
  define v2 where "v2 m = (v1 m)\<lparr>cv_dirty := insert n (cv_dirty v)\<rparr>" for m
  have "kok (bread 1 (of_nat n)) (\<lambda>i t. cache_inv t \<and> cache_frame s t \<and> cache_view t = v\<lparr>cv_open := [n \<mapsto> i]\<rparr>) s"
    using bcache.rd_ok [OF inv n(1)] n op room by (simp add: v_def)
  then have "kok (kbind (bread 1 (of_nat n)) (\<lambda>i. kseq (bdata i f) (kseq (updb i (\<lambda>b. b\<lparr>b_dirty := True\<rparr>)) (brelse i))))
    (\<lambda>_ t. cache_inv t \<and> cache_frame s t \<and> cache_view t = v2 Map.empty) s"
  proof (rule bcache.kok_step)
    fix i t assume t: "cache_inv t" "cache_view t = v\<lparr>cv_open := [n \<mapsto> i]\<rparr>"
    have "kok (bdata i f) (\<lambda>_ u. cache_inv u \<and> cache_frame t u \<and> cache_view u = v1 [n \<mapsto> i]) t"
      unfolding bdata_def using bcache.dat_ok [OF t(1), of n i f] t(2) len by (simp add: v_def v1_def)
    then show "kok (kseq (bdata i f) (kseq (updb i (\<lambda>b. b\<lparr>b_dirty := True\<rparr>)) (brelse i)))
      (\<lambda>_ u. cache_inv u \<and> cache_frame t u \<and> cache_view u = v2 Map.empty) t"
    proof (rule bcache.kok_step_seq)
      fix u assume u: "cache_inv u" "cache_view u = v1 [n \<mapsto> i]"
      have "kok (updb i (\<lambda>b. b\<lparr>b_dirty := True\<rparr>)) (\<lambda>_ w. cache_inv w \<and> cache_frame u w \<and>
          cache_view w = v2 [n \<mapsto> i]) u"
        using bdirty_view [OF u(1), of n i] u(2) by (simp add: v2_def v1_def)
      then show "kok (kseq (updb i (\<lambda>b. b\<lparr>b_dirty := True\<rparr>)) (brelse i))
        (\<lambda>_ w. cache_inv w \<and> cache_frame u w \<and> cache_view w = v2 Map.empty) u"
      proof (rule bcache.kok_step_seq)
        fix w assume w: "cache_inv w" "cache_view w = v2 [n \<mapsto> i]"
        have "(v2 [n \<mapsto> i])\<lparr>cv_open := Map.empty\<rparr> = v2 Map.empty" by (cases v) (simp add: v2_def v1_def)
        moreover have "cv_open (v2 [n \<mapsto> i]) = [n \<mapsto> i]" "n \<in> cv_dirty (v2 [n \<mapsto> i])" by (simp_all add: v2_def v1_def)
        ultimately show "kok (brelse i) (\<lambda>_ x. cache_inv x \<and> cache_frame w x \<and> cache_view x = v2 Map.empty) w"
          using bcache.rel_ok [OF w(1), of n i] by (simp add: w(2))
      qed
    qed
  qed
  moreover have "v2 Map.empty = v\<lparr>cv_data := (cv_data v)(n := f (cv_data v n)), cv_dirty := insert n (cv_dirty v)\<rparr>"
    using op by (cases v) (simp add: v2_def v1_def v_def)
  ultimately show ?thesis by (simp add: v_def)
qed

lemma log_state1_ok:
  "cache_inv log_state1" "log log_state1 = log1"
  "cache_view log_state1 = (cache_view log_state0)\<lparr>
     cv_data := (cv_data (cache_view log_state0))(4 := replicate BSIZE 9), cv_dirty := {4}\<rparr>"
proof -
  have "kok (kbind (bread 1 (of_nat 4)) (\<lambda>i. kseq (bdata i (\<lambda>_. replicate BSIZE 9))
      (kseq (updb i (\<lambda>b. b\<lparr>b_dirty := True\<rparr>)) (brelse i))))
    (\<lambda>_ t. cache_inv t \<and> cache_frame log_state0 t \<and> cache_view t = (cache_view log_state0)\<lparr>
      cv_data := (cv_data (cache_view log_state0))(4 := replicate BSIZE 9),
      cv_dirty := insert 4 (cv_dirty (cache_view log_state0))\<rparr>) log_state0"
    by (rule modify_block [OF log_state0_ok(1)]) (simp_all add: log_state0_ok(3,4) NBUF_def MAXOPBLOCKS_def)
  from kok_Ok [OF this]
  obtain x t where t: "kbind (bread 1 4) (\<lambda>i. kseq (bdata i (\<lambda>_. replicate BSIZE 9))
     (kseq (updb i (\<lambda>b. b\<lparr>b_dirty := True\<rparr>)) (brelse i))) log_state0 = Ok x t" "cache_inv t" "cache_frame log_state0 t"
     "cache_view t = (cache_view log_state0)\<lparr>cv_data := (cv_data (cache_view log_state0))(4 := replicate BSIZE 9),
      cv_dirty := insert 4 (cv_dirty (cache_view log_state0))\<rparr>" by auto
  have r: "log_state1 = t" unfolding log_state1_def t(1) by simp
  show "cache_inv log_state1" "log log_state1 = log1" unfolding r using t frame_log [OF t(3)] log_state0_ok(2) by simp_all
  show "cache_view log_state1 = (cache_view log_state0)\<lparr>
     cv_data := (cv_data (cache_view log_state0))(4 := replicate BSIZE 9), cv_dirty := {4}\<rparr>"
    unfolding r t(4) by (simp add: log_state0_ok(4))
qed

lemma log_state1_txn: "txn log_state1 1 3 [4]" "cv_dirty (cache_view log_state1) = {4}"
  "disk log_state1 = replicate 5 (replicate BSIZE 0)"
proof -
  note v = log_state1_ok(3) [unfolded log_state0_ok(4)]
  show d: "cv_dirty (cache_view log_state1) = {4}" by (simp add: v)
  show disk: "disk log_state1 = replicate 5 (replicate BSIZE 0)"
    using cache_view_simps(1) [of log_state1] unfolding v by simp
  have op: "cv_open (cache_view log_state1) = Map.empty" by (simp add: v)
  show "txn log_state1 1 3 [4]"
    unfolding txn_def log_geom_def log_state1_ok(2) disk d op
    using log_state1_ok(1)
    by (simp add: log1_def homes_def homes_ok_def log_area_def NBUF_def LOGSIZE_def MAXOPBLOCKS_def)
qed

section \<open>Properties\<close>

text \<open>
  C1: A commit is atomic.  Take a transaction whose logged blocks are the dirty ones, with a clear log on the
  disk.  \<^verbatim>\<open>commit\<close> returns and brings every block outside of the log to its new data.  If the machine crashes after any number
  of its disk writes, then \<^verbatim>\<open>recover_from_log\<close> on the disk that was left, run by a kernel with an empty cache,
  returns with all blocks outside of the log old or all of them new: no mixture is ever left.
\<close>

theorem commit_crash_atomic:
  assumes t: "txn s ls sz hs" and d: "cv_dirty (cache_view s) = set hs" and n: "hs \<noteq> []" and z: "rd32 (disk s ! ls) 0 = 0"
  shows "kok commit (\<lambda>_ t. \<exists>ws. dwrites t = dwrites s @ ws \<and> disk t = apply_writes (disk s) ws \<and>
      all_new (length (disk s)) (log_area ls sz) (cv_data (cache_view s)) (disk t) \<and>
      (\<forall>ws' u. prefix ws' ws \<longrightarrow> booted u (apply_writes (disk s) ws') ls sz \<longrightarrow>
        kok recover_from_log (\<lambda>_ x. all_old (disk s) (log_area ls sz) (disk x) \<or>
          all_new (length (disk s)) (log_area ls sz) (cv_data (cache_view s)) (disk x)) u)) s"
proof (rule kok_mono [OF commit_view [OF t d n]])
  fix x assume x: "cache_inv x \<and> log x = (log s)\<lparr>lh_n := 0\<rparr> \<and>
    cache_view x = written_all (commit_writes (log s) ls hs (cv_data (cache_view s))) (cache_view s)"
  let ?dat = "cv_data (cache_view s)" let ?ws = "commit_writes (log s) ls hs ?dat"
  let ?d = "\<lambda>ws. apply_writes (disk s) ws" let ?A = "log_area ls sz"
  have w: "dwrites x = dwrites s @ ?ws" and dk: "disk x = ?d ?ws"
    using x written_all_view(1,2) [of ?ws "cache_view s"] cache_view_simps [of x] by simp_all
  have "kok recover_from_log (\<lambda>_ y. all_old (disk s) ?A (disk y) \<or> all_new (length (disk s)) ?A ?dat (disk y)) u"
    if p: "prefix ws' ?ws" and b: "booted u (?d ws') ls sz" for ws' and u :: "'b klog_scheme"
    using p
  proof (cases rule: commit_prefix)
    case 1
    from crash_before_header [OF t z this b] show ?thesis by (rule kok_mono) blast
  next
    case (2 vs)
    from crash_after_header [OF t d refl this b] show ?thesis by (rule kok_mono) blast
  next
    case 3
    then have "rd32 (?d ws' ! ls) 0 = 0" "all_new (length (disk s)) ?A ?dat (?d ws')"
      using commit_done [OF t d refl] by simp_all
    then show ?thesis by (intro kok_mono [OF recover_nothing [OF b]]) (auto simp: all_new_def)
  qed
  then show "\<exists>ws. dwrites x = dwrites s @ ws \<and> disk x = ?d ws \<and> all_new (length (disk s)) ?A ?dat (disk x) \<and>
      (\<forall>ws' (u :: 'b klog_scheme). prefix ws' ws \<longrightarrow> booted u (?d ws') ls sz \<longrightarrow>
        kok recover_from_log (\<lambda>_ x. all_old (disk s) ?A (disk x) \<or> all_new (length (disk s)) ?A ?dat (disk x)) u)"
    using w dk commit_done(1) [OF t d refl] by (intro exI [of _ ?ws]) auto
qed

theorem commit_crash_atomic_witness:
  "booted log_state0 (disk log_state1) 1 3 \<and>
   kok commit (\<lambda>_ t. disk t ! 4 = replicate BSIZE 9 \<and>
     kok recover_from_log (\<lambda>_ x. disk x ! 4 = replicate BSIZE 0 \<or> disk x ! 4 = replicate BSIZE 9) log_state0) log_state1"
proof
  have g: "log_geom log_state0 1 3"
    using log_state1_txn(1) by (simp add: txn_def log_geom_def log_state0_ok log_state1_ok log_state1_txn)
  then show b: "booted log_state0 (disk log_state1) 1 3"
    using log_state0_ok log_state1_txn(3) by (simp add: booted_def)
  have dat: "cv_data (cache_view log_state1) 4 = replicate BSIZE 9" by (simp add: log_state1_ok)
  have z: "rd32 (disk log_state1 ! 1) 0 = 0" unfolding log_state1_txn by (simp add: rd32_def BSIZE_def)
  show "kok commit (\<lambda>_ t. disk t ! 4 = replicate BSIZE 9 \<and>
     kok recover_from_log (\<lambda>_ x. disk x ! 4 = replicate BSIZE 0 \<or> disk x ! 4 = replicate BSIZE 9) log_state0) log_state1"
  proof (rule kok_mono [OF commit_crash_atomic [OF log_state1_txn(1) _ _ z]])
    fix t assume "\<exists>ws. dwrites t = dwrites log_state1 @ ws \<and> disk t = apply_writes (disk log_state1) ws \<and>
      all_new (length (disk log_state1)) (log_area 1 3) (cv_data (cache_view log_state1)) (disk t) \<and>
      (\<forall>ws' (u :: klog). prefix ws' ws \<longrightarrow> booted u (apply_writes (disk log_state1) ws') 1 3 \<longrightarrow>
        kok recover_from_log (\<lambda>_ x. all_old (disk log_state1) (log_area 1 3) (disk x) \<or>
          all_new (length (disk log_state1)) (log_area 1 3) (cv_data (cache_view log_state1)) (disk x)) u)"
    then have n: "all_new (length (disk log_state1)) (log_area 1 3) (cv_data (cache_view log_state1)) (disk t)"
      and r: "kok recover_from_log (\<lambda>_ x. all_old (disk log_state1) (log_area 1 3) (disk x) \<or>
          all_new (length (disk log_state1)) (log_area 1 3) (cv_data (cache_view log_state1)) (disk x)) log_state0"
      using b by (auto dest!: spec [of _ "[]"])
    show "disk t ! 4 = replicate BSIZE 9 \<and>
     kok recover_from_log (\<lambda>_ x. disk x ! 4 = replicate BSIZE 0 \<or> disk x ! 4 = replicate BSIZE 9) log_state0"
      using n r dat by (auto simp: all_new_def all_old_def log_area_def log_state1_txn(3) intro: kok_mono)
  qed (simp_all add: log_state1_txn)
qed

section \<open>Logging a block\<close>

text \<open>An open transaction: the blocks in the log are the dirty ones.\<close>

definition logging :: "'z klog_scheme \<Rightarrow> nat \<Rightarrow> nat \<Rightarrow> nat list \<Rightarrow> bool" where
  "logging s ls sz hs \<longleftrightarrow> cache_inv s \<and> log_geom s ls sz \<and> l_size (log s) = int sz \<and> hs = homes (log s) \<and>
     lh_n (log s) = int (length hs) \<and> homes_ok ls sz (length (disk s)) hs \<and> cv_dirty (cache_view s) = set hs"

lemma logging_txn:
  assumes l: "logging s ls sz hs" and o: "cv_open (cache_view s) = Map.empty"
  shows "txn s ls sz hs"
proof -
  have h: "homes_ok ls sz (length (disk s)) hs" "sz \<le> LOGSIZE" using l unfolding logging_def log_geom_def by blast+
  then have "card (set hs) < NBUF" "set hs \<inter> log_area ls sz = {}"
    using card_length [of hs] by (auto simp: homes_ok_def LOGSIZE_def NBUF_def)
  then show ?thesis using l o unfolding txn_def logging_def by metis
qed

lemma log_index_found: "n < length bs \<Longrightarrow> j < n \<Longrightarrow> bs ! j = b \<Longrightarrow> distinct (take n bs) \<Longrightarrow> log_index bs n b = j"
proof -
  assume a: "n < length bs" "j < n" "bs ! j = b" "distinct (take n bs)"
  have "find (\<lambda>i. bs ! i = b) [0..<n] = Some j"
  proof (rule find_unique)
    fix i assume i: "i \<in> set [0..<n]" "bs ! i = b"
    then have "take n bs ! i = take n bs ! j" "i < length (take n bs)" "j < length (take n bs)" using a by simp_all
    then show "i = j" using a(4) by (metis nth_eq_iff_index_eq)
  qed (use a in auto)
  then show ?thesis by (simp add: log_index_def)
qed

lemma log_index_new: "n \<le> length bs \<Longrightarrow> b \<notin> set (take n bs) \<Longrightarrow> log_index bs n b = n"
proof -
  assume "n \<le> length bs" "b \<notin> set (take n bs)"
  then have "find (\<lambda>i. bs ! i = b) [0..<n] = None"
    by (auto simp: find_None_iff in_set_conv_nth)
  then show ?thesis by (simp add: log_index_def)
qed

text \<open>The change of the header in memory.\<close>

definition log_add :: "log \<Rightarrow> uint \<Rightarrow> log" where
  "log_add l b = (let k = log_index (lh_block l) (nat (lh_n l)) b in
     l\<lparr>lh_block := (lh_block l)[k := b], lh_n := (if int k = lh_n l then lh_n l + 1 else lh_n l)\<rparr>)"

lemma log_add_homes:
  assumes len: "length (lh_block l) = LOGSIZE" and n: "lh_n l = int (length hs)" "hs = homes l" "length hs < LOGSIZE" "distinct hs"
  shows "homes (log_add l b) = (if unat b \<in> set hs then hs else hs @ [unat b])"
    and "lh_n (log_add l b) = int (length (if unat b \<in> set hs then hs else hs @ [unat b]))"
    and "length (lh_block (log_add l b)) = LOGSIZE" and "l_start (log_add l b) = l_start l" "l_dev (log_add l b) = l_dev l"
      "l_size (log_add l b) = l_size l" "l_outstanding (log_add l b) = l_outstanding l"
proof -
  let ?n = "length hs" and ?bs = "lh_block l"
  have hs: "hs = map unat (take ?n ?bs)" using n by (simp add: homes_def)
  have "homes (log_add l b) = (if unat b \<in> set hs then hs else hs @ [unat b]) \<and>
    lh_n (log_add l b) = int (length (if unat b \<in> set hs then hs else hs @ [unat b]))"
  proof (cases "unat b \<in> set hs")
    case True
    then obtain j where j: "j < ?n" "hs ! j = unat b" by (auto simp: in_set_conv_nth)
    then have bj: "?bs ! j = b" using hs len n(3) by (metis length_map length_take min_less_iff_conj nth_map nth_take word_unat_eq_iff)
    have d: "distinct (take ?n ?bs)" using n(4) hs by (metis distinct_map)
    have "log_index ?bs ?n b = j" using log_index_found [of ?n ?bs j b] j bj d len n(3) by simp
    then have "log_add l b = l" using j bj [symmetric] n(1) by (simp add: log_add_def list_update_id)
    then show ?thesis using True n by simp
  next
    case False
    then have "b \<notin> set (take ?n ?bs)" using hs by (metis image_eqI list.set_map)
    then have k: "log_index ?bs ?n b = ?n" using log_index_new [of ?n ?bs b] len n(3) by simp
    then have "log_add l b = l\<lparr>lh_block := ?bs[?n := b], lh_n := lh_n l + 1\<rparr>" using n(1) by (simp add: log_add_def Let_def)
    moreover have "take (Suc ?n) (?bs[?n := b]) = take ?n ?bs @ [b]"
      using len n(3) by (simp add: take_Suc_conv_app_nth)
    ultimately show ?thesis using False n(1) hs by (simp add: homes_def nat_add_distrib)
  qed
  then show "homes (log_add l b) = (if unat b \<in> set hs then hs else hs @ [unat b])"
    "lh_n (log_add l b) = int (length (if unat b \<in> set hs then hs else hs @ [unat b]))" by simp_all
qed (use len in \<open>simp_all add: log_add_def Let_def\<close>)


lemma log_add_geom:
  assumes "log_geom s ls sz" "log t = log_add (log s) b" "length (disk t) = length (disk s)"
  shows "log_geom t ls sz"
  using assms by (simp add: log_geom_def log_add_def Let_def)

lemma logging_add:
  assumes l: "logging s ls sz hs" and room: "length hs + 1 < sz" and n: "n \<notin> log_area ls sz" "n < length (disk s)" "unat b = n"
    and t: "cache_inv t" "log t = log_add (log s) b" "length (disk t) = length (disk s)" "cv_dirty (cache_view t) = insert n (set hs)"
  shows "logging t ls sz (if n \<in> set hs then hs else hs @ [n])"
proof -
  have g: "log_geom s ls sz" "homes_ok ls sz (length (disk s)) hs" "lh_n (log s) = int (length hs)" "hs = homes (log s)"
    "l_size (log s) = int sz"
    using l unfolding logging_def by blast+
  have a: "length (lh_block (log s)) = LOGSIZE" "length hs < LOGSIZE" "distinct hs"
    using g(1,2) room by (simp_all add: log_geom_def homes_ok_def)
  note h = log_add_homes [OF a(1) g(3,4) a(2,3), of b]
  have "homes_ok ls sz (length (disk s)) (if n \<in> set hs then hs else hs @ [n])"
    using g(2) n room by (auto simp: homes_ok_def)
  moreover have "set (if n \<in> set hs then hs else hs @ [n]) = insert n (set hs)" by auto
  ultimately show ?thesis
    using t log_add_geom [OF g(1) t(2,3)] h g(5) n(3) unfolding logging_def by simp
qed

text \<open>\<^verbatim>\<open>log_write\<close> in terms of \<open>log_add\<close>.\<close>

lemma log_write_run:
  assumes "lh_n (log s) < int LOGSIZE" "lh_n (log s) < l_size (log s) - 1" "l_outstanding (log s) \<ge> 1"
    "LogLock \<notin> set (held s)" "i < length (bufs s)"
  shows "log_write i s = Ok () (s\<lparr>bufs := (bufs s)[i := (bufs s ! i)\<lparr>b_dirty := True\<rparr>],
    log := log_add (log s) (b_blockno (bufs s ! i))\<rparr>)"
  using assms by (simp add: log_write_def krun logget_def logupd_def acquire_def release_def getb_def updb_def log_add_def Let_def)

lemma cache_inv_woken [simp]:
  "cache_inv (s\<lparr>ptable := woken ch (ptable s)\<rparr>) = cache_inv s"
  "cache_view (s\<lparr>ptable := woken ch (ptable s)\<rparr>) = cache_view s"
proof -
  have "cur_pid (s\<lparr>ptable := woken ch (ptable s)\<rparr>) = cur_pid s" if "cur_ok s"
    using that by (auto simp: cur_ok_def cur_pid_def woken_def split: option.splits)
  moreover have "cur_ok (s\<lparr>ptable := woken ch (ptable s)\<rparr>) = cur_ok s"
    by (simp add: cur_ok_def split: option.split)
  ultimately show "cache_inv (s\<lparr>ptable := woken ch (ptable s)\<rparr>) = cache_inv s"
    by (auto simp: cache_inv_def)
qed (simp add: cache_view_def)

section \<open>The end of an operation\<close>

lemma logging_upd:
  "homes l = homes (log s) \<Longrightarrow> lh_n l = lh_n (log s) \<Longrightarrow> lh_block l = lh_block (log s) \<Longrightarrow> l_dev l = l_dev (log s) \<Longrightarrow>
   l_start l = l_start (log s) \<Longrightarrow> l_size l = l_size (log s) \<Longrightarrow> logging (s\<lparr>log := l\<rparr>) ls sz hs = logging s ls sz hs"
  by (simp add: logging_def log_geom_def)

text \<open>The last \<^verbatim>\<open>end_op\<close> of a group commits.\<close>

lemma klog_restore: "held s = [] \<Longrightarrow> s\<lparr>log := l, held := []\<rparr> = s\<lparr>log := l\<rparr>"
  "held s = [] \<Longrightarrow> s\<lparr>held := [], log := l\<rparr> = s\<lparr>log := l\<rparr>"
  by (cases s; simp)+

lemma end_op_run:
  assumes "held s = []" "\<not> l_committing (log s)" "l_outstanding (log s) = 1"
  shows "kok end_op Q s = kok (kseq commit (kseq (acquire LogLock) (kseq (logupd (\<lambda>l. l\<lparr>l_committing := False\<rparr>))
    (kseq (wakeup ChLog) (release LogLock))))) Q (s\<lparr>log := (log s)\<lparr>l_outstanding := 0, l_committing := True\<rparr>\<rparr>)"
  using assms by (simp add: kok_def end_op_def krun logget_def logupd_def acquire_def release_def klog_restore)

lemma end_op_tail:
  assumes "cache_inv s"
  shows "kseq (acquire LogLock) (kseq (logupd (\<lambda>l. l\<lparr>l_committing := False\<rparr>))
    (kseq (wakeup ChLog) (release LogLock))) s =
    Ok () (s\<lparr>ptable := woken ChLog (ptable s), log := (log s)\<lparr>l_committing := False\<rparr>\<rparr>)"
proof -
  have h: "held s = []" using assms by (simp add: cache_inv_def cur_ok_def)
  then have "s\<lparr>held := [], ptable := p, log := l\<rparr> = s\<lparr>ptable := p, log := l\<rparr>" for p l by (cases s) simp
  then show ?thesis
    using h by (simp add: krun logupd_def acquire_def release_def wakeup_woken)
qed

lemma commit_any:
  assumes l: "logging s ls sz hs" and o: "cv_open (cache_view s) = Map.empty"
  shows "kok commit (\<lambda>_ t. cache_inv t \<and> log t = (log s)\<lparr>lh_n := 0\<rparr> \<and> length (disk t) = length (disk s) \<and>
    cv_dirty (cache_view t) = {} \<and> cv_open (cache_view t) = Map.empty \<and>
    all_new (length (disk s)) (log_area ls sz) (cv_data (cache_view s)) (disk t)) s"
proof (cases "hs = []")
  case True
  then have s: "lh_n (log s) = 0" "cache_inv s" "cv_dirty (cache_view s) = {}"
    using l unfolding logging_def by simp_all
  moreover have "(log s)\<lparr>lh_n := 0\<rparr> = log s" using s(1) by (cases "log s") simp
  ultimately show ?thesis
    using o cache_clean [OF s(2)] by (simp add: commit_def kok_def krun logget_def all_new_def)
next
  case False
  note t = logging_txn [OF l o]
  have d: "cv_dirty (cache_view s) = set hs" using l unfolding logging_def by blast
  show ?thesis
  proof (rule kok_mono [OF commit_view [OF t d False]])
    fix x assume x: "cache_inv x \<and> log x = (log s)\<lparr>lh_n := 0\<rparr> \<and>
      cache_view x = written_all (commit_writes (log s) ls hs (cv_data (cache_view s))) (cache_view s)"
    let ?ws = "commit_writes (log s) ls hs (cv_data (cache_view s))"
    have v: "cache_view x = written_all ?ws (cache_view s)" using x by simp
    have "set hs \<subseteq> fst ` set ?ws" by (force simp: commit_writes_def Let_def)
    then have "cv_dirty (cache_view x) = {}" "cv_open (cache_view x) = Map.empty"
      using d o unfolding v written_all_view by auto
    moreover have "disk x = apply_writes (disk s) ?ws"
      using written_all_view(1) [of ?ws "cache_view s"] v by (metis cache_view_simps(1))
    ultimately show "cache_inv x \<and> log x = (log s)\<lparr>lh_n := 0\<rparr> \<and> length (disk x) = length (disk s) \<and>
      cv_dirty (cache_view x) = {} \<and> cv_open (cache_view x) = Map.empty \<and>
      all_new (length (disk s)) (log_area ls sz) (cv_data (cache_view s)) (disk x)"
      using x commit_done(1) [OF t d refl] frame_disk_length [OF v] by simp
  qed
qed

text \<open>
  C9: A block that a system call modifies and passes to \<^verbatim>\<open>log_write\<close> is in the transaction once: a block that is
  logged already is absorbed, a new one is added at the end of the header, and its buffer is pinned as dirty.
  \<^verbatim>\<open>log_write\<close> neither changes the data nor writes the disk.
\<close>

theorem log_write_logs_block:
  assumes l: "logging s ls sz hs" and o: "cv_open (cache_view s) n = Some i" and n: "n \<notin> log_area ls sz"
    and room: "length hs + 1 < sz" and out: "l_outstanding (log s) \<ge> 1"
  shows "kok (log_write i) (\<lambda>_ t. logging t ls sz (if n \<in> set hs then hs else hs @ [n]) \<and>
    cv_data (cache_view t) = cv_data (cache_view s) \<and> cv_open (cache_view t) = cv_open (cache_view s) \<and>
    disk t = disk s \<and> dwrites t = dwrites s) s"
proof -
  have L: "cache_inv s" "lh_n (log s) = int (length hs)" "l_size (log s) = int sz" "cv_dirty (cache_view s) = set hs"
    "sz \<le> LOGSIZE"
    using l unfolding logging_def log_geom_def by blast+
  note c = cache_view_open [OF L(1) o]
  let ?b = "b_blockno (bufs s ! i)" let ?bs = "(bufs s)[i := (bufs s ! i)\<lparr>b_dirty := True\<rparr>]"
  have b: "unat ?b = n" using c(2) by (simp add: holds_block_def)
  have "held s = []" using L(1) by (simp add: cache_inv_def cur_ok_def)
  then have run: "log_write i s = Ok () (s\<lparr>bufs := ?bs, log := log_add (log s) ?b\<rparr>)"
    using log_write_run [of s i] L room out c(1,8) by simp
  have u: "cache_inv (s\<lparr>bufs := ?bs\<rparr>)" "cache_view (s\<lparr>bufs := ?bs\<rparr>) = (cache_view s)\<lparr>cv_dirty := insert n (set hs)\<rparr>"
    using bdirty_view [OF L(1) o] c(1,8) L(4) by (simp_all add: kok_def updb_def)
  have "logging (s\<lparr>bufs := ?bs, log := log_add (log s) ?b\<rparr>) ls sz (if n \<in> set hs then hs else hs @ [n])"
    by (rule logging_add [OF l room n c(7) b]) (simp_all add: u)
  then show ?thesis by (simp add: kok_def run u)
qed

text \<open>
  C10: The \<^verbatim>\<open>end_op\<close> of the last outstanding operation commits: it returns with every block outside of the log
  on the disk as the transaction left it in the cache, an empty log, no dirty buffer, and the log open for new operations.
\<close>

theorem end_op_commits:
  assumes l: "logging s ls sz hs" and o: "cv_open (cache_view s) = Map.empty"
    and out: "l_outstanding (log s) = 1" "\<not> l_committing (log s)"
  shows "kok end_op (\<lambda>_ t. all_new (length (disk s)) (log_area ls sz) (cv_data (cache_view s)) (disk t) \<and>
    logging t ls sz [] \<and> cv_open (cache_view t) = Map.empty \<and> l_outstanding (log t) = 0 \<and> \<not> l_committing (log t)) s"
proof -
  let ?l = "(log s)\<lparr>l_outstanding := 0, l_committing := True\<rparr>" let ?s = "s\<lparr>log := ?l\<rparr>"
  have g: "log_geom s ls sz" "l_size (log s) = int sz" "held s = []"
    using l unfolding logging_def by (auto simp: cache_inv_def cur_ok_def)
  have "logging ?s ls sz hs" using l by (simp add: logging_upd homes_def)
  then have c: "kok commit (\<lambda>_ t. cache_inv t \<and> log t = ?l\<lparr>lh_n := 0\<rparr> \<and> length (disk t) = length (disk s) \<and>
    cv_dirty (cache_view t) = {} \<and> cv_open (cache_view t) = Map.empty \<and>
    all_new (length (disk s)) (log_area ls sz) (cv_data (cache_view s)) (disk t)) ?s"
    using commit_any [of ?s ls sz hs] o by simp
  show ?thesis
    unfolding end_op_run [OF g(3) out(2,1)]
  proof (rule kok_seqI [OF c])
    fix x assume x: "cache_inv x \<and> log x = ?l\<lparr>lh_n := 0\<rparr> \<and> length (disk x) = length (disk s) \<and>
      cv_dirty (cache_view x) = {} \<and> cv_open (cache_view x) = Map.empty \<and>
      all_new (length (disk s)) (log_area ls sz) (cv_data (cache_view s)) (disk x)"
    let ?x = "x\<lparr>ptable := woken ChLog (ptable x), log := (log x)\<lparr>l_committing := False\<rparr>\<rparr>"
    have "logging ?x ls sz []"
      using x g unfolding logging_def by (simp add: log_geom_def homes_def homes_ok_def)
    then show "kok (kseq (acquire LogLock) (kseq (logupd (\<lambda>l. l\<lparr>l_committing := False\<rparr>)) (kseq (wakeup ChLog) (release LogLock))))
     (\<lambda>_ t. all_new (length (disk s)) (log_area ls sz) (cv_data (cache_view s)) (disk t) \<and>
        logging t ls sz [] \<and> cv_open (cache_view t) = Map.empty \<and> l_outstanding (log t) = 0 \<and> \<not> l_committing (log t)) x"
      using x by (simp add: kok_def end_op_tail)
  qed
qed

definition log2 :: log where
  "log2 = log1\<lparr>l_outstanding := 1, l_committing := False, lh_n := 0\<rparr>"

lemma logging_log2: "logging (log_state0\<lparr>log := log2\<rparr>) 1 3 []"
  unfolding logging_def
  by (simp add: log_state0_ok log_geom_def log2_def log1_def homes_def homes_ok_def LOGSIZE_def MAXOPBLOCKS_def)

theorem log_write_logs_block_witness:
  "kok (kbind (bread 1 4) log_write) (\<lambda>_ t. homes (log t) = [4] \<and> disk t = replicate 5 (replicate BSIZE 0))
    (log_state0\<lparr>log := log2\<rparr>)"
proof -
  let ?s = "log_state0\<lparr>log := log2\<rparr>"
  note l = logging_log2 and inv = log_state0_ok(1)
  have b: "kok (bread 1 4) (\<lambda>i t. cache_inv t \<and> cache_frame ?s t \<and>
     cache_view t = (cache_view ?s)\<lparr>cv_open := (cv_open (cache_view ?s))(4 \<mapsto> i)\<rparr>) ?s"
    using bcache.rd_ok [of ?s 4] inv by (simp add: log_state0_ok NBUF_def MAXOPBLOCKS_def)
  show ?thesis
    unfolding kok_bind
  proof (rule kok_mono [OF b])
    fix i t assume t: "cache_inv t \<and> cache_frame ?s t \<and>
     cache_view t = (cache_view ?s)\<lparr>cv_open := (cv_open (cache_view ?s))(4 \<mapsto> i)\<rparr>"
    then have lt: "log t = log2" "disk t = replicate 5 (replicate BSIZE 0)"
      using frame_log [of ?s t] cache_view_simps(1) [of t] by (simp_all add: log_state0_ok)
    have "logging t 1 3 []"
      using t lt unfolding logging_def
      by (simp add: log_state0_ok log_geom_def log2_def log1_def homes_def homes_ok_def LOGSIZE_def MAXOPBLOCKS_def)
    from log_write_logs_block [OF this, of 4 i] t lt
    show "kok (log_write i) (\<lambda>_ t. homes (log t) = [4] \<and> disk t = replicate 5 (replicate BSIZE 0)) t"
      by (auto simp: log_area_def log2_def logging_def elim!: kok_mono)
  qed
qed

theorem end_op_commits_witness:
  "kok end_op (\<lambda>_ t. disk t ! 4 = replicate BSIZE 9) (log_state1\<lparr>log := log1\<lparr>l_outstanding := 1, l_committing := False\<rparr>\<rparr>)"
proof -
  let ?l = "log1\<lparr>l_outstanding := 1, l_committing := False\<rparr>"
  have "logging (log_state1\<lparr>log := ?l\<rparr>) 1 3 [4]"
    unfolding logging_def using log_state1_ok(1) log_state1_txn
    by (simp add: log_geom_def log1_def homes_def homes_ok_def log_area_def LOGSIZE_def MAXOPBLOCKS_def)
  from end_op_commits [OF this] show ?thesis
    by (auto simp: log_state1_ok log_state0_ok log_state1_txn(3) all_new_def log_area_def elim!: kok_mono)
qed

section \<open>The reservation of log space\<close>

lemma begin_op_run:
  assumes "held s = []" "\<not> l_committing (log s)" "lh_n (log s) + (l_outstanding (log s) + 1) * int MAXOPBLOCKS \<le> int LOGSIZE"
  shows "begin_op s = Ok () (s\<lparr>log := (log s)\<lparr>l_outstanding := l_outstanding (log s) + 1\<rparr>\<rparr>)"
  using assms by (simp add: begin_op_def begin_op_loop_def krun logget_def logupd_def acquire_def release_def klog_restore)

text \<open>
  C33: \<^verbatim>\<open>begin_op\<close> reserves ten blocks for an operation out of the 30 of \<^verbatim>\<open>LOGSIZE\<close>, but one of the 30 blocks of the
  log on the disk is the header.  With the log that mkfs makes, three operations are admitted
  to an empty log, and \<^verbatim>\<open>log_write\<close> panics on the last of the 30 blocks that they may write.
\<close>

theorem reservation_exceeds_log:
  assumes "held s = []" "\<not> l_committing (log s)" "l_outstanding (log s) = 0" "lh_n (log s) = 0" "l_size (log s) = int LOGSIZE"
  shows "kok (kseq begin_op (kseq begin_op begin_op)) (\<lambda>_ t. l_outstanding (log t) = 3 \<and> lh_n (log t) = 0 \<and>
    log_write i (t\<lparr>log := (log t)\<lparr>lh_n := 3 * int MAXOPBLOCKS - 1\<rparr>\<rparr>) = Panic ''too big a transaction'') s"
proof -
  let ?l = "\<lambda>k. (log s)\<lparr>l_outstanding := k\<rparr>"
  have "begin_op (s\<lparr>log := ?l k\<rparr>) = Ok () (s\<lparr>log := ?l (k + 1)\<rparr>)" if "k \<le> 2" for k
    using begin_op_run [of "s\<lparr>log := ?l k\<rparr>"] assms that by (simp add: LOGSIZE_def MAXOPBLOCKS_def)
  from this [of 0] this [of 1] this [of 2] have "begin_op (s\<lparr>log := ?l 0\<rparr>) = Ok () (s\<lparr>log := ?l 1\<rparr>)"
    "begin_op (s\<lparr>log := ?l 1\<rparr>) = Ok () (s\<lparr>log := ?l 2\<rparr>)" "begin_op (s\<lparr>log := ?l 2\<rparr>) = Ok () (s\<lparr>log := ?l 3\<rparr>)"
    by simp_all
  moreover have "s\<lparr>log := ?l 0\<rparr> = s" using assms(3) by (cases s; cases "log s") simp
  ultimately show ?thesis
    using assms by (simp add: kok_def krun log_write_def logget_def LOGSIZE_def MAXOPBLOCKS_def)
qed

theorem reservation_exceeds_log_witness:
  "kok (kseq begin_op (kseq begin_op begin_op)) (\<lambda>_ t. l_outstanding (log t) = 3)
    (log_state0\<lparr>log := log2\<lparr>l_outstanding := 0, l_size := 30\<rparr>\<rparr>)"
proof -
  have "held log_state0 = []" using log_state0_ok(1) by (simp add: cache_inv_def cur_ok_def)
  then show ?thesis
    using reservation_exceeds_log [of "log_state0\<lparr>log := log2\<lparr>l_outstanding := 0, l_size := 30\<rparr>\<rparr>" 0]
    by (auto simp: log2_def log1_def LOGSIZE_def MAXOPBLOCKS_def elim!: kok_mono)
qed

end
