(* ===== verification/User.thy ===== *)
theory User
  imports Cprintf
begin

text \<open>
  User programs.  A program sees the kernel through its system calls (\<^verbatim>\<open>user.h\<close>): it makes a call and gets the
  value the call returns with the bytes that the kernel stores for it.  The state of a program is the list
  of the results that its calls will get and the trace of the calls that it has made.  Properties hold for every
  list of results, so for every behaviour of the kernel and of the other processes.  A program that waits for a
  result which never comes is blocked.
\<close>

section \<open>System calls as a program makes them\<close>

datatype ucall =
    C_fork | C_exit | C_wait | C_pipe
  | C_write int "uchar list" | C_read int int | C_close int | C_kill int
  | C_exec "uchar list" "uchar list list" | C_open "uchar list" int
  | C_mknod "uchar list" int int | C_unlink "uchar list" | C_fstat int
  | C_link "uchar list" "uchar list" | C_mkdir "uchar list" | C_chdir "uchar list"
  | C_dup int | C_getpid | C_sbrk int | C_sleep int | C_uptime
  | C_wolfie uint | C_setpriority int int | C_getstats int | C_getprocs int

type_synonym uresult = "int \<times> uchar list"

record uenv =
  u_res :: "uresult list"
  u_calls :: "ucall list"

datatype 'a uout =
    UOk 'a uenv
  | UGone uenv
  | UBlocked uenv
  | UUndef

type_synonym 'a U = "uenv \<Rightarrow> 'a uout"

definition uret :: "'a \<Rightarrow> 'a U" where
  "uret x e = UOk x e"

definition ubind :: "'a U \<Rightarrow> ('a \<Rightarrow> 'b U) \<Rightarrow> 'b U" where
  "ubind m f e = (case m e of UOk x e' \<Rightarrow> f x e' | UGone e' \<Rightarrow> UGone e' | UBlocked e' \<Rightarrow> UBlocked e' | UUndef \<Rightarrow> UUndef)"

definition useq :: "'a U \<Rightarrow> 'b U \<Rightarrow> 'b U" where
  "useq m k = ubind m (\<lambda>_. k)"

definition uundef :: "'a U" where
  "uundef e = UUndef"

definition uopt :: "'a option \<Rightarrow> 'a U" where
  "uopt r = (case r of None \<Rightarrow> uundef | Some x \<Rightarrow> uret x)"

definition uwhen :: "bool \<Rightarrow> unit U \<Rightarrow> unit U" where
  "uwhen b m = (if b then m else uret ())"

text \<open>A call: the next result is its result.\<close>

definition usys :: "ucall \<Rightarrow> uresult U" where
  "usys c e = (case u_res e of
     [] \<Rightarrow> UBlocked (e\<lparr>u_calls := u_calls e @ [c]\<rparr>)
   | r # rs \<Rightarrow> UOk r \<lparr>u_res = rs, u_calls = u_calls e @ [c]\<rparr>)"

definition uint_of :: "ucall \<Rightarrow> int U" where
  "uint_of c = ubind (usys c) (\<lambda>(r, _). uret r)"

text \<open>\<^verbatim>\<open>exit\<close> does not return, and \<^verbatim>\<open>exec\<close> returns only when it fails.\<close>

definition uexit :: "'a U" where
  "uexit e = UGone (e\<lparr>u_calls := u_calls e @ [C_exit]\<rparr>)"

definition uexec :: "uchar list \<Rightarrow> uchar list list \<Rightarrow> int U" where
  "uexec path argv = ubind (uint_of (C_exec path argv)) (\<lambda>r. if r < 0 then uret r else UGone)"

text \<open>The kernel stores as many bytes as \<^verbatim>\<open>read\<close> returns and at most as many as were asked for.\<close>

definition uread :: "int \<Rightarrow> int \<Rightarrow> uresult U" where
  "uread fd n = ubind (usys (C_read fd n)) (\<lambda>(r, bs).
     if r \<le> n \<and> int (length bs) = max 0 r then uret (r, bs) else uundef)"

definition uwrite :: "int \<Rightarrow> uchar list \<Rightarrow> int U" where
  "uwrite fd bs = uint_of (C_write fd bs)"

text \<open>A call that fills a structure of \<open>n\<close> bytes when it succeeds.\<close>

definition ufill :: "ucall \<Rightarrow> nat \<Rightarrow> uresult U" where
  "ufill c n = ubind (usys c) (\<lambda>(r, bs).
     if r < 0 \<or> length bs = n then uret (r, bs) else uundef)"

definition upipe :: "(int \<times> int \<times> int) U" where
  "upipe = ubind (ufill C_pipe 8) (\<lambda>(r, bs).
     uret (r, sint (word_rcat (rev (take 4 bs)) :: uint), sint (word_rcat (rev (drop 4 bs)) :: uint)))"

section \<open>Rules for the combinators\<close>

named_theorems urun

lemma uret_run [urun, simp]: "uret x e = UOk x e" by (simp add: uret_def)
lemma useq_run [urun]: "useq m k e = (case m e of UOk x e' \<Rightarrow> k e' | UGone e' \<Rightarrow> UGone e' | UBlocked e' \<Rightarrow> UBlocked e' | UUndef \<Rightarrow> UUndef)"
  by (simp add: useq_def ubind_def)
lemma uundef_run [urun, simp]: "uundef e = UUndef" by (simp add: uundef_def)
lemma uopt_run [urun]: "uopt r e = (case r of None \<Rightarrow> UUndef | Some x \<Rightarrow> UOk x e)" by (cases r) (simp_all add: uopt_def)
lemma uwhen_run [urun]: "uwhen b m e = (if b then m e else UOk () e)" by (simp add: uwhen_def)

lemmas ubind_run [urun] = ubind_def

lemma ubind_ret [simp]: "ubind (uret x) f = f x"
  by (rule ext) (simp add: ubind_def)

lemma uopt_Some [simp]: "uopt (Some x) = uret x"
  by (simp add: uopt_def)

lemma uint_of_run [urun]: "uint_of c e = (case u_res e of
     [] \<Rightarrow> UBlocked (e\<lparr>u_calls := u_calls e @ [c]\<rparr>)
   | r # rs \<Rightarrow> UOk (fst r) \<lparr>u_res = rs, u_calls = u_calls e @ [c]\<rparr>)"
  by (auto simp: uint_of_def ubind_def usys_def split: list.split)

text \<open>The recursion of a loop goes on where its last call has left the program.\<close>

lemma ubind_cong [fundef_cong]:
  assumes "e = e'" "m e' = m' e'" "\<And>x t. m' e' = UOk x t \<Longrightarrow> f x t = f' x t"
  shows "ubind m f e = ubind m' f' e'"
  using assms by (simp add: ubind_def split: uout.split)

lemma useq_cong [fundef_cong]:
  assumes "e = e'" "m e' = m' e'" "\<And>x t. m' e' = UOk x t \<Longrightarrow> k t = k' t"
  shows "useq m k e = useq m' k' e'"
  using assms by (simp add: useq_def ubind_def split: uout.split)

lemma case_prod_cong_env [fundef_cong]:
  "p = q \<Longrightarrow> e = e' \<Longrightarrow> (\<And>x y. q = (x, y) \<Longrightarrow> f x y e' = g x y e') \<Longrightarrow> (case p of (x, y) \<Rightarrow> f x y) e = (case q of (x, y) \<Rightarrow> g x y) e'"
  by (cases q) simp

lemma usys_less: "usys c e = UOk r t \<Longrightarrow> length (u_res t) < length (u_res e)"
  by (auto simp: usys_def split: list.splits)

lemma uread_less: "uread fd n e = UOk r t \<Longrightarrow> length (u_res t) < length (u_res e)"
  by (auto simp: uread_def ubind_def split: uout.splits if_splits dest: usys_less)

lemma uint_of_less: "uint_of c e = UOk r t \<Longrightarrow> length (u_res t) < length (u_res e)"
  by (auto simp: uint_of_def ubind_def split: uout.splits if_splits dest: usys_less)

lemma ufill_less: "ufill c n e = UOk r t \<Longrightarrow> length (u_res t) < length (u_res e)"
  by (auto simp: ufill_def ubind_def split: uout.splits if_splits dest: usys_less)

section \<open>What a program keeps\<close>

text \<open>A relation between the state before a program and the state that it returns in.\<close>

definition ukeeps :: "(uenv \<Rightarrow> uenv \<Rightarrow> bool) \<Rightarrow> 'a U \<Rightarrow> bool" where
  "ukeeps R m \<longleftrightarrow> (\<forall>e x t. m e = UOk x t \<longrightarrow> R e t)"

named_theorems ukeep

text \<open>The rules for any relation that composes, given what each system call does.\<close>

locale user_frame =
  fixes R :: "uenv \<Rightarrow> uenv \<Rightarrow> bool"
  assumes fr_refl: "R e e"
    and fr_trans: "R e t \<Longrightarrow> R t u \<Longrightarrow> R e u"
begin

lemma bind [ukeep]: "ukeeps R m \<Longrightarrow> (\<And>x. ukeeps R (f x)) \<Longrightarrow> ukeeps R (ubind m f)"
  unfolding ukeeps_def ubind_def by (auto split: uout.splits) (metis fr_trans)

lemma seq [ukeep]: "ukeeps R m \<Longrightarrow> ukeeps R k \<Longrightarrow> ukeeps R (useq m k)"
  unfolding useq_def by (rule bind)

lemma basic [ukeep]: "ukeeps R (uret x)" "ukeeps R (UOk x)" "ukeeps R uundef" "ukeeps R (uopt r)" "ukeeps R uexit" "ukeeps R UGone"
  by (auto simp: ukeeps_def uopt_def uexit_def fr_refl split: option.splits)

lemma guard [ukeep]: "ukeeps R m \<Longrightarrow> ukeeps R (uwhen b m)"
  by (simp add: uwhen_def basic)

lemma cond [ukeep]: "ukeeps R m \<Longrightarrow> ukeeps R k \<Longrightarrow> ukeeps R (if b then m else k)"
  by simp

lemma of_list [ukeep]: "ukeeps R m \<Longrightarrow> (\<And>x xs. ukeeps R (f x xs)) \<Longrightarrow> ukeeps R (case l of [] \<Rightarrow> m | x # xs \<Rightarrow> f x xs)"
  by (cases l) simp_all

lemma of_option [ukeep]: "ukeeps R m \<Longrightarrow> (\<And>x. ukeeps R (f x)) \<Longrightarrow> ukeeps R (case r of None \<Rightarrow> m | Some x \<Rightarrow> f x)"
  by (cases r) simp_all

lemma of_sum [ukeep]: "(\<And>x. ukeeps R (f x)) \<Longrightarrow> (\<And>y. ukeeps R (g y)) \<Longrightarrow> ukeeps R (case s of Inl x \<Rightarrow> f x | Inr y \<Rightarrow> g y)"
  by (cases s) simp_all

lemma of_prod [ukeep]: "(\<And>x y. ukeeps R (f x y)) \<Longrightarrow> ukeeps R (case p of (x, y) \<Rightarrow> f x y)"
  by (cases p) simp

lemma of_carg [ukeep]: "(\<And>x. ukeeps R (f x)) \<Longrightarrow> (\<And>s. ukeeps R (g s)) \<Longrightarrow> ukeeps R (case a of ArgU x \<Rightarrow> f x | ArgS s \<Rightarrow> g s)"
  by (cases a) simp_all

lemma int_call: "ukeeps R (usys c) \<Longrightarrow> ukeeps R (uint_of c)"
  unfolding uint_of_def by (intro bind of_prod basic)

lemma read_call: "ukeeps R (usys (C_read fd n)) \<Longrightarrow> ukeeps R (uread fd n)"
  unfolding uread_def by (intro bind of_prod cond basic)

lemma fill_call: "ukeeps R (usys c) \<Longrightarrow> ukeeps R (ufill c n)"
  unfolding ufill_def by (intro bind of_prod cond basic)

lemma write_call: "ukeeps R (usys (C_write fd bs)) \<Longrightarrow> ukeeps R (uwrite fd bs)"
  unfolding uwrite_def by (rule int_call)

end

text \<open>Every call uses up a result.\<close>

abbreviation ule :: "'a U \<Rightarrow> bool" where
  "ule \<equiv> ukeeps (\<lambda>e t. length (u_res t) \<le> length (u_res e))"

interpretation used: user_frame "\<lambda>e t. length (u_res t) \<le> length (u_res e)"
  by unfold_locales auto

lemma ule_sys: "ule (usys c)"
  by (auto simp: ukeeps_def dest: usys_less)

lemmas ule_calls [ukeep] =
  ule_sys used.int_call [OF ule_sys] used.read_call [OF ule_sys] used.fill_call [OF ule_sys] used.write_call [OF ule_sys]

text \<open>The calls of a program that only writes to a descriptor.\<close>

definition only_writes :: "int \<Rightarrow> uenv \<Rightarrow> uenv \<Rightarrow> bool" where
  "only_writes fd e t \<longleftrightarrow> (\<exists>bss. u_calls t = u_calls e @ map (C_write fd) bss)"

interpretation prints: user_frame "only_writes fd" for fd
proof
  show "only_writes fd e e" for e by (auto simp: only_writes_def intro: exI [of _ "[]"])
  show "only_writes fd e u" if "only_writes fd e t" "only_writes fd t u" for e t u
    using that by (auto simp: only_writes_def simp flip: map_append)
qed

lemma only_writes_sys: "ukeeps (only_writes fd) (usys (C_write fd bs))"
  by (auto simp: ukeeps_def usys_def only_writes_def intro!: exI [of _ "[bs]"] split: list.splits)

lemmas only_writes_call [ukeep] = prints.write_call [OF only_writes_sys]

section \<open>The string routines of ulib.c\<close>

fun ustrcpy :: "uchar list \<Rightarrow> uchar list \<Rightarrow> uchar list option" where
  "ustrcpy (x # s) (c # t) = (if c = 0 then Some (0 # s) else map_option (Cons c) (ustrcpy s t))"
| "ustrcpy s t = None"

fun ustrcmp :: "uchar list \<Rightarrow> uchar list \<Rightarrow> int option" where
  "ustrcmp (a # p) (b # q) = (if a \<noteq> 0 \<and> a = b then ustrcmp p q else Some (uint a - uint b))"
| "ustrcmp p q = None"

fun ustrlen :: "uchar list \<Rightarrow> nat option" where
  "ustrlen [] = None"
| "ustrlen (c # s) = (if c = 0 then Some 0 else map_option Suc (ustrlen s))"

definition umemset :: "uchar list \<Rightarrow> int \<Rightarrow> nat \<Rightarrow> uchar list option" where
  "umemset s c n = (if n \<le> length s then Some (replicate n (word_of_int c) @ drop n s) else None)"

text \<open>The position of a character, or no position; no value when the array has no NUL.\<close>

fun ustrchr :: "uchar list \<Rightarrow> uchar \<Rightarrow> nat option option" where
  "ustrchr [] c = None"
| "ustrchr (x # s) c =
     (if x = 0 then Some None else if x = c then Some (Some 0) else map_option (map_option Suc) (ustrchr s c))"

text \<open>Adding past the range of int is undefined.\<close>

fun atoi_loop :: "int \<Rightarrow> uchar list \<Rightarrow> int option" where
  "atoi_loop n [] = None"
| "atoi_loop n (c # s) =
     (if 48 \<le> c \<and> c \<le> 57 then
        if n * 10 + (uint c - 48) < 2 ^ 31 then atoi_loop (n * 10 + uint c - 48) s else None
      else Some n)"

definition atoi :: "uchar list \<Rightarrow> int option" where
  "atoi s = atoi_loop 0 s"

text \<open>Always from the first byte to the last.\<close>

fun umemmove :: "uchar list \<Rightarrow> nat \<Rightarrow> nat \<Rightarrow> nat \<Rightarrow> uchar list option" where
  "umemmove a dst src 0 = Some a"
| "umemmove a dst src (Suc n) =
     (if dst < length a \<and> src < length a then umemmove (a[dst := a ! src]) (Suc dst) (Suc src) n else None)"

function gets_loop :: "int \<Rightarrow> uchar list \<Rightarrow> uchar list U" where
  "gets_loop mx acc e =
     (if int (length acc) + 1 < mx then
        ubind (uread 0 1) (\<lambda>(cc, bs) t.
          if cc < 1 then uret acc t
          else if hd bs = 10 \<or> hd bs = 13 then uret (acc @ [hd bs]) t
          else gets_loop mx (acc @ [hd bs]) t) e
      else uret acc e)"
  by pat_completeness auto
termination
  by (relation "measure (\<lambda>(mx, acc, e). length (u_res e))") (auto dest: uread_less)

declare gets_loop.simps [simp del]

text \<open>
  The array after \<^verbatim>\<open>gets(buf, max)\<close>: what was read, a NUL, and the old bytes.
\<close>

definition gets :: "uchar list \<Rightarrow> int \<Rightarrow> uchar list U" where
  "gets buf mx = ubind (gets_loop mx []) (\<lambda>s.
     if length s < length buf then uret (splice buf 0 (s @ [0])) else uundef)"

definition ustat :: "uchar list \<Rightarrow> uresult U" where
  "ustat n = ubind (uint_of (C_open n 0)) (\<lambda>fd.
     if fd < 0 then uret (- 1, [])
     else ubind (ufill (C_fstat fd) 20) (\<lambda>r. useq (uint_of (C_close fd)) (uret r)))"


lemma gets_loop_le: "gets_loop mx acc e = UOk s t \<Longrightarrow> length (u_res t) \<le> length (u_res e)"
proof (induction mx acc e rule: gets_loop.induct)
  case (1 mx acc e)
  show ?case
  proof (cases "int (length acc) + 1 < mx")
    case True
    obtain cc bs u where r: "uread 0 1 e = UOk (cc, bs) u"
      using "1.prems" True by (subst (asm) gets_loop.simps) (auto simp: ubind_def split: uout.splits)
    have "length (u_res u) < length (u_res e)" by (rule uread_less [OF r])
    moreover have "length (u_res t) \<le> length (u_res u)"
      using "1.prems" "1.IH" [OF True r refl] True r
      by (subst (asm) gets_loop.simps) (auto simp: ubind_def split: if_splits)
    ultimately show ?thesis by simp
  next
    case False
    then show ?thesis using "1.prems" by (subst (asm) gets_loop.simps) simp
  qed
qed

lemma ule_gets [ukeep]: "ule (gets buf mx)"
  unfolding gets_def by (intro ukeep) (auto simp: ukeeps_def dest: gets_loop_le)

end
