(* ===== verification/Uprintf.thy ===== *)
theory Uprintf
  imports User
begin

text \<open>
  Formatted output of user programs (\<^verbatim>\<open>printf.c\<close>): one \<^verbatim>\<open>write\<close> per byte.
\<close>

definition uputc :: "int \<Rightarrow> uchar \<Rightarrow> unit U" where
  "uputc fd c = useq (uwrite fd [c]) (uret ())"

fun uputs :: "int \<Rightarrow> uchar list \<Rightarrow> unit U" where
  "uputs fd [] = uret ()"
| "uputs fd (c # cs) = useq (uputc fd c) (uputs fd cs)"

definition udigit :: "nat \<Rightarrow> uchar" where
  "udigit d = lit ''0123456789ABCDEF'' ! d"

text \<open>The loop divides by zero for base 0 and does not end for base 1.\<close>

function uprintint_loop :: "uint \<Rightarrow> uint \<Rightarrow> uchar list \<Rightarrow> uchar list option" where
  "uprintint_loop base x buf =
     (if base < 2 then None
      else let buf = buf @ [udigit (unat (x mod base))]; x = x div base
           in if x \<noteq> 0 then uprintint_loop base x buf else Some buf)"
  by pat_completeness auto
termination
proof (relation "measure (\<lambda>(base, x, buf). unat x)")
  fix base x x' :: uint and buf buf' :: "uchar list"
  assume "\<not> base < 2" "x' = x div base" "x' \<noteq> 0"
  then have "1 < unat base" by (simp add: word_less_nat_alt not_less)
  moreover have "unat x' = unat x div unat base" "unat x' \<noteq> 0"
    using \<open>x' = x div base\<close> \<open>x' \<noteq> 0\<close> by (metis unat_div) (simp add: \<open>x' \<noteq> 0\<close> unat_eq_zero)
  moreover from this have "0 < unat x" by (metis div_0 gr0I)
  ultimately show "((base, x', buf'), base, x, buf) \<in> measure (\<lambda>(base, x, buf). unat x)"
    by simp
qed simp

declare uprintint_loop.simps [simp del]

definition uprintint :: "int \<Rightarrow> uint \<Rightarrow> uint \<Rightarrow> bool \<Rightarrow> unit U" where
  "uprintint fd xx base sg =
     (let neg = (sg \<and> sint xx < 0);
          x = (if neg then - xx else xx)
      in ubind (uopt (uprintint_loop base x [])) (\<lambda>buf.
         let buf = (if neg then buf @ [45] else buf)
         in if length buf > 16 then uundef else uputs fd (rev buf)))"

fun uprintf :: "int \<Rightarrow> string \<Rightarrow> carg list \<Rightarrow> unit U" where
  "uprintf fd [] args = uret ()"
| "uprintf fd (c # fmt) args =
     (if c \<noteq> CHR ''%'' then useq (uputc fd (of_char c)) (uprintf fd fmt args)
      else case fmt of
        [] \<Rightarrow> uret ()
      | d # fmt' \<Rightarrow>
          if d = CHR ''d'' then
            (case args of
               ArgU x # args' \<Rightarrow> useq (uprintint fd x 10 True) (uprintf fd fmt' args')
             | _ \<Rightarrow> uundef)
          else if d = CHR ''x'' \<or> d = CHR ''p'' then
            (case args of
               ArgU x # args' \<Rightarrow> useq (uprintint fd x 16 False) (uprintf fd fmt' args')
             | _ \<Rightarrow> uundef)
          else if d = CHR ''s'' then
            (case args of
               ArgS (Some str) # args' \<Rightarrow>
                 if 0 \<notin> set str then uundef
                 else useq (uputs fd (cstr str)) (uprintf fd fmt' args')
             | ArgS None # args' \<Rightarrow> useq (uputs fd (lit ''(null)'')) (uprintf fd fmt' args')
             | _ \<Rightarrow> uundef)
          else if d = CHR ''c'' then
            (case args of
               ArgU x # args' \<Rightarrow> useq (uputc fd (ucast x)) (uprintf fd fmt' args')
             | _ \<Rightarrow> uundef)
          else if d = CHR ''%'' then useq (uputc fd 37) (uprintf fd fmt' args)
          else useq (uputc fd 37) (useq (uputc fd (of_char d)) (uprintf fd fmt' args)))"

section \<open>What is printed\<close>

text \<open>
  A run that prints: the bytes go out in order, one per call, unless the results of the calls run out.
\<close>

definition putting :: "int \<Rightarrow> uchar list \<Rightarrow> uenv \<Rightarrow> uenv" where
  "putting fd bs e = \<lparr>u_res = drop (length bs) (u_res e), u_calls = u_calls e @ map (\<lambda>b. C_write fd [b]) bs\<rparr>"

lemma uputs_run: "length bs \<le> length (u_res e) \<Longrightarrow> uputs fd bs e = UOk () (putting fd bs e)"
proof (induction bs arbitrary: e)
  case (Cons b bs)
  then obtain r rs where r: "u_res e = r # rs" by (cases "u_res e") auto
  let ?e = "\<lparr>u_res = rs, u_calls = u_calls e @ [C_write fd [b]]\<rparr>"
  have "uputs fd bs ?e = UOk () (putting fd bs ?e)" using Cons r by simp
  then show ?case using r
    by (simp add: urun uputc_def uwrite_def putting_def)
qed (simp add: putting_def)


text \<open>Printing keeps what every write keeps.\<close>

context user_frame
begin

lemma puts: "(\<And>bs. ukeeps R (uwrite fd bs)) \<Longrightarrow> ukeeps R (uputs fd cs)"
  by (induction cs) (auto simp: uputc_def intro!: seq basic)

lemma printint: "(\<And>bs. ukeeps R (uwrite fd bs)) \<Longrightarrow> ukeeps R (uprintint fd x base sg)"
  unfolding uprintint_def Let_def by (intro bind cond basic puts)

lemma printf:
  assumes w: "\<And>bs. ukeeps R (uwrite fd bs)"
  shows "ukeeps R (uprintf fd fmt args)"
proof (induction fmt arbitrary: args rule: length_induct)
  case (1 fmt)
  have ih: "ukeeps R (uprintf fd f a)" if "length f < length fmt" for f a using 1 that by blast
  have c: "ukeeps R (uputc fd b)" for b unfolding uputc_def by (intro seq basic w)
  note rules = seq cond basic of_list of_carg of_option c puts [OF w] printint [OF w]
  show ?case
  proof (cases fmt)
    case (Cons x f)
    have f: "ukeeps R (uprintf fd f a)" for a by (rule ih) (simp add: Cons)
    show ?thesis
    proof (cases f)
      case Nil
      then show ?thesis unfolding Cons by (subst uprintf.simps(2)) (simp add: rules)
    next
      case (Cons d g)
      have g: "ukeeps R (uprintf fd g a)" for a by (rule ih) (simp add: \<open>fmt = x # f\<close> Cons)
      show ?thesis unfolding \<open>fmt = x # f\<close>
        by (subst uprintf.simps(2), simp only: Cons list.case, intro rules g f [unfolded Cons])
    qed
  qed (simp add: basic)
qed

end

lemmas ule_uprintf [ukeep] = used.printf [OF ule_calls(5)]
lemmas only_writes_uprintf = prints.printf [OF only_writes_call]

lemma uless_seq:
  assumes "\<And>x t. m e = UOk x t \<Longrightarrow> length (u_res t) < length (u_res e)" "ule k" "useq m k e = UOk y u"
  shows "length (u_res u) < length (u_res e)"
proof -
  obtain x t where x: "m e = UOk x t" "k t = UOk y u"
    using assms(3) by (cases "m e") (simp_all add: useq_run)
  from assms(1) [OF x(1)] assms(2) x(2) show ?thesis unfolding ukeeps_def by (blast intro: le_less_trans)
qed

lemma uprintf_less:
  assumes "c \<noteq> CHR ''%''" "uprintf fd (c # fmt) args e = UOk x t"
  shows "length (u_res t) < length (u_res e)"
proof (rule uless_seq)
  show "useq (uputc fd (of_char c)) (uprintf fd fmt args) e = UOk x t"
    using assms by (subst (asm) uprintf.simps(2)) simp
  show "length (u_res t) < length (u_res e)" if "uputc fd (of_char c) e = UOk y t" for y t
    using that uint_of_less [of "C_write fd [of_char c]" e]
    by (cases "uint_of (C_write fd [of_char c]) e") (auto simp: uputc_def useq_run uwrite_def)
qed (rule ule_uprintf)

section \<open>What printf prints\<close>

text \<open>The numerals: no leading zeros, a minus sign in front.\<close>

definition unumeral :: "nat \<Rightarrow> nat \<Rightarrow> uchar list" where
  "unumeral base n = rev (map udigit (digs base n))"

definition udecimal :: "int \<Rightarrow> uchar list" where
  "udecimal n = (if n < 0 then 45 # unumeral 10 (nat (- n)) else unumeral 10 (nat n))"

text \<open>The text that a format with its arguments stands for, if the arguments fit the format.\<close>

fun uformat :: "string \<Rightarrow> carg list \<Rightarrow> uchar list option" where
  "uformat [] args = Some []"
| "uformat [c] args = Some (if c = CHR ''%'' then [] else [of_char c])"
| "uformat (c # d # fmt) args =
     (if c \<noteq> CHR ''%'' then map_option (Cons (of_char c)) (uformat (d # fmt) args)
      else if d = CHR ''%'' then map_option (Cons 37) (uformat fmt args)
      else if d \<in> {CHR ''d'', CHR ''x'', CHR ''p'', CHR ''c'', CHR ''s''} then
        (case args of
           ArgU x # args \<Rightarrow>
             if d = CHR ''s'' then None
             else map_option (append (if d = CHR ''d'' then udecimal (sint x) else if d = CHR ''c'' then [ucast x] else unumeral 16 (unat x)))
                    (uformat fmt args)
         | ArgS s # args \<Rightarrow>
             if d \<noteq> CHR ''s'' then None
             else (case s of
                 None \<Rightarrow> map_option (append (lit ''(null)'')) (uformat fmt args)
               | Some str \<Rightarrow> if 0 \<in> set str then map_option (append (cstr str)) (uformat fmt args) else None)
         | [] \<Rightarrow> None)
      else map_option (append [37, of_char d]) (uformat fmt args))"

lemma uprintint_loop_eq:
  assumes "2 \<le> unat base"
  shows "uprintint_loop base x buf = Some (buf @ map udigit (digs (unat base) (unat x)))"
proof (induction "unat x" arbitrary: x buf rule: less_induct)
  case less
  have b2: "\<not> base < 2" using assms by (simp add: word_less_nat_alt)
  have dm: "unat (x div base) = unat x div unat base" "unat (x mod base) = unat x mod unat base"
    by (simp_all add: unat_div_distrib unat_mod_distrib)
  show ?case
  proof (cases "x div base = 0")
    case True
    then have "unat x div unat base = 0" using dm by (metis unat_0)
    with True b2 assms dm show ?thesis
      by (simp add: uprintint_loop.simps [of base x] digs.simps [of "unat base" "unat x"])
  next
    case False
    then have nz: "unat x div unat base \<noteq> 0" using dm by (metis unat_0_iff)
    then have "unat x \<noteq> 0" by (cases "unat x = 0") auto
    then have "unat (x div base) < unat x" using dm assms by simp
    from less [OF this] False b2 nz assms dm show ?thesis
      by (simp add: uprintint_loop.simps [of base x] digs.simps [of "unat base" "unat x"])
  qed
qed

lemma putting_putting [simp]: "putting fd cs (putting fd bs e) = putting fd (bs @ cs) e"
  by (simp add: putting_def add.commute)

lemma putting_nil [simp]: "putting fd [] e = e"
  by (simp add: putting_def)

lemma putting_res [simp]: "u_res (putting fd bs e) = drop (length bs) (u_res e)"
  by (simp add: putting_def)

lemma uputc_run: "n < length (u_res e) \<Longrightarrow> uputc fd b e = UOk () (putting fd [b] e)"
  using uputs_run [of "[b]" e fd] by (cases "uputc fd b e") (fastforce simp: useq_run Suc_le_eq)+

lemma uprintint_run:
  assumes "2 \<le> unat base" "bs = (if sg then udecimal (sint x) else unumeral (unat base) (unat x))"
    and "sg \<longrightarrow> base = 10" "length bs \<le> 16" "length bs \<le> length (u_res e)"
  shows "uprintint fd x base sg e = UOk () (putting fd bs e)"
proof -
  define neg where "neg = (sg \<and> sint x < 0)"
  define y where "y = (if neg then - x else x)"
  define ds where "ds = map udigit (digs (unat base) (unat y))"
  have "nat (- sint x) = unat (- x)" if neg
    using that unat_abs_sint [of x] by (simp add: neg_def nat_eq_iff)
  moreover have "nat (sint x) = unat x" if "sg" "\<not> neg"
    using that unat_abs_sint [of x] by (simp add: neg_def nat_eq_iff)
  ultimately have bs: "bs = rev (if neg then ds @ [45] else ds)"
    using assms(2,3) by (auto simp: udecimal_def unumeral_def ds_def y_def neg_def)
  have "uprintint fd x base sg e = (if length (rev bs) > 16 then uundef else uputs fd bs) e"
    using uprintint_loop_eq [OF assms(1), of y "[]"] unfolding uprintint_def Let_def bs
    by (simp add: neg_def [symmetric] y_def [symmetric] ds_def [symmetric])
  then show ?thesis using assms(4,5) by (simp add: uputs_run)
qed

lemma length_unumeral: "2 \<le> b \<Longrightarrow> n < b ^ k \<Longrightarrow> 0 < k \<Longrightarrow> length (unumeral b n) \<le> k"
  by (simp add: unumeral_def length_digs)

lemma length_udecimal: "length (udecimal (sint (x :: uint))) \<le> 11"
proof -
  have "nat \<bar>sint x\<bar> < 10 ^ 10" using sint_greater_eq [of x] sint_less [of x] by simp
  then have "length (unumeral 10 (nat \<bar>sint x\<bar>)) \<le> 10" by (rule length_unumeral [rotated]) simp_all
  then show ?thesis by (simp add: udecimal_def abs_if split: if_splits)
qed

lemma length_uhex: "length (unumeral 16 (unat (x :: uint))) \<le> 8"
  using unat_less_32 [of x] by (intro length_unumeral) simp_all

lemmas uprintint_runs =
  uprintint_run [of 10 _ True, simplified, OF refl order_trans [OF length_udecimal]]
  uprintint_run [of 16 _ False, simplified, OF refl order_trans [OF length_uhex]]

lemma then_putting:
  assumes "length (a @ b) \<le> length (u_res e)" "m e = UOk x (putting fd a e)"
    and "\<And>t. length b \<le> length (u_res t) \<Longrightarrow> k t = UOk () (putting fd b t)"
  shows "useq m k e = UOk () (putting fd (a @ b) e)"
  using assms by (simp add: useq_run)

lemma uprintf_conversion:
  assumes "uformat (CHR ''%'' # d # fmt) args = Some bs" "length bs \<le> length (u_res e)"
    and ih: "\<And>args bs e. uformat fmt args = Some bs \<Longrightarrow> length bs \<le> length (u_res e) \<Longrightarrow>
      uprintf fd fmt args e = UOk () (putting fd bs e)"
  shows "uprintf fd (CHR ''%'' # d # fmt) args e = UOk () (putting fd bs e)"
proof (cases "d \<in> {CHR ''d'', CHR ''x'', CHR ''p'', CHR ''c'', CHR ''s''}")
  case False
  then obtain cs where cs: "uformat fmt args = Some cs" "bs = (if d = CHR ''%'' then [37] else [37, of_char d]) @ cs"
    using assms(1) by (auto split: if_splits)
  have "useq (uputc fd 37) (uprintf fd fmt args) e = UOk () (putting fd ([37] @ cs) e)" if "d = CHR ''%''"
    using that assms(2) cs by (intro then_putting ih) (auto simp: Suc_le_eq intro: uputc_run)
  moreover have "useq (uputc fd 37) (useq (uputc fd (of_char d)) (uprintf fd fmt args)) e
      = UOk () (putting fd ([37] @ [of_char d] @ cs) e)" if "d \<noteq> CHR ''%''"
    using that assms(2) cs by (intro then_putting ih) (auto simp: Suc_le_eq intro: uputc_run)
  ultimately show ?thesis using False cs by (subst uprintf.simps(2)) (simp del: uprintf.simps)
next
  case True
  then obtain a args' where args: "args = a # args'" using assms(1) by (cases args) auto
  show ?thesis
  proof (cases a)
    case (ArgU x)
    define t where "t = (if d = CHR ''d'' then udecimal (sint x) else if d = CHR ''c'' then [ucast x] else unumeral 16 (unat x))"
    have "d \<noteq> CHR ''s''" "d \<noteq> CHR ''%''" using assms(1) True unfolding args ArgU by auto
    then obtain cs where cs: "uformat fmt args' = Some cs" "bs = t @ cs"
      using assms(1) True unfolding args ArgU uformat.simps(3) t_def by auto
    consider (d) "d = CHR ''d''" | (x) "d = CHR ''x''" | (p) "d = CHR ''p''" | (c) "d = CHR ''c''"
      using True \<open>d \<noteq> CHR ''s''\<close> by blast
    note conv = this
    have len: "length t + length cs \<le> length (u_res e)" using assms(2) cs by simp
    have "useq (if d = CHR ''d'' then uprintint fd x 10 True else if d = CHR ''c'' then uputc fd (ucast x)
          else uprintint fd x 16 False) (uprintf fd fmt args') e = UOk () (putting fd bs e)"
      unfolding cs(2) using len cs(1) by (intro then_putting ih) (auto simp: t_def uprintint_runs Suc_le_eq intro: uputc_run)
    then show ?thesis unfolding args ArgU
      by (cases rule: conv) (subst uprintf.simps(2), simp del: uprintf.simps)+
  next
    case (ArgS s)
    define t where "t = (case s of None \<Rightarrow> lit ''(null)'' | Some str \<Rightarrow> cstr str)"
    obtain cs where cs: "uformat fmt args' = Some cs" "bs = t @ cs" "d = CHR ''s''" "\<forall>str. s = Some str \<longrightarrow> 0 \<in> set str"
      using assms(1) True unfolding args ArgS t_def by (auto split: if_splits option.splits)
    have "useq (uputs fd t) (uprintf fd fmt args') e = UOk () (putting fd bs e)"
      unfolding cs(2) using assms(2) cs by (intro then_putting ih) (auto simp: uputs_run)
    then show ?thesis using cs unfolding args ArgS
      by (subst uprintf.simps(2)) (cases s; simp add: t_def del: uprintf.simps)
  qed
qed

lemma uprintf_run:
  "uformat fmt args = Some bs \<Longrightarrow> length bs \<le> length (u_res e) \<Longrightarrow> uprintf fd fmt args e = UOk () (putting fd bs e)"
proof (induction fmt arbitrary: args bs e rule: length_induct)
  case (1 fmt)
  show ?case
  proof (cases fmt)
    case (Cons c f)
    show ?thesis
    proof (cases "c = CHR ''%''")
      case False
      then obtain cs where cs: "uformat f args = Some cs" "bs = [of_char c] @ cs"
        using "1.prems"(1) unfolding Cons by (cases f) auto
      have "useq (uputc fd (of_char c)) (uprintf fd f args) e = UOk () (putting fd bs e)"
        unfolding cs(2) using "1.IH" "1.prems"(2) cs by (intro then_putting) (auto simp: Cons Suc_le_eq intro: uputc_run)
      then show ?thesis using False unfolding Cons by (subst uprintf.simps(2)) simp
    next
      case True
      then show ?thesis using "1.prems" uprintf_conversion "1.IH" unfolding Cons
        by (cases f) (auto simp del: uprintf.simps(2) uformat.simps(3) simp: uprintf.simps(2) [of _ _ "[]"])
    qed
  qed (use "1.prems" in simp)
qed

text \<open>
  \<^verbatim>\<open>printf\<close> prints the text that its format and arguments stand for: with arguments that fit the format and a result for every
  write, it makes exactly one \<^verbatim>\<open>write\<close> of one byte per byte of the text, in order, and returns.  The numbers come in
  decimal with a sign or in hexadecimal, without leading zeros.
\<close>

theorem uprintf_formats:
  assumes "uformat fmt args = Some bs" and "length bs \<le> length (u_res e)"
  shows "uprintf fd fmt args e
    = UOk () \<lparr>u_res = drop (length bs) (u_res e), u_calls = u_calls e @ map (\<lambda>b. C_write fd [b]) bs\<rparr>"
  using uprintf_run [OF assms] by (simp add: putting_def)

theorem uprintf_formats_witness:
  "uprintf 2 ''%d:%x %s%%'' [ArgU (- 40), ArgU 255, ArgS (Some (lit ''ok'' @ [0]))] \<lparr>u_res = replicate 10 (1, []), u_calls = []\<rparr>
   = UOk () \<lparr>u_res = [], u_calls = map (\<lambda>b. C_write 2 [b]) (lit ''-40:FF ok%'')\<rparr>"
proof -
  have "uformat ''%d:%x %s%%'' [ArgU (- 40), ArgU 255, ArgS (Some (lit ''ok'' @ [0]))] = Some (lit ''-40:FF ok%'')"
    by (simp add: udecimal_def unumeral_def digs.simps udigit_def lit_def cstr_def)
  then show ?thesis
    using uprintf_formats [of "''%d:%x %s%%''" "[ArgU (- 40), ArgU 255, ArgS (Some (lit ''ok'' @ [0]))]" "lit ''-40:FF ok%''"
        "\<lparr>u_res = replicate 10 (1, []), u_calls = []\<rparr>" 2]
    by (simp add: lit_def)
qed

end
