(* ===== verification/Sh.thy ===== *)
theory Sh
  imports Uprintf
begin

text \<open>
  The shell (\<^verbatim>\<open>sh.c\<close>): the recursive descent parser, which works on positions in the line, \<^verbatim>\<open>nulterminate\<close>,
  \<^verbatim>\<open>runcmd\<close>, the history file and the main loop.
\<close>

section \<open>Commands\<close>

text \<open>
  The words of a command are pairs of a start and an end in the line while it is parsed, and strings afterwards.
\<close>

datatype 'w cmd =
    EXEC "'w list"
  | REDIR "'w cmd" 'w int int
  | PIPE "'w cmd" "'w cmd"
  | LIST "'w cmd" "'w cmd"
  | BACK "'w cmd"

definition MAXARGS :: nat where "MAXARGS = 10"
definition MAX_CMD_LEN :: nat where "MAX_CMD_LEN = 100"

definition SH_RDONLY :: int where "SH_RDONLY = 0"
definition SH_WRONLY :: int where "SH_WRONLY = 1"
definition SH_RDWR :: int where "SH_RDWR = 2"
definition SH_CREATE :: int where "SH_CREATE = 0x200"

section \<open>Tokens\<close>

definition whitespace :: "uchar list" where
  "whitespace = [32, 9, 13, 10, 11]"

definition symbols :: "uchar list" where
  "symbols = lit ''<|>&;()''"

text \<open>\<^verbatim>\<open>strchr\<close> in a string that ends with a NUL: the NUL itself is not found.\<close>

definition in_str :: "uchar list \<Rightarrow> uchar \<Rightarrow> bool" where
  "in_str cs c = (case ustrchr (cs @ [0]) c of Some (Some _) \<Rightarrow> True | _ \<Rightarrow> False)"

function skip_white :: "uchar list \<Rightarrow> nat \<Rightarrow> nat \<Rightarrow> nat" where
  "skip_white buf es s = (if s < es \<and> in_str whitespace (buf ! s) then skip_white buf es (Suc s) else s)"
  by pat_completeness auto
termination by (relation "measure (\<lambda>(buf, es, s). es - s)") auto

declare skip_white.simps [simp del]

function skip_word :: "uchar list \<Rightarrow> nat \<Rightarrow> nat \<Rightarrow> nat" where
  "skip_word buf es s =
     (if s < es \<and> \<not> in_str whitespace (buf ! s) \<and> \<not> in_str symbols (buf ! s) then skip_word buf es (Suc s) else s)"
  by pat_completeness auto
termination by (relation "measure (\<lambda>(buf, es, s). es - s)") auto

declare skip_word.simps [simp del]

text \<open>The token, its start and its end, and the new position.\<close>

definition gettoken :: "uchar list \<Rightarrow> nat \<Rightarrow> nat \<Rightarrow> uchar \<times> nat \<times> nat \<times> nat" where
  "gettoken buf es s =
     (let q = skip_white buf es s; c = buf ! q;
          (ret, eq) =
            (if c = 0 then (0, q)
             else if c \<in> {of_char CHR ''|'', of_char CHR ''('', of_char CHR '')'', of_char CHR '';'',
                         of_char CHR ''&'', of_char CHR ''<''} then (c, Suc q)
             else if c = of_char CHR ''>'' then
               (if buf ! Suc q = of_char CHR ''>'' then (of_char CHR ''+'', Suc (Suc q)) else (c, Suc q))
             else (of_char CHR ''a'', skip_word buf es q))
      in (ret, q, eq, skip_white buf es eq))"

definition peek :: "uchar list \<Rightarrow> nat \<Rightarrow> nat \<Rightarrow> uchar list \<Rightarrow> bool \<times> nat" where
  "peek buf es s toks =
     (let s = skip_white buf es s in (buf ! s \<noteq> 0 \<and> in_str toks (buf ! s), s))"

section \<open>The parser\<close>

text \<open>
  A parser gives a command and the new position, or the message of a panic.  The recursion goes by fuel; no value
  means that it has run out.
\<close>

datatype sherror = ShPanic string | Leftovers nat

type_synonym span = "nat \<times> nat"
type_synonym 'a parse = "(sherror + 'a \<times> nat) option"

definition pbind :: "'a parse \<Rightarrow> ('a \<Rightarrow> nat \<Rightarrow> 'b parse) \<Rightarrow> 'b parse" where
  "pbind m f = (case m of None \<Rightarrow> None | Some (Inl x) \<Rightarrow> Some (Inl x) | Some (Inr (c, s)) \<Rightarrow> f c s)"

definition ppanic :: "string \<Rightarrow> 'a parse" where
  "ppanic msg = Some (Inl (ShPanic msg))"

definition redircmd :: "'w cmd \<Rightarrow> uchar \<Rightarrow> 'w \<Rightarrow> 'w cmd" where
  "redircmd c tok w =
     (if tok = of_char CHR ''<'' then REDIR c w SH_RDONLY 0
      else if tok = of_char CHR ''>'' \<or> tok = of_char CHR ''+'' then REDIR c w (or SH_WRONLY SH_CREATE) 1
      else c)"

fun parseredirs :: "nat \<Rightarrow> uchar list \<Rightarrow> nat \<Rightarrow> span cmd \<Rightarrow> nat \<Rightarrow> span cmd parse" where
  "parseredirs 0 buf es c s = None"
| "parseredirs (Suc f) buf es c s =
     (let (more, s) = peek buf es s (lit ''<>'') in
      if \<not> more then Some (Inr (c, s))
      else
        let (tok, _, _, s) = gettoken buf es s; (t, q, eq, s) = gettoken buf es s in
        if t \<noteq> of_char CHR ''a'' then ppanic ''missing file for redirection''
        else parseredirs f buf es (redircmd c tok (q, eq)) s)"

text \<open>The command of the arguments is the innermost one; the redirections around it are there already.\<close>

fun add_arg :: "'w cmd \<Rightarrow> 'w \<Rightarrow> 'w cmd" where
  "add_arg (EXEC ws) w = EXEC (ws @ [w])"
| "add_arg (REDIR c v m fd) w = REDIR (add_arg c w) v m fd"
| "add_arg c w = c"

fun parseargs :: "nat \<Rightarrow> uchar list \<Rightarrow> nat \<Rightarrow> span cmd \<Rightarrow> nat \<Rightarrow> nat \<Rightarrow> span cmd parse" where
  "parseargs 0 buf es ret argc s = None"
| "parseargs (Suc f) buf es ret argc s =
     (let (stop, s) = peek buf es s (lit ''|)&;'') in
      if stop then Some (Inr (ret, s))
      else
        let (tok, q, eq, s) = gettoken buf es s in
        if tok = 0 then Some (Inr (ret, s))
        else if tok \<noteq> of_char CHR ''a'' then ppanic ''syntax''
        else if Suc argc \<ge> MAXARGS then ppanic ''too many args''
        else pbind (parseredirs f buf es (add_arg ret (q, eq)) s) (\<lambda>ret s. parseargs f buf es ret (Suc argc) s))"

fun parseback :: "nat \<Rightarrow> uchar list \<Rightarrow> nat \<Rightarrow> span cmd \<Rightarrow> nat \<Rightarrow> span cmd parse" where
  "parseback 0 buf es c s = None"
| "parseback (Suc f) buf es c s =
     (let (more, s) = peek buf es s (lit ''&'') in
      if \<not> more then Some (Inr (c, s))
      else let (_, _, _, s) = gettoken buf es s in parseback f buf es (BACK c) s)"

text \<open>
  The four routines that call each other take the routines that they call as an argument, with the fuel that is left;
  \<open>parser\<close> ties the knot.
\<close>

datatype routine = R_line | R_pipe | R_exec | R_block

type_synonym parsers = "routine \<Rightarrow> uchar list \<Rightarrow> nat \<Rightarrow> nat \<Rightarrow> span cmd parse"

definition parseline :: "parsers \<Rightarrow> nat \<Rightarrow> uchar list \<Rightarrow> nat \<Rightarrow> nat \<Rightarrow> span cmd parse" where
  "parseline rec f buf es s =
     pbind (rec R_pipe buf es s) (\<lambda>c s.
     pbind (parseback f buf es c s) (\<lambda>c s.
       let (more, s) = peek buf es s (lit '';'') in
       if more then
         let (_, _, _, s) = gettoken buf es s in
         pbind (rec R_line buf es s) (\<lambda>d s. Some (Inr (LIST c d, s)))
       else Some (Inr (c, s))))"

definition parsepipe :: "parsers \<Rightarrow> nat \<Rightarrow> uchar list \<Rightarrow> nat \<Rightarrow> nat \<Rightarrow> span cmd parse" where
  "parsepipe rec f buf es s =
     pbind (rec R_exec buf es s) (\<lambda>c s.
       let (more, s) = peek buf es s (lit ''|'') in
       if more then
         let (_, _, _, s) = gettoken buf es s in
         pbind (rec R_pipe buf es s) (\<lambda>d s. Some (Inr (PIPE c d, s)))
       else Some (Inr (c, s)))"

definition parseexec :: "parsers \<Rightarrow> nat \<Rightarrow> uchar list \<Rightarrow> nat \<Rightarrow> nat \<Rightarrow> span cmd parse" where
  "parseexec rec f buf es s =
     (let (block, s) = peek buf es s (lit ''('') in
      if block then rec R_block buf es s
      else
        pbind (parseredirs f buf es (EXEC []) s) (\<lambda>ret s. parseargs f buf es ret 0 s))"

definition parseblock :: "parsers \<Rightarrow> nat \<Rightarrow> uchar list \<Rightarrow> nat \<Rightarrow> nat \<Rightarrow> span cmd parse" where
  "parseblock rec f buf es s =
     (let (block, s) = peek buf es s (lit ''('') in
      if \<not> block then ppanic ''parseblock''
      else
        let (_, _, _, s) = gettoken buf es s in
        pbind (rec R_line buf es s) (\<lambda>c s.
          let (close, s) = peek buf es s (lit '')'') in
          if \<not> close then ppanic ''syntax - missing )''
          else
            let (_, _, _, s) = gettoken buf es s in parseredirs f buf es c s))"

primrec parser :: "nat \<Rightarrow> parsers" where
  "parser 0 = (\<lambda>r buf es s. None)"
| "parser (Suc f) = (\<lambda>r. case r of
     R_line \<Rightarrow> parseline (parser f) f
   | R_pipe \<Rightarrow> parsepipe (parser f) f
   | R_exec \<Rightarrow> parseexec (parser f) f
   | R_block \<Rightarrow> parseblock (parser f) f)"

text \<open>A NUL at the end of every word.\<close>

fun nulterminate :: "span cmd \<Rightarrow> uchar list \<Rightarrow> uchar list" where
  "nulterminate (EXEC ws) buf = foldl (\<lambda>b w. b[snd w := 0]) buf ws"
| "nulterminate (REDIR c w m fd) buf = (nulterminate c buf)[snd w := 0]"
| "nulterminate (PIPE c d) buf = nulterminate d (nulterminate c buf)"
| "nulterminate (LIST c d) buf = nulterminate d (nulterminate c buf)"
| "nulterminate (BACK c) buf = nulterminate c buf"

definition parse_fuel :: "nat \<Rightarrow> nat" where
  "parse_fuel n = 4 * n + 8"

text \<open>The string of a word is what its pointer denotes in the line.\<close>

definition cmd_strings :: "uchar list \<Rightarrow> span cmd \<Rightarrow> uchar list cmd" where
  "cmd_strings buf c = map_cmd (\<lambda>(q, eq). cstr (drop q buf)) c"

definition parsecmd :: "uchar list \<Rightarrow> (sherror + uchar list cmd) option" where
  "parsecmd buf = (case ustrlen buf of None \<Rightarrow> None | Some es \<Rightarrow>
     (case pbind (parser (parse_fuel es) R_line buf es 0) (\<lambda>c s.
        let (_, s) = peek buf es s [] in
        if s \<noteq> es then Some (Inl (Leftovers s)) else Some (Inr (c, s))) of
       None \<Rightarrow> None
     | Some (Inl x) \<Rightarrow> Some (Inl x)
     | Some (Inr (c, s)) \<Rightarrow> Some (Inr (cmd_strings (nulterminate c buf) c))))"


section \<open>Running commands\<close>

definition sh_panic :: "string \<Rightarrow> 'a U" where
  "sh_panic msg = useq (uprintf 2 (''%s'' @ [CHR 0x0A]) [ArgS (Some (lit msg @ [0]))]) uexit"

definition fork1 :: "int U" where
  "fork1 = ubind (uint_of C_fork) (\<lambda>pid. if pid = - 1 then sh_panic ''fork'' else uret pid)"

definition sh_path :: "uchar list list" where
  "sh_path = [lit ''/'', lit ''/bin'']"

text \<open>The name is built in an array of 128 bytes.\<close>

definition path_file :: "uchar list \<Rightarrow> uchar list \<Rightarrow> uchar list option" where
  "path_file dir name =
     (let b = dir @ (if dir \<noteq> [] \<and> last dir \<noteq> of_char CHR ''/'' then lit ''/'' else []) @ name
      in if length b < 128 then Some b else None)"

fun exec_path :: "uchar list list \<Rightarrow> uchar list list \<Rightarrow> unit U" where
  "exec_path [] argv = uret ()"
| "exec_path (d # ds) argv =
     ubind (uopt (path_file d (hd argv))) (\<lambda>b. useq (uexec b argv) (exec_path ds argv))"

definition exec_failed :: "uchar list \<Rightarrow> unit U" where
  "exec_failed name = uprintf 2 (''exec %s failed'' @ [CHR 0x0A]) [ArgS (Some (name @ [0]))]"

primrec runcmd :: "uchar list cmd \<Rightarrow> unit U" where
  "runcmd (EXEC argv) =
     (if argv = [] then uexit
      else if in_str (hd argv) (of_char CHR ''/'') then
        useq (uexec (hd argv) argv) (useq (exec_failed (hd argv)) uexit)
      else useq (exec_path sh_path argv) (useq (exec_failed (hd argv)) uexit))"
| "runcmd (REDIR c file mode fd) =
     useq (uint_of (C_close fd))
    (ubind (uint_of (C_open file mode)) (\<lambda>r.
     if r < 0 then
       useq (uprintf 2 (''open %s failed'' @ [CHR 0x0A]) [ArgS (Some (file @ [0]))]) uexit
     else useq (runcmd c) uexit))"
| "runcmd (LIST l r) =
     ubind fork1 (\<lambda>pid.
     useq (uwhen (pid = 0) (runcmd l))
    (useq (uint_of C_wait)
    (useq (runcmd r) uexit)))"
| "runcmd (PIPE l r) =
     ubind upipe (\<lambda>(res, p0, p1).
     if res < 0 then sh_panic ''pipe''
     else
       ubind fork1 (\<lambda>pid.
       useq (uwhen (pid = 0)
         (useq (uint_of (C_close 1))
         (useq (uint_of (C_dup p1))
         (useq (uint_of (C_close p0))
         (useq (uint_of (C_close p1))
               (runcmd l))))))
      (ubind fork1 (\<lambda>pid.
       useq (uwhen (pid = 0)
         (useq (uint_of (C_close 0))
         (useq (uint_of (C_dup p0))
         (useq (uint_of (C_close p0))
         (useq (uint_of (C_close p1))
               (runcmd r))))))
      (useq (uint_of (C_close p0))
      (useq (uint_of (C_close p1))
      (useq (uint_of C_wait)
      (useq (uint_of C_wait) uexit))))))))"
| "runcmd (BACK c) =
     ubind fork1 (\<lambda>pid. useq (uwhen (pid = 0) (runcmd c)) uexit)"

section \<open>The history file\<close>

definition HISTORY_FILE :: "uchar list" where
  "HISTORY_FILE = lit ''/.history''"

text \<open>The line being read and the last whole line, each cut to \<^verbatim>\<open>MAX_CMD_LEN\<close> bytes.\<close>

function hist_scan :: "int \<Rightarrow> uchar list \<Rightarrow> uchar list \<Rightarrow> (uchar list \<times> uchar list) U" where
  "hist_scan fd cur prev e =
     ubind (uread fd 1) (\<lambda>(n, bs) t.
       if n > 0 then
         if hd bs = 10 then hist_scan fd [] cur t
         else hist_scan fd (if length cur < MAX_CMD_LEN then cur @ [hd bs] else cur) prev t
       else uret (cur, prev) t) e"
  by pat_completeness auto
termination
  by (relation "measure (\<lambda>(fd, cur, prev, e). length (u_res e))") (auto dest: uread_less)

declare hist_scan.simps [simp del]

function seek_end :: "int \<Rightarrow> unit U" where
  "seek_end fd e =
     ubind (uread fd 1) (\<lambda>(n, bs) t. if n > 0 then seek_end fd t else uret () t) e"
  by pat_completeness auto
termination
  by (relation "measure (\<lambda>(fd, e). length (u_res e))") (auto dest: uread_less)

declare seek_end.simps [simp del]

text \<open>The line without its newline, and its length.\<close>

definition chop_line :: "uchar list \<Rightarrow> nat \<Rightarrow> uchar list \<times> nat" where
  "chop_line buf len = (if len > 0 \<and> buf ! (len - 1) = 10 then (buf[len - 1 := 0], len - 1) else (buf, len))"

definition same_as_last :: "uchar list \<Rightarrow> nat \<Rightarrow> bool U" where
  "same_as_last buf len =
     ubind (uint_of (C_open HISTORY_FILE SH_RDONLY)) (\<lambda>fd.
     if fd \<ge> 0 then
       ubind (hist_scan fd [] []) (\<lambda>(cur, prev).
         let prev = (if cur \<noteq> [] then cur else prev) in
         useq (uint_of (C_close fd))
              (uret (length prev = len \<and> len > 0 \<and> prev = take len buf)))
     else uret False)"

definition append_line :: "uchar list \<Rightarrow> nat \<Rightarrow> unit U" where
  "append_line buf len =
     ubind (uint_of (C_open HISTORY_FILE (or SH_CREATE SH_RDWR))) (\<lambda>fd.
     uwhen (fd \<ge> 0)
       (useq (seek_end fd)
       (useq (uwhen (len > 0) (useq (uwrite fd (take len buf)) (uret ())))
       (useq (uwrite fd [10])
       (useq (uint_of (C_close fd))
             (uret ()))))))"

definition append_history_file :: "uchar list \<Rightarrow> uchar list U" where
  "append_history_file buf =
     ubind (uopt (ustrlen buf)) (\<lambda>len.
     let (buf, len) = chop_line buf len in
     ubind (uopt (ustrchr buf (of_char CHR ''/''))) (\<lambda>slash.
     ubind (uopt (ustrcmp (case slash of Some i \<Rightarrow> drop (Suc i) buf | None \<Rightarrow> buf) (lit ''history'' @ [0]))) (\<lambda>r.
     if r = 0 then uret buf
     else
       ubind (same_as_last buf len) (\<lambda>same.
       useq (uwhen (\<not> same) (append_line buf len)) (uret buf)))))"

section \<open>The main loop\<close>

definition getcmd :: "uchar list \<Rightarrow> nat \<Rightarrow> (int \<times> uchar list) U" where
  "getcmd buf nbuf =
     useq (uprintf 2 ''$ '' [])
    (ubind (uopt (umemset buf 0 nbuf)) (\<lambda>buf.
     ubind (gets buf (int nbuf)) (\<lambda>buf.
     uret (if buf ! 0 = 0 then - 1 else 0, buf))))"

function open_console :: "unit U" where
  "open_console e =
     ubind (uint_of (C_open (lit ''console'') SH_RDWR)) (\<lambda>fd t.
       if fd \<ge> 3 then useq (uint_of (C_close fd)) (uret ()) t
       else if fd \<ge> 0 then open_console t
       else uret () t) e"
  by pat_completeness auto
termination
  by (relation "measure (\<lambda>e. length (u_res e))") (auto dest: uint_of_less)

declare open_console.simps [simp del]

definition runline :: "uchar list \<Rightarrow> unit U" where
  "runline buf = (case parsecmd buf of
     None \<Rightarrow> uundef
   | Some (Inl (ShPanic msg)) \<Rightarrow> sh_panic msg
   | Some (Inl (Leftovers s)) \<Rightarrow>
       useq (uprintf 2 (''leftovers: %s'' @ [CHR 0x0A]) [ArgS (Some (drop s buf))]) (sh_panic ''syntax'')
   | Some (Inr c) \<Rightarrow> runcmd c)"

text \<open>The body of the loop, from a line to the buffer that it leaves behind.\<close>

definition sh_line :: "uchar list \<Rightarrow> uchar list U" where
  "sh_line buf =
     ubind (append_history_file buf) (\<lambda>buf.
     if buf ! 0 = of_char CHR ''c'' \<and> buf ! 1 = of_char CHR ''d'' \<and> buf ! 2 = of_char CHR '' '' then
       ubind (uopt (ustrlen buf)) (\<lambda>n.
       let buf = buf[n - 1 := 0] in
       ubind (uint_of (C_chdir (cstr (drop 3 buf)))) (\<lambda>r.
       useq (uwhen (r < 0) (uprintf 2 (''cannot cd %s'' @ [CHR 0x0A]) [ArgS (Some (drop 3 buf))]))
            (uret buf)))
     else
       ubind fork1 (\<lambda>pid.
       useq (uwhen (pid = 0) (runline buf))
      (useq (uint_of C_wait) (uret buf))))"


section \<open>The loop over the lines\<close>

lemma ule_sh_panic [ukeep]: "ule (sh_panic msg)"
  unfolding sh_panic_def by (intro ukeep)

lemma ule_fork1 [ukeep]: "ule fork1"
  unfolding fork1_def by (intro ukeep)

lemma ule_uexec [ukeep]: "ule (uexec path argv)"
  unfolding uexec_def by (intro ukeep)

lemma ule_exec_path [ukeep]: "ule (exec_path ds argv)"
  by (induction ds) (simp_all add: ukeep)

lemma ule_upipe [ukeep]: "ule upipe"
  unfolding upipe_def by (intro ukeep)

lemma ule_runcmd [ukeep]: "ule (runcmd c)"
  by (induction c; simp only: runcmd.simps exec_failed_def) (intro ukeep; assumption)+

lemma hist_scan_le: "hist_scan fd cur prev e = UOk s t \<Longrightarrow> length (u_res t) \<le> length (u_res e)"
proof (induction fd cur prev e rule: hist_scan.induct)
  case (1 fd cur prev e)
  obtain n bs u where r: "uread fd 1 e = UOk (n, bs) u"
    using "1.prems" by (subst (asm) hist_scan.simps) (auto simp: ubind_def split: uout.splits)
  have "length (u_res u) < length (u_res e)" by (rule uread_less [OF r])
  moreover have "length (u_res t) \<le> length (u_res u)"
    using "1.prems" "1.IH" [OF r refl] r
    by (subst (asm) hist_scan.simps) (auto simp: ubind_def split: if_splits)
  ultimately show ?case by simp
qed

lemma seek_end_le: "seek_end fd e = UOk s t \<Longrightarrow> length (u_res t) \<le> length (u_res e)"
proof (induction fd e rule: seek_end.induct)
  case (1 fd e)
  obtain n bs u where r: "uread fd 1 e = UOk (n, bs) u"
    using "1.prems" by (subst (asm) seek_end.simps) (auto simp: ubind_def split: uout.splits)
  have "length (u_res u) < length (u_res e)" by (rule uread_less [OF r])
  moreover have "length (u_res t) \<le> length (u_res u)"
    using "1.prems" "1.IH" [OF r refl] r
    by (subst (asm) seek_end.simps) (auto simp: ubind_def split: if_splits)
  ultimately show ?case by simp
qed

lemma ule_history [ukeep]: "ule (hist_scan fd cur prev)" "ule (seek_end fd)"
  by (simp_all add: ukeeps_def hist_scan_le seek_end_le)

lemma ule_append_history_file [ukeep]: "ule (append_history_file buf)"
  unfolding append_history_file_def same_as_last_def append_line_def Let_def by (intro ukeep)

lemma ule_sherror: "(\<And>m. ule (f m)) \<Longrightarrow> (\<And>n. ule (g n)) \<Longrightarrow> ule (case x of ShPanic m \<Rightarrow> f m | Leftovers n \<Rightarrow> g n)"
  by (cases x) simp_all

lemma ule_runline [ukeep]: "ule (runline buf)"
  unfolding runline_def by (intro ukeep ule_sherror)

lemma ule_sh_line [ukeep]: "ule (sh_line buf)"
  unfolding sh_line_def Let_def by (intro ukeep)

lemma sh_line_le: "sh_line buf e = UOk r t \<Longrightarrow> length (u_res t) \<le> length (u_res e)"
  using ule_sh_line unfolding ukeeps_def by blast

lemma getcmd_less: "getcmd buf n e = UOk r t \<Longrightarrow> length (u_res t) < length (u_res e)"
  unfolding getcmd_def by (erule uless_seq [rotated 2]) (erule uprintf_less [rotated], simp, intro ukeep)

function sh_loop :: "uchar list \<Rightarrow> unit U" where
  "sh_loop buf e =
     ubind (getcmd buf 100) (\<lambda>(r, buf) t.
       if r < 0 then uexit t else ubind (sh_line buf) (\<lambda>buf u. sh_loop buf u) t) e"
  by pat_completeness auto
termination
  by (relation "measure (\<lambda>(buf, e). length (u_res e))") (auto dest!: getcmd_less sh_line_le)

declare sh_loop.simps [simp del]

definition sh_main :: "unit U" where
  "sh_main = useq open_console (sh_loop (replicate 100 0))"

end
