(* ===== verification/Sh_Inv.thy ===== *)
theory Sh_Inv
  imports Sh "HOL-Library.Sublist"
begin

text \<open>
  The shell: that the parser returns on every line and keeps every word intact, that it undoes printing, and what the
  \<^verbatim>\<open>cd\<close> command does.
\<close>

section \<open>Positions\<close>

definition line_ok :: "uchar list \<Rightarrow> nat \<Rightarrow> bool" where
  "line_ok buf es \<longleftrightarrow> es < length buf \<and> buf ! es = 0 \<and> (\<forall>i < es. buf ! i \<noteq> 0)"

definition word_char :: "uchar \<Rightarrow> bool" where
  "word_char c \<longleftrightarrow> c \<noteq> 0 \<and> \<not> in_str whitespace c \<and> \<not> in_str symbols c"

definition words :: "uchar list \<Rightarrow> nat \<Rightarrow> span set" where
  "words buf es = {(q, eq). q < eq \<and> eq \<le> es \<and> (\<forall>i. q \<le> i \<and> i < eq \<longrightarrow> word_char (buf ! i)) \<and> \<not> word_char (buf ! eq)}"

lemma in_str_iff: "0 \<notin> set cs \<Longrightarrow> in_str cs c \<longleftrightarrow> c \<in> set cs"
  by (induction cs) (auto simp: in_str_def split: option.splits)

lemma whitespace_iff: "in_str whitespace c \<longleftrightarrow> c \<in> set whitespace"
  by (rule in_str_iff) (simp add: whitespace_def)

lemma symbols_iff: "in_str symbols c \<longleftrightarrow> c \<in> set symbols"
  by (rule in_str_iff) (simp add: symbols_def lit_def)

lemma in_str_lit: "in_str (lit cs) 0 \<longleftrightarrow> False"
  by (induction cs) (auto simp: in_str_def lit_def split: option.splits)

lemma skip_white_bounds:
  "s \<le> skip_white buf es s" "s \<le> es \<Longrightarrow> skip_white buf es s \<le> es"
  "skip_white buf es s < es \<Longrightarrow> \<not> in_str whitespace (buf ! skip_white buf es s)"
proof (induction buf es s rule: skip_white.induct)
  case (1 buf es s)
  note ih = "1.IH"
  let ?c = "s < es \<and> in_str whitespace (buf ! s)"
  have eq: "skip_white buf es s = (if ?c then skip_white buf es (Suc s) else s)" by (rule skip_white.simps)
  { case 1 show ?case using ih(1) eq by (cases ?c) auto }
  { case 2 then show ?case using ih(2) eq by (cases ?c) auto }
  { case 3 then show ?case using ih(3) eq by (cases ?c) auto }
qed

lemma skip_white_stop: "\<not> in_str whitespace (buf ! s) \<Longrightarrow> skip_white buf es s = s"
  by (subst skip_white.simps) simp

lemma skip_word_bounds:
  "s \<le> skip_word buf es s" "s \<le> es \<Longrightarrow> skip_word buf es s \<le> es"
  "s \<le> i \<Longrightarrow> i < skip_word buf es s \<Longrightarrow> i < es \<and> \<not> in_str whitespace (buf ! i) \<and> \<not> in_str symbols (buf ! i)"
  "skip_word buf es s < es \<Longrightarrow> in_str whitespace (buf ! skip_word buf es s) \<or> in_str symbols (buf ! skip_word buf es s)"
proof (induction buf es s rule: skip_word.induct)
  case (1 buf es s)
  note ih = "1.IH"
  let ?c = "s < es \<and> \<not> in_str whitespace (buf ! s) \<and> \<not> in_str symbols (buf ! s)"
  have eq: "skip_word buf es s = (if ?c then skip_word buf es (Suc s) else s)" by (rule skip_word.simps)
  { case 1 show ?case using ih(1) eq by (cases ?c) auto }
  { case 2 then show ?case using ih(2) eq by (cases ?c) auto }
  { case 3 then show ?case using ih(3) eq by (cases ?c; cases "i = s") auto }
  { case 4 then show ?case using ih(4) eq by (cases ?c) auto }
qed

text \<open>A token starts here.\<close>

definition tok_at :: "uchar list \<Rightarrow> nat \<Rightarrow> nat \<Rightarrow> bool" where
  "tok_at buf es s \<longleftrightarrow> s < es \<and> \<not> in_str whitespace (buf ! s)"

lemma gettoken_word:
  assumes "line_ok buf es" and "q < es" and "word_char (buf ! q)"
  shows "(q, skip_word buf es q) \<in> words buf es"
proof -
  let ?e = "skip_word buf es q"
  have "q < ?e" using assms skip_word_bounds(1) [of "Suc q" buf es]
    by (subst skip_word.simps) (auto simp: word_char_def)
  moreover have "?e \<le> es" using skip_word_bounds(2) assms by simp
  moreover have "word_char (buf ! i)" if "q \<le> i" "i < ?e" for i
    using skip_word_bounds(3) [OF that] assms(1) by (simp add: word_char_def line_ok_def)
  moreover have "\<not> word_char (buf ! ?e)"
    using skip_word_bounds(4) [of buf es q] calculation(2) assms(1)
    by (cases "?e = es") (auto simp: word_char_def line_ok_def)
  ultimately show ?thesis by (simp add: words_def)
qed

lemma gettoken_cases:
  assumes l: "line_ok buf es" and s: "s \<le> es" and t: "gettoken buf es s = (t, q, eq, s')"
  shows "s \<le> s' \<and> s' \<le> es \<and> (tok_at buf es s \<longrightarrow> s < s') \<and> (t \<noteq> 0 \<longrightarrow> s < s') \<and> (t = of_char CHR ''a'' \<longrightarrow> (q, eq) \<in> words buf es)"
proof -
  define p where "p = skip_white buf es s"
  have p: "s \<le> p" "p \<le> es" "p < es \<Longrightarrow> \<not> in_str whitespace (buf ! p)"
    using skip_white_bounds(1) [of s buf es] skip_white_bounds(2) [OF s, of buf] skip_white_bounds(3) [of buf es s] by (simp_all add: p_def)
  have q: "q = p" and s': "s' = skip_white buf es eq" using t by (auto simp: gettoken_def Let_def p_def split: prod.splits)
  have z: "buf ! p = 0 \<longleftrightarrow> p = es" using l p(2) by (auto simp: line_ok_def le_less)
  have eq: "p \<le> eq \<and> eq \<le> es \<and> (p < es \<longrightarrow> p < eq) \<and> (t \<noteq> 0 \<longrightarrow> p < es) \<and> (t = of_char CHR ''a'' \<longrightarrow> (p, eq) \<in> words buf es)"
  proof (cases "p = es")
    case True
    then show ?thesis using t z by (auto simp: gettoken_def Let_def p_def split: prod.splits)
  next
    case False
    then have lt: "p < es" using p by simp
    then have nz: "buf ! p \<noteq> 0" using z by simp
    have two: "Suc (Suc p) \<le> es" if "buf ! Suc p = of_char CHR ''>''"
      using that l lt by (cases "Suc p = es") (auto simp: line_ok_def)
    have w: "(p, skip_word buf es p) \<in> words buf es"
      if "buf ! p \<notin> set symbols"
      using gettoken_word [OF l lt] p(3) [OF lt] nz that by (simp add: word_char_def symbols_iff)
    show ?thesis
      using t lt nz two w
      by (auto simp: gettoken_def Let_def p_def [symmetric] symbols_def lit_def words_def split: prod.splits if_splits)
  qed
  have "tok_at buf es s \<longrightarrow> p = s" by (auto simp: tok_at_def p_def intro: skip_white_stop)
  then show ?thesis
    using eq p q s' skip_white_bounds(1) [of eq buf es] skip_white_bounds(2) [of eq es buf]
    by (auto simp: tok_at_def)
qed

lemma peek_cases:
  assumes l: "line_ok buf es" and s: "s \<le> es" and t: "peek buf es s toks = (b, s')"
  shows "s \<le> s' \<and> s' \<le> es \<and> (b \<longrightarrow> tok_at buf es s')"
  using t skip_white_bounds(1) [of s buf es] skip_white_bounds(2) [OF s, of buf] skip_white_bounds(3) [of buf es s] l
  by (auto simp: peek_def Let_def tok_at_def line_ok_def le_less)

section \<open>The parser returns\<close>

text \<open>The parser has returned; if with a command, then at a later position and with words of the line.\<close>

definition parsed :: "uchar list \<Rightarrow> nat \<Rightarrow> nat \<Rightarrow> span cmd parse \<Rightarrow> bool" where
  "parsed buf es s r \<longleftrightarrow> (\<exists>x. r = Some x \<and>
     (\<forall>c s'. x = Inr (c, s') \<longrightarrow> s \<le> s' \<and> s' \<le> es \<and> set_cmd c \<subseteq> words buf es))"

lemma parsed_ret: "s \<le> s' \<Longrightarrow> s' \<le> es \<Longrightarrow> set_cmd c \<subseteq> words buf es \<Longrightarrow> parsed buf es s (Some (Inr (c, s')))"
  by (simp add: parsed_def)

lemma parsed_panic: "parsed buf es s (ppanic msg)"
  by (simp add: parsed_def ppanic_def)

lemma parsed_mono:
  assumes "parsed buf es s' r" "s \<le> s'"
  shows "parsed buf es s r"
proof -
  obtain x where x: "r = Some x" "\<forall>c t. x = Inr (c, t) \<longrightarrow> s' \<le> t \<and> t \<le> es \<and> set_cmd c \<subseteq> words buf es"
    using assms(1) unfolding parsed_def by blast
  have "\<forall>c t. x = Inr (c, t) \<longrightarrow> s \<le> t \<and> t \<le> es \<and> set_cmd c \<subseteq> words buf es"
    using x(2) assms(2) order_trans by blast
  with x(1) show ?thesis unfolding parsed_def by blast
qed

lemma parsed_bind:
  assumes "parsed buf es s m"
    and "\<And>c s'. s \<le> s' \<Longrightarrow> s' \<le> es \<Longrightarrow> set_cmd c \<subseteq> words buf es \<Longrightarrow> parsed buf es s' (f c s')"
  shows "parsed buf es s (pbind m f)"
proof -
  obtain x where x: "m = Some x" "\<And>c s'. x = Inr (c, s') \<Longrightarrow> s \<le> s' \<and> s' \<le> es \<and> set_cmd c \<subseteq> words buf es"
    using assms(1) by (auto simp: parsed_def)
  show ?thesis
  proof (cases x)
    case (Inl y)
    then show ?thesis by (simp add: x(1) pbind_def parsed_def)
  next
    case (Inr y)
    obtain c s' where y: "y = (c, s')" by (cases y)
    have "parsed buf es s' (f c s')" using x(2) Inr y assms(2) by simp
    then show ?thesis using x(2) [of c s'] Inr y by (auto simp: x(1) pbind_def intro: parsed_mono)
  qed
qed

lemma parsed_peek:
  assumes "line_ok buf es" "s \<le> es"
    and "\<And>b s'. s \<le> s' \<Longrightarrow> s' \<le> es \<Longrightarrow> (b \<Longrightarrow> tok_at buf es s') \<Longrightarrow> parsed buf es s' (f b s')"
  shows "parsed buf es s (let (b, s') = peek buf es s toks in f b s')"
proof -
  obtain b s' where p: "peek buf es s toks = (b, s')" by (cases "peek buf es s toks")
  show ?thesis using peek_cases [OF assms(1,2) p] assms(3) [of s' b] by (auto simp: p intro: parsed_mono)
qed

lemma parsed_token:
  assumes "line_ok buf es" "s \<le> es"
    and "\<And>t q eq s'. s \<le> s' \<Longrightarrow> s' \<le> es \<Longrightarrow> (tok_at buf es s \<Longrightarrow> s < s') \<Longrightarrow> (t \<noteq> 0 \<Longrightarrow> s < s') \<Longrightarrow>
      (t = of_char CHR ''a'' \<Longrightarrow> (q, eq) \<in> words buf es) \<Longrightarrow> parsed buf es s' (f t q eq s')"
  shows "parsed buf es s (let (t, q, eq, s') = gettoken buf es s in f t q eq s')"
proof -
  obtain t q eq s' where p: "gettoken buf es s = (t, q, eq, s')" by (cases "gettoken buf es s")
  show ?thesis using gettoken_cases [OF assms(1,2) p] assms(3) [of s' t q eq] by (auto simp: p intro: parsed_mono)
qed

lemmas parsed_intros = parsed_ret parsed_panic

lemma redircmd_words: "set_cmd c \<subseteq> W \<Longrightarrow> w \<in> W \<Longrightarrow> set_cmd (redircmd c t w) \<subseteq> W"
  by (auto simp: redircmd_def)

lemma add_arg_words: "set_cmd c \<subseteq> W \<Longrightarrow> w \<in> W \<Longrightarrow> set_cmd (add_arg c w) \<subseteq> W"
  by (induction c) auto

lemma parseredirs_parsed:
  assumes "line_ok buf es"
  shows "s \<le> es \<Longrightarrow> es - s < f \<Longrightarrow> set_cmd c \<subseteq> words buf es \<Longrightarrow> parsed buf es s (parseredirs f buf es c s)"
proof (induction f arbitrary: s c)
  case (Suc f)
  show ?case
    unfolding parseredirs.simps
    apply (rule parsed_peek [OF assms Suc.prems(1)])
    apply (simp only: split: if_split)
    apply (intro conjI impI)
    subgoal using Suc.prems by (auto intro: parsed_ret)
    apply (rule parsed_token [OF assms], assumption)
    apply (rule parsed_token [OF assms], assumption)
    apply (simp only: split: if_split)
    apply (intro conjI impI parsed_panic)
    apply (rule Suc.IH)
    using Suc.prems by (simp_all add: redircmd_words)
qed simp


lemma parseargs_parsed:
  assumes "line_ok buf es"
  shows "s \<le> es \<Longrightarrow> es - s + 1 < f \<Longrightarrow> set_cmd c \<subseteq> words buf es \<Longrightarrow> parsed buf es s (parseargs f buf es c n s)"
proof (induction f arbitrary: s c n)
  case (Suc f)
  have step: "parsed buf es s' (pbind (parseredirs f buf es (add_arg c (q, eq)) s') (\<lambda>ret s. parseargs f buf es ret (Suc n) s))"
    if "s < s'" "s' \<le> es" "(q, eq) \<in> words buf es" for q eq s'
  proof (rule parsed_bind)
    show "parsed buf es s' (parseredirs f buf es (add_arg c (q, eq)) s')"
      using parseredirs_parsed [OF assms that(2), of f "add_arg c (q, eq)"] that Suc.prems(2)
        add_arg_words [OF Suc.prems(3) that(3)] by simp
    show "parsed buf es t (parseargs f buf es d (Suc n) t)"
      if "s' \<le> t" "t \<le> es" "set_cmd d \<subseteq> words buf es" for d t
      using Suc.IH [OF that(2) _ that(3)] that(1) \<open>s < s'\<close> \<open>s' \<le> es\<close> Suc.prems(2) by simp
  qed
  show ?case
    unfolding parseargs.simps
    apply (rule parsed_peek [OF assms Suc.prems(1)])
    apply (simp only: split: if_split)
    apply (intro conjI impI)
    subgoal using Suc.prems by (auto intro: parsed_ret)
    apply (rule parsed_token [OF assms], assumption)
    apply (simp only: split: if_split)
    apply (intro conjI impI parsed_panic)
    using Suc.prems(3) step by (simp_all add: parsed_ret)
qed simp

lemma parseback_parsed:
  assumes "line_ok buf es"
  shows "s \<le> es \<Longrightarrow> es - s < f \<Longrightarrow> set_cmd c \<subseteq> words buf es \<Longrightarrow> parsed buf es s (parseback f buf es c s)"
proof (induction f arbitrary: s c)
  case (Suc f)
  show ?case
    unfolding parseback.simps
    apply (rule parsed_peek [OF assms Suc.prems(1)])
    apply (simp only: split: if_split)
    apply (intro conjI impI)
    subgoal using Suc.prems by (auto intro: parsed_ret)
    apply (rule parsed_token [OF assms], assumption)
    apply (rule Suc.IH)
    using Suc.prems by simp_all
qed simp

text \<open>The fuel that each of the four routines needs for the rest of the line.\<close>

definition fuel_for :: "routine \<Rightarrow> nat \<Rightarrow> nat" where
  "fuel_for r n = (case r of R_line \<Rightarrow> 4 * n + 8 | R_pipe \<Rightarrow> 4 * n + 7 | R_exec \<Rightarrow> 4 * n + 6 | R_block \<Rightarrow> 4 * n + 5)"

lemma parseline_parsed:
  assumes l: "line_ok buf es" and s: "s \<le> es" "fuel_for R_line (es - s) \<le> Suc f"
    and rec: "\<And>r s. s \<le> es \<Longrightarrow> fuel_for r (es - s) \<le> f \<Longrightarrow> (r = R_block \<Longrightarrow> tok_at buf es s) \<Longrightarrow> parsed buf es s (rec r buf es s)"
  shows "parsed buf es s (parseline rec f buf es s)"
  unfolding parseline_def
  apply (rule parsed_bind)
  subgoal using s rec [of s R_pipe] by (simp add: fuel_for_def)
  apply (rule parsed_bind [OF parseback_parsed [OF l]])
  using s apply (simp_all add: fuel_for_def)[3]
  apply (rule parsed_peek [OF l], assumption)
  apply (simp only: split: if_split)
  apply (intro conjI impI)
  subgoal
    apply (rule parsed_token [OF l], assumption)
    apply (rule parsed_bind [OF rec [of _ R_line]])
    using s by (auto simp: fuel_for_def intro!: parsed_ret)
  by (rule parsed_ret) simp_all

lemma parsepipe_parsed:
  assumes l: "line_ok buf es" and s: "s \<le> es" "fuel_for R_pipe (es - s) \<le> Suc f"
    and rec: "\<And>r s. s \<le> es \<Longrightarrow> fuel_for r (es - s) \<le> f \<Longrightarrow> (r = R_block \<Longrightarrow> tok_at buf es s) \<Longrightarrow> parsed buf es s (rec r buf es s)"
  shows "parsed buf es s (parsepipe rec f buf es s)"
  unfolding parsepipe_def
  apply (rule parsed_bind)
  subgoal using s rec [of s R_exec] by (simp add: fuel_for_def)
  apply (rule parsed_peek [OF l], assumption)
  apply (simp only: split: if_split)
  apply (intro conjI impI)
  subgoal
    apply (rule parsed_token [OF l], assumption)
    apply (rule parsed_bind [OF rec [of _ R_pipe]])
    using s by (auto simp: fuel_for_def intro!: parsed_ret)
  by (rule parsed_ret) simp_all

lemma parseexec_parsed:
  assumes l: "line_ok buf es" and s: "s \<le> es" "fuel_for R_exec (es - s) \<le> Suc f"
    and rec: "\<And>r s. s \<le> es \<Longrightarrow> fuel_for r (es - s) \<le> f \<Longrightarrow> (r = R_block \<Longrightarrow> tok_at buf es s) \<Longrightarrow> parsed buf es s (rec r buf es s)"
  shows "parsed buf es s (parseexec rec f buf es s)"
  unfolding parseexec_def
  apply (rule parsed_peek [OF l s(1)])
  apply (simp only: split: if_split)
  apply (intro conjI impI)
  subgoal for b s' using s rec [of s' R_block] by (auto simp: fuel_for_def)
  apply (rule parsed_bind [OF parseredirs_parsed [OF l]])
  using s apply (simp_all add: fuel_for_def)[3]
  apply (rule parseargs_parsed [OF l])
  using s by (simp_all add: fuel_for_def)

lemma parseblock_parsed:
  assumes l: "line_ok buf es" and s: "s \<le> es" "fuel_for R_block (es - s) \<le> Suc f"
    and rec: "\<And>r s. s \<le> es \<Longrightarrow> fuel_for r (es - s) \<le> f \<Longrightarrow> (r = R_block \<Longrightarrow> tok_at buf es s) \<Longrightarrow> parsed buf es s (rec r buf es s)"
  shows "parsed buf es s (parseblock rec f buf es s)"
  unfolding parseblock_def
  apply (rule parsed_peek [OF l s(1)])
  apply (simp only: split: if_split)
  apply (intro conjI impI parsed_panic)
  apply (rule parsed_token [OF l], assumption)
  apply (rule parsed_bind [OF rec [of _ R_line]])
  using s apply (auto simp: fuel_for_def)[3]
  apply (rule parsed_peek [OF l], assumption)
  apply (simp only: split: if_split)
  apply (intro conjI impI parsed_panic)
  apply (rule parsed_token [OF l], assumption)
  apply (rule parseredirs_parsed [OF l])
  using s by (auto simp: fuel_for_def)

lemma parser_parsed:
  assumes l: "line_ok buf es"
  shows "s \<le> es \<Longrightarrow> fuel_for r (es - s) \<le> f \<Longrightarrow> parsed buf es s (parser f r buf es s)"
proof (induction f arbitrary: r s)
  case 0
  then show ?case by (cases r) (simp_all add: fuel_for_def)
next
  case (Suc f)
  then show ?case
    using parseline_parsed [OF l Suc.prems(1), of f "parser f"] parsepipe_parsed [OF l Suc.prems(1), of f "parser f"]
      parseexec_parsed [OF l Suc.prems(1), of f "parser f"] parseblock_parsed [OF l Suc.prems(1), of f "parser f"]
    by (cases r) simp_all
qed

section \<open>The words of a parsed command\<close>

lemma nth_upd_in: "i < length xs \<Longrightarrow> xs[j := x] ! i = (if j = i then x else xs ! i)"
  by (simp add: nth_list_update)

lemma nul_words:
  "length (foldl (\<lambda>b w. b[snd w := 0]) buf ws) = length buf"
  "i < length buf \<Longrightarrow> foldl (\<lambda>b w. b[snd w := 0]) buf ws ! i = (if i \<in> snd ` set ws then 0 else buf ! i)"
  by (induction ws arbitrary: buf) (auto simp: nth_list_update)

lemma nulterminate_length [simp]: "length (nulterminate c buf) = length buf"
  by (induction c arbitrary: buf) (simp_all add: nul_words)

lemma nulterminate_nth:
  "i < length buf \<Longrightarrow> nulterminate c buf ! i = (if i \<in> snd ` set_cmd c then 0 else buf ! i)"
  by (induction c arbitrary: buf) (simp_all add: nul_words nth_upd_in image_Un)

lemma cstr_drop:
  assumes "q \<le> eq" "eq < length b" "b ! eq = 0" "\<And>i. q \<le> i \<Longrightarrow> i < eq \<Longrightarrow> b ! i \<noteq> 0"
  shows "cstr (drop q b) = slice b q (eq - q)"
proof -
  have "drop eq b = 0 # drop (Suc eq) b" using Cons_nth_drop_Suc [OF assms(2)] assms(3) by simp
  moreover have "drop (eq - q) (drop q b) = drop eq b" using assms(1) by simp
  ultimately have "drop q b = slice b q (eq - q) @ 0 # drop (Suc eq) b"
    unfolding slice_def by (metis append_take_drop_id)
  moreover have "\<forall>x \<in> set (slice b q (eq - q)). x \<noteq> 0"
    using assms by (auto simp: slice_def in_set_conv_nth)
  ultimately show ?thesis by (simp add: cstr_def takeWhile_tail)
qed

lemma word_string:
  assumes l: "line_ok buf es" and c: "set_cmd c \<subseteq> words buf es" and w: "(q, eq) \<in> set_cmd c"
  shows "cstr (drop q (nulterminate c buf)) = slice buf q (eq - q)"
proof -
  have W: "q < eq" "eq \<le> es" "\<And>i. q \<le> i \<Longrightarrow> i < eq \<Longrightarrow> word_char (buf ! i)"
    using c w by (auto simp: words_def)
  have len: "es < length buf" using l by (simp add: line_ok_def)
  have same: "nulterminate c buf ! i = buf ! i" if "q \<le> i" "i < eq" for i
  proof -
    have "i \<notin> snd ` set_cmd c" using W(3) [OF that] c by (auto simp: words_def)
    then show ?thesis using that W len by (simp add: nulterminate_nth)
  qed
  have "cstr (drop q (nulterminate c buf)) = slice (nulterminate c buf) q (eq - q)"
  proof (rule cstr_drop)
    show "nulterminate c buf ! eq = 0" using w W len by (force simp: nulterminate_nth)
    show "nulterminate c buf ! i \<noteq> 0" if "q \<le> i" "i < eq" for i
      using same that W(3) by (simp add: word_char_def)
  qed (use W len in simp_all)
  also have "\<dots> = slice buf q (eq - q)"
    using same W len by (auto simp: slice_def intro!: nth_equalityI)
  finally show ?thesis .
qed

lemma ustrlen_line: "ustrlen buf = Some es \<longleftrightarrow> line_ok buf es"
proof (induction buf arbitrary: es)
  case (Cons c buf)
  show ?case
  proof (cases es)
    case 0
    then show ?thesis using Cons by (auto simp: line_ok_def)
  next
    case (Suc n)
    have "line_ok (c # buf) (Suc n) \<longleftrightarrow> c \<noteq> 0 \<and> line_ok buf n"
      by (auto simp: line_ok_def All_less_Suc2)
    then show ?thesis using Cons Suc by auto
  qed
qed (simp add: line_ok_def)

lemma parsecmd_eq:
  assumes l: "line_ok buf es"
  shows "\<exists>r. parsecmd buf = Some r \<and> (\<forall>d. r = Inr d \<longrightarrow> (\<exists>c s. parser (parse_fuel es) R_line buf es 0 = Some (Inr (c, s)) \<and>
    set_cmd c \<subseteq> words buf es \<and> skip_white buf es s = es \<and> d = map_cmd (\<lambda>(q, eq). slice buf q (eq - q)) c))"
proof -
  have "parsed buf es 0 (parser (parse_fuel es) R_line buf es 0)"
    by (rule parser_parsed [OF l]) (simp_all add: fuel_for_def parse_fuel_def)
  then obtain x where x: "parser (parse_fuel es) R_line buf es 0 = Some x"
    "\<And>c s. x = Inr (c, s) \<Longrightarrow> set_cmd c \<subseteq> words buf es" unfolding parsed_def by blast
  show ?thesis
  proof (cases x)
    case (Inl e)
    then show ?thesis using x(1) l by (simp add: parsecmd_def ustrlen_line [symmetric] pbind_def)
  next
    case (Inr y)
    obtain c s where y: "y = (c, s)" by (cases y)
    have "cmd_strings (nulterminate c buf) c = map_cmd (\<lambda>(q, eq). slice buf q (eq - q)) c"
      unfolding cmd_strings_def using word_string [OF l x(2)] Inr y by (intro cmd.map_cong0) auto
    then show ?thesis
      using x Inr y l by (simp add: parsecmd_def ustrlen_line [symmetric] pbind_def peek_def Let_def)
  qed
qed

text \<open>
  C20: The parser of the shell returns on every line that fits its buffer: with a syntax error or with a command.  Every
  word of the command is a nonempty piece of the line without white space and symbols, and the NULs that
  \<^verbatim>\<open>nulterminate\<close> writes for one word never damage another.
\<close>

theorem parsecmd_returns:
  assumes "0 \<in> set buf"
  shows "\<exists>r. parsecmd buf = Some r \<and> (\<forall>c. r = Inr c \<longrightarrow>
    (\<forall>w \<in> set_cmd c. w \<noteq> [] \<and> sublist w (cstr buf) \<and> set w \<inter> (set whitespace \<union> set symbols) = {}))"
proof -
  have "\<exists>es. ustrlen buf = Some es" using assms by (induction buf) auto
  then obtain es where "ustrlen buf = Some es" ..
  then have l: "line_ok buf es" by (simp add: ustrlen_line)
  have line: "cstr buf = slice buf 0 es"
    using cstr_drop [of 0 es buf] l by (simp add: line_ok_def)
  have W: "slice buf q (eq - q) \<noteq> [] \<and> sublist (slice buf q (eq - q)) (cstr buf) \<and>
      set (slice buf q (eq - q)) \<inter> (set whitespace \<union> set symbols) = {}" if "(q, eq) \<in> words buf es" for q eq
  proof -
    have b: "q < eq" "eq \<le> es" "es < length buf" and wc: "\<And>i. q \<le> i \<Longrightarrow> i < eq \<Longrightarrow> word_char (buf ! i)"
      using that l by (auto simp: words_def line_ok_def)
    have "take (eq - q) (drop q (cstr buf)) = slice buf q (eq - q)"
      using b by (simp add: line slice_def drop_take)
    then have "sublist (slice buf q (eq - q)) (cstr buf)"
      by (metis append_take_drop_id sublist_appendI)
    moreover have "x \<notin> set whitespace \<and> x \<notin> set symbols" if "x \<in> set (slice buf q (eq - q))" for x
      using that wc b by (auto simp: slice_def in_set_conv_nth word_char_def whitespace_iff symbols_iff)
    ultimately show ?thesis using b by (auto simp: slice_def)
  qed
  obtain r where r: "parsecmd buf = Some r" "\<And>d. r = Inr d \<Longrightarrow>
      \<exists>c. set_cmd c \<subseteq> words buf es \<and> d = map_cmd (\<lambda>(q, eq). slice buf q (eq - q)) c"
    using parsecmd_eq [OF l] by blast
  have "w \<noteq> [] \<and> sublist w (cstr buf) \<and> set w \<inter> (set whitespace \<union> set symbols) = {}"
    if d: "r = Inr d" and w: "w \<in> set_cmd d" for d w
  proof -
    obtain c where "set_cmd c \<subseteq> words buf es" "d = map_cmd (\<lambda>(q, eq). slice buf q (eq - q)) c" using r(2) [OF d] by blast
    then obtain q eq where "(q, eq) \<in> words buf es" "w = slice buf q (eq - q)" using w by (auto simp: cmd.set_map)
    then show ?thesis using W by simp
  qed
  then show ?thesis using r(1) by blast
qed

section \<open>Printing commands\<close>

text \<open>A command as a line that the shell accepts, with parentheses around every part.\<close>

fun show_cmd :: "uchar list cmd \<Rightarrow> uchar list" where
  "show_cmd (EXEC ws) = concat (map (\<lambda>w. w @ [32]) ws)"
| "show_cmd (REDIR c w m fd) = 40 # show_cmd c @ 41 # (if fd = 0 then 60 else 62) # w"
| "show_cmd (PIPE c d) = 40 # show_cmd c @ [41, 124, 40] @ show_cmd d @ [41]"
| "show_cmd (LIST c d) = 40 # show_cmd c @ [41, 59, 40] @ show_cmd d @ [41]"
| "show_cmd (BACK c) = 40 # show_cmd c @ [41, 38]"

definition word_ok :: "uchar list \<Rightarrow> bool" where
  "word_ok w \<longleftrightarrow> w \<noteq> [] \<and> (\<forall>c \<in> set w. word_char c)"

fun cmd_ok :: "uchar list cmd \<Rightarrow> bool" where
  "cmd_ok (EXEC ws) \<longleftrightarrow> length ws < MAXARGS \<and> (\<forall>w \<in> set ws. word_ok w)"
| "cmd_ok (REDIR c w m fd) \<longleftrightarrow> cmd_ok c \<and> word_ok w \<and> (m, fd) \<in> {(SH_RDONLY, 0), (or SH_WRONLY SH_CREATE, 1)}"
| "cmd_ok (PIPE c d) \<longleftrightarrow> cmd_ok c \<and> cmd_ok d"
| "cmd_ok (LIST c d) \<longleftrightarrow> cmd_ok c \<and> cmd_ok d"
| "cmd_ok (BACK c) \<longleftrightarrow> cmd_ok c"

section \<open>Reading text at a position\<close>

lemma white_iff: "in_str whitespace c \<longleftrightarrow> c \<in> {32, 9, 13, 10, 11}"
  unfolding whitespace_iff by (simp add: whitespace_def)

lemma symbol_iff: "in_str symbols c \<longleftrightarrow> c \<in> {60, 124, 62, 38, 59, 40, 41}"
  unfolding symbols_iff by (simp add: symbols_def lit_def)

definition text_at :: "uchar list \<Rightarrow> nat \<Rightarrow> uchar list \<Rightarrow> bool" where
  "text_at buf s xs \<longleftrightarrow> s + length xs \<le> length buf \<and> slice buf s (length xs) = xs"

lemma text_at_append: "text_at buf s (xs @ ys) \<longleftrightarrow> text_at buf s xs \<and> text_at buf (s + length xs) ys"
proof -
  have "slice buf s (length xs + length ys) = slice buf s (length xs) @ slice buf (s + length xs) (length ys)"
    by (simp add: slice_def take_add add.commute)
  then show ?thesis by (auto simp: text_at_def append_eq_append_conv)
qed

lemma text_at_Cons: "text_at buf s (x # xs) \<longleftrightarrow> s < length buf \<and> buf ! s = x \<and> text_at buf (Suc s) xs"
proof -
  have "text_at buf s [x] \<longleftrightarrow> s < length buf \<and> buf ! s = x"
    by (auto simp: text_at_def slice_def take_Suc_conv_app_nth hd_drop_conv_nth)
  then show ?thesis using text_at_append [of buf s "[x]" xs] by simp
qed

lemma text_at_Nil [simp]: "text_at buf s [] \<longleftrightarrow> s \<le> length buf"
  by (simp add: text_at_def slice_def)

lemma text_at_nth: "text_at buf s xs \<Longrightarrow> i < length xs \<Longrightarrow> buf ! (s + i) = xs ! i"
  unfolding text_at_def by (metis length_slice nth_slice)

lemma text_at_slice: "text_at buf s xs \<Longrightarrow> slice buf s (length xs) = xs"
  by (simp add: text_at_def)

lemma peek_here: "\<not> in_str whitespace (buf ! s) \<Longrightarrow> peek buf es s toks = (buf ! s \<noteq> 0 \<and> in_str toks (buf ! s), s)"
  by (simp add: peek_def skip_white_stop)

lemma gettoken_symbol:
  assumes "buf ! s \<in> {124, 40, 41, 59, 38, 60} \<or> buf ! s = 62 \<and> buf ! Suc s \<noteq> 62" and "\<not> in_str whitespace (buf ! Suc s)"
  shows "gettoken buf es s = (buf ! s, s, Suc s, Suc s)"
proof -
  have "skip_white buf es s = s" by (rule skip_white_stop) (use assms(1) in \<open>auto simp: white_iff\<close>)
  then show ?thesis using assms skip_white_stop [OF assms(2), of es] by (auto simp: gettoken_def Let_def)
qed

lemma gettoken_nul: "buf ! s = 0 \<Longrightarrow> gettoken buf es s = (0, s, s, s)"
proof -
  assume z: "buf ! s = 0"
  have "skip_white buf es s = s" by (rule skip_white_stop) (simp add: z white_iff)
  then show ?thesis using z by (simp add: gettoken_def)
qed

lemma skip_word_text:
  assumes "text_at buf s w" "\<forall>c \<in> set w. word_char c" "s + length w \<le> es" "\<not> word_char (buf ! (s + length w))" "line_ok buf es"
  shows "skip_word buf es s = s + length w"
  using assms
proof (induction w arbitrary: s)
  case Nil
  then show ?case by (subst skip_word.simps) (auto simp: word_char_def line_ok_def)
next
  case (Cons c w)
  then have "skip_word buf es (Suc s) = Suc s + length w" by (simp add: text_at_Cons)
  then show ?case using Cons.prems by (subst skip_word.simps) (simp add: text_at_Cons word_char_def)
qed

lemma gettoken_text:
  assumes w: "word_ok w" "text_at buf s w" "s + length w \<le> es" "\<not> word_char (buf ! (s + length w))" "line_ok buf es"
  shows "gettoken buf es s = (97, s, s + length w, skip_white buf es (s + length w))"
proof -
  obtain c v where v: "w = c # v" using w(1) by (cases w) (auto simp: word_ok_def)
  have c: "word_char c" "buf ! s = c" using w v by (simp_all add: word_ok_def text_at_Cons)
  then have "skip_white buf es s = s" by (intro skip_white_stop) (simp add: word_char_def)
  moreover have "skip_word buf es s = s + length w" using skip_word_text [OF w(2) _ w(3-5)] w(1) by (simp add: word_ok_def)
  ultimately show ?thesis using c
    by (auto simp: gettoken_def Let_def word_char_def symbol_iff)
qed

text \<open>A redirection is not next.\<close>

definition no_redir :: "uchar \<Rightarrow> bool" where
  "no_redir c \<longleftrightarrow> \<not> in_str whitespace c \<and> c \<noteq> 60 \<and> c \<noteq> 62"

lemma parseredirs_none: "no_redir (buf ! s) \<Longrightarrow> parseredirs (Suc f) buf es c s = Some (Inr (c, s))"
proof -
  assume n: "no_redir (buf ! s)"
  have "\<not> in_str (lit ''<>'') (buf ! s)" using n by (subst in_str_iff) (auto simp: lit_def no_redir_def)
  then show ?thesis using n by (simp add: peek_here no_redir_def)
qed

lemma parseredirs_one:
  assumes w: "word_ok w" "text_at buf (Suc s) w" "Suc s + length w \<le> es" "line_ok buf es" and t: "buf ! s = 60 \<or> buf ! s = 62"
    and n: "no_redir (buf ! (Suc s + length w))" "\<not> word_char (buf ! (Suc s + length w))"
  shows "parseredirs (Suc (Suc f)) buf es c s = Some (Inr (redircmd c (buf ! s) (Suc s, Suc s + length w), Suc s + length w))"
proof -
  obtain a v where v: "w = a # v" using w(1) by (cases w) (auto simp: word_ok_def)
  have a: "word_char (buf ! Suc s)" using w v by (simp add: word_ok_def text_at_Cons)
  have p: "peek buf es s (lit ''<>'') = (True, s)"
  proof -
    have "in_str (lit ''<>'') (buf ! s)" using t by (subst in_str_iff) (auto simp: lit_def)
    then show ?thesis using t by (subst peek_here) (auto simp: white_iff)
  qed
  have "buf ! Suc s \<noteq> 62" "\<not> in_str whitespace (buf ! Suc s)" using a by (auto simp: word_char_def symbol_iff)
  then have g: "gettoken buf es s = (buf ! s, s, Suc s, Suc s)" using gettoken_symbol [of buf s] t by auto
  have "skip_white buf es (Suc s + length w) = Suc s + length w"
    using n(1) by (intro skip_white_stop) (simp add: no_redir_def)
  then have g2: "gettoken buf es (Suc s) = (97, Suc s, Suc s + length w, Suc s + length w)"
    using gettoken_text [OF w(1-3) n(2) w(4)] by simp
  show ?thesis
    unfolding parseredirs.simps(2) [of "Suc f"] p g g2 Let_def prod.case
    using parseredirs_none [OF n(1)] by simp
qed

section \<open>Parsing what was printed\<close>

lemma add_args: "foldl add_arg (EXEC ws) vs = EXEC (ws @ vs)"
  by (induction vs arbitrary: ws) simp_all

text \<open>The end of a command: the end of the line or of a block.\<close>

definition ends :: "uchar \<Rightarrow> bool" where
  "ends c \<longleftrightarrow> c = 0 \<or> c = 41"

lemma ends_facts:
  "ends c \<Longrightarrow> no_redir c" "ends c \<Longrightarrow> \<not> in_str whitespace c" "ends c \<Longrightarrow> \<not> word_char c"
  by (auto simp: ends_def no_redir_def word_char_def white_iff symbol_iff)

lemma word_char_facts: "word_char c \<Longrightarrow> no_redir c" "word_char c \<Longrightarrow> c \<noteq> 0 \<and> c \<noteq> 40 \<and> \<not> in_str (lit ''|)&;'') c"
proof -
  assume w: "word_char c"
  then show "no_redir c" by (auto simp: no_redir_def word_char_def symbol_iff)
  have "in_str (lit ''|)&;'') c \<longleftrightarrow> c \<in> set (lit ''|)&;'')" by (rule in_str_iff) (simp add: lit_def)
  then show "c \<noteq> 0 \<and> c \<noteq> 40 \<and> \<not> in_str (lit ''|)&;'') c"
    using w by (auto simp: word_char_def symbol_iff lit_def)
qed

lemma parseargs_text:
  assumes l: "line_ok buf es"
  shows "text_at buf s (concat (map (\<lambda>w. w @ [32]) ws)) \<Longrightarrow> s + length (concat (map (\<lambda>w. w @ [32]) ws)) = s' \<Longrightarrow> s' \<le> es \<Longrightarrow>
    ends (buf ! s') \<Longrightarrow> \<forall>w \<in> set ws. word_ok w \<Longrightarrow> n + length ws < MAXARGS \<Longrightarrow> es - s + 1 < f \<Longrightarrow>
    \<exists>vs. parseargs f buf es (EXEC us) n s = Some (Inr (EXEC (us @ vs), s')) \<and> map (\<lambda>(q, eq). slice buf q (eq - q)) vs = ws"
proof (induction ws arbitrary: s us n f)
  case Nil
  then obtain f' where f: "f = Suc f'" by (cases f) auto
  have "peek buf es s (lit ''|)&;'') = (buf ! s \<noteq> 0, s)"
    using Nil ends_facts(2) [of "buf ! s"] in_str_iff [of "lit ''|)&;''" "buf ! s"]
    by (auto simp: peek_here ends_def lit_def)
  then show ?case using Nil by (auto simp: f ends_def gettoken_nul)
next
  case (Cons w ws)
  then obtain f' where f: "f = Suc (Suc f')" by (cases f; cases "f - 1") auto
  let ?s = "s + length w"
  have t: "text_at buf s w" "buf ! ?s = 32" "text_at buf (Suc ?s) (concat (map (\<lambda>w. w @ [32]) ws))"
    using Cons.prems(1) by (simp_all add: text_at_append text_at_Cons)
  have b: "Suc ?s \<le> es" using Cons.prems(2,3) by simp
  obtain c v where v: "w = c # v" using Cons.prems(5) by (cases w) (auto simp: word_ok_def)
  have c: "word_char (buf ! s)" using Cons.prems(5) t(1) v by (simp add: word_ok_def text_at_Cons)
  note cf = word_char_facts [OF c]
  have nx: "no_redir (buf ! Suc ?s)"
  proof (cases ws)
    case Nil
    then show ?thesis using Cons.prems(2,4) ends_facts(1) by simp
  next
    case ws: (Cons x xs)
    then obtain d u where "x = d # u" "word_char d"
      using Cons.prems(5) by (cases x) (auto simp: word_ok_def)
    then show ?thesis using t(3) ws word_char_facts(1) by (simp add: text_at_Cons)
  qed
  have p: "peek buf es s (lit ''|)&;'') = (False, s)"
    using cf by (subst peek_here) (auto simp: no_redir_def)
  have "skip_white buf es ?s = Suc ?s"
    using t(2) b nx skip_white_stop [of buf "Suc ?s" es]
    by (subst skip_white.simps) (simp add: white_iff no_redir_def)
  then have g: "gettoken buf es s = (97, s, ?s, Suc ?s)"
    using gettoken_text [OF _ t(1) _ _ l] Cons.prems(5) b t(2) by (simp add: word_char_def white_iff)
  have "\<exists>vs. parseargs (Suc f') buf es (EXEC (us @ [(s, ?s)])) (Suc n) (Suc ?s) = Some (Inr (EXEC ((us @ [(s, ?s)]) @ vs), s')) \<and>
      map (\<lambda>(q, eq). slice buf q (eq - q)) vs = ws"
    by (rule Cons.IH) (use Cons.prems t f b in auto)
  then obtain vs where vs: "parseargs (Suc f') buf es (EXEC (us @ [(s, ?s)])) (Suc n) (Suc ?s) = Some (Inr (EXEC ((us @ [(s, ?s)]) @ vs), s'))"
    "map (\<lambda>(q, eq). slice buf q (eq - q)) vs = ws" by blast
  have "parseargs f buf es (EXEC us) n s = Some (Inr (EXEC (us @ (s, ?s) # vs), s'))"
    unfolding f parseargs.simps(2) [of "Suc f'"] p g Let_def prod.case
    using Cons.prems(6) vs(1) parseredirs_none [OF nx, of f'] by (simp add: pbind_def)
  moreover have "slice buf s (?s - s) = w" using text_at_slice [OF t(1)] by simp
  ultimately show ?case using vs(2) by (intro exI [of _ "(s, ?s) # vs"]) simp
qed

abbreviation words_of :: "uchar list \<Rightarrow> span cmd \<Rightarrow> uchar list cmd" where
  "words_of buf \<equiv> map_cmd (\<lambda>(q, eq). slice buf q (eq - q))"

text \<open>The parser reads a command back wherever its text stands.\<close>

definition reads :: "uchar list \<Rightarrow> nat \<Rightarrow> uchar list cmd \<Rightarrow> bool" where
  "reads buf es c \<longleftrightarrow> (\<forall>s f. text_at buf s (show_cmd c) \<longrightarrow> s + length (show_cmd c) \<le> es \<longrightarrow>
     ends (buf ! (s + length (show_cmd c))) \<longrightarrow> fuel_for R_line (es - s) \<le> f \<longrightarrow>
     (\<exists>pc. parser f R_line buf es s = Some (Inr (pc, s + length (show_cmd c))) \<and> words_of buf pc = c))"

lemma show_first:
  assumes "text_at buf s (show_cmd c)" "ends (buf ! (s + length (show_cmd c)))" "cmd_ok c"
  shows "\<not> in_str whitespace (buf ! s)"
proof (cases c)
  case (EXEC ws)
  show ?thesis
  proof (cases ws)
    case Nil
    then show ?thesis using EXEC assms(2) ends_facts(2) by simp
  next
    case (Cons w us)
    then have "word_ok w" "text_at buf s w" using EXEC assms by (simp_all add: text_at_append)
    then show ?thesis by (cases w) (auto simp: word_ok_def text_at_Cons word_char_def)
  qed
qed (use assms(1) in \<open>auto simp: text_at_Cons white_iff\<close>)

lemma peek_sym:
  "\<not> in_str whitespace (buf ! s) \<Longrightarrow> peek buf es s (lit ''('') = (buf ! s = 40, s)"
  "\<not> in_str whitespace (buf ! s) \<Longrightarrow> peek buf es s (lit '')'') = (buf ! s = 41, s)"
  "\<not> in_str whitespace (buf ! s) \<Longrightarrow> peek buf es s (lit ''|'') = (buf ! s = 124, s)"
  "\<not> in_str whitespace (buf ! s) \<Longrightarrow> peek buf es s (lit ''&'') = (buf ! s = 38, s)"
  "\<not> in_str whitespace (buf ! s) \<Longrightarrow> peek buf es s (lit '';'') = (buf ! s = 59, s)"
  by (simp_all add: peek_here in_str_def lit_def)

lemma block_text:
  assumes r: "reads buf es c" "cmd_ok c" and t: "buf ! s = 40" "text_at buf (Suc s) (show_cmd c)"
    and e: "e = Suc s + length (show_cmd c)" "buf ! e = 41" "Suc e \<le> es" "\<not> in_str whitespace (buf ! Suc e)"
    and f: "fuel_for R_block (es - s) \<le> Suc f"
  shows "\<exists>pc. parser (Suc f) R_block buf es s = parseredirs f buf es pc (Suc e) \<and> words_of buf pc = c"
proof -
  have en: "ends (buf ! e)" using e(2) by (simp add: ends_def)
  have w: "\<not> in_str whitespace (buf ! Suc s)" using show_first [OF t(2) _ r(2)] en e(1) by simp
  have "fuel_for R_line (es - Suc s) \<le> f" using f e by (simp add: fuel_for_def)
  then obtain pc where pc: "parser f R_line buf es (Suc s) = Some (Inr (pc, e))" "words_of buf pc = c"
    using r(1) [unfolded reads_def, rule_format, OF t(2), of f] e(3) en unfolding e(1) [symmetric] by auto
  have "peek buf es s (lit ''('') = (True, s)" using t(1) peek_sym(1) [of buf s es] by (simp add: white_iff)
  moreover have "gettoken buf es s = (40, s, Suc s, Suc s)" using gettoken_symbol [of buf s es] t(1) w by simp
  moreover have "peek buf es e (lit '')'') = (True, e)" using e(2) peek_sym(2) [of buf e es] by (simp add: white_iff)
  moreover have "gettoken buf es e = (41, e, Suc e, Suc e)" using gettoken_symbol [of buf e es] e(2,4) by simp
  ultimately have "parser (Suc f) R_block buf es s = parseredirs f buf es pc (Suc e)"
    by (simp add: parseblock_def pc(1) pbind_def)
  with pc(2) show ?thesis by blast
qed

text \<open>A part in parentheses, read by \<^verbatim>\<open>parsepipe\<close>.\<close>

lemma exec_block:
  assumes r: "reads buf es c" "cmd_ok c" and t: "buf ! s = 40" "text_at buf (Suc s) (show_cmd c)"
    and e: "e = Suc s + length (show_cmd c)" "buf ! e = 41" "Suc e \<le> es" "no_redir (buf ! Suc e)"
    and f: "fuel_for R_exec (es - s) \<le> f"
  shows "\<exists>pc. parser f R_exec buf es s = Some (Inr (pc, Suc e)) \<and> words_of buf pc = c"
proof -
  obtain g where g: "f = Suc (Suc (Suc g))" using f by (cases f; cases "f - 1"; cases "f - 2") (auto simp: fuel_for_def)
  have "\<not> in_str whitespace (buf ! Suc e)" using e(4) by (simp add: no_redir_def)
  then obtain pc where pc: "parser (Suc (Suc g)) R_block buf es s = parseredirs (Suc g) buf es pc (Suc e)" "words_of buf pc = c"
    using block_text [OF r t e(1-3), of "Suc g"] f g by (auto simp: fuel_for_def)
  have "peek buf es s (lit ''('') = (True, s)" using t(1) peek_sym(1) [of buf s es] by (simp add: white_iff)
  then have "parser f R_exec buf es s = parser (Suc (Suc g)) R_block buf es s"
    unfolding g by (simp add: parseexec_def del: parser.simps(2) add: parser.simps(2) [of "Suc (Suc g)"])
  then show ?thesis using pc parseredirs_none [OF e(4)] by auto
qed

lemma pipe_last:
  assumes "parser f R_exec buf es s = Some (Inr (pc, e))" "\<not> in_str whitespace (buf ! e)" "buf ! e \<noteq> 124"
  shows "parser (Suc f) R_pipe buf es s = Some (Inr (pc, e))"
  using assms peek_sym(3) [of buf e es] by (simp add: parsepipe_def pbind_def)

lemma pipe_more:
  assumes "parser f R_exec buf es s = Some (Inr (pc, e))" "buf ! e = 124" "\<not> in_str whitespace (buf ! Suc e)"
    "parser f R_pipe buf es (Suc e) = Some (Inr (pd, e'))"
  shows "parser (Suc f) R_pipe buf es s = Some (Inr (PIPE pc pd, e'))"
  using assms peek_sym(3) [of buf e es] gettoken_symbol [of buf e es]
  by (simp add: parsepipe_def pbind_def white_iff)

lemma line_last:
  assumes "parser (Suc f) R_pipe buf es s = Some (Inr (pc, e))" "ends (buf ! e)"
  shows "parser (Suc (Suc f)) R_line buf es s = Some (Inr (pc, e))"
  using assms peek_sym(4,5) [of buf e es] ends_facts(2) [OF assms(2)]
  by (auto simp: parseline_def pbind_def ends_def simp del: parser.simps(2) simp: parser.simps(2) [of "Suc f"])

lemma line_more:
  assumes "parser (Suc f) R_pipe buf es s = Some (Inr (pc, e))" "buf ! e = 59" "\<not> in_str whitespace (buf ! Suc e)"
    "parser (Suc f) R_line buf es (Suc e) = Some (Inr (pd, e'))"
  shows "parser (Suc (Suc f)) R_line buf es s = Some (Inr (LIST pc pd, e'))"
  using assms peek_sym(4,5) [of buf e es] gettoken_symbol [of buf e es]
  by (simp add: parseline_def pbind_def white_iff del: parser.simps(2) add: parser.simps(2) [of "Suc f"])

lemma line_back:
  assumes "parser (Suc (Suc f)) R_pipe buf es s = Some (Inr (pc, e))" "buf ! e = 38" "ends (buf ! Suc e)"
  shows "parser (Suc (Suc (Suc f))) R_line buf es s = Some (Inr (BACK pc, Suc e))"
  using assms peek_sym(4,5) [of buf e es] peek_sym(4,5) [of buf "Suc e" es] gettoken_symbol [of buf e es] ends_facts(2) [OF assms(3)]
  by (auto simp: parseline_def pbind_def white_iff ends_def simp del: parser.simps(2) simp: parser.simps(2) [of "Suc (Suc f)"])

declare parser.simps(2) [simp del] parseredirs.simps(2) [simp del] parseargs.simps(2) [simp del]

lemma reads_exec:
  assumes l: "line_ok buf es" and ok: "cmd_ok (EXEC ws)"
  shows "reads buf es (EXEC ws)"
  unfolding reads_def
proof (intro allI impI)
  fix s f
  let ?e = "s + length (show_cmd (EXEC ws))"
  assume t: "text_at buf s (show_cmd (EXEC ws))" and e: "?e \<le> es" "ends (buf ! ?e)" and f: "fuel_for R_line (es - s) \<le> f"
  obtain g where g: "f = Suc (Suc (Suc (Suc g)))" and gf: "es - s + 4 \<le> g"
    using f that [of "f - 4"] by (auto simp: fuel_for_def)
  have first: "no_redir (buf ! s) \<and> buf ! s \<noteq> 40"
  proof (cases ws)
    case Nil
    then show ?thesis using e(2) ends_facts(1) by (auto simp: ends_def)
  next
    case (Cons w us)
    then obtain c v where "w = c # v" "word_char c" using ok by (cases w) (auto simp: word_ok_def)
    then show ?thesis using Cons t word_char_facts [of c] by (auto simp: text_at_Cons)
  qed
  obtain vs where vs: "parseargs (Suc g) buf es (EXEC []) 0 s = Some (Inr (EXEC vs, ?e))"
    "map (\<lambda>(q, eq). slice buf q (eq - q)) vs = ws"
    using parseargs_text [OF l, of s ws ?e 0 "Suc g" "[]"] t e ok gf by auto
  have "parser (Suc (Suc g)) R_exec buf es s = Some (Inr (EXEC vs, ?e))"
    using first vs(1) peek_sym(1) [of buf s es] parseredirs_none [of buf s g es]
    by (auto simp: parser.simps(2) [of "Suc g"] parseexec_def pbind_def no_redir_def)
  then have "parser (Suc (Suc (Suc g))) R_pipe buf es s = Some (Inr (EXEC vs, ?e))"
    by (rule pipe_last) (use e(2) ends_facts(2) in \<open>auto simp: ends_def\<close>)
  then have "parser f R_line buf es s = Some (Inr (EXEC vs, ?e))" unfolding g by (rule line_last) (rule e(2))
  then show "\<exists>pc. parser f R_line buf es s = Some (Inr (pc, ?e)) \<and> words_of buf pc = EXEC ws"
    using vs(2) by auto
qed

lemma reads_redir:
  assumes l: "line_ok buf es" and r: "reads buf es c" and ok: "cmd_ok (REDIR c w m fd)"
  shows "reads buf es (REDIR c w m fd)"
  unfolding reads_def
proof (intro allI impI)
  fix s f
  let ?e = "s + length (show_cmd (REDIR c w m fd))"
  assume t: "text_at buf s (show_cmd (REDIR c w m fd))" and e: "?e \<le> es" "ends (buf ! ?e)" and f: "fuel_for R_line (es - s) \<le> f"
  obtain g where g: "f = Suc (Suc (Suc (Suc (Suc (Suc g)))))" using f that [of "f - 6"] by (auto simp: fuel_for_def)
  define k where "k = Suc s + length (show_cmd c)"
  have T: "buf ! s = 40" "text_at buf (Suc s) (show_cmd c)" "buf ! k = 41" "text_at buf (Suc (Suc k)) w"
    "buf ! Suc k = (if fd = 0 then 60 else 62)"
    using t by (simp_all add: text_at_Cons text_at_append k_def)
  have k: "?e = Suc (Suc k) + length w" by (simp add: k_def)
  obtain pc where pc: "parser (Suc (Suc (Suc g))) R_block buf es s = parseredirs (Suc (Suc g)) buf es pc (Suc k)" "words_of buf pc = c"
    using block_text [OF r _ T(1,2) k_def T(3), of "Suc (Suc g)"] ok e k T(5) f g
    by (auto simp: fuel_for_def white_iff)
  let ?w = "(Suc (Suc k), ?e)" let ?d = "redircmd pc (buf ! Suc k) ?w"
  have "parseredirs (Suc (Suc g)) buf es pc (Suc k) = Some (Inr (?d, ?e))"
    unfolding k by (rule parseredirs_one [OF _ T(4) _ l]) (use ok e [unfolded k] T(5) ends_facts in auto)
  moreover have "peek buf es s (lit ''('') = (True, s)" using T(1) peek_sym(1) [of buf s es] by (simp add: white_iff)
  ultimately have "parser (Suc (Suc (Suc (Suc g)))) R_exec buf es s = Some (Inr (?d, ?e))"
    using pc(1) by (simp add: parseexec_def parser.simps(2) [of "Suc (Suc (Suc g))"])
  then have "parser (Suc (Suc (Suc (Suc (Suc g))))) R_pipe buf es s = Some (Inr (?d, ?e))"
    by (rule pipe_last) (use e(2) ends_facts(2) in \<open>auto simp: ends_def\<close>)
  then have "parser f R_line buf es s = Some (Inr (?d, ?e))" unfolding g by (rule line_last) (rule e(2))
  moreover have "words_of buf ?d = REDIR c w m fd"
    using ok pc(2) T(5) text_at_slice [OF T(4)] k by (auto simp: redircmd_def)
  ultimately show "\<exists>pc. parser f R_line buf es s = Some (Inr (pc, ?e)) \<and> words_of buf pc = REDIR c w m fd" by blast
qed

text \<open>A part in parentheses that ends a command.\<close>

lemma exec_last:
  assumes r: "reads buf es d" "cmd_ok d" and t: "buf ! s = 40" "text_at buf (Suc s) (show_cmd d)"
    and e: "e = Suc s + length (show_cmd d)" "buf ! e = 41" "Suc e \<le> es" "ends (buf ! Suc e)" and f: "fuel_for R_exec (es - s) \<le> f"
  shows "\<exists>pc. parser (Suc f) R_pipe buf es s = Some (Inr (pc, Suc e)) \<and> parser (Suc (Suc f)) R_line buf es s = Some (Inr (pc, Suc e)) \<and>
    words_of buf pc = d"
proof -
  obtain pc where pc: "parser f R_exec buf es s = Some (Inr (pc, Suc e))" "words_of buf pc = d"
    using exec_block [OF r t e(1-3) ends_facts(1) [OF e(4)] f] by blast
  then have "parser (Suc f) R_pipe buf es s = Some (Inr (pc, Suc e))"
    by (intro pipe_last) (use e(4) ends_facts(2) in \<open>auto simp: ends_def\<close>)
  with pc(2) line_last [OF this e(4)] show ?thesis by blast
qed

lemma reads_pipe:
  assumes r: "reads buf es c" "reads buf es d" and ok: "cmd_ok c" "cmd_ok d"
  shows "reads buf es (PIPE c d)"
  unfolding reads_def
proof (intro allI impI)
  fix s f
  let ?e = "s + length (show_cmd (PIPE c d))"
  assume t: "text_at buf s (show_cmd (PIPE c d))" and e: "?e \<le> es" "ends (buf ! ?e)" and f: "fuel_for R_line (es - s) \<le> f"
  obtain g where g: "f = Suc (Suc (Suc g))" using f that [of "f - 3"] by (auto simp: fuel_for_def)
  define k where "k = Suc s + length (show_cmd c)"
  define j where "j = Suc (Suc (Suc k)) + length (show_cmd d)"
  have T: "buf ! s = 40" "text_at buf (Suc s) (show_cmd c)" "buf ! k = 41" "buf ! Suc k = 124" "buf ! Suc (Suc k) = 40"
    "text_at buf (Suc (Suc (Suc k))) (show_cmd d)" "buf ! j = 41"
    using t by (simp_all add: text_at_Cons text_at_append k_def j_def)
  have j: "?e = Suc j" by (simp add: j_def k_def)
  obtain pc where pc: "parser (Suc g) R_exec buf es s = Some (Inr (pc, Suc k))" "words_of buf pc = c"
    using exec_block [OF r(1) ok(1) T(1,2) k_def T(3), of "Suc g"] T(4) e j f g
    by (auto simp: fuel_for_def no_redir_def white_iff j_def)
  have "es - Suc (Suc k) + 2 \<le> es - s" using e j by (simp add: j_def k_def)
  then have fu: "fuel_for R_exec (es - Suc (Suc k)) \<le> g" using f g by (simp add: fuel_for_def)
  obtain pd where pd: "parser (Suc g) R_pipe buf es (Suc (Suc k)) = Some (Inr (pd, Suc j))" "words_of buf pd = d"
    using exec_last [OF r(2) ok(2) T(5,6) j_def T(7) _ _ fu] e [unfolded j] by auto
  have "parser (Suc (Suc g)) R_pipe buf es s = Some (Inr (PIPE pc pd, Suc j))"
    using pipe_more [OF pc(1) T(4) _ pd(1)] T(5) by (simp add: white_iff)
  then have "parser f R_line buf es s = Some (Inr (PIPE pc pd, Suc j))" unfolding g by (rule line_last) (use e(2) j in simp)
  then show "\<exists>pc. parser f R_line buf es s = Some (Inr (pc, ?e)) \<and> words_of buf pc = PIPE c d" using pc(2) pd(2) j by auto
qed

lemma reads_list:
  assumes r: "reads buf es c" "reads buf es d" and ok: "cmd_ok c" "cmd_ok d"
  shows "reads buf es (LIST c d)"
  unfolding reads_def
proof (intro allI impI)
  fix s f
  let ?e = "s + length (show_cmd (LIST c d))"
  assume t: "text_at buf s (show_cmd (LIST c d))" and e: "?e \<le> es" "ends (buf ! ?e)" and f: "fuel_for R_line (es - s) \<le> f"
  obtain g where g: "f = Suc (Suc (Suc g))" using f that [of "f - 3"] by (auto simp: fuel_for_def)
  define k where "k = Suc s + length (show_cmd c)"
  define j where "j = Suc (Suc (Suc k)) + length (show_cmd d)"
  have T: "buf ! s = 40" "text_at buf (Suc s) (show_cmd c)" "buf ! k = 41" "buf ! Suc k = 59" "buf ! Suc (Suc k) = 40"
    "text_at buf (Suc (Suc (Suc k))) (show_cmd d)" "buf ! j = 41"
    using t by (simp_all add: text_at_Cons text_at_append k_def j_def)
  have j: "?e = Suc j" by (simp add: j_def k_def)
  obtain pc where pc: "parser (Suc g) R_exec buf es s = Some (Inr (pc, Suc k))" "words_of buf pc = c"
    using exec_block [OF r(1) ok(1) T(1,2) k_def T(3), of "Suc g"] T(4) e j f g
    by (auto simp: fuel_for_def no_redir_def white_iff j_def)
  have pp: "parser (Suc (Suc g)) R_pipe buf es s = Some (Inr (pc, Suc k))"
    using pc(1) T(4) by (intro pipe_last) (simp_all add: white_iff)
  have "es - Suc (Suc k) + 2 \<le> es - s" using e j by (simp add: j_def k_def)
  then have fu: "fuel_for R_exec (es - Suc (Suc k)) \<le> g" using f g by (simp add: fuel_for_def)
  obtain pd where pd: "parser (Suc (Suc g)) R_line buf es (Suc (Suc k)) = Some (Inr (pd, Suc j))" "words_of buf pd = d"
    using exec_last [OF r(2) ok(2) T(5,6) j_def T(7) _ _ fu] e [unfolded j] by auto
  have "parser f R_line buf es s = Some (Inr (LIST pc pd, Suc j))"
    unfolding g using line_more [OF pp T(4) _ pd(1)] T(5) by (simp add: white_iff)
  then show "\<exists>pc. parser f R_line buf es s = Some (Inr (pc, ?e)) \<and> words_of buf pc = LIST c d" using pc(2) pd(2) j by auto
qed

lemma reads_back:
  assumes r: "reads buf es c" and ok: "cmd_ok c"
  shows "reads buf es (BACK c)"
  unfolding reads_def
proof (intro allI impI)
  fix s f
  let ?e = "s + length (show_cmd (BACK c))"
  assume t: "text_at buf s (show_cmd (BACK c))" and e: "?e \<le> es" "ends (buf ! ?e)" and f: "fuel_for R_line (es - s) \<le> f"
  obtain g where g: "f = Suc (Suc (Suc g))" using f that [of "f - 3"] by (auto simp: fuel_for_def)
  define k where "k = Suc s + length (show_cmd c)"
  have T: "buf ! s = 40" "text_at buf (Suc s) (show_cmd c)" "buf ! k = 41" "buf ! Suc k = 38"
    using t by (simp_all add: text_at_Cons text_at_append k_def)
  have k: "?e = Suc (Suc k)" by (simp add: k_def)
  obtain pc where pc: "parser (Suc g) R_exec buf es s = Some (Inr (pc, Suc k))" "words_of buf pc = c"
    using exec_block [OF r ok T(1,2) k_def T(3), of "Suc g"] T(4) e k f g
    by (auto simp: fuel_for_def no_redir_def white_iff)
  have "parser (Suc (Suc g)) R_pipe buf es s = Some (Inr (pc, Suc k))"
    using pc(1) T(4) by (intro pipe_last) (simp_all add: white_iff)
  then have "parser f R_line buf es s = Some (Inr (BACK pc, ?e))"
    unfolding g k by (rule line_back [OF _ T(4)]) (use e(2) k in simp)
  then show "\<exists>pc. parser f R_line buf es s = Some (Inr (pc, ?e)) \<and> words_of buf pc = BACK c" using pc(2) by auto
qed

lemma parser_reads: "line_ok buf es \<Longrightarrow> cmd_ok c \<Longrightarrow> reads buf es c"
  by (induction c) (simp_all add: reads_exec reads_redir reads_pipe reads_list reads_back)

lemma show_cmd_no_nul: "cmd_ok c \<Longrightarrow> 0 \<notin> set (show_cmd c)"
  by (induction c) (auto simp: word_ok_def word_char_def)

text \<open>
  C19: Parsing undoes printing.  Every command with at most nine arguments, whose words have no white space and no
  symbols, has a line that the shell parses back to this very command: pipes, lists, background commands and
  redirections at any depth.
\<close>

theorem parsecmd_show:
  assumes "cmd_ok c"
  shows "parsecmd (show_cmd c @ 0 # rest) = Some (Inr c)"
proof -
  let ?b = "show_cmd c @ 0 # rest" and ?n = "length (show_cmd c)"
  have l: "line_ok ?b ?n"
    using show_cmd_no_nul [OF assms] by (auto simp: line_ok_def nth_append in_set_conv_nth)
  have "text_at ?b 0 (show_cmd c)" by (simp add: text_at_def slice_def)
  then obtain pc where pc: "parser (parse_fuel ?n) R_line ?b ?n 0 = Some (Inr (pc, ?n))" "words_of ?b pc = c"
    using parser_reads [OF l assms, unfolded reads_def, rule_format, of 0 "parse_fuel ?n"]
    by (auto simp: ends_def parse_fuel_def fuel_for_def)
  have s: "skip_white ?b ?n ?n = ?n" by (rule skip_white_stop) (simp add: white_iff)
  obtain r where r: "parsecmd ?b = Some r" "\<And>d. r = Inr d \<Longrightarrow> d = words_of ?b pc"
    using parsecmd_eq [OF l] pc(1) by auto
  have "\<exists>d. parsecmd ?b = Some (Inr d)"
    using l pc(1) s by (simp add: parsecmd_def ustrlen_line [symmetric] pbind_def peek_def Let_def)
  then show ?thesis using r pc(2) by auto
qed

theorem parsecmd_show_witness:
  "parsecmd (lit ''(((ls )|(grep a ))>out);((sleep 5 )&)'' @ [0]) =
     Some (Inr (LIST (REDIR (PIPE (EXEC [lit ''ls'']) (EXEC [lit ''grep'', lit ''a''])) (lit ''out'') 513 1)
       (BACK (EXEC [lit ''sleep'', lit ''5'']))))"
  using parsecmd_show [of "LIST (REDIR (PIPE (EXEC [lit ''ls'']) (EXEC [lit ''grep'', lit ''a''])) (lit ''out'') 513 1)
       (BACK (EXEC [lit ''sleep'', lit ''5'']))" "[]"]
  by (simp add: lit_def word_ok_def word_char_def white_iff symbol_iff MAXARGS_def SH_WRONLY_def SH_CREATE_def SH_RDONLY_def)

theorem parsecmd_returns_witness:
  "\<exists>r. parsecmd (lit ''ls | ('' @ [0]) = Some r"
  using parsecmd_returns [of "lit ''ls | ('' @ [0]"] by auto

section \<open>Changing the directory\<close>

lemma ubind_OkD: "ubind m f e = UOk y t \<Longrightarrow> \<exists>x u. m e = UOk x u \<and> f x u = UOk y t"
  by (simp add: ubind_def split: uout.splits)

lemma useq_OkD: "useq m k e = UOk y t \<Longrightarrow> \<exists>x u. m e = UOk x u \<and> k u = UOk y t"
  unfolding useq_def by (rule ubind_OkD)

lemma uopt_OkD: "uopt r e = UOk y t \<Longrightarrow> r = Some y \<and> t = e"
  by (cases r) (simp_all add: uopt_def)

lemma append_history_result:
  assumes "append_history_file buf e = UOk b t"
  shows "\<exists>n. ustrlen buf = Some n \<and> b = fst (chop_line buf n)"
proof -
  obtain n u where n: "ustrlen buf = Some n" and rest: "(let (buf, len) = chop_line buf n in
     ubind (uopt (ustrchr buf (of_char CHR ''/''))) (\<lambda>slash.
     ubind (uopt (ustrcmp (case slash of Some i \<Rightarrow> drop (Suc i) buf | None \<Rightarrow> buf) (lit ''history'' @ [0]))) (\<lambda>r.
     if r = 0 then uret buf
     else ubind (same_as_last buf len) (\<lambda>same. useq (uwhen (\<not> same) (append_line buf len)) (uret buf))))) u = UOk b t"
    using assms by (auto simp: append_history_file_def dest!: ubind_OkD uopt_OkD)
  obtain c m where c: "chop_line buf n = (c, m)" by (cases "chop_line buf n")
  have "b = c" using rest unfolding c Let_def prod.case
    by (auto dest!: ubind_OkD useq_OkD split: if_splits)
  then show ?thesis using n c by simp
qed

lemma chop_cd_line:
  assumes "0 \<notin> set p"
  shows "ustrlen (lit ''cd '' @ p @ [10, 0] @ rest) = Some (length p + 4)"
    "chop_line (lit ''cd '' @ p @ [10, 0] @ rest) (length p + 4) = (lit ''cd '' @ p @ [0, 0] @ rest, length p + 3)"
proof -
  have e: "lit ''cd '' @ p @ [10, 0] @ rest = (lit ''cd '' @ p @ [10]) @ 0 # rest" by simp
  have "ustrlen (xs @ 0 # ys) = Some (length xs)" if "0 \<notin> set xs" for xs ys using that by (induction xs) auto
  from this [of "lit ''cd '' @ p @ [10]" rest] show "ustrlen (lit ''cd '' @ p @ [10, 0] @ rest) = Some (length p + 4)"
    unfolding e using assms by (simp add: lit_def)
  show "chop_line (lit ''cd '' @ p @ [10, 0] @ rest) (length p + 4) = (lit ''cd '' @ p @ [0, 0] @ rest, length p + 3)"
    by (simp add: chop_line_def nth_append lit_def list_update_append eval_nat_numeral)
qed

text \<open>
  C34: The shell changes to the wrong directory.  \<^verbatim>\<open>append_history_file\<close> has cut the newline off the line, but the
  branch for \<^verbatim>\<open>cd\<close> still cuts off the last character, so \<^verbatim>\<open>cd dir\<close> calls \<^verbatim>\<open>chdir\<close> with the name without its last
  character, for every name and whatever the system calls return.
\<close>

theorem cd_drops_last_char:
  assumes p: "p \<noteq> []" "0 \<notin> set p" and run: "sh_line (lit ''cd '' @ p @ [10, 0] @ rest) e = UOk b t"
  shows "\<exists>l u bss. append_history_file (lit ''cd '' @ p @ [10, 0] @ rest) e = UOk l u \<and>
    u_calls t = u_calls u @ C_chdir (butlast p) # map (C_write 2) bss"
proof -
  define k where "k r buf = useq (uwhen (r < 0) (uprintf 2 (''cannot cd %s'' @ [CHR 0x0A]) [ArgS (Some (drop 3 buf))])) (uret buf)"
    for r :: int and buf
  have k: "ukeeps (only_writes 2) (k r buf)" for r buf
    unfolding k_def by (rule prints.seq [OF prints.guard [OF only_writes_uprintf] prints.basic(1)])
  obtain l u where l: "append_history_file (lit ''cd '' @ p @ [10, 0] @ rest) e = UOk l u"
    and r: "(if l ! 0 = of_char CHR ''c'' \<and> l ! 1 = of_char CHR ''d'' \<and> l ! 2 = of_char CHR '' '' then
       ubind (uopt (ustrlen l)) (\<lambda>n.
       let buf = l[n - 1 := 0] in ubind (uint_of (C_chdir (cstr (drop 3 buf)))) (\<lambda>r. k r buf))
     else
       ubind fork1 (\<lambda>pid. useq (uwhen (pid = 0) (runline l)) (useq (uint_of C_wait) (uret l)))) u = UOk b t"
    using run unfolding sh_line_def k_def by (auto dest!: ubind_OkD)
  have leq: "l = lit ''cd '' @ p @ [0, 0] @ rest"
    using append_history_result [OF l] chop_cd_line [OF p(2), of rest] by simp
  have len: "ustrlen l = Some (length p + 3)"
  proof -
    have "ustrlen (xs @ 0 # ys) = Some (length xs)" if "0 \<notin> set xs" for xs ys using that by (induction xs) auto
    from this [of "lit ''cd '' @ p" "0 # rest"] show ?thesis using p(2) by (simp add: leq lit_def)
  qed
  define l' where "l' = l[Suc (Suc (length p)) := 0]"
  obtain q c where q: "p = q @ [c]" using p(1) by (cases p rule: rev_cases) auto
  have "drop 3 l' = q @ 0 # 0 # 0 # rest" by (simp add: l'_def leq q lit_def list_update_append eval_nat_numeral)
  then have dir: "cstr (drop 3 l') = butlast p" using p(2) by (auto simp: q cstr_def takeWhile_append takeWhile_eq_all_conv)
  have three: "l ! 0 = of_char CHR ''c'' \<and> l ! 1 = of_char CHR ''d'' \<and> l ! 2 = of_char CHR '' ''"
    by (simp add: leq lit_def)
  have "ubind (uint_of (C_chdir (butlast p))) (\<lambda>r. k r l') u = UOk b t"
    using r unfolding if_P [OF three] len by (simp add: l'_def [symmetric] dir Let_def)
  then obtain x v where v: "uint_of (C_chdir (butlast p)) u = UOk x v" and w: "k x l' v = UOk b t"
    by (auto dest!: ubind_OkD)
  have "only_writes 2 v t" using w k unfolding ukeeps_def by blast
  moreover have "u_calls v = u_calls u @ [C_chdir (butlast p)]" using v by (auto simp: uint_of_run split: list.splits)
  ultimately show ?thesis using l by (auto simp: only_writes_def)
qed

theorem cd_drops_last_char_witness:
  "\<exists>b t. sh_line (lit ''cd usr'' @ [10, 0]) \<lparr>u_res = [(- 1, []), (- 1, []), (0, [])], u_calls = []\<rparr> = UOk b t \<and>
     C_chdir (lit ''us'') \<in> set (u_calls t)"
proof -
  let ?e = "\<lparr>u_res = [(- 1, []), (- 1, []), (0, [])], u_calls = []\<rparr> :: uenv"
  have "\<exists>b t. sh_line (lit ''cd '' @ lit ''usr'' @ [10, 0] @ []) ?e = UOk b t"
    by (simp add: sh_line_def append_history_file_def lit_def urun chop_line_def same_as_last_def append_line_def)
  then obtain b t where run: "sh_line (lit ''cd '' @ lit ''usr'' @ [10, 0] @ []) ?e = UOk b t" by blast
  have "lit ''usr'' \<noteq> []" "0 \<notin> set (lit ''usr'')" by (simp_all add: lit_def)
  from cd_drops_last_char [OF this run] have "C_chdir (lit ''us'') \<in> set (u_calls t)" by (auto simp: lit_def)
  with run show ?thesis by (auto simp: lit_def)
qed

end
