(* ===== verification/Ugrep.thy ===== *)
theory Ugrep
  imports Uprintf
begin

text \<open>
  The program \<^verbatim>\<open>grep\<close> (\<^verbatim>\<open>grep.c\<close>): its matcher, which is compared with a declarative semantics of its patterns,
  and its loop over the input.
\<close>

section \<open>The matcher\<close>

text \<open>Patterns and texts without their NUL.\<close>

function matchhere :: "uchar list \<Rightarrow> uchar list \<Rightarrow> bool"
and matchstar :: "uchar \<Rightarrow> uchar list \<Rightarrow> uchar list \<Rightarrow> bool" where
  "matchhere re tx = (case re of
     [] \<Rightarrow> True
   | c # rest \<Rightarrow>
       if rest \<noteq> [] \<and> hd rest = of_char CHR ''*'' then matchstar c (tl rest) tx
       else if c = of_char CHR ''$'' \<and> rest = [] then tx = []
       else if tx \<noteq> [] \<and> (c = of_char CHR ''.'' \<or> c = hd tx) then matchhere rest (tl tx)
       else False)"
| "matchstar c re tx =
     (if matchhere re tx then True
      else if tx \<noteq> [] \<and> (hd tx = c \<or> c = of_char CHR ''.'') then matchstar c re (tl tx)
      else False)"
  by pat_completeness auto
termination
  by (relation "measures [\<lambda>x. case x of Inl (re, tx) \<Rightarrow> 2 * length re | Inr (c, re, tx) \<Rightarrow> 2 * length re + 1,
        \<lambda>x. case x of Inl (re, tx) \<Rightarrow> length tx | Inr (c, re, tx) \<Rightarrow> length tx]")
    (auto simp: neq_Nil_conv)

declare matchhere.simps [simp del] matchstar.simps [simp del]

fun match_from :: "uchar list \<Rightarrow> uchar list \<Rightarrow> bool" where
  "match_from re [] = matchhere re []"
| "match_from re (x # tx) = (matchhere re (x # tx) \<or> match_from re tx)"

definition match :: "uchar list \<Rightarrow> uchar list \<Rightarrow> bool" where
  "match re tx =
     (if re \<noteq> [] \<and> hd re = of_char CHR ''^'' then matchhere (tl re) tx else match_from re tx)"

section \<open>What a pattern means\<close>

text \<open>A pattern is a sequence of characters and of repeated characters, maybe tied to the end of the text.\<close>

datatype atom = One uchar | Many uchar

fun atoms :: "uchar list \<Rightarrow> atom list \<times> bool" where
  "atoms [] = ([], False)"
| "atoms [c] = (if c = of_char CHR ''$'' then ([], True) else ([One c], False))"
| "atoms (c # d # re) =
     (if d = of_char CHR ''*'' then (let (as, e) = atoms re in (Many c # as, e))
      else (let (as, e) = atoms (d # re) in (One c # as, e)))"

definition fits :: "uchar \<Rightarrow> uchar \<Rightarrow> bool" where
  "fits c x \<longleftrightarrow> c = of_char CHR ''.'' \<or> x = c"

fun lang :: "atom list \<Rightarrow> uchar list set" where
  "lang [] = {[]}"
| "lang (One c # as) = {x # u |x u. fits c x \<and> u \<in> lang as}"
| "lang (Many c # as) = {v @ u |v u. (\<forall>x \<in> set v. fits c x) \<and> u \<in> lang as}"

definition begins :: "uchar list \<Rightarrow> uchar list \<Rightarrow> bool" where
  "begins re tx \<longleftrightarrow> (\<exists>u v. tx = u @ v \<and> u \<in> lang (fst (atoms re)) \<and> (snd (atoms re) \<longrightarrow> v = []))"

lemma begins_Nil: "begins [] tx"
  by (auto simp: begins_def)

lemma begins_dollar: "begins [of_char CHR ''$''] tx \<longleftrightarrow> tx = []"
  by (auto simp: begins_def)

lemma begins_One:
  assumes "\<not> (rest \<noteq> [] \<and> hd rest = of_char CHR ''*'')" "\<not> (c = of_char CHR ''$'' \<and> rest = [])"
  shows "begins (c # rest) tx \<longleftrightarrow> tx \<noteq> [] \<and> fits c (hd tx) \<and> begins rest (tl tx)"
proof -
  have a: "atoms (c # rest) = (One c # fst (atoms rest), snd (atoms rest))"
    using assms by (cases rest) (auto simp: split_beta)
  show ?thesis
  proof
    assume "begins (c # rest) tx"
    then obtain uu w where "tx = uu @ w" "uu \<in> lang (One c # fst (atoms rest))" and w: "snd (atoms rest) \<longrightarrow> w = []"
      unfolding begins_def a fst_conv snd_conv by blast
    then obtain x u where u: "tx = x # u @ w" "fits c x" "u \<in> lang (fst (atoms rest))" by auto
    then have "begins rest (u @ w)" using w unfolding begins_def by blast
    then show "tx \<noteq> [] \<and> fits c (hd tx) \<and> begins rest (tl tx)" using u by simp
  next
    assume t: "tx \<noteq> [] \<and> fits c (hd tx) \<and> begins rest (tl tx)"
    then obtain u w where "tl tx = u @ w" "u \<in> lang (fst (atoms rest))" "snd (atoms rest) \<longrightarrow> w = []"
      unfolding begins_def by blast
    then have "tx = (hd tx # u) @ w \<and> hd tx # u \<in> lang (One c # fst (atoms rest)) \<and> (snd (atoms rest) \<longrightarrow> w = [])"
      using t by (cases tx) auto
    then show "begins (c # rest) tx" unfolding begins_def a fst_conv snd_conv by blast
  qed
qed

lemma begins_Many:
  "begins (c # of_char CHR ''*'' # re) tx \<longleftrightarrow> (\<exists>v w. tx = v @ w \<and> (\<forall>x \<in> set v. fits c x) \<and> begins re w)"
proof -
  have a: "atoms (c # of_char CHR ''*'' # re) = (Many c # fst (atoms re), snd (atoms re))"
    by (auto simp: split_beta)
  show ?thesis
  proof
    assume "begins (c # of_char CHR ''*'' # re) tx"
    then obtain uu w where "tx = uu @ w" "uu \<in> lang (Many c # fst (atoms re))" and w: "snd (atoms re) \<longrightarrow> w = []"
      unfolding begins_def a fst_conv snd_conv by blast
    then obtain v u where "tx = (v @ u) @ w" "\<forall>x \<in> set v. fits c x" "u \<in> lang (fst (atoms re))" by auto
    with w have "tx = v @ (u @ w) \<and> (\<forall>x \<in> set v. fits c x) \<and> begins re (u @ w)"
      unfolding begins_def by auto
    then show "\<exists>v w. tx = v @ w \<and> (\<forall>x \<in> set v. fits c x) \<and> begins re w" by blast
  next
    assume "\<exists>v w. tx = v @ w \<and> (\<forall>x \<in> set v. fits c x) \<and> begins re w"
    then obtain v u w where "tx = v @ u @ w" "\<forall>x \<in> set v. fits c x" "u \<in> lang (fst (atoms re))" "snd (atoms re) \<longrightarrow> w = []"
      unfolding begins_def by blast
    then have "tx = (v @ u) @ w \<and> v @ u \<in> lang (Many c # fst (atoms re)) \<and> (snd (atoms re) \<longrightarrow> w = [])" by auto
    then show "begins (c # of_char CHR ''*'' # re) tx" unfolding begins_def a fst_conv snd_conv by blast
  qed
qed

lemma matchhere_begins:
  "matchhere re tx \<longleftrightarrow> begins re tx"
  "matchstar c re tx \<longleftrightarrow> (\<exists>v w. tx = v @ w \<and> (\<forall>x \<in> set v. fits c x) \<and> begins re w)"
proof (induction re tx and c re tx rule: matchhere_matchstar.induct)
  case (1 re tx)
  show ?case
  proof (cases re)
    case Nil
    then show ?thesis by (subst matchhere.simps) (simp add: begins_Nil)
  next
    case (Cons c rest)
    consider (star) r where "rest = of_char CHR ''*'' # r"
      | (dollar) "c = of_char CHR ''$''" "rest = []"
      | (one) "\<not> (rest \<noteq> [] \<and> hd rest = of_char CHR ''*'')" "\<not> (c = of_char CHR ''$'' \<and> rest = [])"
      by (cases rest) auto
    then show ?thesis
    proof cases
      case star
      then have "matchhere re tx = matchstar c r tx" using Cons by (subst matchhere.simps) simp
      then show ?thesis using "1.IH"(1) [OF Cons] star Cons begins_Many [of c r tx] by simp
    next
      case dollar
      then show ?thesis using Cons begins_dollar [of tx] by (subst matchhere.simps) simp
    next
      case one
      then have "matchhere re tx = (tx \<noteq> [] \<and> fits c (hd tx) \<and> matchhere rest (tl tx))"
        using Cons by (subst matchhere.simps) (auto simp: fits_def)
      then show ?thesis using "1.IH"(2) [OF Cons one] begins_One [OF one, of tx] Cons by (auto simp: fits_def)
    qed
  qed
next
  case (2 c re tx)
  show ?case
  proof (cases "matchhere re tx")
    case True
    then have "matchstar c re tx" by (subst matchstar.simps) simp
    moreover have "begins re tx" using True "2.IH"(1) by simp
    ultimately show ?thesis by (auto intro: exI [of _ "[]"])
  next
    case False
    then have n: "\<not> begins re tx" using "2.IH"(1) by simp
    have "matchstar c re tx = (tx \<noteq> [] \<and> fits c (hd tx) \<and> matchstar c re (tl tx))"
      using False by (subst matchstar.simps) (auto simp: fits_def)
    moreover have "(\<exists>v w. tx = v @ w \<and> (\<forall>x \<in> set v. fits c x) \<and> begins re w) \<longleftrightarrow>
      tx \<noteq> [] \<and> fits c (hd tx) \<and> (\<exists>v w. tl tx = v @ w \<and> (\<forall>x \<in> set v. fits c x) \<and> begins re w)"
    proof (cases tx)
      case (Cons x xs)
      then show ?thesis using n by (auto simp: Cons_eq_append_conv) (metis append_Cons set_ConsD)+
    qed (use n in simp)
    ultimately show ?thesis using "2.IH"(2) [OF False] by (auto simp: fits_def)
  qed
qed

lemma match_from_iff: "match_from re tx \<longleftrightarrow> (\<exists>a b. tx = a @ b \<and> begins re b)"
proof (induction tx)
  case (Cons x tx)
  show ?case using Cons by (auto simp: matchhere_begins Cons_eq_append_conv)
qed (simp add: matchhere_begins)

text \<open>
  C25: The matcher of \<^verbatim>\<open>grep\<close> decides the language of its pattern: a pattern that starts with \<^verbatim>\<open>^\<close> matches when a prefix of the
  text is in the language, any other pattern when some part of the text is, and a pattern that ends with \<^verbatim>\<open>$\<close> wants
  this part to reach to the end.
\<close>

theorem match_correct:
  "match re tx \<longleftrightarrow>
     (if re \<noteq> [] \<and> hd re = of_char CHR ''^'' then begins (tl re) tx else \<exists>a b. tx = a @ b \<and> begins re b)"
  by (simp add: match_def matchhere_begins match_from_iff)


section \<open>The loop over the input\<close>

lemma ustrchr_less: "ustrchr (p @ [0]) c = Some (Some q) \<Longrightarrow> q < length p"
proof (induction p arbitrary: q)
  case (Cons x p)
  then show ?case by (cases q) (auto split: if_splits)
qed simp

text \<open>The lines of the buffer; what is left is the part after the last newline.\<close>

function grep_lines :: "uchar list \<Rightarrow> uchar list \<Rightarrow> uchar list U" where
  "grep_lines pat p = (case ustrchr (p @ [0]) 10 of
     Some (Some q) \<Rightarrow>
       useq (uwhen (match pat (take q p)) (useq (uwrite 1 (take (Suc q) p)) (uret ())))
            (grep_lines pat (drop (Suc q) p))
   | _ \<Rightarrow> uret p)"
  by pat_completeness auto
termination
  by (relation "measure (\<lambda>(pat, p). length p)") (auto dest!: ustrchr_less)

declare grep_lines.simps [simp del]

lemma ule_grep_lines [ukeep]: "ule (grep_lines pat p)"
proof (induction pat p rule: grep_lines.induct)
  case (1 pat p)
  show ?case
    using 1 by (subst grep_lines.simps) (auto intro!: ukeep split: option.split)
qed

lemma grep_lines_le: "grep_lines pat p e = UOk r t \<Longrightarrow> length (u_res t) \<le> length (u_res e)"
  using ule_grep_lines unfolding ukeeps_def by blast

text \<open>When the buffer has no whole line, all of it is thrown away.\<close>

function grep_loop :: "uchar list \<Rightarrow> int \<Rightarrow> uchar list \<Rightarrow> unit U" where
  "grep_loop pat fd pend e =
     ubind (uread fd (1024 - int (length pend) - 1)) (\<lambda>(n, bs) t.
       if n > 0 then
         ubind (grep_lines pat (pend @ bs)) (\<lambda>p u.
           grep_loop pat fd (if length p = length (pend @ bs) then [] else p) u) t
       else uret () t) e"
  by pat_completeness auto
termination
  by (relation "measure (\<lambda>(pat, fd, pend, e). length (u_res e))") (auto dest!: uread_less grep_lines_le)

declare grep_loop.simps [simp del]

definition grep :: "uchar list \<Rightarrow> int \<Rightarrow> unit U" where
  "grep pat fd = grep_loop pat fd []"

fun grep_files :: "uchar list \<Rightarrow> uchar list list \<Rightarrow> unit U" where
  "grep_files pat [] = uexit"
| "grep_files pat (f # fs) =
     ubind (uint_of (C_open f 0)) (\<lambda>fd.
     if fd < 0 then useq (uprintf 1 (''grep: cannot open %s'' @ [CHR 0x0A]) [ArgS (Some (f @ [0]))]) uexit
     else useq (grep pat fd) (useq (uint_of (C_close fd)) (grep_files pat fs)))"

definition grep_main :: "uchar list list \<Rightarrow> unit U" where
  "grep_main argv =
     (if length argv \<le> 1 then useq (uprintf 2 (''usage: grep pattern [file ...]'' @ [CHR 0x0A]) []) uexit
      else if length argv \<le> 2 then useq (grep (argv ! 1) 0) uexit
      else grep_files (argv ! 1) (drop 2 argv))"

lemma ustrchr_none: "0 \<notin> set p \<Longrightarrow> c \<notin> set p \<Longrightarrow> ustrchr (p @ [0]) c = Some None"
  by (induction p) auto

lemma ustrchr_found: "0 \<notin> set p \<Longrightarrow> c \<notin> set p \<Longrightarrow> c \<noteq> 0 \<Longrightarrow> ustrchr (p @ c # q) c = Some (Some (length p))"
  by (induction p) auto

lemma grep_lines_part: "0 \<notin> set p \<Longrightarrow> 10 \<notin> set p \<Longrightarrow> grep_lines pat p = uret p"
  by (subst grep_lines.simps) (simp add: ustrchr_none)

lemma grep_lines_line:
  assumes "0 \<notin> set l" "10 \<notin> set l"
  shows "grep_lines pat (l @ 10 # r) =
    useq (uwhen (match pat l) (useq (uwrite 1 (l @ [10])) (uret ()))) (grep_lines pat r)"
  using assms by (subst grep_lines.simps) (simp add: ustrchr_found)

text \<open>
  C35: \<^verbatim>\<open>grep\<close> loses the beginning of a line that arrives in two reads: when the first read ends inside of the line, only the
  second part is matched.  A line that the pattern matches as a whole is then not printed unless its second part matches too.
\<close>

theorem grep_loses_split_line:
  assumes "a \<noteq> []" "0 \<notin> set a" "10 \<notin> set a" "length a < 1024" "0 \<notin> set b" "10 \<notin> set b" "length b < 1023" "\<not> match pat b"
  shows "\<exists>t. grep pat fd \<lparr>u_res = [(int (length a), a), (int (length b) + 1, b @ [10]), (0, [])], u_calls = []\<rparr> = UOk () t \<and>
    u_calls t = [C_read fd 1023, C_read fd 1023, C_read fd 1023]"
proof -
  have step: "grep_loop pat fd [] \<lparr>u_res = r # rs, u_calls = cs\<rparr> =
      (if fst r \<le> 1023 \<and> int (length (snd r)) = max 0 (fst r) then
         if fst r > 0 then ubind (grep_lines pat (snd r)) (\<lambda>p. grep_loop pat fd (if length p = length (snd r) then [] else p))
             \<lparr>u_res = rs, u_calls = cs @ [C_read fd 1023]\<rparr>
         else UOk () \<lparr>u_res = rs, u_calls = cs @ [C_read fd 1023]\<rparr>
       else UUndef)" for r rs cs
    by (subst grep_loop.simps) (cases r, simp add: ubind_def uread_def usys_def)
  have "grep_lines pat (b @ [10]) = uret []"
    using grep_lines_line [OF assms(5,6), of pat "[]"] assms(8) grep_lines_part [of "[]" pat]
    by (auto simp: fun_eq_iff urun)
  then show ?thesis
    using assms by (simp add: grep_def step grep_lines_part)
qed

theorem grep_loses_split_line_witness:
  "match (lit ''hello'') (lit ''hel'' @ lit ''lo'') \<and> \<not> match (lit ''hello'') (lit ''lo'') \<and>
   (\<exists>t. grep (lit ''hello'') 0 \<lparr>u_res = [(3, lit ''hel''), (3, lit ''lo'' @ [10]), (0, [])], u_calls = []\<rparr> = UOk () t \<and>
     u_calls t = [C_read 0 1023, C_read 0 1023, C_read 0 1023])"
proof -
  have m: "match (lit ''hello'') (lit ''hel'' @ lit ''lo'')" "\<not> match (lit ''hello'') (lit ''lo'')"
    by (simp_all add: match_def lit_def matchhere.simps)
  then show ?thesis
    using grep_loses_split_line [of "lit ''hel''" "lit ''lo''" "lit ''hello''" 0] by (simp add: lit_def)
qed

end
