(* ===== verification/Uprogs.thy ===== *)
theory Uprogs
  imports Exec Uprintf
begin

text \<open>
  The programs \<^verbatim>\<open>cat\<close>, \<^verbatim>\<open>wc\<close>, \<^verbatim>\<open>ls\<close>, \<^verbatim>\<open>pwd\<close>, \<^verbatim>\<open>ps\<close>, \<^verbatim>\<open>history\<close> and the small tools, over the system calls as they see them.  The
  arguments of a program are its \<^verbatim>\<open>argv\<close>, without the NULs.
\<close>

abbreviation newline :: string where "newline \<equiv> [CHR 0x0A]"

abbreviation str_arg :: "uchar list \<Rightarrow> carg" where "str_arg s \<equiv> ArgS (Some (s @ [0]))"

section \<open>cat\<close>

function cat :: "int \<Rightarrow> unit U" where
  "cat fd e =
     ubind (uread fd 512) (\<lambda>(n, bs) t.
       if n > 0 then
         ubind (uwrite 1 bs) (\<lambda>r u.
           if r \<noteq> n then useq (uprintf 1 (''cat: write error'' @ newline) []) uexit u
           else cat fd u) t
       else if n < 0 then useq (uprintf 1 (''cat: read error'' @ newline) []) uexit t
       else uret () t) e"
  by pat_completeness auto
termination
  by (relation "measure (\<lambda>(fd, e). length (u_res e))") (auto simp: uwrite_def dest!: uread_less uint_of_less)

declare cat.simps [simp del]

text \<open>The loop over the files that \<^verbatim>\<open>cat\<close> and \<^verbatim>\<open>wc\<close> share in form, each with its own message.\<close>

fun cat_files :: "uchar list list \<Rightarrow> unit U" where
  "cat_files [] = uexit"
| "cat_files (f # fs) =
     ubind (uint_of (C_open f 0)) (\<lambda>fd.
     if fd < 0 then useq (uprintf 1 (''cat: cannot open %s'' @ newline) [str_arg f]) uexit
     else useq (cat fd) (useq (uint_of (C_close fd)) (cat_files fs)))"

definition cat_main :: "uchar list list \<Rightarrow> unit U" where
  "cat_main argv = (if length argv \<le> 1 then useq (cat 0) uexit else cat_files (tl argv))"

section \<open>wc\<close>

definition wc_white :: "uchar \<Rightarrow> bool" where
  "wc_white b = (case ustrchr [32, 13, 9, 10, 11, 0] b of Some (Some _) \<Rightarrow> True | _ \<Rightarrow> False)"

text \<open>Lines, words, characters, and whether the last character was in a word.\<close>

definition wc_step :: "int \<times> int \<times> int \<times> bool \<Rightarrow> uchar \<Rightarrow> int \<times> int \<times> int \<times> bool" where
  "wc_step = (\<lambda>(l, w, c, inword) b.
     let c = c + 1; l = (if b = 10 then l + 1 else l) in
     if wc_white b then (l, w, c, False)
     else if \<not> inword then (l, w + 1, c, True)
     else (l, w, c, inword))"

function wc_loop :: "int \<Rightarrow> int \<times> int \<times> int \<times> bool \<Rightarrow> (int \<times> int \<times> int) U" where
  "wc_loop fd st e =
     ubind (uread fd 512) (\<lambda>(n, bs) t.
       if n > 0 then wc_loop fd (foldl wc_step st bs) t
       else if n < 0 then useq (uprintf 1 (''wc: read error'' @ newline) []) uexit t
       else uret (case st of (l, w, c, _) \<Rightarrow> (l, w, c)) t) e"
  by pat_completeness auto
termination
  by (relation "measure (\<lambda>(fd, st, e). length (u_res e))") (auto dest!: uread_less)

declare wc_loop.simps [simp del]

definition wc :: "int \<Rightarrow> uchar list \<Rightarrow> unit U" where
  "wc fd name =
     ubind (wc_loop fd (0, 0, 0, False)) (\<lambda>(l, w, c).
     uprintf 1 (''%d %d %d %s'' @ newline) [ArgU (of_int l), ArgU (of_int w), ArgU (of_int c), str_arg name])"

fun wc_files :: "uchar list list \<Rightarrow> unit U" where
  "wc_files [] = uexit"
| "wc_files (f # fs) =
     ubind (uint_of (C_open f 0)) (\<lambda>fd.
     if fd < 0 then useq (uprintf 1 (''wc: cannot open %s'' @ newline) [str_arg f]) uexit
     else useq (wc fd f) (useq (uint_of (C_close fd)) (wc_files fs)))"

definition wc_main :: "uchar list list \<Rightarrow> unit U" where
  "wc_main argv = (if length argv \<le> 1 then useq (wc 0 []) uexit else wc_files (tl argv))"

section \<open>ls\<close>

text \<open>The fields of \<^verbatim>\<open>struct stat\<close> in its 20 bytes.\<close>

definition st_type :: "uchar list \<Rightarrow> ushort" where "st_type st = rd16 st 0"
definition st_dev :: "uchar list \<Rightarrow> uint" where "st_dev st = rd32 st 4"
definition st_ino :: "uchar list \<Rightarrow> uint" where "st_ino st = rd32 st 8"
definition st_size :: "uchar list \<Rightarrow> uint" where "st_size st = rd32 st 16"

text \<open>The position after the last slash at or before position \<open>i\<close>.\<close>

fun after_slash :: "uchar list \<Rightarrow> nat \<Rightarrow> nat" where
  "after_slash path 0 = 0"
| "after_slash path (Suc i) = (if path ! i = of_char CHR ''/'' then Suc i else after_slash path i)"

definition fmtname :: "uchar list \<Rightarrow> uchar list" where
  "fmtname path =
     (let p = drop (after_slash path (length path)) path in
      if length p \<ge> DIRSIZ then p else cstr (p @ replicate (DIRSIZ - length p) 0))"

definition color_of :: "ushort \<Rightarrow> uchar list" where
  "color_of ty =
     (if ty = T_DIR then 27 # lit ''[1;34m'' else if ty = T_DEV then 27 # lit ''[0;33m'' else 27 # lit ''[0;37m'')"

definition print_with_color :: "uchar list \<Rightarrow> uchar list \<Rightarrow> unit U" where
  "print_with_color name st =
     uprintf 1 (''%s%s%s %d %d %d'' @ newline)
       [str_arg (color_of (st_type st)), str_arg name, str_arg (27 # lit ''[0m''),
        ArgU (scast (st_type st)), ArgU (st_ino st), ArgU (st_size st)]"

text \<open>One entry of a directory; the name in it may lack its NUL.\<close>

definition ls_entry :: "uchar list \<Rightarrow> dirent \<Rightarrow> unit U" where
  "ls_entry path de =
     (let name = path @ lit ''/'' @ cstr (de_name de) in
      ubind (ustat name) (\<lambda>(r, st).
      if r < 0 then uprintf 1 (''ls: cannot stat %s'' @ newline) [str_arg name]
      else print_with_color (fmtname name) st))"

lemma ule_ustat [ukeep]: "ule (ustat n)"
  unfolding ustat_def by (intro ukeep)

lemma ls_entry_le: "ls_entry path de e = UOk r t \<Longrightarrow> length (u_res t) \<le> length (u_res e)"
proof -
  have "ule (ls_entry path de)" unfolding ls_entry_def print_with_color_def Let_def by (intro ukeep)
  then show "ls_entry path de e = UOk r t \<Longrightarrow> length (u_res t) \<le> length (u_res e)" unfolding ukeeps_def by blast
qed

function ls_entries :: "int \<Rightarrow> uchar list \<Rightarrow> unit U" where
  "ls_entries fd path e =
     ubind (uread fd 16) (\<lambda>(n, bs) t.
       if n = 16 then
         if de_inum (dirent_of bs) = 0 then ls_entries fd path t
         else ubind (ls_entry path (dirent_of bs)) (\<lambda>_ u. ls_entries fd path u) t
       else uret () t) e"
  by pat_completeness auto
termination
  by (relation "measure (\<lambda>(fd, path, e). length (u_res e))") (auto dest!: uread_less ls_entry_le)

declare ls_entries.simps [simp del]

definition ls :: "uchar list \<Rightarrow> unit U" where
  "ls path =
     ubind (uint_of (C_open path 0)) (\<lambda>fd.
     if fd < 0 then uprintf 2 (''ls: cannot open %s'' @ newline) [str_arg path]
     else
       ubind (ufill (C_fstat fd) 20) (\<lambda>(r, st).
       if r < 0 then
         useq (uprintf 2 (''ls: cannot stat %s'' @ newline) [str_arg path])
        (useq (uint_of (C_close fd)) (uret ()))
       else
         useq (if st_type st = T_FILE then print_with_color (fmtname path) st
               else if st_type st = T_DIR then
                 if length path + 1 + DIRSIZ + 1 > 512 then uprintf 1 (''ls: path too long'' @ newline) []
                 else ls_entries fd path
               else uret ())
        (useq (uint_of (C_close fd)) (uret ()))))"

fun ls_args :: "uchar list list \<Rightarrow> unit U" where
  "ls_args [] = uexit"
| "ls_args (p # ps) = useq (ls p) (ls_args ps)"

definition ls_main :: "uchar list list \<Rightarrow> unit U" where
  "ls_main argv = (if length argv < 2 then useq (ls (lit ''.'')) uexit else ls_args (tl argv))"

section \<open>pwd\<close>

text \<open>\<^verbatim>\<open>strcat\<close> on strings whose result fits an array of \<open>n\<close> bytes.\<close>

definition strcat :: "nat \<Rightarrow> uchar list \<Rightarrow> uchar list \<Rightarrow> uchar list option" where
  "strcat n d s = (if length (d @ s) < n then Some (d @ s) else None)"

definition same_inode :: "uchar list \<Rightarrow> uchar list \<Rightarrow> bool" where
  "same_inode a b \<longleftrightarrow> st_ino a = st_ino b \<and> st_dev a = st_dev b"

definition print_path :: "uchar list \<Rightarrow> unit U" where
  "print_path path =
     (if path = [] then uprintf 1 (''/'' @ newline) [] else uprintf 1 (''%s'' @ newline) [str_arg path])"

definition is_dot :: "uchar list \<Rightarrow> bool U" where
  "is_dot name =
     ubind (uopt (ustrcmp name (lit ''.'' @ [0]))) (\<lambda>r.
     if r = 0 then uret True
     else ubind (uopt (ustrcmp name (lit ''..'' @ [0]))) (\<lambda>r. uret (r = 0)))"

text \<open>One entry of the parent: the new path when the entry is the directory, or nothing.\<close>

definition pwd_entry :: "uchar list \<Rightarrow> uchar list \<Rightarrow> dirent \<Rightarrow> uchar list option U" where
  "pwd_entry path st de =
     (if de_inum de = 0 then uret None
      else
        ubind (is_dot (de_name de)) (\<lambda>dot.
        if dot then uret None
        else
          (let name = cstr (de_name de) in
           ubind (ustat (lit ''../'' @ name)) (\<lambda>(r, test).
           if r < 0 then uret None
           else if st_ino test = st_ino st then
             ubind (uopt (strcat 512 (lit ''/'') name)) (\<lambda>temp.
             ubind (uopt (strcat 512 temp path)) (\<lambda>temp. uret (Some temp)))
           else uret None))))"

lemma pwd_entry_le: "pwd_entry path st de e = UOk r t \<Longrightarrow> length (u_res t) \<le> length (u_res e)"
proof -
  have "ule (pwd_entry path st de)" unfolding pwd_entry_def is_dot_def Let_def by (intro ukeep)
  then show "pwd_entry path st de e = UOk r t \<Longrightarrow> length (u_res t) \<le> length (u_res e)" unfolding ukeeps_def by blast
qed

function pwd_scan :: "int \<Rightarrow> uchar list \<Rightarrow> uchar list \<Rightarrow> uchar list U" where
  "pwd_scan fd path st e =
     ubind (uread fd 16) (\<lambda>(n, bs) t.
       if n = 16 then
         ubind (pwd_entry path st (dirent_of bs)) (\<lambda>r u.
           case r of Some path \<Rightarrow> uret path u | None \<Rightarrow> pwd_scan fd path st u) t
       else uret path t) e"
  by pat_completeness auto
termination
  by (relation "measure (\<lambda>(fd, path, st, e). length (u_res e))") (auto dest!: uread_less pwd_entry_le)

declare pwd_scan.simps [simp del]

lemma pwd_scan_le: "pwd_scan fd path st e = UOk r t \<Longrightarrow> length (u_res t) \<le> length (u_res e)"
proof (induction fd path st e arbitrary: r t rule: pwd_scan.induct)
  case (1 fd path st e)
  obtain n bs u where rd: "uread fd 16 e = UOk (n, bs) u"
    using "1.prems" by (subst (asm) pwd_scan.simps) (auto simp: ubind_def split: uout.splits)
  note l = uread_less [OF rd]
  show ?case
  proof (cases "n = 16")
    case True
    obtain x v where x: "pwd_entry path st (dirent_of bs) u = UOk x v"
      using "1.prems" True rd by (subst (asm) pwd_scan.simps) (auto simp: ubind_def split: uout.splits)
    show ?thesis
    proof (cases x)
      case None
      then have "pwd_scan fd path st v = UOk r t" using "1.prems" True rd x by (subst (asm) pwd_scan.simps) (simp add: ubind_def)
      from "1.IH" [OF rd refl True x None this] show ?thesis using l pwd_entry_le [OF x] by simp
    next
      case (Some p)
      then show ?thesis using "1.prems" True rd x l pwd_entry_le [OF x] by (subst (asm) pwd_scan.simps) (simp add: ubind_def)
    qed
  next
    case False
    then show ?thesis using "1.prems" rd l by (subst (asm) pwd_scan.simps) (simp add: ubind_def)
  qed
qed

lemma ule_pwd_scan [ukeep]: "ule (pwd_scan fd path st)"
  by (simp add: ukeeps_def pwd_scan_le)

text \<open>One round of the loop: \<open>None\<close> when the program gives up, the path and whether the root is reached otherwise.\<close>

definition pwd_round :: "uchar list \<Rightarrow> (uchar list \<times> bool) option U" where
  "pwd_round path =
     ubind (ustat (lit ''.'')) (\<lambda>(r, st).
     if r < 0 then uret None
     else
       ubind (ustat (lit ''..'')) (\<lambda>(r, parent_st).
       if r < 0 then uret None
       else if same_inode st parent_st then uret (Some (path, True))
       else
         ubind (uint_of (C_open (lit ''..'') 0)) (\<lambda>fd.
         if fd < 0 then uret None
         else
           ubind (pwd_scan fd path st) (\<lambda>path.
           useq (uint_of (C_close fd))
          (ubind (uint_of (C_chdir (lit ''..''))) (\<lambda>r.
           if r < 0 then uret None else uret (Some (path, False))))))))"

lemma pwd_round_less: "pwd_round path e = UOk r t \<Longrightarrow> length (u_res t) < length (u_res e)"
proof -
  assume run: "pwd_round path e = UOk r t"
  define k where "k = (\<lambda>fd. if fd < 0 then uret (- 1, [])
     else ubind (ufill (C_fstat fd) 20) (\<lambda>r. useq (uint_of (C_close fd)) (uret r)))"
  obtain fd u where fd: "uint_of (C_open (lit ''.'') 0) e = UOk fd u"
    using run by (auto simp: pwd_round_def ustat_def ubind_def split: uout.splits)
  define m where "m = ubind (k fd) (\<lambda>(r, st).
     if r < 0 then uret None
     else
       ubind (ustat (lit ''..'')) (\<lambda>(r, parent_st).
       if r < 0 then uret None
       else if same_inode st parent_st then uret (Some (path, True))
       else
         ubind (uint_of (C_open (lit ''..'') 0)) (\<lambda>fd.
         if fd < 0 then uret None
         else
           ubind (pwd_scan fd path st) (\<lambda>path.
           useq (uint_of (C_close fd))
          (ubind (uint_of (C_chdir (lit ''..''))) (\<lambda>r.
           if r < 0 then uret None else uret (Some (path, False))))))))"
  have "ule m" unfolding m_def k_def by (intro ukeep)
  moreover have "m u = UOk r t"
    using run fd unfolding pwd_round_def ustat_def [of "lit ''.''"] m_def k_def by (simp add: ubind_def)
  ultimately show ?thesis using uint_of_less [OF fd] unfolding ukeeps_def by (meson le_less_trans)
qed

function pwd_loop :: "uchar list \<Rightarrow> uchar list option U" where
  "pwd_loop path e =
     ubind (pwd_round path) (\<lambda>r t. case r of
         None \<Rightarrow> uret None t
       | Some q \<Rightarrow> if snd q then uret (Some (fst q)) t else pwd_loop (fst q) t) e"
  by pat_completeness auto
termination
  by (relation "measure (\<lambda>(path, e). length (u_res e))") (auto dest!: pwd_round_less)

declare pwd_loop.simps [simp del]

definition pwd :: "unit U" where
  "pwd = ubind (pwd_loop []) (\<lambda>r. case r of None \<Rightarrow> uret () | Some path \<Rightarrow> print_path path)"

definition pwd_main :: "unit U" where
  "pwd_main = useq pwd uexit"


section \<open>ps\<close>

text \<open>The entries that \<^verbatim>\<open>getprocs\<close> stores, 24 bytes each.\<close>

definition up_pid :: "uchar list \<Rightarrow> int" where "up_pid b = sint (rd32 b 0)"
definition up_name :: "uchar list \<Rightarrow> uchar list" where "up_name b = slice b 4 16"
definition up_state :: "uchar list \<Rightarrow> int" where "up_state b = sint (rd32 b 20)"

definition state_name :: "int \<Rightarrow> string" where
  "state_name st =
     (if st = 1 then ''EMBRYO   '' else if st = 2 then ''SLEEPING '' else if st = 3 then ''RUNNABLE ''
      else if st = 4 then ''RUNNING  '' else if st = 5 then ''ZOMBIE   '' else ''?        '')"

record pscount =
  pc_runnable :: int
  pc_running :: int
  pc_sleeping :: int
  pc_next :: "int \<times> int"

definition ps_count :: "int \<Rightarrow> pscount \<Rightarrow> pscount" where
  "ps_count st k =
     (if st = 3 then k\<lparr>pc_runnable := pc_runnable k + 1\<rparr>
      else if st = 4 then k\<lparr>pc_running := pc_running k + 1\<rparr>
      else if st = 2 then k\<lparr>pc_sleeping := pc_sleeping k + 1\<rparr>
      else k)"

text \<open>The runnable process with the best priority so far.\<close>

definition ps_note :: "int \<Rightarrow> int \<Rightarrow> int \<Rightarrow> int \<times> int \<Rightarrow> int \<times> int" where
  "ps_note st pid prio nx = (if st = 3 \<and> prio < snd nx then (pid, prio) else nx)"

definition tab :: char where "tab = CHR 0x09"

definition ps_entry :: "uchar list \<Rightarrow> pscount \<Rightarrow> pscount U" where
  "ps_entry b k =
     (if up_state b = 0 then uret k
      else
        (let k = ps_count (up_state b) k; nm = str_arg (lit (state_name (up_state b))) in
         ubind (ufill (C_getstats (up_pid b)) 20) (\<lambda>(r, st).
         if r = 0 then
           useq (uprintf 1 (''%d'' @ [tab] @ ''%s'' @ [tab] @ ''%s'' @ [tab] @ ''%d'' @ [tab] @ ''%d'' @ [tab]
                   @ ''%d'' @ [tab] @ ''%d'' @ newline)
                  [ArgU (of_int (up_pid b)), ArgS (Some (up_name b)), nm, ArgU (rd32 st 4), ArgU (rd32 st 8),
                   ArgU (rd32 st 12), ArgU (rd32 st 16)])
                (uret (k\<lparr>pc_next := ps_note (up_state b) (up_pid b) (sint (rd32 st 4)) (pc_next k)\<rparr>))
         else
           useq (uprintf 1 (''%d'' @ [tab] @ ''%s'' @ [tab] @ ''%s'' @ [tab] @ ''?'' @ [tab] @ ''?'' @ [tab]
                   @ ''?'' @ [tab] @ ''?'' @ newline)
                  [ArgU (of_int (up_pid b)), ArgS (Some (up_name b)), nm])
                (uret k))))"

fun ps_loop :: "uchar list \<Rightarrow> nat \<Rightarrow> pscount \<Rightarrow> pscount U" where
  "ps_loop bs 0 k = uret k"
| "ps_loop bs (Suc n) k = ubind (ps_entry (take 24 bs) k) (\<lambda>k. ps_loop (drop 24 bs) n k)"

definition ps_main :: "unit U" where
  "ps_main =
     useq (uprintf 1 (''PID'' @ [tab] @ ''Name'' @ [tab] @ ''State'' @ [tab, tab] @ ''Prio'' @ [tab] @ ''Wait'' @ [tab]
             @ ''Run'' @ [tab] @ ''Total'' @ newline) [])
    (useq (uprintf 1 (''---'' @ [tab] @ ''----'' @ [tab] @ ''-----'' @ [tab, tab] @ ''----'' @ [tab] @ ''----'' @ [tab]
             @ ''---'' @ [tab] @ ''-----'' @ newline) [])
    (ubind (usys (C_getprocs 64)) (\<lambda>(n, bs).
     if n > 64 \<or> length bs \<noteq> 24 * nat n then uundef
     else
       ubind (ps_loop bs (nat n) \<lparr>pc_runnable = 0, pc_running = 0, pc_sleeping = 0, pc_next = (- 1, 32)\<rparr>) (\<lambda>k.
       useq (uprintf 1 (newline @ ''=== QUEUE SUMMARY ==='' @ newline) [])
      (useq (uprintf 1 (''RUNNING:    %d process(es)'' @ newline) [ArgU (of_int (pc_running k))])
      (useq (uprintf 1 ''RUNNABLE:   %d process(es) in ready queue'' [ArgU (of_int (pc_runnable k))])
      (useq (uwhen (fst (pc_next k) \<noteq> - 1)
               (uprintf 1 '' - Next: PID %d (Prio %d)'' [ArgU (of_int (fst (pc_next k))), ArgU (of_int (snd (pc_next k)))]))
      (useq (uprintf 1 newline [])
      (useq (uprintf 1 (''SLEEPING:   %d process(es)'' @ newline) [ArgU (of_int (pc_sleeping k))])
             uexit)))))))))"

section \<open>history\<close>

text \<open>The whole lines of a chunk, each printed with its number; the rest of the chunk is forgotten.\<close>

fun history_chunk :: "uchar list \<Rightarrow> uchar list \<Rightarrow> int \<Rightarrow> int U" where
  "history_chunk line [] idx = uret idx"
| "history_chunk line (b # bs) idx =
     (if b = 10 then
        useq (uprintf 1 (''%d %s'' @ newline) [ArgU (of_int idx), str_arg line]) (history_chunk [] bs (idx + 1))
      else history_chunk (line @ [b]) bs idx)"

lemma history_chunk_le: "history_chunk line bs idx e = UOk r t \<Longrightarrow> length (u_res t) \<le> length (u_res e)"
proof -
  have "ule (history_chunk line bs idx)"
    by (induction line bs idx rule: history_chunk.induct) (auto simp del: uprintf.simps intro!: ukeep)
  then show "history_chunk line bs idx e = UOk r t \<Longrightarrow> length (u_res t) \<le> length (u_res e)" unfolding ukeeps_def by blast
qed

function history_loop :: "int \<Rightarrow> int \<Rightarrow> unit U" where
  "history_loop fd idx e =
     ubind (uread fd 100) (\<lambda>(n, bs) t.
       if n > 0 then ubind (history_chunk [] bs idx) (\<lambda>idx u. history_loop fd idx u) t
       else uret () t) e"
  by pat_completeness auto
termination
  by (relation "measure (\<lambda>(fd, idx, e). length (u_res e))") (auto dest!: uread_less history_chunk_le)

declare history_loop.simps [simp del]

definition print_history :: "unit U" where
  "print_history =
     ubind (uint_of (C_open (lit ''/.history'') 0)) (\<lambda>fd.
     if fd < 0 then uprintf 2 (''No history yet'' @ newline) []
     else useq (history_loop fd 1) (useq (uint_of (C_close fd)) (uret ())))"

definition history_main :: "unit U" where
  "history_main = useq print_history uexit"


section \<open>The small tools\<close>

fun kill_args :: "uchar list list \<Rightarrow> unit U" where
  "kill_args [] = uexit"
| "kill_args (a # as) = ubind (uopt (atoi (a @ [0]))) (\<lambda>pid. useq (uint_of (C_kill pid)) (kill_args as))"

definition kill_main :: "uchar list list \<Rightarrow> unit U" where
  "kill_main argv =
     (if length argv < 2 then useq (uprintf 2 (''usage: kill pid...'' @ newline) []) uexit else kill_args (tl argv))"

fun rm_args :: "uchar list list \<Rightarrow> unit U" where
  "rm_args [] = uexit"
| "rm_args (a # as) =
     ubind (uint_of (C_unlink a)) (\<lambda>r.
     if r < 0 then useq (uprintf 2 (''rm: %s failed to delete'' @ newline) [str_arg a]) uexit
     else rm_args as)"

definition rm_main :: "uchar list list \<Rightarrow> unit U" where
  "rm_main argv =
     (if length argv < 2 then useq (uprintf 2 (''Usage: rm files...'' @ newline) []) uexit else rm_args (tl argv))"

fun mkdir_args :: "uchar list list \<Rightarrow> unit U" where
  "mkdir_args [] = uexit"
| "mkdir_args (a # as) =
     ubind (uint_of (C_mkdir a)) (\<lambda>r.
     if r < 0 then useq (uprintf 2 (''mkdir: %s failed to create'' @ newline) [str_arg a]) uexit
     else mkdir_args as)"

definition mkdir_main :: "uchar list list \<Rightarrow> unit U" where
  "mkdir_main argv =
     (if length argv < 2 then useq (uprintf 2 (''Usage: mkdir files...'' @ newline) []) uexit else mkdir_args (tl argv))"

definition ln_main :: "uchar list list \<Rightarrow> unit U" where
  "ln_main argv =
     (if length argv \<noteq> 3 then useq (uprintf 2 (''Usage: ln old new'' @ newline) []) uexit
      else
        ubind (uint_of (C_link (argv ! 1) (argv ! 2))) (\<lambda>r.
        useq (uwhen (r < 0) (uprintf 2 (''link %s %s: failed'' @ newline) [str_arg (argv ! 1), str_arg (argv ! 2)]))
             uexit))"

fun echo_args :: "uchar list list \<Rightarrow> unit U" where
  "echo_args [] = uexit"
| "echo_args (a # as) =
     useq (uprintf 1 ''%s%s'' [str_arg a, str_arg (if as \<noteq> [] then lit '' '' else lit newline)]) (echo_args as)"

definition echo_main :: "uchar list list \<Rightarrow> unit U" where
  "echo_main argv = echo_args (tl argv)"

definition clear_main :: "unit U" where
  "clear_main = useq (uprintf 1 ([CHR 0x1B] @ ''[2J'' @ [CHR 0x1B] @ ''[H'') []) uexit"

definition wolfietest_main :: "unit U" where
  "wolfietest_main =
     ubind (usys (C_wolfie 512)) (\<lambda>(n, bs).
     if n < 0 then useq (uprintf 1 (''wolfie failed'' @ newline) []) uexit
     else useq (uprintf 1 ''%s'' [ArgS (Some bs)]) uexit)"

definition zombie_main :: "unit U" where
  "zombie_main =
     ubind (uint_of C_fork) (\<lambda>pid.
     if pid > 0 then useq (uint_of (C_sleep 5)) uexit else uexit)"

definition setprioritytest_main :: "uchar list list \<Rightarrow> unit U" where
  "setprioritytest_main argv =
     (if length argv \<noteq> 3 then useq (uprintf 2 (''Usage: setpriority_test <pid> <priority>'' @ newline) []) uexit
      else
        ubind (uopt (atoi (argv ! 1 @ [0]))) (\<lambda>pid.
        ubind (uopt (atoi (argv ! 2 @ [0]))) (\<lambda>priority.
        ubind (uint_of (C_setpriority pid priority)) (\<lambda>r.
        if r < 0 then useq (uprintf 2 (''setpriority failed'' @ newline) []) uexit
        else
          useq (uprintf 1 (''Priority of process %d set to %d'' @ newline) [ArgU (of_int pid), ArgU (of_int priority)])
                uexit))))"

definition print_test_message :: "int \<Rightarrow> int \<Rightarrow> unit U" where
  "print_test_message pid prio =
     uprintf 1 (''Process %d with priority %d is running.'' @ newline) [ArgU (of_int pid), ArgU (of_int prio)]"

text \<open>A child of \<^verbatim>\<open>priority_test\<close>.\<close>

definition priority_child :: "int \<Rightarrow> unit U" where
  "priority_child prio =
     ubind (uint_of C_getpid) (\<lambda>pid.
     useq (uint_of (C_setpriority pid prio))
    (ubind (uint_of C_getpid) (\<lambda>pid.
     useq (print_test_message pid prio) uexit)))"

definition priority_test_main :: "unit U" where
  "priority_test_main =
     ubind (uint_of C_fork) (\<lambda>pid1.
     useq (uwhen (pid1 = 0) (priority_child 5))
    (useq (uwhen (pid1 > 0)
       (ubind (uint_of C_fork) (\<lambda>pid2. uwhen (pid2 = 0) (priority_child 10))))
    (useq (uint_of C_wait)
    (useq (uint_of C_wait)
    (useq (uprintf 1 (''Priority test complete.'' @ newline) [])
           uexit)))))"

section \<open>getstatstest\<close>

definition print_single_stats :: "uchar list \<Rightarrow> unit U" where
  "print_single_stats st =
     uprintf 1 (''Prio=%d Wait=%d Run=%d Total=%d'' @ newline)
       [ArgU (rd32 st 4), ArgU (rd32 st 8), ArgU (rd32 st 12), ArgU (rd32 st 16)]"

text \<open>The differences wrap around like the int subtractions that compute them on this machine.\<close>

definition print_update :: "nat \<Rightarrow> uchar list \<Rightarrow> uchar list \<Rightarrow> unit U" where
  "print_update count prev st =
     (let dw = rd32 st 8 - rd32 prev 8; dr = rd32 st 12 - rd32 prev 12 in
      useq (uprintf 1 ''Update %d: Prio=%d Wait=%d(+%d) Run=%d(+%d) Total=%d''
             [ArgU (of_nat count), ArgU (rd32 st 4), ArgU (rd32 st 8), ArgU dw, ArgU (rd32 st 12), ArgU dr, ArgU (rd32 st 16)])
     (useq (if sint dr > 0 then uprintf 1 '' [RUNNING]'' [] else if sint dw > 0 then uprintf 1 '' [WAITING]'' []
            else uprintf 1 '' [SLEEPING]'' [])
           (uprintf 1 '' > '' [])))"

text \<open>The loop with the rounds that are left; the result is the number of updates.\<close>

fun stats_loop :: "nat \<Rightarrow> int \<Rightarrow> nat \<Rightarrow> uchar list \<Rightarrow> uchar list \<Rightarrow> nat U" where
  "stats_loop 0 pid count prev buffer = uret count"
| "stats_loop (Suc n) pid count prev buffer =
     ubind (ufill (C_getstats pid) 20) (\<lambda>(r, st).
     if r < 0 then
       useq (uprintf 2 (newline @ ''Process %d no longer exists'' @ newline) [ArgU (of_int pid)]) (uret count)
     else
       useq (print_update count prev st)
      (ubind (gets buffer 10) (\<lambda>buffer.
       if buffer ! 0 = of_char CHR ''q'' \<or> buffer ! 0 = of_char CHR ''Q'' then
         useq (uprintf 1 (''Stopping monitoring...'' @ newline) []) (uret (Suc count))
       else stats_loop n pid (Suc count) st buffer)))"

definition print_continuous_stats :: "int \<Rightarrow> unit U" where
  "print_continuous_stats pid =
     ubind (ufill (C_getstats pid) 20) (\<lambda>(r, prev).
     if r < 0 then uprintf 2 (''Process %d not found'' @ newline) [ArgU (of_int pid)]
     else
       ubind (stats_loop 100 pid 0 prev (replicate 10 0)) (\<lambda>count.
       uwhen (count \<ge> 100) (uprintf 1 (''Auto-stopped after 100 updates'' @ newline) [])))"

definition print_usage :: "uchar list \<Rightarrow> unit U" where
  "print_usage name =
     useq (uprintf 2 (''Usage:'' @ newline) [])
    (useq (uprintf 2 (''  %s <pid>               - Show statistics'' @ newline) [str_arg name])
    (useq (uprintf 2 (''  %s -c <pid>            - Continuous monitoring'' @ newline) [str_arg name])
    (useq (uprintf 2 (newline @ ''Examples:'' @ newline) [])
    (useq (uprintf 2 (''  %s 1        # Show stats for process 1'' @ newline) [str_arg name])
    (useq (uprintf 2 (''  %s -c 1     # Monitor process 1 continuously'' @ newline) [str_arg name])
    (useq (uprintf 2 (newline @ ''In continuous mode:'' @ newline) [])
    (useq (uprintf 2 (''  - Press '' @ [CHR 0x27] @ ''q'' @ [CHR 0x27] @ ''+enter to stop monitoring'' @ newline) [])
    (useq (uprintf 2 (''  - Press enter to continue'' @ newline) [])
          (uprintf 2 (''  - Auto-stops after 100 updates'' @ newline) [])))))))))"

definition getstatstest_main :: "uchar list list \<Rightarrow> unit U" where
  "getstatstest_main argv =
     (if length argv < 2 then useq (print_usage (hd argv)) uexit
      else if argv ! 1 = lit ''-c'' then
        if length argv < 3 then
          useq (uprintf 2 (''Error: PID required for continuous mode'' @ newline) []) (useq (print_usage (hd argv)) uexit)
        else ubind (uopt (atoi (argv ! 2 @ [0]))) (\<lambda>pid. useq (print_continuous_stats pid) uexit)
      else
        ubind (uopt (atoi (argv ! 1 @ [0]))) (\<lambda>pid.
        ubind (ufill (C_getstats pid) 20) (\<lambda>(r, st).
        if r < 0 then useq (uprintf 2 (''getstats failed: process %d not found'' @ newline) [ArgU (of_int pid)]) uexit
        else useq (print_single_stats st) uexit)))"

section \<open>init\<close>

text \<open>Waiting for the shell; other children are reported.\<close>

function init_wait :: "int \<Rightarrow> unit U" where
  "init_wait pid e =
     ubind (uint_of C_wait) (\<lambda>wpid t.
       if wpid \<ge> 0 \<and> wpid \<noteq> pid then ubind (uprintf 1 (''zombie!'' @ newline) []) (\<lambda>_ u. init_wait pid u) t
       else uret () t) e"
  by pat_completeness auto
termination
proof (relation "measure (\<lambda>(pid, e). length (u_res e))")
  fix pid e wpid t x u
  assume a: "uint_of C_wait e = UOk wpid t" "uprintf 1 (''zombie!'' @ newline) [] t = UOk x u"
  have "length (u_res u) \<le> length (u_res t)" using a(2) ule_uprintf unfolding ukeeps_def by blast
  then show "((pid, u), pid, e) \<in> measure (\<lambda>(pid, e). length (u_res e))" using uint_of_less [OF a(1)] by simp
qed auto

declare init_wait.simps [simp del]

lemma init_wait_le: "init_wait pid e = UOk r t \<Longrightarrow> length (u_res t) \<le> length (u_res e)"
proof (induction pid e arbitrary: r t rule: init_wait.induct)
  case (1 pid e)
  obtain w u where w: "uint_of C_wait e = UOk w u"
    using "1.prems" by (subst (asm) init_wait.simps) (auto simp: ubind_def split: uout.splits)
  note l = uint_of_less [OF w]
  show ?case
  proof (cases "w \<ge> 0 \<and> w \<noteq> pid")
    case True
    obtain x v where x: "uprintf 1 (''zombie!'' @ newline) [] u = UOk x v" "init_wait pid v = UOk r t"
      using "1.prems" True w by (subst (asm) init_wait.simps) (auto simp: ubind_def simp del: uprintf.simps split: uout.splits)
    have "length (u_res v) \<le> length (u_res u)" using x(1) ule_uprintf unfolding ukeeps_def by blast
    then show ?thesis using "1.IH" [OF w True x(1) x(2)] l by simp
  next
    case False
    then show ?thesis using "1.prems" w l by (subst (asm) init_wait.simps) (auto simp: ubind_def uret_def simp del: uprintf.simps split: if_splits)
  qed
qed

text \<open>One round of the loop that keeps a shell running.\<close>

definition init_round :: "unit U" where
  "init_round =
     useq (uprintf 1 (''init: starting sh'' @ newline) [])
    (ubind (uint_of C_fork) (\<lambda>pid.
     if pid < 0 then useq (uprintf 1 (''init: fork failed'' @ newline) []) uexit
     else if pid = 0 then
       useq (uexec (lit ''sh'') [lit ''sh'']) (useq (uprintf 1 (''init: exec sh failed'' @ newline) []) uexit)
     else init_wait pid))"

lemma init_round_less: "init_round e = UOk r t \<Longrightarrow> length (u_res t) < length (u_res e)"
proof -
  have "ule (init_wait pid)" for pid by (simp add: ukeeps_def init_wait_le)
  moreover have "ule (uexec p a)" for p a unfolding uexec_def by (intro ukeep)
  ultimately show "init_round e = UOk r t \<Longrightarrow> length (u_res t) < length (u_res e)"
    unfolding init_round_def append.simps
    by (elim uless_seq [rotated 2]) (erule uprintf_less [rotated], simp, intro ukeep)
qed

function init_loop :: "unit U" where
  "init_loop e = ubind init_round (\<lambda>_ t. init_loop t) e"
  by pat_completeness auto
termination
  by (relation "measure (\<lambda>e. length (u_res e))") (auto dest!: init_round_less)

declare init_loop.simps [simp del]

definition init_main :: "unit U" where
  "init_main =
     ubind (uint_of (C_open (lit ''console'') 2)) (\<lambda>fd.
     useq (uwhen (fd < 0)
       (useq (uint_of (C_mknod (lit ''console'') 1 1)) (useq (uint_of (C_open (lit ''console'') 2)) (uret ()))))
    (useq (uint_of (C_dup 0))
    (useq (uint_of (C_dup 0))
           init_loop)))"

section \<open>forktest\<close>

text \<open>Its own \<^verbatim>\<open>printf\<close> writes the format as it is.\<close>

definition forktest_printf :: "int \<Rightarrow> string \<Rightarrow> unit U" where
  "forktest_printf fd s = useq (uwrite fd (lit s)) (uret ())"

text \<open>The loop that forks, with the rounds that are left; the result is the number of children.\<close>

fun forktest_fork :: "nat \<Rightarrow> nat \<Rightarrow> nat U" where
  "forktest_fork 0 n = uret n"
| "forktest_fork (Suc k) n =
     ubind (uint_of C_fork) (\<lambda>pid.
     if pid < 0 then uret n
     else if pid = 0 then uexit
     else forktest_fork k (Suc n))"

fun forktest_wait :: "nat \<Rightarrow> unit U" where
  "forktest_wait 0 = uret ()"
| "forktest_wait (Suc n) =
     ubind (uint_of C_wait) (\<lambda>r.
     if r < 0 then useq (forktest_printf 1 (''wait stopped early'' @ newline)) uexit
     else forktest_wait n)"

definition forktest :: "unit U" where
  "forktest =
     useq (forktest_printf 1 (''fork test'' @ newline))
    (ubind (forktest_fork 1000 0) (\<lambda>n.
     if n = 1000 then useq (forktest_printf 1 (''fork claimed to work N times!'' @ newline)) uexit
     else
       useq (forktest_wait n)
      (ubind (uint_of C_wait) (\<lambda>r.
       if r \<noteq> - 1 then useq (forktest_printf 1 (''wait got too many'' @ newline)) uexit
       else forktest_printf 1 (''fork test OK'' @ newline)))))"

definition forktest_main :: "unit U" where
  "forktest_main = useq forktest uexit"

section \<open>stressfs\<close>

text \<open>The number of the process: the first round in which the fork gives a child.\<close>

fun stressfs_fork :: "nat \<Rightarrow> nat \<Rightarrow> nat U" where
  "stressfs_fork 0 i = uret i"
| "stressfs_fork (Suc k) i =
     ubind (uint_of C_fork) (\<lambda>pid. if pid > 0 then uret i else stressfs_fork k (Suc i))"

fun urepeat :: "nat \<Rightarrow> 'a U \<Rightarrow> unit U" where
  "urepeat 0 m = uret ()"
| "urepeat (Suc n) m = useq m (urepeat n m)"

definition stressfs_main :: "unit U" where
  "stressfs_main =
     useq (uprintf 1 (''stressfs starting'' @ newline) [])
    (ubind (stressfs_fork 4 0) (\<lambda>i.
     useq (uprintf 1 (''write %d'' @ newline) [ArgU (of_nat i)])
    (let path = (lit ''stressfs0'')[8 := of_char CHR ''0'' + of_nat i] in
     ubind (uint_of (C_open path 0x202)) (\<lambda>fd.
     useq (urepeat 20 (uwrite fd (replicate 512 (of_char CHR ''a''))))
    (useq (uint_of (C_close fd))
    (useq (uprintf 1 (''read'' @ newline) [])
    (ubind (uint_of (C_open path 0)) (\<lambda>fd.
     useq (urepeat 20 (uread fd 512))
    (useq (uint_of (C_close fd))
    (useq (uint_of C_wait)
           uexit))))))))))"

end
