(* ===== verification/Uprogs_Inv.thy ===== *)
theory Uprogs_Inv
  imports Uprogs Proc_Inv Log_Inv
begin

text \<open>
  What the programs compute: \<^verbatim>\<open>cat\<close> copies, \<^verbatim>\<open>wc\<close> counts, and \<^verbatim>\<open>ps\<close> finds the process that the scheduler would choose.
\<close>

section \<open>cat copies its input\<close>

text \<open>The results of the calls when every chunk is read and then written in full.\<close>

definition copied :: "uchar list list \<Rightarrow> uresult list" where
  "copied cs = concat (map (\<lambda>c. [(int (length c), c), (int (length c), [])]) cs) @ [(0, [])]"

definition copying :: "int \<Rightarrow> uchar list list \<Rightarrow> ucall list" where
  "copying fd cs = concat (map (\<lambda>c. [C_read fd 512, C_write 1 c]) cs) @ [C_read fd 512]"

definition chunks :: "uchar list list \<Rightarrow> bool" where
  "chunks cs \<longleftrightarrow> (\<forall>c \<in> set cs. c \<noteq> [] \<and> length c \<le> 512)"

lemma uread_run:
  "u_res e = (int (length c), c) # rs \<Longrightarrow> int (length c) \<le> n \<Longrightarrow>
    uread fd n e = UOk (int (length c), c) \<lparr>u_res = rs, u_calls = u_calls e @ [C_read fd n]\<rparr>"
  by (simp add: uread_def ubind_def usys_def)

lemma cat_run:
  "chunks cs \<Longrightarrow> u_res e = copied cs @ rs \<Longrightarrow> cat fd e = UOk () \<lparr>u_res = rs, u_calls = u_calls e @ copying fd cs\<rparr>"
proof (induction cs arbitrary: e)
  case Nil
  then show ?case using uread_run [of e "[]"] by (subst cat.simps) (simp add: ubind_def copied_def copying_def)
next
  case (Cons c cs)
  let ?t = "\<lparr>u_res = (int (length c), []) # copied cs @ rs, u_calls = u_calls e @ [C_read fd 512]\<rparr>"
  let ?u = "\<lparr>u_res = copied cs @ rs, u_calls = u_calls e @ [C_read fd 512, C_write 1 c]\<rparr>"
  have c: "c \<noteq> []" "length c \<le> 512" "chunks cs" using Cons.prems(1) by (auto simp: chunks_def)
  have "uread fd 512 e = UOk (int (length c), c) ?t"
    using Cons.prems(2) c by (subst uread_run) (simp_all add: copied_def)
  moreover have "uwrite 1 c ?t = UOk (int (length c)) ?u" by (simp add: uwrite_def uint_of_run)
  moreover have "cat fd ?u = UOk () \<lparr>u_res = rs, u_calls = u_calls ?u @ copying fd cs\<rparr>"
    using c(3) by (rule Cons.IH) simp
  ultimately show ?case using c(1) by (subst cat.simps) (simp add: ubind_def copying_def)
qed

lemma cstr_snoc [simp]: "0 \<notin> set s \<Longrightarrow> cstr (s @ [0]) = s"
  by (induction s) (auto simp: cstr_def)

section \<open>wc counts\<close>

definition newlines :: "uchar list \<Rightarrow> nat" where
  "newlines bs = length (filter (\<lambda>b. b = 10) bs)"

text \<open>A word starts where a character that is not white comes first or after a white one.\<close>

definition word_starts :: "uchar list \<Rightarrow> nat" where
  "word_starts bs = length (filter (\<lambda>i. \<not> wc_white (bs ! i) \<and> (i = 0 \<or> wc_white (bs ! (i - 1)))) [0..<length bs])"

definition in_word :: "uchar list \<Rightarrow> bool" where
  "in_word bs \<longleftrightarrow> bs \<noteq> [] \<and> \<not> wc_white (last bs)"

lemma word_starts_snoc:
  "word_starts (bs @ [b]) = word_starts bs + (if \<not> wc_white b \<and> \<not> in_word bs then 1 else 0)"
proof -
  let ?P = "\<lambda>bs i. \<not> wc_white (bs ! i) \<and> (i = 0 \<or> wc_white (bs ! (i - 1)))"
  have "filter (?P (bs @ [b])) [0..<length bs] = filter (?P bs) [0..<length bs]"
    by (intro filter_cong) (auto simp: nth_append)
  then show ?thesis by (cases "bs = []") (auto simp: word_starts_def in_word_def nth_append last_conv_nth)
qed

lemma wc_steps:
  "foldl wc_step (0, 0, 0, False) bs = (int (newlines bs), int (word_starts bs), int (length bs), in_word bs)"
proof (induction bs rule: rev_induct)
  case (snoc b bs)
  then show ?case
    by (simp add: wc_step_def Let_def word_starts_snoc) (auto simp: newlines_def in_word_def)
qed (simp add: newlines_def word_starts_def in_word_def)

lemma wc_loop_run:
  "chunks cs \<Longrightarrow> u_res e = map (\<lambda>c. (int (length c), c)) cs @ (0, []) # rs \<Longrightarrow>
    wc_loop fd st e = UOk (case foldl wc_step st (concat cs) of (l, w, c, _) \<Rightarrow> (l, w, c))
      \<lparr>u_res = rs, u_calls = u_calls e @ replicate (Suc (length cs)) (C_read fd 512)\<rparr>"
proof (induction cs arbitrary: st e)
  case Nil
  then show ?case using uread_run [of e "[]"] by (subst wc_loop.simps) (simp add: ubind_def)
next
  case (Cons c cs)
  let ?t = "\<lparr>u_res = map (\<lambda>c. (int (length c), c)) cs @ (0, []) # rs, u_calls = u_calls e @ [C_read fd 512]\<rparr>"
  have c: "c \<noteq> []" "length c \<le> 512" "chunks cs" using Cons.prems(1) by (auto simp: chunks_def)
  have "uread fd 512 e = UOk (int (length c), c) ?t" using Cons.prems(2) c by (subst uread_run) simp_all
  moreover note Cons.IH [OF c(3), of ?t "foldl wc_step st c"]
  ultimately show ?case using c(1) by (subst wc_loop.simps) (simp add: ubind_def)
qed

text \<open>
  C27: \<^verbatim>\<open>wc\<close> counts the file and not the reads: however the data come in chunks, it prints the number of newline
  characters, of words (white space before, or the start of the file) and of bytes of the whole data, in decimal, and the name.
\<close>

theorem wc_counts:
  assumes "chunks cs" "length (concat cs) < 2 ^ 31" "0 \<notin> set name"
    and "u_res e = map (\<lambda>c. (int (length c), c)) cs @ (0, []) # rs"
    and "out = udecimal (int (newlines (concat cs))) @ 32 # udecimal (int (word_starts (concat cs))) @ 32
           # udecimal (int (length (concat cs))) @ 32 # name @ [10]"
    and "length out \<le> length rs"
  shows "wc fd name e = UOk () \<lparr>u_res = drop (length out) rs,
    u_calls = u_calls e @ replicate (Suc (length cs)) (C_read fd 512) @ map (\<lambda>b. C_write 1 [b]) out\<rparr>"
proof -
  let ?d = "concat cs"
  let ?t = "\<lparr>u_res = rs, u_calls = u_calls e @ replicate (Suc (length cs)) (C_read fd 512)\<rparr>"
  let ?args = "[ArgU (of_int (int (newlines ?d))), ArgU (of_int (int (word_starts ?d))), ArgU (of_int (int (length ?d))), str_arg name]"
  have le: "newlines ?d \<le> length ?d" "word_starts ?d \<le> length ?d"
    unfolding newlines_def word_starts_def using length_filter_le [of _ "[0..<length ?d]"] by auto
  then have "sint (of_int (int (newlines ?d)) :: uint) = int (newlines ?d)" "sint (of_int (int (word_starts ?d)) :: uint) = int (word_starts ?d)"
    "sint (of_int (int (length ?d)) :: uint) = int (length ?d)"
    using assms(2) sint_of_nat by (simp_all add: sint_of_nat)
  then have "uformat (''%d %d %d %s'' @ newline) ?args = Some out"
    using assms(3,5) by simp
  then have "uprintf 1 (''%d %d %d %s'' @ newline) ?args ?t = UOk () (putting 1 out ?t)"
    using assms(6) by (intro uprintf_run) simp_all
  then show ?thesis
    using wc_loop_run [OF assms(1,4), of fd "(0, 0, 0, False)"] unfolding wc_def
    by (simp add: ubind_def wc_steps putting_def del: uprintf.simps)
qed


lemma udecimal_digit: "n < 10 \<Longrightarrow> udecimal (int n) = [udigit n]"
  by (simp add: udecimal_def unumeral_def digs.simps)

theorem wc_counts_witness:
  "wc 3 (lit ''f'') \<lparr>u_res = [(5, lit ''hey d''), (3, [117, 10, 97]), (0, [])] @ replicate 9 (1, []), u_calls = []\<rparr>
   = UOk () \<lparr>u_res = [(1, [])], u_calls = [C_read 3 512, C_read 3 512, C_read 3 512] @ map (\<lambda>b. C_write 1 [b]) (lit ''1 3 8 f'' @ [10])\<rparr>"
proof -
  let ?cs = "[lit ''hey d'', [117, 10, 97]] :: uchar list list"
  let ?out = "lit ''1 3 8 f'' @ [10]"
  let ?e = "\<lparr>u_res = [(5, lit ''hey d''), (3, [117, 10, 97]), (0, [])] @ replicate 9 (1, []), u_calls = []\<rparr>"
  have n: "word_starts (concat ?cs) = 3" "newlines (concat ?cs) = 1" "length (concat ?cs) = 8"
    by (simp_all add: word_starts_def wc_white_def newlines_def lit_def upt_rec)
  have "chunks ?cs" "length (concat ?cs) < 2 ^ 31" "0 \<notin> set (lit ''f'')"
    by (simp_all add: chunks_def lit_def)
  moreover have "u_res ?e = map (\<lambda>c. (int (length c), c)) ?cs @ (0, []) # replicate 9 (1, [])" by (simp add: lit_def)
  moreover have "?out = udecimal (int (newlines (concat ?cs))) @ 32 # udecimal (int (word_starts (concat ?cs))) @ 32
      # udecimal (int (length (concat ?cs))) @ 32 # lit ''f'' @ [10]"
    unfolding n using udecimal_digit [of 1] udecimal_digit [of 3] udecimal_digit [of 8] by (simp add: udigit_def lit_def)
  moreover have "length ?out \<le> length (replicate 9 (1, []))" by (simp add: lit_def)
  ultimately have "wc 3 (lit ''f'') ?e = UOk () \<lparr>u_res = drop (length ?out) (replicate 9 (1, [])),
    u_calls = u_calls ?e @ replicate (Suc (length ?cs)) (C_read 3 512) @ map (\<lambda>b. C_write 1 [b]) ?out\<rparr>"
    by (rule wc_counts)
  then show ?thesis by (simp add: lit_def)
qed

section \<open>ps and the scheduler\<close>

lemma rd32_append: "rd32 (a @ b) (length a + n) = rd32 b n"
  by (simp add: rd32_def nth_append)

lemma rd32_word_bytes: "rd32 (word_bytes w @ b) 0 = w"
  by (simp add: rd32_def word_bytes_def word_of_bytes)

definition snapshot_ok :: "proc \<times> uchar list \<Rightarrow> bool" where
  "snapshot_ok = (\<lambda>(p, nm). p_state p \<noteq> UNUSED \<and> 0 \<le> p_pid p \<and> p_pid p < 2 ^ 31
     \<and> 0 \<le> p_priority p \<and> p_priority p < 32 \<and> length nm = 16 \<and> 0 \<in> set nm)"

definition ps_line :: "uint \<Rightarrow> proc \<times> uchar list \<Rightarrow> uchar list" where
  "ps_line now = (\<lambda>(p, nm). udecimal (p_pid p) @ 9 # cstr nm @ 9 # lit (state_name (sint (state_num (p_state p))))
     @ 9 # udecimal (p_priority p) @ 9 # udecimal (sint (p_wait_time p)) @ 9 # udecimal (sint (p_run_time p))
     @ 9 # udecimal (sint (ps_turnaround_time (pstat_of now p))) @ [10])"

text \<open>The results of the calls for one process: its statistics, and what the writes return.\<close>

definition ps_results :: "uint \<Rightarrow> proc \<times> uchar list \<Rightarrow> uresult list" where
  "ps_results now x = (0, pstat_bytes (pstat_of now (fst x))) # replicate (length (ps_line now x)) (1, [])"

definition ps_calls :: "uint \<Rightarrow> proc \<times> uchar list \<Rightarrow> ucall list" where
  "ps_calls now x = C_getstats (p_pid (fst x)) # map (\<lambda>b. C_write 1 [b]) (ps_line now x)"

definition ps_sum :: "pscount \<Rightarrow> proc \<Rightarrow> pscount" where
  "ps_sum k p = (ps_count (sint (state_num (p_state p))) k)
     \<lparr>pc_next := ps_note (sint (state_num (p_state p))) (p_pid p) (p_priority p) (pc_next k)\<rparr>"

lemma sint_state_num: "sint (state_num st) = int (case st of UNUSED \<Rightarrow> 0 | EMBRYO \<Rightarrow> 1 | SLEEPING \<Rightarrow> 2 | RUNNABLE \<Rightarrow> 3 | RUNNING \<Rightarrow> 4 | ZOMBIE \<Rightarrow> 5)"
  by (cases st) simp_all

lemma sint_small: "0 \<le> i \<Longrightarrow> i < 2 ^ 31 \<Longrightarrow> sint (of_int i :: uint) = i"
  using sint_of_nat [of "nat i"] by simp

lemma uproc_fields:
  assumes "snapshot_ok (p, nm)"
  shows "up_pid (uproc_bytes p nm) = p_pid p" "up_name (uproc_bytes p nm) = nm"
    "up_state (uproc_bytes p nm) = sint (state_num (p_state p))" "length (uproc_bytes p nm) = 24"
proof -
  have "rd32 (uproc_bytes p nm) 20 = state_num (p_state p)"
    using assms rd32_append [of "word_bytes (of_int (p_pid p)) @ nm" "word_bytes (state_num (p_state p))" 0]
      rd32_word_bytes [of "state_num (p_state p)" "[]"]
    by (simp add: uproc_bytes_def snapshot_ok_def)
  then show "up_state (uproc_bytes p nm) = sint (state_num (p_state p))" by (simp add: up_state_def)
  show "up_pid (uproc_bytes p nm) = p_pid p"
    using assms by (simp add: up_pid_def uproc_bytes_def rd32_word_bytes snapshot_ok_def sint_small)
  show "up_name (uproc_bytes p nm) = nm" "length (uproc_bytes p nm) = 24"
    using assms by (simp_all add: up_name_def uproc_bytes_def slice_def snapshot_ok_def)
qed

lemma pstat_fields:
  "rd32 (pstat_bytes k) 4 = ps_priority k" "rd32 (pstat_bytes k) 8 = ps_wait_time k"
  "rd32 (pstat_bytes k) 12 = ps_run_time k" "rd32 (pstat_bytes k) 16 = ps_turnaround_time k"
  "length (pstat_bytes k) = 20"
  unfolding pstat_bytes_def
  using rd32_append [of "word_bytes (ps_pid k)" "word_bytes (ps_priority k) @ _" 0]
    rd32_append [of "word_bytes (ps_pid k) @ word_bytes (ps_priority k)" "word_bytes (ps_wait_time k) @ _" 0]
    rd32_append [of "word_bytes (ps_pid k) @ word_bytes (ps_priority k) @ word_bytes (ps_wait_time k)" "word_bytes (ps_run_time k) @ _" 0]
    rd32_append [of "word_bytes (ps_pid k) @ word_bytes (ps_priority k) @ word_bytes (ps_wait_time k) @ word_bytes (ps_run_time k)"
      "word_bytes (ps_turnaround_time k)" 0] rd32_word_bytes [of "ps_turnaround_time k" "[]"]
  by (simp_all add: rd32_word_bytes)

lemma ps_entry_run:
  assumes ok: "snapshot_ok (p, nm)" and res: "u_res e = ps_results now (p, nm) @ rs"
  shows "ps_entry (uproc_bytes p nm) k e
    = UOk (ps_sum k p) \<lparr>u_res = rs, u_calls = u_calls e @ ps_calls now (p, nm)\<rparr>"
proof -
  let ?st = "pstat_bytes (pstat_of now p)"
  let ?s = "sint (state_num (p_state p))"
  let ?line = "ps_line now (p, nm)"
  let ?t = "\<lparr>u_res = replicate (length ?line) (1, []) @ rs, u_calls = u_calls e @ [C_getstats (p_pid p)]\<rparr>"
  define fmt where "fmt = ''%d'' @ [tab] @ ''%s'' @ [tab] @ ''%s'' @ [tab] @ ''%d'' @ [tab] @ ''%d'' @ [tab] @ ''%d'' @ [tab] @ ''%d'' @ newline"
  define args where "args = [ArgU (of_int (p_pid p)), ArgS (Some nm), str_arg (lit (state_name ?s)), ArgU (rd32 ?st 4),
    ArgU (rd32 ?st 8), ArgU (rd32 ?st 12), ArgU (rd32 ?st 16)]"
  have pr: "ps_priority (pstat_of now p) = of_int (p_priority p)" "sint (of_int (p_priority p) :: uint) = p_priority p"
    "ps_wait_time (pstat_of now p) = p_wait_time p" "ps_run_time (pstat_of now p) = p_run_time p"
    "sint (of_int (p_pid p) :: uint) = p_pid p"
    using ok by (simp_all add: pstat_of_def snapshot_ok_def sint_small)
  have nz: "?s \<noteq> 0" "0 \<notin> set (lit (state_name ?s))"
    using ok by (auto simp: sint_state_num snapshot_ok_def state_name_def lit_def split: procstate.splits)
  have "uformat fmt args = Some ?line"
    using ok nz unfolding fmt_def args_def pstat_fields pr
    by (simp add: ps_line_def pr tab_def snapshot_ok_def)
  then have "uprintf 1 fmt args ?t = UOk () (putting 1 ?line ?t)" by (rule uprintf_run) simp
  moreover have "ufill (C_getstats (p_pid p)) 20 e = UOk (0, ?st) ?t"
    using res by (simp add: ufill_def ubind_def usys_def ps_results_def pstat_fields)
  ultimately show ?thesis
    using nz unfolding ps_entry_def uproc_fields [OF ok] Let_def fmt_def [symmetric] args_def
    by (simp add: ubind_def useq_run putting_def ps_calls_def ps_sum_def pstat_fields pr ps_count_def del: uprintf.simps)
qed


lemma ps_loop_run:
  "(\<And>x. x \<in> set xs \<Longrightarrow> snapshot_ok x) \<Longrightarrow> u_res e = concat (map (ps_results now) xs) @ rs \<Longrightarrow>
    ps_loop (concat (map (\<lambda>(p, nm). uproc_bytes p nm) xs)) (length xs) k e
      = UOk (foldl ps_sum k (map fst xs)) \<lparr>u_res = rs, u_calls = u_calls e @ concat (map (ps_calls now) xs)\<rparr>"
proof (induction xs arbitrary: k e)
  case (Cons x xs)
  obtain p nm where x: "x = (p, nm)" by (cases x)
  have ok: "snapshot_ok (p, nm)" using Cons.prems(1) x by simp
  let ?t = "\<lparr>u_res = concat (map (ps_results now) xs) @ rs, u_calls = u_calls e @ ps_calls now (p, nm)\<rparr>"
  have "ps_entry (uproc_bytes p nm) k e = UOk (ps_sum k p) ?t"
    by (rule ps_entry_run [OF ok]) (use Cons.prems(2) x in simp)
  moreover note Cons.IH [of ?t "ps_sum k p"]
  ultimately show ?case using Cons.prems(1) uproc_fields(4) [OF ok] x by (simp add: ubind_def)
qed (simp add: ubind_def)

text \<open>The best process so far of \<^verbatim>\<open>ps\<close> is the one of the scheduler.\<close>

definition chosen_proc :: "proc list \<Rightarrow> nat option \<Rightarrow> int \<times> int" where
  "chosen_proc ps r = (case r of None \<Rightarrow> (- 1, 32) | Some c \<Rightarrow> (p_pid (ps ! c), p_priority (ps ! c)))"

definition ps_better :: "int \<times> int \<Rightarrow> proc \<Rightarrow> int \<times> int" where
  "ps_better nx p = ps_note (sint (state_num (p_state p))) (p_pid p) (p_priority p) nx"

lemma ps_note_choose:
  "p_priority (ps ! n) < 32 \<Longrightarrow> ps_better (chosen_proc ps r) (ps ! n) = chosen_proc ps (choose_step ps r n)"
  by (cases "p_state (ps ! n)"; cases r) (simp_all add: ps_better_def ps_note_def chosen_proc_def choose_step_def sint_state_num)

lemma ps_note_choose_proc:
  assumes "\<forall>p \<in> set ps. p_priority p < 32"
  shows "foldl ps_better (- 1, 32) ps = chosen_proc ps (choose_proc ps)"
proof -
  have "foldl ps_better (- 1, 32) (take n ps) = chosen_proc ps (foldl (choose_step ps) None [0..<n])" if "n \<le> length ps" for n
    using that
  proof (induction n)
    case (Suc n)
    then show ?case using assms ps_note_choose [of ps n] by (simp add: take_Suc_conv_app_nth)
  qed (simp add: chosen_proc_def)
  from this [of "length ps"] show ?thesis by (simp add: choose_proc_def)
qed

definition in_state :: "procstate \<Rightarrow> proc list \<Rightarrow> int" where
  "in_state st ps = int (length (filter (\<lambda>p. p_state p = st) ps))"

lemma ps_sums:
  "foldl ps_sum k ps = \<lparr>pc_runnable = pc_runnable k + in_state RUNNABLE ps, pc_running = pc_running k + in_state RUNNING ps,
     pc_sleeping = pc_sleeping k + in_state SLEEPING ps, pc_next = foldl ps_better (pc_next k) ps\<rparr>"
proof (induction ps arbitrary: k)
  case (Cons p ps)
  show ?case unfolding foldl.simps Cons
    by (cases "p_state p") (simp_all add: ps_sum_def ps_count_def ps_better_def sint_state_num in_state_def)
qed (simp add: in_state_def)

lemma ps_better_live: "foldl ps_better nx (filter (\<lambda>p. p_state p \<noteq> UNUSED) ps) = foldl ps_better nx ps"
  by (induction ps arbitrary: nx) (auto simp: ps_better_def ps_note_def)

lemma in_state_live: "st \<noteq> UNUSED \<Longrightarrow> in_state st (filter (\<lambda>p. p_state p \<noteq> UNUSED) ps) = in_state st ps"
  by (induction ps) (auto simp: in_state_def)

text \<open>
  C26: \<^verbatim>\<open>ps\<close> announces the choice of the scheduler.  Over the entries that the kernel stores for a process table
  that satisfies its invariant and over the statistics of each process, the process that \<^verbatim>\<open>ps\<close> finds to be next is the one that
  the scheduler would choose from that table (none when none is runnable), and its counts are those of the table.
\<close>

theorem ps_predicts_scheduler:
  assumes inv: "pt_inv (pt, cur)" and "nextpid pt \<le> 2 ^ 31"
    and xs: "map fst xs = filter (\<lambda>p. p_state p \<noteq> UNUSED) (procs pt)" "\<forall>(p, nm) \<in> set xs. length nm = 16 \<and> 0 \<in> set nm"
    and "u_res e = concat (map (ps_results now) xs) @ rs"
  shows "ps_loop (concat (map (\<lambda>(p, nm). uproc_bytes p nm) xs)) (length xs)
      \<lparr>pc_runnable = 0, pc_running = 0, pc_sleeping = 0, pc_next = (- 1, 32)\<rparr> e
    = UOk \<lparr>pc_runnable = in_state RUNNABLE (procs pt), pc_running = in_state RUNNING (procs pt),
           pc_sleeping = in_state SLEEPING (procs pt),
           pc_next = (case choose_proc (procs pt) of None \<Rightarrow> (- 1, 32)
             | Some c \<Rightarrow> (p_pid (procs pt ! c), p_priority (procs pt ! c)))\<rparr>
        \<lparr>u_res = rs, u_calls = u_calls e @ concat (map (ps_calls now) xs)\<rparr>"
proof -
  have p: "0 \<le> p_pid p \<and> p_pid p < 2 ^ 31 \<and> 0 \<le> p_priority p \<and> p_priority p < 32" if p: "p \<in> set (procs pt)" for p
  proof -
    obtain i where "i < length (procs pt)" "p = procs pt ! i" using p by (auto simp: in_set_conv_nth)
    then have "proc_ok pt cur i" "p = procs pt ! i" using inv by (auto simp: pt_inv_def)
    then have "0 \<le> p_pid p" "p_pid p < nextpid pt" "MIN_PRIORITY \<le> p_priority p" "p_priority p \<le> MAX_PRIORITY"
      unfolding proc_ok_def Let_def by simp_all
    then show ?thesis using assms(2) by (simp add: MIN_PRIORITY_def MAX_PRIORITY_def)
  qed
  have "snapshot_ok x" if "x \<in> set xs" for x
  proof -
    have "fst x \<in> set (filter (\<lambda>p. p_state p \<noteq> UNUSED) (procs pt))" using that unfolding xs(1) [symmetric] by simp
    then show ?thesis using that xs(2) p [of "fst x"] by (auto simp: snapshot_ok_def)
  qed
  then have run: "ps_loop (concat (map (\<lambda>(p, nm). uproc_bytes p nm) xs)) (length xs) k e
      = UOk (foldl ps_sum k (map fst xs)) \<lparr>u_res = rs, u_calls = u_calls e @ concat (map (ps_calls now) xs)\<rparr>" for k
    using assms(5) by (rule ps_loop_run)
  have "foldl ps_better (- 1, 32) (procs pt) = chosen_proc (procs pt) (choose_proc (procs pt))"
    using p by (intro ps_note_choose_proc) blast
  then show ?thesis unfolding run ps_sums xs(1) by (simp add: ps_better_live in_state_live chosen_proc_def)
qed


text \<open>A table with two runnable processes, of priorities 16 and 5.\<close>

definition ptable2 :: proctable where
  "ptable2 = \<lparr>procs = proc0\<lparr>p_state := RUNNABLE, p_pid := 1, p_priority := 16\<rparr>
       # proc0\<lparr>p_state := RUNNABLE, p_pid := 2, p_priority := 5, p_parent := Some 0\<rparr> # replicate 62 proc0,
     nextpid = 3, initproc = Some 0\<rparr>"

lemma ptable2_nth:
  "i < 64 \<Longrightarrow> procs ptable2 ! i = (if i = 0 then proc0\<lparr>p_state := RUNNABLE, p_pid := 1, p_priority := 16\<rparr>
     else if i = 1 then proc0\<lparr>p_state := RUNNABLE, p_pid := 2, p_priority := 5, p_parent := Some 0\<rparr> else proc0)"
  by (auto simp: ptable2_def nth_Cons split: nat.split)

lemma ptable2_fields [simp]: "length (procs ptable2) = 64" "nextpid ptable2 = 3" "initproc ptable2 = Some 0"
  by (simp_all add: ptable2_def)

lemma ptable2_inv: "pt_inv (ptable2, None)"
proof -
  have "alive (procs ptable2 ! 0)" by (simp add: ptable2_nth alive_def)
  then show ?thesis
    by (intro pt_invI)
      (auto simp: ptable2_nth proc_ok_def proc0_def Let_def MIN_PRIORITY_def MAX_PRIORITY_def NPROC_def split: if_splits)
qed

theorem ps_predicts_scheduler_witness:
  "\<exists>e k t. ps_loop (concat (map (\<lambda>p. uproc_bytes p (replicate 16 0)) (take 2 (procs ptable2)))) 2
      \<lparr>pc_runnable = 0, pc_running = 0, pc_sleeping = 0, pc_next = (- 1, 32)\<rparr> e = UOk k t
    \<and> pc_next k = (2, 5) \<and> pc_runnable k = 2"
proof -
  let ?xs = "map (\<lambda>p. (p, replicate 16 0 :: uchar list)) (take 2 (procs ptable2))"
  let ?e = "\<lparr>u_res = concat (map (ps_results 7) ?xs) @ [], u_calls = []\<rparr>"
  have "map fst ?xs = filter (\<lambda>p. p_state p \<noteq> UNUSED) (procs ptable2)" by (simp add: ptable2_def proc0_def)
  moreover have "nextpid ptable2 \<le> 2 ^ 31" "u_res ?e = concat (map (ps_results 7) ?xs) @ []" by simp_all
  moreover have "\<forall>(p, nm) \<in> set ?xs. length nm = 16 \<and> 0 \<in> set nm" by auto
  ultimately have run: "ps_loop (concat (map (\<lambda>(p, nm). uproc_bytes p nm) ?xs)) (length ?xs)
      \<lparr>pc_runnable = 0, pc_running = 0, pc_sleeping = 0, pc_next = (- 1, 32)\<rparr> ?e
    = UOk \<lparr>pc_runnable = in_state RUNNABLE (procs ptable2), pc_running = in_state RUNNING (procs ptable2),
           pc_sleeping = in_state SLEEPING (procs ptable2),
           pc_next = (case choose_proc (procs ptable2) of None \<Rightarrow> (- 1, 32)
             | Some c \<Rightarrow> (p_pid (procs ptable2 ! c), p_priority (procs ptable2 ! c)))\<rparr>
        \<lparr>u_res = [], u_calls = u_calls ?e @ concat (map (ps_calls 7) ?xs)\<rparr>"
    by (intro ps_predicts_scheduler [OF ptable2_inv])
  have "best (procs ptable2) (length (procs ptable2)) (Some 1)"
    by (auto simp: best_def ptable2_nth proc0_def split: if_splits)
  then have "choose_proc (procs ptable2) = Some 1" using best_unique choose_proc_best by blast
  moreover have "in_state RUNNABLE (procs ptable2) = 2" by (simp add: in_state_def ptable2_def proc0_def)
  moreover have "map (\<lambda>(p, nm). uproc_bytes p nm) ?xs = map (\<lambda>p. uproc_bytes p (replicate 16 0)) (take 2 (procs ptable2))"
    "length ?xs = 2" by simp_all
  ultimately show ?thesis using run by (intro exI [of _ ?e]) (simp add: ptable2_nth comp_def)
qed

end
