(* ===== verification/Spec2Isabelle.thy ===== *)
theory Spec2Isabelle
  imports Proc_Inv Spinlock Vm_Inv Console_Inv Segs Kbd Mp Ide Log_Inv Sh_Inv Ugrep Uprogs_Inv
begin

text \<open>
  A verification of an operating system: a teaching kernel for 32-bit x86 machines (the sources under \<^verbatim>\<open>src/\<close>) with a
  priority scheduler, statistics of processes, a console with history and completion, and its user programs.

  \<^bold>\<open>The parts and how they interact.\<close>  The kernel allocates physical pages (\<^verbatim>\<open>kalloc.c\<close>), builds page tables from
  them (\<^verbatim>\<open>vm.c\<close>), and runs processes on them (\<^verbatim>\<open>proc.c\<close>, \<^verbatim>\<open>exec.c\<close>).  Processes wait for each other through
  \<^verbatim>\<open>sleep\<close> and \<^verbatim>\<open>wakeup\<close>, on which pipes (\<^verbatim>\<open>pipe.c\<close>), sleep locks (\<^verbatim>\<open>sleeplock.c\<close>) and the console
  (\<^verbatim>\<open>console.c\<close>) rest.  The file system is a stack: the disk (\<^verbatim>\<open>memide.c\<close>), the buffer cache (\<^verbatim>\<open>bio.c\<close>), the log (\<^verbatim>\<open>log.c\<close>),
  inodes, directories and paths (\<^verbatim>\<open>fs.c\<close>), open files (\<^verbatim>\<open>file.c\<close>) and system calls (\<^verbatim>\<open>sysfile.c\<close>).  Programs
  enter the kernel through the gates of \<^verbatim>\<open>tvinit\<close>, \<^verbatim>\<open>trap\<close> and \<^verbatim>\<open>syscall\<close>.  The CPUs share the kernel's data under spin locks (\<^verbatim>\<open>spinlock.c\<close>), and
  devices (\<^verbatim>\<open>ide.c\<close>, \<^verbatim>\<open>kbd.c\<close>, \<^verbatim>\<open>uart.c\<close>, \<^verbatim>\<open>lapic.c\<close>) answer through ports, registers and interrupts.

  \<^bold>\<open>How code is modelled.\<close>  A kernel routine is a function from the state to an outcome: it returns a value, it panics, it
  gives up the CPU, or it does what C leaves undefined (theory \<open>Kernel_Base\<close>).  What a routine does when the scheduler
  resumes it is a definition of its own, named \<open>..._return\<close>.  The state is a chain of records, each component extends the
  state of those below: the locks held (\<open>kbase\<close>), the console (\<open>kcons\<close>), memory and free list (\<open>kmem\<close>), the process table (\<open>kproc\<close>), pipes
  (\<open>kpipe\<close>), the buffer cache and the disk (\<open>kbuf\<close>), the log (\<open>klog\<close>), the inode cache (\<open>kinode\<close>), console input (\<open>kcin\<close>), \<open>kfs\<close>,
  the file table (\<open>kfile\<close>), \<open>ksys\<close>, the devices (\<open>kio\<close>) and the descriptor tables (\<open>kseg\<close>).  Integers are words of their width where they can wrap around.  Memory is a function from 32-bit
  addresses to bytes.

  A user program is a function from the results that its system calls will get to the calls that it makes (theory \<open>User\<close>); its
  properties hold for every list of results.

  \<^bold>\<open>Theories of the kernel.\<close>
  \<^item> \<open>Kernel_Base\<close>: the prelude, \<^verbatim>\<open>param.h\<close>, \<^verbatim>\<open>types.h\<close>; the combinators with the rule collections \<open>krun\<close> and \<open>kwp\<close>, and frames
    (locale \<open>state_frame\<close>).
  \<^item> \<open>Cstring\<close>: \<^verbatim>\<open>string.c\<close>; \<^verbatim>\<open>memset\<close> writes exactly its range, \<^verbatim>\<open>memmove\<close> is right on overlapping areas, the string routines stay in bounds.
  \<^item> \<open>Cprintf\<close>: console output of \<^verbatim>\<open>console.c\<close> and \<^verbatim>\<open>uart.c\<close>; the digits denote the number, printing always returns.
  \<^item> \<open>Kalloc\<close>: \<^verbatim>\<open>kalloc.c\<close>; the list threaded through the pages is the set of free pages, each handed out once (locale \<open>page_allocator\<close>).
  \<^item> \<open>Vm\<close>, \<open>Vm_Inv\<close>: \<^verbatim>\<open>vm.c\<close> and \<^verbatim>\<open>mmu.h\<close>; the invariant of a page directory, and what the hardware translates after
    \<^verbatim>\<open>mappages\<close>, \<^verbatim>\<open>setupkvm\<close>, \<^verbatim>\<open>allocuvm\<close> and \<^verbatim>\<open>copyuvm\<close>.
  \<^item> \<open>Proc\<close>, \<open>Proc_Inv\<close>: \<^verbatim>\<open>proc.c\<close>; the process table as a state machine whose invariant every operation keeps, the choice of the
    scheduler, no lost wakeup.
  \<^item> \<open>Spinlock\<close>: \<^verbatim>\<open>spinlock.c\<close> and \<^verbatim>\<open>mycpu\<close> on several CPUs, as a step relation in which the machine steps of the CPUs interleave; mutual exclusion, and that the
    locks of the other theories, a list of the locks held, abstract from this code.
  \<^item> \<open>Syscall\<close>: argument fetching of \<^verbatim>\<open>syscall.c\<close>, \<^verbatim>\<open>sysproc.c\<close>, \<^verbatim>\<open>wolfie.c\<close> and the clock tick of \<^verbatim>\<open>trap.c\<close>; pointers accepted lie inside the process.
  \<^item> \<open>Pipe\<close>: \<^verbatim>\<open>pipe.c\<close>; a pipe is a bounded queue (locale \<open>bounded_queue\<close>) although its counters wrap around; a blocked writer gets on.
  \<^item> \<open>Sleeplock\<close>: \<^verbatim>\<open>sleeplock.c\<close>.
  \<^item> \<open>Bio\<close>, \<open>Bio_Inv\<close>: \<^verbatim>\<open>bio.c\<close> over \<^verbatim>\<open>memide.c\<close>; the doubly linked list is a ring in the order of last use, a buffer holds the current data of its block
    (locale \<open>block_cache\<close>).
  \<^item> \<open>Log\<close>, \<open>Log_Inv\<close>: \<^verbatim>\<open>log.c\<close>; a commit is atomic under a crash after any of its disk writes.
  \<^item> \<open>Inode\<close>, \<open>Fs\<close>: \<^verbatim>\<open>fs.c\<close>.
  \<^item> \<open>Console\<close>, \<open>Console_Inv\<close>: the line editor of \<^verbatim>\<open>console.c\<close>; what is typed and corrected is what is read, the history is the list of the last lines and the up key
    goes back in it.
  \<^item> \<open>File\<close>: \<^verbatim>\<open>file.c\<close> and \<^verbatim>\<open>sysfile.c\<close>.
  \<^item> \<open>Exec\<close>: \<^verbatim>\<open>exec.c\<close>, and what needs every part: \<^verbatim>\<open>fork\<close>, \<^verbatim>\<open>exit\<close>, \<^verbatim>\<open>userinit\<close>, \<^verbatim>\<open>syscall\<close> and \<^verbatim>\<open>trap\<close>.

  \<^item> \<open>Segs\<close>: segments and gates of \<^verbatim>\<open>mmu.h\<close>, \<^verbatim>\<open>seginit\<close>, \<^verbatim>\<open>tvinit\<close> and the task state of \<^verbatim>\<open>switchuvm\<close>; a process has one way into the kernel.
  \<^item> \<open>Devices\<close>: ports, \<^verbatim>\<open>lapic.c\<close>, \<^verbatim>\<open>ioapic.c\<close>, \<^verbatim>\<open>picirq.c\<close>, \<^verbatim>\<open>uart.c\<close>; the date is read without tearing.  What a device will answer is a list in the
    state, what is written to it is a trace.
  \<^item> \<open>Kbd\<close>: \<^verbatim>\<open>kbd.c\<close> with its tables; \<open>Mp\<close>: \<^verbatim>\<open>mp.c\<close>; \<open>Ide\<close>: \<^verbatim>\<open>ide.c\<close>, whose queue of requests is served in order.

  \<^bold>\<open>Theories of the programs.\<close>
  \<^item> \<open>User\<close>, \<open>Uprintf\<close>: \<^verbatim>\<open>ulib.c\<close> and \<^verbatim>\<open>printf.c\<close>; \<^verbatim>\<open>printf\<close> writes the text that format and arguments stand for.
  \<^item> \<open>Sh\<close>, \<open>Sh_Inv\<close>: \<^verbatim>\<open>sh.c\<close>; the parser returns on every line and undoes printing.
  \<^item> \<open>Ugrep\<close>: \<^verbatim>\<open>grep.c\<close>; the matcher decides the language of its pattern.
  \<^item> \<open>Uprogs\<close>, \<open>Uprogs_Inv\<close>: the other programs; \<^verbatim>\<open>wc\<close> counts, \<^verbatim>\<open>ps\<close> agrees with the scheduler.

  \<^bold>\<open>Bounds and fuel.\<close>  Loops are structural recursions or functions with a measure.  The parser of the shell has fuel, which is
  linear in the length of the line; that it is enough is proved (\<open>parsecmd_returns\<close>).  Loops of user programs are bounded by the results that are left.

  A loop that waits for a device has the outcome \<open>Undef\<close> when the device never gives the value it waits for; the loop over the tables of \<^verbatim>\<open>mp.c\<close>, which may
  run forever, is a partial function.

  \<^bold>\<open>Not modelled.\<close>  Assembly (boot, trap entry, context switch; a switch is the outcome \<open>Swtch\<close>), the boot sequence \<^verbatim>\<open>main.c\<close> and \<^verbatim>\<open>bootmain.c\<close>, the host program \<^verbatim>\<open>mkfs.c\<close>, the test program
  \<^verbatim>\<open>usertests.c\<close>, the heap of user programs \<^verbatim>\<open>umalloc.c\<close> (the programs modelled use it for commands and one buffer, which are values here), and the files \<^verbatim>\<open>getstats.c\<close>,
  \<^verbatim>\<open>setpriority.c\<close> and \<^verbatim>\<open>syswolfie.c\<close>, which are not linked into the kernel.  The memory shared by the CPUs is sequentially consistent.
\<close>

end
